(* ===== verification/Prelude.thy ===== *)
theory Prelude
  imports Main "HOL-Library.Word" "HOL-Library.Sublist"
begin

text \<open>
  Shared ground of the development.

  \<^item> The machine types of the sources (\<open>u8\<close>, \<open>u16\<close>, \<open>u32\<close>, \<open>u64\<close>) for an LP64 target:
    \<open>size_t\<close>, \<open>uintptr_t\<close>, \<open>GuWord\<close> and \<open>GuHash\<close> are 64 bits wide.
  \<^item> The outcome of running a C function that may abort: \<open>gu/assert.h\<close> turns a failed
    \<open>gu_require\<close>, \<open>gu_assert\<close>, \<open>gu_ensure\<close> or a reached \<open>gu_impossible\<close> into a call of
    \<open>gu_abort_\<close> with a \<open>GuAssertMode\<close>. The model returns such an abort as a value, together
    with the memory errors the code can run into (a null pointer dereference, an access
    outside a sequence, freeing memory that is not allocated), and keeps apart the case that a fuel bound of the model was too small.
  \<^item> Generic lemmas on lists that several components use.
\<close>

type_synonym u8 = "8 word"
type_synonym u16 = "16 word"
type_synonym u32 = "32 word"
type_synonym u64 = "64 word"

named_theorems run_simps \<open>rewriting of sequenced outcomes\<close>
named_theorems run_elims \<open>inversion of successful sequenced outcomes\<close>

subsection \<open>Outcomes\<close>

datatype GuAssertMode =
    GU_ASSERT_PRECOND
  | GU_ASSERT_ASSERTION
  | GU_ASSERT_POSTCOND
  | GU_ASSERT_NEVER

datatype fault =
    Abort GuAssertMode
  | Null_Deref
  | Out_Of_Bounds
  | Bad_Free

datatype 'a run =
    Done 'a
  | Fault fault
  | Out_Of_Fuel

fun bindR :: "'a run \<Rightarrow> ('a \<Rightarrow> 'b run) \<Rightarrow> 'b run" where
  "bindR (Done x) f = f x"
| "bindR (Fault e) f = Fault e"
| "bindR Out_Of_Fuel f = Out_Of_Fuel"

text \<open>The assertion macros of \<open>gu/assert.h\<close>, each continuing with \<open>k\<close> when its condition holds.\<close>

definition gu_require :: "bool \<Rightarrow> 'a run \<Rightarrow> 'a run" where
  "gu_require b k = (if b then k else Fault (Abort GU_ASSERT_PRECOND))"

definition gu_assert :: "bool \<Rightarrow> 'a run \<Rightarrow> 'a run" where
  "gu_assert b k = (if b then k else Fault (Abort GU_ASSERT_ASSERTION))"

definition gu_ensure :: "bool \<Rightarrow> 'a run \<Rightarrow> 'a run" where
  "gu_ensure b k = (if b then k else Fault (Abort GU_ASSERT_POSTCOND))"

definition gu_impossible :: "'a run" where
  "gu_impossible = Fault (Abort GU_ASSERT_ASSERTION)"

text \<open>Reading element \<open>i\<close> of a sequence: an index outside it is an access out of bounds.\<close>

definition seq_at :: "'a list \<Rightarrow> nat \<Rightarrow> 'a run" where
  "seq_at xs i = (if i < length xs then Done (xs ! i) else Fault Out_Of_Bounds)"

text \<open>A \<open>for\<close> loop over the elements of a list that passes a state along and stops at a fault.\<close>

fun foldR :: "('a \<Rightarrow> 's \<Rightarrow> 's run) \<Rightarrow> 'a list \<Rightarrow> 's \<Rightarrow> 's run" where
  "foldR f [] s = Done s"
| "foldR f (x # xs) s = bindR (f x s) (foldR f xs)"

subsection \<open>Rules for outcomes\<close>

lemma bindR_eq_Done [run_simps]:
  "bindR m f = Done y \<longleftrightarrow> (\<exists>x. m = Done x \<and> f x = Done y)"
  by (cases m) auto

lemma bindR_DoneE [run_elims]:
  assumes "bindR m f = Done y"
  obtains x where "m = Done x" and "f x = Done y"
  using assms by (cases m) auto

lemma bindR_cong:
  "m = m' \<Longrightarrow> (\<And>x. m' = Done x \<Longrightarrow> f x = f' x) \<Longrightarrow> bindR m f = bindR m' f'"
  by (cases m') auto

lemma bindR_assoc: "bindR (bindR m f) g = bindR m (\<lambda>x. bindR (f x) g)"
  by (cases m) auto

lemma gu_require_eq_Done [run_simps]: "gu_require b k = Done y \<longleftrightarrow> b \<and> k = Done y"
  by (simp add: gu_require_def)

lemma gu_assert_eq_Done [run_simps]: "gu_assert b k = Done y \<longleftrightarrow> b \<and> k = Done y"
  by (simp add: gu_assert_def)

lemma gu_ensure_eq_Done [run_simps]: "gu_ensure b k = Done y \<longleftrightarrow> b \<and> k = Done y"
  by (simp add: gu_ensure_def)

lemma gu_impossible_not_Done [run_simps]: "gu_impossible \<noteq> Done y"
  by (simp add: gu_impossible_def)

lemma seq_at_eq_Done [run_simps]: "seq_at xs i = Done x \<longleftrightarrow> i < length xs \<and> xs ! i = x"
  by (auto simp: seq_at_def)

lemma gu_require_True [simp]: "gu_require True k = k"
  by (simp add: gu_require_def)

lemma gu_assert_True [simp]: "gu_assert True k = k"
  by (simp add: gu_assert_def)

lemma gu_ensure_True [simp]: "gu_ensure True k = k"
  by (simp add: gu_ensure_def)

lemma seq_at_Done [simp]: "i < length xs \<Longrightarrow> seq_at xs i = Done (xs ! i)"
  by (simp add: seq_at_def)

lemma foldR_append: "foldR f (xs @ ys) s = bindR (foldR f xs s) (foldR f ys)"
proof (induction xs arbitrary: s)
  case (Cons x xs)
  then show ?case by (cases "f x s") simp_all
qed simp

lemma foldR_invariant:
  assumes "foldR f xs s = Done s'" and "P s"
    and "\<And>x s s'. x \<in> set xs \<Longrightarrow> P s \<Longrightarrow> f x s = Done s' \<Longrightarrow> P s'"
  shows "P s'"
  using assms
proof (induction xs arbitrary: s)
  case (Cons x xs)
  then obtain s1 where "f x s = Done s1" "foldR f xs s1 = Done s'"
    by (auto elim: bindR_DoneE)
  with Cons show ?case by (metis list.set_intros)
qed simp

text \<open>Partial correctness and progress: \<open>ends m P\<close> if \<open>m\<close> is a fault or returns a value with \<open>P\<close>, but
  does not run out of fuel.\<close>

fun ends :: "'a run \<Rightarrow> ('a \<Rightarrow> bool) \<Rightarrow> bool" where
  "ends (Done x) P = P x"
| "ends (Fault e) P = True"
| "ends Out_Of_Fuel P = False"

lemma ends_bindR [simp]: "ends (bindR m f) P = ends m (\<lambda>x. ends (f x) P)"
  by (cases m) auto

lemma ends_mono: "ends m P \<Longrightarrow> (\<And>x. m = Done x \<Longrightarrow> P x \<Longrightarrow> Q x) \<Longrightarrow> ends m Q"
  by (cases m) auto

lemma ends_checks [simp]:
  "ends (gu_require b k) P = (b \<longrightarrow> ends k P)"
  "ends (gu_assert b k) P = (b \<longrightarrow> ends k P)"
  "ends (gu_ensure b k) P = (b \<longrightarrow> ends k P)"
  "ends gu_impossible P"
  "ends (seq_at xs i) Q = (i < length xs \<longrightarrow> Q (xs ! i))"
  by (auto simp: gu_require_def gu_assert_def gu_ensure_def gu_impossible_def seq_at_def)

lemma ends_cases: "ends m P \<longleftrightarrow> (\<exists>e. m = Fault e) \<or> (\<exists>x. m = Done x \<and> P x)"
  by (cases m) auto

subsection \<open>Lists\<close>

lemma take_Suc_snoc: "i < length xs \<Longrightarrow> take (Suc i) xs = take i xs @ [xs ! i]"
  by (rule take_Suc_conv_app_nth)

lemma size_nth_le [termination_simp]: "i < length xs \<Longrightarrow> f (xs ! i) \<le> size_list f xs"
  by (rule size_list_estimation' [OF nth_mem]) auto

lemma last_drop: "i < length xs \<Longrightarrow> last (drop i xs) = last xs"
  by simp

lemma distinct_snoc [simp]: "distinct (xs @ [x]) \<longleftrightarrow> distinct xs \<and> x \<notin> set xs"
  by auto

subsection \<open>Bits\<close>

lemma or_shift: "0 \<le> b \<Longrightarrow> b < 2 ^ k \<Longrightarrow> or (push_bit k a) b = a * 2 ^ k + (b :: int)"
proof -
  assume "0 \<le> b" "b < 2 ^ k"
  then have "b = take_bit k b" by (simp add: take_bit_int_eq_self)
  then have "\<not> bit (push_bit k a) n \<or> \<not> bit b n" for n
    by (metis bit_push_bit_iff bit_take_bit_iff not_le)
  then have "push_bit k a + b = or (push_bit k a) b" by (intro disjunctive_add) blast
  then show ?thesis by (simp add: push_bit_eq_mult)
qed

end
