(* ===== verification/Choice.thy ===== *)
theory Choice
  imports Prelude
begin

text \<open>
  \<open>gu/choice.c\<close>: the replayable choice points that drive every enumeration of the library
  (parse results, concrete trees). A \<open>GuChoice\<close> holds a path, one byte per choice point taken,
  and a cursor. Asking for a choice either replays the byte under the cursor or appends a new
  one; \<open>gu_choice_advance\<close> drops exhausted choice points from the end of the path and moves the
  last live one to its next alternative.

  A byte of the path counts the alternatives that are left, so it starts at the number of
  choices (at most 255, which the code requires, so that the conversion to \<open>uint8_t\<close> is exact)
  and goes down to 1.

  The specification is a decision tree. Running a computation that consults the choice object
  walks the tree from its root to a leaf, and the loop "run, reset, advance" visits every
  leaf once, from left to right.
\<close>

subsection \<open>State and operations\<close>

record GuChoice =
  path :: "nat list"
  path_idx :: nat

type_synonym GuChoiceMark = nat

definition gu_new_choice :: GuChoice where
  "gu_new_choice = \<lparr>path = [], path_idx = 0\<rparr>"

definition gu_choice_mark :: "GuChoice \<Rightarrow> GuChoiceMark run" where
  "gu_choice_mark ch = gu_assert (path_idx ch \<le> length (path ch)) (Done (path_idx ch))"

definition gu_choice_reset :: "GuChoice \<Rightarrow> GuChoiceMark \<Rightarrow> GuChoice run" where
  "gu_choice_reset ch mark =
     gu_assert (path_idx ch \<le> length (path ch))
      (gu_require (mark \<le> path_idx ch)
       (Done (ch\<lparr>path_idx := mark\<rparr>)))"

text \<open>\<open>gu_choice_next\<close> returns \<open>-1\<close> or a choice below \<open>n_choices\<close>, and the new state.\<close>

definition gu_choice_next :: "GuChoice \<Rightarrow> int \<Rightarrow> (int \<times> GuChoice) run" where
  "gu_choice_next ch n_choices =
     gu_assert (n_choices \<ge> 0)
      (gu_require (n_choices \<le> 255)
       (gu_assert (path_idx ch \<le> length (path ch))
        (if n_choices = 0 then Done (- 1, ch)
         else
           bindR
             (if path_idx ch < length (path ch)
              then (let i = int (path ch ! path_idx ch)
                    in gu_assert (i \<le> n_choices) (Done (i, ch)))
              else Done (n_choices, ch\<lparr>path := path ch @ [nat n_choices]\<rparr>))
             (\<lambda>(i, ch').
               let ret = (if i = 0 then - 1 else n_choices - i)
               in Done (ret, ch'\<lparr>path_idx := Suc (path_idx ch')\<rparr>)))))"

text \<open>The loop of \<open>gu_choice_advance\<close>, on the path; \<open>idx\<close> is the cursor, which it leaves alone.\<close>

function gu_choice_advance_loop :: "nat list \<Rightarrow> nat \<Rightarrow> bool \<times> nat list" where
  "gu_choice_advance_loop p idx =
     (if length p > idx
      then (let l = last p; p' = butlast p
            in if l > 1 then (True, p' @ [l - 1]) else gu_choice_advance_loop p' idx)
      else (False, p))"
  by pat_completeness auto
termination
  by (relation "measure (\<lambda>(p, idx). length p)") auto

declare gu_choice_advance_loop.simps [simp del]

definition gu_choice_advance :: "GuChoice \<Rightarrow> (bool \<times> GuChoice) run" where
  "gu_choice_advance ch =
     gu_assert (path_idx ch \<le> length (path ch))
      (let (b, p) = gu_choice_advance_loop (path ch) (path_idx ch)
       in Done (b, ch\<lparr>path := p\<rparr>))"


subsection \<open>The invariant: the cursor never leaves the path\<close>

definition choice_wf :: "GuChoice \<Rightarrow> bool" where
  "choice_wf ch \<longleftrightarrow> path_idx ch \<le> length (path ch)"

lemma advance_loop_length: "length (snd (gu_choice_advance_loop p idx)) \<le> length p"
proof (induction p idx rule: gu_choice_advance_loop.induct)
  case (1 p idx)
  then show ?case
    by (subst gu_choice_advance_loop.simps) (fastforce simp: Let_def)
qed

lemma advance_loop_keeps_prefix:
  "idx \<le> length p \<Longrightarrow>
     idx \<le> length (snd (gu_choice_advance_loop p idx)) \<and>
     take idx (snd (gu_choice_advance_loop p idx)) = take idx p"
proof (induction p idx rule: gu_choice_advance_loop.induct)
  case (1 p idx)
  show ?case
  proof (cases "length p > idx")
    case True
    then show ?thesis
      using "1.IH" [OF True refl refl]
      by (auto simp: gu_choice_advance_loop.simps [of p idx] Let_def take_butlast)
  next
    case False
    with "1.prems" show ?thesis
      by (simp add: gu_choice_advance_loop.simps)
  qed
qed

lemma choice_wf_new: "choice_wf gu_new_choice"
  by (simp add: choice_wf_def gu_new_choice_def)

lemma choice_wf_reset: "gu_choice_reset ch m = Done ch' \<Longrightarrow> choice_wf ch'"
  by (auto simp: gu_choice_reset_def choice_wf_def run_simps)

lemma choice_wf_next: "gu_choice_next ch n = Done (i, ch') \<Longrightarrow> choice_wf ch'"
  by (auto simp: gu_choice_next_def choice_wf_def run_simps Let_def split: if_splits)

lemma choice_wf_advance: "gu_choice_advance ch = Done (b, ch') \<Longrightarrow> choice_wf ch'"
  using advance_loop_keeps_prefix [of "path_idx ch" "path ch"]
  by (auto simp: gu_choice_advance_def choice_wf_def run_simps split: prod.splits)

text \<open>What a client may rely on: the choice is in range, whatever the state.\<close>

lemma gu_choice_next_range:
  "gu_choice_next ch n = Done (i, ch') \<Longrightarrow> - 1 \<le> i \<and> (i < n \<or> n = 0)"
  by (auto simp: gu_choice_next_def run_simps Let_def split: if_splits)

subsection \<open>Decision trees\<close>

datatype 'a dtree = Leaf 'a | Node "'a dtree list"

text \<open>An inner node without children is a dead end: the choice object answers \<open>-1\<close> there.\<close>

fun leaves :: "'a dtree \<Rightarrow> 'a option list" where
  "leaves (Leaf a) = [Some a]"
| "leaves (Node ts) = (if ts = [] then [None] else concat (map leaves ts))"

fun dt_ok :: "'a dtree \<Rightarrow> bool" where
  "dt_ok (Leaf a) \<longleftrightarrow> True"
| "dt_ok (Node ts) \<longleftrightarrow> length ts \<le> 255 \<and> (\<forall>t \<in> set ts. dt_ok t)"

function dt_run :: "'a dtree \<Rightarrow> GuChoice \<Rightarrow> ('a option \<times> GuChoice) run" where
  "dt_run (Leaf a) ch = Done (Some a, ch)"
| "dt_run (Node ts) ch =
     bindR (gu_choice_next ch (int (length ts)))
       (\<lambda>(i, ch'). if i < 0 then Done (None, ch')
          else if nat i < length ts then dt_run (ts ! nat i) ch'
          else Fault Out_Of_Bounds)"
  by pat_completeness auto
termination
  by (relation "measure (\<lambda>(t, ch). size t)") (auto simp: size_nth_le less_Suc_eq_le)

text \<open>Run, reset to the mark, advance; stop when there is nothing left to advance.\<close>

fun dt_enum :: "nat \<Rightarrow> 'a dtree \<Rightarrow> GuChoice \<Rightarrow> 'a option list run" where
  "dt_enum 0 t ch = Out_Of_Fuel"
| "dt_enum (Suc fuel) t ch =
     bindR (gu_choice_mark ch) (\<lambda>m.
     bindR (dt_run t ch) (\<lambda>(r, ch1).
     bindR (gu_choice_reset ch1 m) (\<lambda>ch2.
     bindR (gu_choice_advance ch2) (\<lambda>(b, ch3).
       if b then bindR (dt_enum fuel t ch3) (\<lambda>rs. Done (r # rs)) else Done [r]))))"

text \<open>\<open>rem_leaves t p\<close>: what is still to be visited when the path below the node is \<open>p\<close>.\<close>

fun rem_leaves :: "'a dtree \<Rightarrow> nat list \<Rightarrow> 'a option list" where
  "rem_leaves t [] = leaves t"
| "rem_leaves (Leaf a) (b # p) = []"
| "rem_leaves (Node ts) (b # p) =
     (if 1 \<le> b \<and> b \<le> length ts
      then rem_leaves (ts ! (length ts - b)) p @ concat (map leaves (drop (Suc (length ts - b)) ts))
      else [])"

fun valid_path :: "'a dtree \<Rightarrow> nat list \<Rightarrow> bool" where
  "valid_path t [] \<longleftrightarrow> True"
| "valid_path (Leaf a) (b # p) \<longleftrightarrow> False"
| "valid_path (Node ts) (b # p) \<longleftrightarrow>
     1 \<le> b \<and> b \<le> length ts \<and> valid_path (ts ! (length ts - b)) p"

fun full_path :: "'a dtree \<Rightarrow> nat list \<Rightarrow> bool" where
  "full_path (Leaf a) p \<longleftrightarrow> p = []"
| "full_path (Node ts) [] \<longleftrightarrow> ts = []"
| "full_path (Node ts) (b # p) \<longleftrightarrow>
     1 \<le> b \<and> b \<le> length ts \<and> full_path (ts ! (length ts - b)) p"


lemma leaves_nonempty: "leaves t \<noteq> []"
proof (induction t)
  case (Node ts)
  then show ?case by (cases ts) auto
qed simp

lemma full_path_valid: "full_path t p \<Longrightarrow> valid_path t p"
  by (induction t p rule: full_path.induct) auto

lemma rem_leaves_nonempty: "valid_path t p \<Longrightarrow> rem_leaves t p \<noteq> []"
  by (induction t p rule: rem_leaves.induct) (auto simp: leaves_nonempty)

lemma concat_leaves_drop:
  "i < length ts \<Longrightarrow> concat (map leaves (drop i ts)) =
     leaves (ts ! i) @ concat (map leaves (drop (Suc i) ts))"
  by (simp add: Cons_nth_drop_Suc [symmetric])

text \<open>Running from a valid path completes the path and yields the first remaining leaf.\<close>

lemma next_new:
  assumes "ts \<noteq> []" and "length ts \<le> 255"
  shows "gu_choice_next \<lparr>path = pre, path_idx = length pre\<rparr> (int (length ts)) =
     Done (0, \<lparr>path = pre @ [length ts], path_idx = Suc (length pre)\<rparr>)"
  using assms by (simp add: gu_choice_next_def)

lemma next_replay:
  assumes "1 \<le> b" and "b \<le> length ts" and "length ts \<le> 255"
  shows "gu_choice_next \<lparr>path = pre @ b # p, path_idx = length pre\<rparr> (int (length ts)) =
     Done (int (length ts - b), \<lparr>path = pre @ b # p, path_idx = Suc (length pre)\<rparr>)"
  using assms by (auto simp: gu_choice_next_def nth_append Let_def of_nat_diff)

lemma dt_run_path:
  assumes "dt_ok t" and "valid_path t p"
  shows "\<exists>q. full_path t q \<and> rem_leaves t q = rem_leaves t p \<and>
    dt_run t \<lparr>path = pre @ p, path_idx = length pre\<rparr> =
      Done (hd (rem_leaves t p), \<lparr>path = pre @ q, path_idx = length pre + length q\<rparr>)"
  using assms
proof (induction t arbitrary: p pre)
  case (Leaf a)
  then show ?case by (cases p) auto
next
  case (Node ts)
  show ?case
  proof (cases p)
    case Nil
    show ?thesis
    proof (cases "ts = []")
      case True
      with Nil show ?thesis by (auto simp: gu_choice_next_def)
    next
      case False
      then have mem: "ts ! 0 \<in> set ts" and l: "leaves (ts ! 0) \<noteq> []"
        by (auto simp: leaves_nonempty)
      obtain q where q: "full_path (ts ! 0) q" "rem_leaves (ts ! 0) q = leaves (ts ! 0)"
        "dt_run (ts ! 0) \<lparr>path = (pre @ [length ts]) @ [], path_idx = length (pre @ [length ts])\<rparr> =
          Done (hd (leaves (ts ! 0)),
            \<lparr>path = (pre @ [length ts]) @ q, path_idx = length (pre @ [length ts]) + length q\<rparr>)"
        using Node.IH [OF mem, of "[]" "pre @ [length ts]"] Node.prems mem by auto
      have cl: "concat (map leaves ts) = leaves (ts ! 0) @ concat (map leaves (drop 1 ts))"
        using concat_leaves_drop [of 0 ts] False by simp
      have "full_path (Node ts) (length ts # q)"
        using False q(1) by (cases ts) auto
      moreover have "rem_leaves (Node ts) (length ts # q) = rem_leaves (Node ts) p"
        using False q(2) cl Nil by (cases ts) auto
      moreover have "hd (leaves (ts ! 0)) = hd (rem_leaves (Node ts) p)"
        using cl Nil False l by simp
      ultimately show ?thesis
        using Nil False q(3) Node.prems(1) next_new [OF False, of pre]
        by (intro exI [of _ "length ts # q"]) auto
    qed
  next
    case (Cons b p')
    let ?k = "length ts - b"
    from Cons Node.prems have b: "1 \<le> b" "b \<le> length ts" and v: "valid_path (ts ! ?k) p'"
      by auto
    then have mem: "ts ! ?k \<in> set ts" by simp
    obtain q where q: "full_path (ts ! ?k) q" "rem_leaves (ts ! ?k) q = rem_leaves (ts ! ?k) p'"
      "dt_run (ts ! ?k) \<lparr>path = (pre @ [b]) @ p', path_idx = length (pre @ [b])\<rparr> =
        Done (hd (rem_leaves (ts ! ?k) p'),
          \<lparr>path = (pre @ [b]) @ q, path_idx = length (pre @ [b]) + length q\<rparr>)"
      using Node.IH [OF mem, of p' "pre @ [b]"] Node.prems mem v by auto
    have "rem_leaves (ts ! ?k) p' \<noteq> []"
      using rem_leaves_nonempty [OF v] .
    moreover have "nat (int (length ts) - int b) = ?k"
      using b by simp
    ultimately show ?thesis
      using Cons b q Node.prems(1) next_replay [OF b, of pre p']
      by (intro exI [of _ "b # q"]) auto
  qed
qed

text \<open>Advancing a complete path moves on to the next remaining leaf.\<close>

lemma advance_loop_at_bound [simp]: "gu_choice_advance_loop p (length p) = (False, p)"
  by (simp add: gu_choice_advance_loop.simps)

lemma advance_loop_snoc:
  "gu_choice_advance_loop (p @ [b]) (length p) =
     (if b > 1 then (True, p @ [b - 1]) else (False, p))"
  by (simp add: gu_choice_advance_loop.simps [of "p @ [b]"])

lemma advance_loop_lower:
  "gu_choice_advance_loop p idx =
     (case gu_choice_advance_loop p (Suc idx) of
        (True, r) \<Rightarrow> (True, r) | (False, r) \<Rightarrow> gu_choice_advance_loop r idx)"
proof (induction p "Suc idx" rule: gu_choice_advance_loop.induct)
  case (1 p)
  show ?case
  proof (cases "Suc idx < length p")
    case True
    then show ?thesis
      using "1" [OF True refl refl]
      by (auto simp: gu_choice_advance_loop.simps [of p] Let_def)
  next
    case False
    then show ?thesis
      by (simp add: gu_choice_advance_loop.simps [of p "Suc idx"])
  qed
qed

lemma advance_full_path:
  assumes "full_path t q"
  shows "(\<exists>q'. gu_choice_advance_loop (pre @ q) (length pre) = (True, pre @ q') \<and>
            valid_path t q' \<and> rem_leaves t q' = tl (rem_leaves t q) \<and> tl (rem_leaves t q) \<noteq> [])
       \<or> (gu_choice_advance_loop (pre @ q) (length pre) = (False, pre) \<and> tl (rem_leaves t q) = [])"
  using assms
proof (induction t q arbitrary: pre rule: full_path.induct)
  case (3 ts b p)
  let ?k = "length ts - b"
  let ?rest = "concat (map leaves (drop (Suc ?k) ts))"
  from "3.prems" have b: "1 \<le> b" "b \<le> length ts" and f: "full_path (ts ! ?k) p"
    by auto
  have rem: "rem_leaves (Node ts) (b # p) = rem_leaves (ts ! ?k) p @ ?rest"
    using b by simp
  have ne: "rem_leaves (ts ! ?k) p \<noteq> []"
    using rem_leaves_nonempty [OF full_path_valid [OF f]] .
  have low: "gu_choice_advance_loop (pre @ b # p) (length pre) =
     (case gu_choice_advance_loop ((pre @ [b]) @ p) (length (pre @ [b])) of
        (True, r) \<Rightarrow> (True, r) | (False, r) \<Rightarrow> gu_choice_advance_loop r (length pre))"
    using advance_loop_lower [of "pre @ b # p" "length pre"] by simp
  from "3.IH" [OF f, of "pre @ [b]"] show ?case
  proof
    assume "\<exists>q'. gu_choice_advance_loop ((pre @ [b]) @ p) (length (pre @ [b])) = (True, (pre @ [b]) @ q') \<and>
      valid_path (ts ! ?k) q' \<and> rem_leaves (ts ! ?k) q' = tl (rem_leaves (ts ! ?k) p) \<and>
      tl (rem_leaves (ts ! ?k) p) \<noteq> []"
    then obtain q' where q': "gu_choice_advance_loop ((pre @ [b]) @ p) (length (pre @ [b])) = (True, (pre @ [b]) @ q')"
      "valid_path (ts ! ?k) q'" "rem_leaves (ts ! ?k) q' = tl (rem_leaves (ts ! ?k) p)"
      "tl (rem_leaves (ts ! ?k) p) \<noteq> []"
      by blast
    show ?thesis
      by (rule disjI1, rule exI [of _ "b # q'"]) (use low q' rem ne b in auto)
  next
    assume a: "gu_choice_advance_loop ((pre @ [b]) @ p) (length (pre @ [b])) = (False, pre @ [b]) \<and>
      tl (rem_leaves (ts ! ?k) p) = []"
    then have l2: "gu_choice_advance_loop (pre @ b # p) (length pre) =
        (if b > 1 then (True, pre @ [b - 1]) else (False, pre))"
      using low advance_loop_snoc [of pre b] by simp
    have tl: "tl (rem_leaves (Node ts) (b # p)) = ?rest"
      using rem a ne by (cases "rem_leaves (ts ! ?k) p") auto
    show ?thesis
    proof (cases "b > 1")
      case True
      have k: "Suc ?k < length ts" "length ts - (b - 1) = Suc ?k"
          "1 \<le> b - 1" "b - 1 \<le> length ts"
        using True b by auto
      have "rem_leaves (Node ts) [b - 1] = ?rest"
        using True b k concat_leaves_drop [OF k(1)] by simp
      then show ?thesis
        using True b l2 tl k concat_leaves_drop [OF k(1)] leaves_nonempty
        by (intro disjI1 exI [of _ "[b - 1]"]) auto
    next
      case False
      then show ?thesis using b l2 tl by auto
    qed
  qed
qed auto

lemma dt_enum_path:
  assumes "dt_ok t" and "valid_path t p" and "length (rem_leaves t p) \<le> fuel"
  shows "dt_enum fuel t \<lparr>path = pre @ p, path_idx = length pre\<rparr> = Done (rem_leaves t p)"
  using assms(2,3)
proof (induction fuel arbitrary: p)
  case 0
  then show ?case using rem_leaves_nonempty by auto
next
  case (Suc fuel)
  obtain q where q: "full_path t q" "rem_leaves t q = rem_leaves t p"
    "dt_run t \<lparr>path = pre @ p, path_idx = length pre\<rparr> =
      Done (hd (rem_leaves t p), \<lparr>path = pre @ q, path_idx = length pre + length q\<rparr>)"
    using dt_run_path [OF assms(1) Suc.prems(1)] by blast
  have ne: "rem_leaves t p \<noteq> []"
    using rem_leaves_nonempty [OF Suc.prems(1)] .
  from advance_full_path [OF q(1), of pre] show ?case
  proof
    assume "\<exists>q'. gu_choice_advance_loop (pre @ q) (length pre) = (True, pre @ q') \<and>
      valid_path t q' \<and> rem_leaves t q' = tl (rem_leaves t q) \<and> tl (rem_leaves t q) \<noteq> []"
    then obtain q' where q': "gu_choice_advance_loop (pre @ q) (length pre) = (True, pre @ q')"
      "valid_path t q'" "rem_leaves t q' = tl (rem_leaves t p)"
      using q(2) by auto
    have "length (rem_leaves t q') \<le> fuel"
      using Suc.prems(2) q'(3) ne by simp
    then have "dt_enum fuel t \<lparr>path = pre @ q', path_idx = length pre\<rparr> = Done (tl (rem_leaves t p))"
      using Suc.IH q'(2,3) by simp
    then show ?thesis
      using q(3) q'(1) ne
      by (simp add: gu_choice_mark_def gu_choice_reset_def gu_choice_advance_def)
  next
    assume "gu_choice_advance_loop (pre @ q) (length pre) = (False, pre) \<and> tl (rem_leaves t q) = []"
    then show ?thesis
      using q ne
      by (cases "rem_leaves t p")
        (auto simp: gu_choice_mark_def gu_choice_reset_def gu_choice_advance_def)
  qed
qed

text \<open>C8. A choice object enumerates every alternative exactly once: for any decision tree whose
  nodes have at most 255 children, the loop "run, reset to the mark, advance" that starts from a
  new choice object terminates after one round per leaf, never aborts, and visits the leaves from
  left to right (\<open>None\<close> stands for a dead end, where the choice object answers \<open>-1\<close>).\<close>

theorem gu_choice_enumerates_all:
  assumes "dt_ok t" and "length (leaves t) \<le> fuel"
  shows "dt_enum fuel t gu_new_choice = Done (leaves t)"
  using dt_enum_path [of t "[]" fuel "[]"] assms by (simp add: gu_new_choice_def)

theorem gu_choice_enumerates_all_witness:
  "dt_enum 9 (Node [Leaf ''a'', Node [Leaf ''b'', Node []], Leaf ''c'']) gu_new_choice =
     Done [Some ''a'', Some ''b'', None, Some ''c'']"
  using gu_choice_enumerates_all
    [of "Node [Leaf ''a'', Node [Leaf ''b'', Node []], Leaf ''c'']" 9]
  by simp



end
