(* ===== verification/Expr.thy ===== *)
theory Expr
  imports Prelude
begin

text \<open>
  \<open>pgf/expr.h\<close> and \<open>pgf/expr.c\<close>: abstract syntax trees, their decomposition into a head
  function and its arguments, the reader of the textual syntax and the printer.

  The reader is a character level recursive descent parser with one token of lookahead and one
  character of pushback. Its input is the sequence of what \<open>gu_getc\<close> delivers: characters,
  or an exception other than end of file; the end of the list is the end of file. The printer
  writes to a string.
\<close>

subsection \<open>Abstract syntax\<close>

type_synonym PgfCId = string
type_synonym PgfMetaId = int

datatype PgfBindType = PGF_BIND_TYPE_EXPLICIT | PGF_BIND_TYPE_IMPLICIT

text \<open>A \<open>double\<close> is kept as its 64-bit IEEE representation.\<close>

datatype PgfLiteral =
    PGF_LITERAL_STR string
  | PGF_LITERAL_INT int
  | PGF_LITERAL_FLT u64

datatype PgfExpr =
    PGF_EXPR_ABS PgfBindType PgfCId PgfExpr
  | PGF_EXPR_APP PgfExpr PgfExpr
  | PGF_EXPR_LIT PgfLiteral
  | PGF_EXPR_META PgfMetaId
  | PGF_EXPR_FUN PgfCId
  | PGF_EXPR_VAR int
  | PGF_EXPR_TYPED PgfExpr PgfType
  | PGF_EXPR_IMPL_ARG PgfExpr
and PgfType = PgfType (hypos: "PgfHypo list") (type_cid: PgfCId) (exprs: "PgfExpr list")
and PgfHypo = PgfHypo (bindtype: PgfBindType) (hypo_cid: PgfCId) (hypo_type: PgfType)

record PgfApplication =
  app_fun :: PgfExpr
  app_args :: "PgfExpr list"

subsection \<open>Unwrapping and decomposition\<close>

fun pgf_expr_unwrap :: "PgfExpr \<Rightarrow> PgfExpr" where
  "pgf_expr_unwrap (PGF_EXPR_IMPL_ARG e) = pgf_expr_unwrap e"
| "pgf_expr_unwrap (PGF_EXPR_TYPED e t) = pgf_expr_unwrap e"
| "pgf_expr_unwrap e = e"

lemma size_pgf_expr_unwrap: "size (pgf_expr_unwrap e) \<le> size e"
  by (induction e rule: pgf_expr_unwrap.induct) auto

lemma size_unwrap_app:
  "pgf_expr_unwrap e = PGF_EXPR_APP f a \<Longrightarrow> size f < size e \<and> size a < size e"
  using size_pgf_expr_unwrap [of e] by auto

text \<open>The counting loop of \<open>pgf_expr_arity\<close>, with the counter as its accumulator.\<close>

function pgf_expr_arity_loop :: "PgfExpr \<Rightarrow> int \<Rightarrow> int" where
  "pgf_expr_arity_loop expr n =
     (case pgf_expr_unwrap expr of
        PGF_EXPR_APP f a \<Rightarrow> pgf_expr_arity_loop f (n + 1)
      | PGF_EXPR_FUN f \<Rightarrow> n
      | _ \<Rightarrow> - 1)"
  by pat_completeness auto
termination
  by (relation "measure (\<lambda>(e, n). size e)") (auto dest: size_unwrap_app)

declare pgf_expr_arity_loop.simps [simp del]

definition pgf_expr_arity :: "PgfExpr \<Rightarrow> int" where
  "pgf_expr_arity expr = pgf_expr_arity_loop expr 0"

text \<open>
  The loop of \<open>pgf_expr_unapply\<close>: \<open>n\<close> counts down from the arity, and argument \<open>n - 1\<close> is
  stored in front of the ones already stored.
\<close>

fun pgf_expr_unapply_loop :: "nat \<Rightarrow> PgfExpr \<Rightarrow> PgfExpr list \<Rightarrow> (PgfExpr \<times> PgfExpr list) run" where
  "pgf_expr_unapply_loop 0 expr args = Done (expr, args)"
| "pgf_expr_unapply_loop (Suc n) expr args =
     (case pgf_expr_unwrap expr of
        PGF_EXPR_APP f a \<Rightarrow> pgf_expr_unapply_loop n f (a # args)
      | _ \<Rightarrow> Fault (Abort GU_ASSERT_ASSERTION))"

text \<open>\<open>None\<close> is the null pointer that \<open>pgf_expr_unapply\<close> returns.\<close>

definition pgf_expr_unapply :: "PgfExpr \<Rightarrow> PgfApplication option run" where
  "pgf_expr_unapply expr =
     (let arity = pgf_expr_arity expr
      in if arity < 0 then Done None
         else bindR (pgf_expr_unapply_loop (nat arity) expr [])
           (\<lambda>(e, args).
             let f = pgf_expr_unwrap e
             in gu_ensure (case f of PGF_EXPR_FUN c \<Rightarrow> True | _ \<Rightarrow> False)
                  (Done (Some \<lparr>app_fun = f, app_args = args\<rparr>))))"

subsection \<open>The printer\<close>

text \<open>Decimal output of an \<open>int\<close> by \<open>gu_printf\<close> with \<open>%d\<close>.\<close>

fun nat_digits :: "nat \<Rightarrow> string" where
  "nat_digits n =
     (if n < 10 then [char_of (48 + n)] else nat_digits (n div 10) @ [char_of (48 + n mod 10)])"

declare nat_digits.simps [simp del]

definition int_digits :: "int \<Rightarrow> string" where
  "int_digits i = (if i < 0 then ''-'' @ nat_digits (nat (- i)) else nat_digits (nat i))"

text \<open>The expressions the printer has no case for reach \<open>gu_impossible\<close>.\<close>

fun pgf_expr_print_with_paren :: "PgfExpr \<Rightarrow> bool \<Rightarrow> string run" where
  "pgf_expr_print_with_paren (PGF_EXPR_FUN f) need_paren = Done f"
| "pgf_expr_print_with_paren (PGF_EXPR_APP f a) need_paren =
     bindR (pgf_expr_print_with_paren f False) (\<lambda>sf.
     bindR (pgf_expr_print_with_paren a True) (\<lambda>sa.
       Done ((if need_paren then ''('' else '''') @ sf @ '' '' @ sa @
             (if need_paren then '')'' else ''''))))"
| "pgf_expr_print_with_paren (PGF_EXPR_META i) need_paren = Done (''?'' @ int_digits i)"
| "pgf_expr_print_with_paren e need_paren = gu_impossible"

definition pgf_expr_print :: "PgfExpr \<Rightarrow> string run" where
  "pgf_expr_print expr = pgf_expr_print_with_paren expr False"

subsection \<open>The reader\<close>

text \<open>The character classes of \<open>ctype.h\<close> in the C locale.\<close>

definition isspace :: "char \<Rightarrow> bool" where
  "isspace c \<longleftrightarrow> c = CHR 0x20 \<or> (9 \<le> (of_char c :: nat) \<and> (of_char c :: nat) \<le> 13)"

definition isalpha :: "char \<Rightarrow> bool" where
  "isalpha c \<longleftrightarrow>
     (65 \<le> (of_char c :: nat) \<and> (of_char c :: nat) \<le> 90) \<or>
     (97 \<le> (of_char c :: nat) \<and> (of_char c :: nat) \<le> 122)"

definition isalnum :: "char \<Rightarrow> bool" where
  "isalnum c \<longleftrightarrow> isalpha c \<or> (48 \<le> (of_char c :: nat) \<and> (of_char c :: nat) \<le> 57)"

datatype rd_event = Ch char | Bad

record PgfExprParser =
  rdr :: "rd_event list"
  perr :: bool
  lookahead :: "string option"
  next_char :: int

definition pgf_expr_parser_next :: "PgfExprParser \<Rightarrow> char \<times> PgfExprParser" where
  "pgf_expr_parser_next p =
     (let next = next_char p
      in if next \<ge> 0
         then (char_of (nat next), if next > 0 then p\<lparr>next_char := - 1\<rparr> else p)
         else (case rdr p of
             [] \<Rightarrow> (CHR 0x00, p)
           | Ch c # r \<Rightarrow> (c, p\<lparr>rdr := r\<rparr>)
           | Bad # r \<Rightarrow> (CHR 0x00, p\<lparr>rdr := r, perr := True\<rparr>)))"

text \<open>What a parser can still deliver; every read of a proper character lowers it.\<close>

definition pending :: "PgfExprParser \<Rightarrow> nat" where
  "pending p = length (rdr p) + (if next_char p > 0 then 1 else 0)"

lemma char_of_zero [simp]: "char_of (0 :: nat) = CHR 0x00"
  by (simp add: char_of_def)

lemma next_pending:
  "pgf_expr_parser_next p = (c, p') \<Longrightarrow> c \<noteq> CHR 0x00 \<Longrightarrow> pending p' < pending p"
  by (auto simp: pgf_expr_parser_next_def pending_def Let_def
      split: if_splits list.splits rd_event.splits)

text \<open>The loop that skips white space: \<open>None\<close> when the reader raised an exception.\<close>

function skip_space :: "PgfExprParser \<Rightarrow> char option \<times> PgfExprParser" where
  "skip_space p =
     (let (c, p') = pgf_expr_parser_next p
      in if perr p' then (None, p')
         else if isspace c then skip_space p' else (Some c, p'))"
  by pat_completeness auto
termination
proof (relation "measure pending", goal_cases)
  case (2 p x c p')
  moreover have "c \<noteq> CHR 0x00"
    using 2 by (auto simp: isspace_def)
  ultimately show ?case
    using next_pending [of p c p'] by auto
qed simp

declare skip_space.simps [simp del]

text \<open>
  The loop that collects an identifier. It returns the identifier and leaves the first character
  after it in \<open>next_char\<close>; \<open>None\<close> when the reader raised an exception.
\<close>

function read_ident :: "char \<Rightarrow> string \<Rightarrow> PgfExprParser \<Rightarrow> string option \<times> PgfExprParser" where
  "read_ident c chars p =
     (if isalnum c \<or> c = CHR ''_''
      then (let (c', p') = pgf_expr_parser_next p
            in if perr p' then (None, p') else read_ident c' (chars @ [c]) p')
      else (Some chars, p\<lparr>next_char := of_char c\<rparr>))"
  by pat_completeness auto
termination
proof (relation "measure (\<lambda>(c, chars, p). pending p + (if c = CHR 0x00 then 0 else 1))", goal_cases)
  case (2 c chars p x c' p')
  then have "c \<noteq> CHR 0x00"
    by (auto simp: isalnum_def isalpha_def)
  moreover have "c' \<noteq> CHR 0x00 \<Longrightarrow> pending p' < pending p"
    using 2 next_pending [of p c' p'] by simp
  moreover have "pending p' \<le> pending p"
    using 2 by (auto simp: pgf_expr_parser_next_def pending_def Let_def
        split: if_splits list.splits rd_event.splits)
  ultimately show ?case by auto
qed simp

declare read_ident.simps [simp del]

definition pgf_expr_parser_lookahead :: "PgfExprParser \<Rightarrow> string option \<times> PgfExprParser" where
  "pgf_expr_parser_lookahead p =
     (case lookahead p of
        Some s \<Rightarrow> (Some s, p)
      | None \<Rightarrow>
          (case skip_space p of
             (None, p1) \<Rightarrow> (None, p1)
           | (Some c, p1) \<Rightarrow>
               if c = CHR ''('' \<or> c = CHR '')'' \<or> c = CHR '';''
               then (Some [c], p1\<lparr>lookahead := Some [c]\<rparr>)
               else if c = CHR 0x00 then (None, p1\<lparr>lookahead := None\<rparr>)
               else if isalpha c
               then (case read_ident c [] p1 of
                       (None, p2) \<Rightarrow> (None, p2)
                     | (Some s, p2) \<Rightarrow> (Some s, p2\<lparr>lookahead := Some s\<rparr>))
               else (None, p1\<lparr>lookahead := None\<rparr>)))"

definition pgf_expr_parser_token_is_id :: "string option \<Rightarrow> bool" where
  "pgf_expr_parser_token_is_id str =
     (case str of None \<Rightarrow> False | Some s \<Rightarrow>
        (case s of [] \<Rightarrow> False | c # _ \<Rightarrow> isalpha c \<or> c = CHR ''_''))"

definition pgf_expr_parser_consume :: "PgfExprParser \<Rightarrow> PgfExprParser" where
  "pgf_expr_parser_consume p = (snd (pgf_expr_parser_lookahead p))\<lparr>lookahead := None\<rparr>"

text \<open>
  The recursive descent, bounded by fuel. A result \<open>None\<close> is the null variant. The third
  function is the argument loop of \<open>pgf_expr_parser_expr\<close>.
\<close>

fun pgf_expr_parser_term :: "nat \<Rightarrow> PgfExprParser \<Rightarrow> (PgfExpr option \<times> PgfExprParser) run"
  and pgf_expr_parser_expr :: "nat \<Rightarrow> PgfExprParser \<Rightarrow> (PgfExpr option \<times> PgfExprParser) run"
  and pgf_expr_parser_args :: "nat \<Rightarrow> PgfExpr \<Rightarrow> PgfExprParser \<Rightarrow> (PgfExpr option \<times> PgfExprParser) run"
where
  "pgf_expr_parser_term 0 p = Out_Of_Fuel"
| "pgf_expr_parser_term (Suc n) p =
     (let (la, p1) = pgf_expr_parser_lookahead p
      in if la = Some ''('' then
           bindR (pgf_expr_parser_expr n (pgf_expr_parser_consume p1)) (\<lambda>(e, p2).
             let (la2, p3) = pgf_expr_parser_lookahead p2
             in if la2 = Some '')'' then Done (e, pgf_expr_parser_consume p3)
                else Done (None, if perr p3 then p3 else p3\<lparr>perr := True\<rparr>))
         else if pgf_expr_parser_token_is_id la then
           Done (map_option PGF_EXPR_FUN la, pgf_expr_parser_consume p1)
         else Done (None, p1))"
| "pgf_expr_parser_expr 0 p = Out_Of_Fuel"
| "pgf_expr_parser_expr (Suc n) p =
     bindR (pgf_expr_parser_term n p) (\<lambda>(e, p1).
       case e of None \<Rightarrow> Done (None, p1) | Some e' \<Rightarrow> pgf_expr_parser_args n e' p1)"
| "pgf_expr_parser_args 0 expr p = Out_Of_Fuel"
| "pgf_expr_parser_args (Suc n) expr p =
     bindR (pgf_expr_parser_term n p) (\<lambda>(a, p1).
       case a of None \<Rightarrow> Done (Some expr, p1)
       | Some arg \<Rightarrow> pgf_expr_parser_args n (PGF_EXPR_APP expr arg) p1)"

text \<open>The result is the expression and whether an exception is raised in the caller's frame.\<close>

definition pgf_read_expr :: "nat \<Rightarrow> rd_event list \<Rightarrow> (PgfExpr option \<times> bool) run" where
  "pgf_read_expr fuel input =
     bindR (pgf_expr_parser_expr fuel
       \<lparr>rdr = input, perr = False, lookahead = None, next_char = - 1\<rparr>) (\<lambda>(e, p).
       case e of
         None \<Rightarrow> Done (None, perr p)
       | Some x \<Rightarrow>
           (if lookahead p = Some '';'' then Done (Some x, perr (pgf_expr_parser_consume p))
            else if lookahead p \<noteq> None then Done (Some x, True)
            else Done (Some x, perr p)))"


subsection \<open>Decomposition is application undone\<close>

text \<open>
  The reference definition: the head symbol and the arguments of an application, through
  any typing or implicit-argument wrappers on the way.
\<close>

function spine :: "PgfExpr \<Rightarrow> (PgfCId \<times> PgfExpr list) option" where
  "spine e =
     (case pgf_expr_unwrap e of
        PGF_EXPR_FUN c \<Rightarrow> Some (c, [])
      | PGF_EXPR_APP f a \<Rightarrow>
          (case spine f of None \<Rightarrow> None | Some (c, args) \<Rightarrow> Some (c, args @ [a]))
      | _ \<Rightarrow> None)"
  by pat_completeness auto
termination
  by (relation "measure size") (auto dest: size_unwrap_app)

declare spine.simps [simp del]

lemma arity_loop_spine:
  "pgf_expr_arity_loop e n = (case spine e of None \<Rightarrow> - 1 | Some (c, args) \<Rightarrow> n + int (length args))"
proof (induction e n rule: pgf_expr_arity_loop.induct)
  case (1 e n)
  then show ?case
    by (auto simp: pgf_expr_arity_loop.simps [of e n] spine.simps [of e]
        split: PgfExpr.splits option.splits)
qed

lemma unapply_loop_spine:
  "spine e = Some (c, args) \<Longrightarrow>
     \<exists>e'. pgf_expr_unapply_loop (length args) e acc = Done (e', args @ acc) \<and>
       pgf_expr_unwrap e' = PGF_EXPR_FUN c"
proof (induction e arbitrary: args acc rule: spine.induct)
  case (1 e)
  then show ?case
    by (auto simp: spine.simps [of e] split: PgfExpr.splits option.splits)
qed

lemma unapply_spine:
  "pgf_expr_unapply e =
     Done (map_option (\<lambda>(c, args). \<lparr>app_fun = PGF_EXPR_FUN c, app_args = args\<rparr>) (spine e))"
proof (cases "spine e")
  case None
  then show ?thesis
    by (simp add: pgf_expr_unapply_def pgf_expr_arity_def arity_loop_spine)
next
  case (Some r)
  then obtain c args where r: "spine e = Some (c, args)" by (cases r) auto
  from unapply_loop_spine [OF r, of "[]"] r show ?thesis
    by (auto simp: pgf_expr_unapply_def pgf_expr_arity_def arity_loop_spine)
qed

text \<open>Building an application from a function and its arguments, as the expression reader does.\<close>

definition apply_args :: "PgfCId \<Rightarrow> PgfExpr list \<Rightarrow> PgfExpr" where
  "apply_args c args = foldl PGF_EXPR_APP (PGF_EXPR_FUN c) args"

lemma spine_apply_args: "spine (apply_args c args) = Some (c, args)"
proof (induction args rule: rev_induct)
  case Nil
  then show ?case by (simp add: apply_args_def spine.simps)
next
  case (snoc a args)
  then show ?case by (simp add: apply_args_def spine.simps [of "PGF_EXPR_APP _ _"])
qed

subsection \<open>Tokens\<close>

text \<open>What the character level delivers, as a function on the text.\<close>

definition idch :: "char \<Rightarrow> bool" where
  "idch c \<longleftrightarrow> isalnum c \<or> c = CHR ''_''"

definition punct :: "char \<Rightarrow> bool" where
  "punct c \<longleftrightarrow> c = CHR ''('' \<or> c = CHR '')'' \<or> c = CHR '';''"

function lex :: "string \<Rightarrow> string list" where
  "lex [] = []"
| "lex (c # cs) =
     (if isspace c then lex cs
      else if punct c then [c] # lex cs
      else if isalpha c then (c # takeWhile idch cs) # lex (dropWhile idch cs)
      else [])"
  by pat_completeness auto
termination
  by (relation "measure length") (auto simp: less_Suc_eq_le length_dropWhile_le)

function lexable :: "string \<Rightarrow> bool" where
  "lexable [] \<longleftrightarrow> True"
| "lexable (c # cs) \<longleftrightarrow>
     (if isspace c \<or> punct c then lexable cs else isalpha c \<and> lexable (dropWhile idch cs))"
  by pat_completeness auto
termination
  by (relation "measure length") (auto simp: less_Suc_eq_le length_dropWhile_le)

definition first_tok :: "'a list \<Rightarrow> 'a option" where
  "first_tok ts = (case ts of [] \<Rightarrow> None | t # _ \<Rightarrow> Some t)"

definition rd_rest :: "PgfExprParser \<Rightarrow> rd_event list" where
  "rd_rest p = (if next_char p > 0 then Ch (char_of (nat (next_char p))) # rdr p
             else if next_char p = 0 then [] else rdr p)"

definition pstate :: "PgfExprParser \<Rightarrow> string list \<Rightarrow> bool" where
  "pstate p ts \<longleftrightarrow> \<not> perr p \<and>
     (\<exists>cs. rd_rest p = map Ch cs \<and> CHR 0x00 \<notin> set cs \<and> lexable cs \<and>
        ts = (case lookahead p of None \<Rightarrow> lex cs | Some t \<Rightarrow> t # lex cs))"

lemma next_Nil:
  "rd_rest p = [] \<Longrightarrow> \<exists>p'. pgf_expr_parser_next p = (CHR 0x00, p') \<and> rd_rest p' = [] \<and>
     perr p' = perr p \<and> lookahead p' = lookahead p"
  by (auto simp: pgf_expr_parser_next_def rd_rest_def Let_def split: if_splits)

lemma next_Cons:
  "rd_rest p = Ch c # r \<Longrightarrow> \<exists>p'. pgf_expr_parser_next p = (c, p') \<and> rd_rest p' = r \<and> rdr p' = r \<and>
     perr p' = perr p \<and> lookahead p' = lookahead p \<and> next_char p' < 0"
proof -
  assume r: "rd_rest p = Ch c # r"
  show ?thesis
  proof (cases "next_char p > 0")
    case True
    with r show ?thesis
      by (simp add: pgf_expr_parser_next_def rd_rest_def Let_def)
  next
    case False
    with r have "next_char p < 0" "rdr p = Ch c # r"
      by (auto simp: rd_rest_def split: if_splits)
    then show ?thesis
      by (simp add: pgf_expr_parser_next_def rd_rest_def Let_def)
  qed
qed

lemma skip_space_spec:
  "rd_rest p = map Ch cs \<Longrightarrow> \<not> perr p \<Longrightarrow> CHR 0x00 \<notin> set cs \<Longrightarrow>
     \<exists>p'. skip_space p = (Some (case dropWhile isspace cs of [] \<Rightarrow> CHR 0x00 | c # _ \<Rightarrow> c), p') \<and>
       rd_rest p' = map Ch (tl (dropWhile isspace cs)) \<and> \<not> perr p' \<and> lookahead p' = lookahead p"
proof (induction cs arbitrary: p)
  case Nil
  then obtain p' where "pgf_expr_parser_next p = (CHR 0x00, p')" "rd_rest p' = []"
    "perr p' = perr p" "lookahead p' = lookahead p"
    using next_Nil [of p] by auto
  with Nil show ?case
    by (subst skip_space.simps) (auto simp: isspace_def)
next
  case (Cons c cs)
  then obtain p' where p': "pgf_expr_parser_next p = (c, p')" "rd_rest p' = map Ch cs"
    "perr p' = perr p" "lookahead p' = lookahead p"
    using next_Cons [of p c "map Ch cs"] by auto
  show ?case
  proof (cases "isspace c")
    case True
    with Cons.IH [of p'] Cons.prems p' show ?thesis
      by (subst skip_space.simps) auto
  next
    case False
    with Cons.prems p' show ?thesis
      by (subst skip_space.simps) auto
  qed
qed

lemma of_char_pos: "d \<noteq> CHR 0x00 \<Longrightarrow> (of_char d :: int) > 0"
proof -
  assume d: "d \<noteq> CHR 0x00"
  have "(of_char d :: nat) \<noteq> 0"
  proof
    assume "(of_char d :: nat) = 0"
    then have "char_of (of_char d :: nat) = CHR 0x00" by simp
    with d show False by simp
  qed
  moreover have "(of_char d :: int) = int (of_char d)"
    by (rule of_nat_of_char [symmetric])
  ultimately show ?thesis by linarith
qed

lemma rest_lookahead [simp]: "rd_rest (p\<lparr>lookahead := l\<rparr>) = rd_rest p"
  by (simp add: rd_rest_def)

lemma read_ident_idch:
  "read_ident c chars p =
     (if idch c
      then (let (c', p') = pgf_expr_parser_next p
            in if perr p' then (None, p') else read_ident c' (chars @ [c]) p')
      else (Some chars, p\<lparr>next_char := of_char c\<rparr>))"
  by (subst read_ident.simps) (simp add: idch_def)

lemma not_idch_NUL [simp]: "\<not> idch (CHR 0x00)"
  by (simp add: idch_def isalnum_def isalpha_def)

lemma read_ident_spec:
  "rd_rest p = map Ch cs \<Longrightarrow> \<not> perr p \<Longrightarrow> CHR 0x00 \<notin> set cs \<Longrightarrow> idch c \<Longrightarrow>
     \<exists>p'. read_ident c chars p = (Some (chars @ c # takeWhile idch cs), p') \<and>
       rd_rest p' = map Ch (dropWhile idch cs) \<and> \<not> perr p' \<and> lookahead p' = lookahead p"
proof (induction cs arbitrary: p c chars)
  case Nil
  then obtain p' where p': "pgf_expr_parser_next p = (CHR 0x00, p')" "rd_rest p' = []"
    "perr p' = perr p" "lookahead p' = lookahead p"
    using next_Nil [of p] by auto
  have "read_ident (CHR 0x00) (chars @ [c]) p' = (Some (chars @ [c]), p'\<lparr>next_char := 0\<rparr>)"
    by (subst read_ident_idch) simp
  with Nil p' show ?case
    by (subst read_ident_idch) (auto simp: rd_rest_def)
next
  case (Cons d cs)
  then obtain p' where p': "pgf_expr_parser_next p = (d, p')" "rd_rest p' = map Ch cs"
    "rdr p' = map Ch cs" "perr p' = perr p" "lookahead p' = lookahead p" "next_char p' < 0"
    using next_Cons [of p d "map Ch cs"] by auto
  show ?case
  proof (cases "idch d")
    case True
    with Cons.IH [of p' d "chars @ [c]"] Cons.prems p' show ?thesis
      by (subst read_ident_idch) auto
  next
    case False
    then have "read_ident d (chars @ [c]) p' = (Some (chars @ [c]), p'\<lparr>next_char := of_char d\<rparr>)"
      by (subst read_ident_idch) simp
    moreover have "(of_char d :: int) > 0"
      using of_char_pos [of d] Cons.prems(3) by auto
    ultimately show ?thesis
      using Cons.prems p' False
      by (subst read_ident_idch) (auto simp: rd_rest_def)
  qed
qed

lemma lex_skip: "lex cs = lex (dropWhile isspace cs)"
  by (induction cs) auto

lemma lexable_skip: "lexable cs = lexable (dropWhile isspace cs)"
  by (induction cs) auto

lemma isalpha_idch: "isalpha c \<Longrightarrow> idch c"
  by (simp add: idch_def isalnum_def)

lemma lookahead_spec:
  assumes "pstate p ts"
  shows "\<exists>p'. pgf_expr_parser_lookahead p = (first_tok ts, p') \<and> pstate p' ts \<and>
    lookahead p' = first_tok ts"
proof (cases "lookahead p")
  case (Some t)
  with assms show ?thesis
    by (auto simp: pgf_expr_parser_lookahead_def pstate_def first_tok_def)
next
  case None
  with assms obtain cs where cs: "\<not> perr p" "rd_rest p = map Ch cs" "CHR 0x00 \<notin> set cs" "lexable cs"
    "ts = lex cs"
    by (auto simp: pstate_def)
  define ds where "ds = dropWhile isspace cs"
  obtain p' where p': "skip_space p = (Some (case ds of [] \<Rightarrow> CHR 0x00 | c # _ \<Rightarrow> c), p')"
    "rd_rest p' = map Ch (tl ds)" "\<not> perr p'" "lookahead p' = None"
    using skip_space_spec [OF cs(2,1,3)] None by (auto simp: ds_def)
  have ts: "ts = lex ds" and ld: "lexable ds" and nul: "CHR 0x00 \<notin> set ds"
    using cs lex_skip [of cs] lexable_skip [of cs] by (auto simp: ds_def dest: set_dropWhileD)
  show ?thesis
  proof (cases ds)
    case Nil
    with p' ts None show ?thesis
      by (auto simp: pgf_expr_parser_lookahead_def first_tok_def pstate_def)
  next
    case (Cons c ds')
    have nsp: "\<not> isspace c"
      using Cons ds_def hd_dropWhile [of isspace cs] by auto
    show ?thesis
    proof (cases "punct c")
      case True
      with Cons p' ts None ld nul nsp show ?thesis
        by (auto simp: pgf_expr_parser_lookahead_def first_tok_def pstate_def punct_def)
    next
      case False
      with Cons ld nsp have a: "isalpha c" and ld': "lexable (dropWhile idch ds')" by auto
      obtain p2 where p2: "read_ident c [] p' = (Some (c # takeWhile idch ds'), p2)"
        "rd_rest p2 = map Ch (dropWhile idch ds')" "\<not> perr p2" "lookahead p2 = None"
        using read_ident_spec [of p' ds' c "[]"] p' Cons nul isalpha_idch [OF a] by auto
      have "CHR 0x00 \<notin> set (dropWhile idch ds')"
        using nul Cons by (auto dest: set_dropWhileD)
      with Cons p' ts None False a p2 ld' nsp nul show ?thesis
        by (auto simp: pgf_expr_parser_lookahead_def first_tok_def pstate_def punct_def)
    qed
  qed
qed

lemma consume_spec:
  assumes "pstate p (t # ts)"
  shows "pstate (pgf_expr_parser_consume p) ts"
proof -
  obtain p' where p': "pgf_expr_parser_lookahead p = (Some t, p')" "pstate p' (t # ts)"
    "lookahead p' = Some t"
    using lookahead_spec [OF assms] by (auto simp: first_tok_def)
  then show ?thesis
    by (auto simp: pgf_expr_parser_consume_def pstate_def rd_rest_def)
qed

subsection \<open>Reading what was printed\<close>

definition is_ident :: "PgfCId \<Rightarrow> bool" where
  "is_ident f \<longleftrightarrow> f \<noteq> [] \<and> isalpha (hd f) \<and> list_all idch f"

text \<open>The trees of the first-order fragment: functions and applications.\<close>

fun first_order :: "PgfExpr \<Rightarrow> bool" where
  "first_order (PGF_EXPR_FUN f) \<longleftrightarrow> is_ident f"
| "first_order (PGF_EXPR_APP f a) \<longleftrightarrow> first_order f \<and> first_order a"
| "first_order _ \<longleftrightarrow> False"

fun ptoks :: "PgfExpr \<Rightarrow> bool \<Rightarrow> string list" where
  "ptoks (PGF_EXPR_FUN f) np = [f]"
| "ptoks (PGF_EXPR_APP f a) np =
     (if np then [''(''] else []) @ ptoks f False @ ptoks a True @ (if np then ['')''] else [])"
| "ptoks _ np = []"

fun nodes :: "PgfExpr \<Rightarrow> nat" where
  "nodes (PGF_EXPR_APP f a) = nodes f + nodes a + 1"
| "nodes _ = 1"

fun nargs :: "PgfExpr \<Rightarrow> nat" where
  "nargs (PGF_EXPR_APP f a) = Suc (nargs f)"
| "nargs _ = 0"

lemma nodes_pos [simp]: "0 < nodes e"
  by (cases e) auto

lemma nargs_less: "nargs e < nodes e"
  by (induction e rule: nargs.induct) auto

definition delim :: "string \<Rightarrow> bool" where
  "delim r \<longleftrightarrow> r = [] \<or> \<not> idch (hd r)"

lemma ident_not_space: "isalpha c \<Longrightarrow> \<not> isspace c \<and> \<not> punct c"
  by (auto simp: isalpha_def isspace_def punct_def)

lemma lex_ident:
  assumes "is_ident f" and "delim r" and "lexable r"
  shows "lex (f @ r) = f # lex r \<and> lexable (f @ r)"
proof -
  obtain c cs where f: "f = c # cs" "isalpha c" "list_all idch cs"
    using assms(1) by (cases f) (auto simp: is_ident_def)
  have "takeWhile idch (cs @ r) = cs" "dropWhile idch (cs @ r) = r"
    using f(3) assms(2) by (induction cs) (cases r; auto simp: delim_def)+
  then show ?thesis
    using f ident_not_space [OF f(2)] assms(3) by simp
qed

lemma lex_print:
  assumes "first_order e" and "delim r" and "lexable r"
  shows "\<exists>s. pgf_expr_print_with_paren e np = Done s \<and>
    lex (s @ r) = ptoks e np @ lex r \<and> lexable (s @ r)"
  using assms
proof (induction e np arbitrary: r rule: ptoks.induct)
  case (1 f np)
  then show ?case using lex_ident by auto
next
  case (2 f a np)
  let ?r = "(if np then '')'' else []) @ r"
  have r: "delim ?r" "lexable ?r" "lex ?r = (if np then ['')''] else []) @ lex r"
    using "2.prems" by (auto simp: delim_def idch_def isalnum_def isalpha_def isspace_def punct_def)
  obtain sa where sa: "pgf_expr_print_with_paren a True = Done sa"
    "lex (sa @ ?r) = ptoks a True @ lex ?r" "lexable (sa @ ?r)"
    using "2.IH"(2) [of ?r] "2.prems"(1) r by auto
  have s: "delim (CHR '' '' # sa @ ?r)" "lexable (CHR '' '' # sa @ ?r)"
      "lex (CHR '' '' # sa @ ?r) = lex (sa @ ?r)"
    using sa by (auto simp: delim_def idch_def isalnum_def isalpha_def isspace_def)
  obtain sf where sf: "pgf_expr_print_with_paren f False = Done sf"
    "lex (sf @ CHR '' '' # sa @ ?r) = ptoks f False @ lex (sa @ ?r)"
    "lexable (sf @ CHR '' '' # sa @ ?r)"
    using "2.IH"(1) [of "CHR '' '' # sa @ ?r"] "2.prems"(1) s by auto
  show ?case
    using sa sf r by (cases np) (auto simp: isspace_def punct_def)
qed auto

definition starts_term :: "string list \<Rightarrow> bool" where
  "starts_term ts \<longleftrightarrow> (\<exists>t ts'. ts = t # ts' \<and> (t = ''('' \<or> is_ident t))"

lemma ident_is_id: "is_ident f \<Longrightarrow> pgf_expr_parser_token_is_id (Some f) \<and> f \<noteq> ''(''"
  by (cases f) (auto simp: is_ident_def pgf_expr_parser_token_is_id_def isalpha_def)

lemma term_FUN:
  assumes "pstate p (f # ts)" and "is_ident f"
  shows "\<exists>p'. pgf_expr_parser_term (Suc n) p = Done (Some (PGF_EXPR_FUN f), p') \<and> pstate p' ts"
proof -
  obtain p' where p': "pgf_expr_parser_lookahead p = (Some f, p')" "pstate p' (f # ts)"
    using lookahead_spec [OF assms(1)] by (auto simp: first_tok_def)
  from p' ident_is_id [OF assms(2)] consume_spec [OF p'(2)] show ?thesis by auto
qed

definition closes :: "string list \<Rightarrow> bool" where
  "closes ts \<longleftrightarrow> ts = [] \<or> hd ts = '')'' \<or> hd ts = '';''"

lemma term_closes:
  assumes "pstate p ts" and "closes ts"
  shows "\<exists>p'. pgf_expr_parser_term (Suc n) p = Done (None, p') \<and> pstate p' ts \<and>
    lookahead p' = first_tok ts"
proof -
  obtain p' where p': "pgf_expr_parser_lookahead p = (first_tok ts, p')" "pstate p' ts"
    "lookahead p' = first_tok ts"
    using lookahead_spec [OF assms(1)] by blast
  have "first_tok ts \<noteq> Some ''(''" "\<not> pgf_expr_parser_token_is_id (first_tok ts)"
    using assms(2)
    by (auto simp: closes_def first_tok_def pgf_expr_parser_token_is_id_def isalpha_def
        split: list.splits)
  with p' show ?thesis by simp
qed

text \<open>
  Reading a term reads the tokens of one parenthesised expression; reading an expression
  reads its head and then its arguments, one round of the argument loop for each.
\<close>

lemma term_expr_ptoks:
  "first_order e \<Longrightarrow>
     (\<forall>n p ts. 2 * nodes e + 2 \<le> n \<longrightarrow> pstate p (ptoks e True @ ts) \<longrightarrow>
        (\<exists>p'. pgf_expr_parser_term n p = Done (Some e, p') \<and> pstate p' ts)) \<and>
     (\<forall>n p ts. 2 * nodes e \<le> n \<longrightarrow> pstate p (ptoks e False @ ts) \<longrightarrow>
        (\<exists>p'. pgf_expr_parser_expr (Suc n) p = pgf_expr_parser_args (n - nargs e) e p' \<and>
           pstate p' ts))"
proof (induction e rule: nodes.induct [case_names App Abs Lit Meta Fun Var Typed Impl])
  case (App f a)
  let ?e = "PGF_EXPR_APP f a"
  have f: "\<exists>p'. pgf_expr_parser_expr (Suc n) p = pgf_expr_parser_args (n - nargs f) f p' \<and> pstate p' ts"
    if "2 * nodes f \<le> n" and "pstate p (ptoks f False @ ts)" for n p ts
    using App.IH(1) App.prems that by (metis first_order.simps(2))
  have a: "\<exists>p'. pgf_expr_parser_term n p = Done (Some a, p') \<and> pstate p' ts"
    if "2 * nodes a + 2 \<le> n" and "pstate p (ptoks a True @ ts)" for n p ts
    using App.IH(2) App.prems that by (metis first_order.simps(2))
  have spine: "\<exists>p'. pgf_expr_parser_expr (Suc n) p = pgf_expr_parser_args (n - nargs ?e) ?e p' \<and> pstate p' ts"
    if n: "2 * nodes ?e \<le> n" and p: "pstate p (ptoks ?e False @ ts)" for n p ts
  proof -
    obtain p1 where p1: "pgf_expr_parser_expr (Suc n) p = pgf_expr_parser_args (n - nargs f) f p1"
      "pstate p1 (ptoks a True @ ts)"
      using f [of n p "ptoks a True @ ts"] n p by auto
    obtain m where m: "n - nargs f = Suc m" "2 * nodes a + 2 \<le> m" "m = n - Suc (nargs f)"
      using n nargs_less [of f] by (cases "n - nargs f") auto
    obtain p2 where "pgf_expr_parser_term m p1 = Done (Some a, p2)" "pstate p2 ts"
      using a [OF m(2) p1(2)] by auto
    with p1 m show ?thesis by auto
  qed
  have "\<exists>p'. pgf_expr_parser_term n p = Done (Some ?e, p') \<and> pstate p' ts"
    if n: "2 * nodes ?e + 2 \<le> n" and p: "pstate p (ptoks ?e True @ ts)" for n p ts
  proof -
    obtain k where k: "n = Suc (Suc k)" "2 * nodes ?e \<le> k"
      using n by (cases n; cases "n - 1") auto
    obtain p1 where p1: "pgf_expr_parser_lookahead p = (Some ''('', p1)" "pstate p1 (ptoks ?e True @ ts)"
      using lookahead_spec [OF p] by (auto simp: first_tok_def)
    have "pstate (pgf_expr_parser_consume p1) (ptoks ?e False @ '')'' # ts)"
      using consume_spec [of p1 "''(''" "ptoks ?e False @ '')'' # ts"] p1(2) by simp
    then obtain p2 where p2: "pgf_expr_parser_expr (Suc k) (pgf_expr_parser_consume p1) =
        pgf_expr_parser_args (k - nargs ?e) ?e p2" "pstate p2 ('')'' # ts)"
      using spine [OF k(2)] by blast
    obtain j where j: "k - nargs ?e = Suc (Suc j)"
      using k(2) nargs_less [of ?e] by (cases "k - nargs ?e"; cases "k - nargs ?e - 1") auto
    obtain p3 where p3: "pgf_expr_parser_term (Suc j) p2 = Done (None, p3)" "pstate p3 ('')'' # ts)"
      "lookahead p3 = Some '')''"
      using term_closes [OF p2(2), of j] by (auto simp: closes_def first_tok_def)
    have p4: "pgf_expr_parser_lookahead p3 = (Some '')'', p3)"
      using p3(3) by (simp add: pgf_expr_parser_lookahead_def)
    have "pgf_expr_parser_expr (Suc k) (pgf_expr_parser_consume p1) = Done (Some ?e, p3)"
      using p2(1) j p3(1) by simp
    then have "pgf_expr_parser_term n p = Done (Some ?e, pgf_expr_parser_consume p3)"
      using k p1(1) p4 by (simp del: pgf_expr_parser_expr.simps)
    then show ?thesis
      using consume_spec [OF p3(2)] by blast
  qed
  with spine show ?case by blast
next
  case (Fun f)
  then have id: "is_ident f" by simp
  have t: "\<exists>p'. pgf_expr_parser_term n p = Done (Some (PGF_EXPR_FUN f), p') \<and> pstate p' ts"
    if "1 \<le> n" and "pstate p (f # ts)" for n p ts
    using term_FUN [OF that(2) id, of "n - 1"] that(1) by simp
  have e: "\<exists>p'. pgf_expr_parser_expr (Suc n) p = pgf_expr_parser_args n (PGF_EXPR_FUN f) p' \<and> pstate p' ts"
    if n: "1 \<le> n" and p: "pstate p (f # ts)" for n p ts
    using t [OF n p] by auto
  show ?case
  proof (intro conjI allI impI)
    fix n p ts
    assume "2 * nodes (PGF_EXPR_FUN f) + 2 \<le> n" "pstate p (ptoks (PGF_EXPR_FUN f) True @ ts)"
    then show "\<exists>p'. pgf_expr_parser_term n p = Done (Some (PGF_EXPR_FUN f), p') \<and> pstate p' ts"
      using t [of n p ts] by simp
  next
    fix n p ts
    assume "2 * nodes (PGF_EXPR_FUN f) \<le> n" "pstate p (ptoks (PGF_EXPR_FUN f) False @ ts)"
    then show "\<exists>p'. pgf_expr_parser_expr (Suc n) p =
        pgf_expr_parser_args (n - nargs (PGF_EXPR_FUN f)) (PGF_EXPR_FUN f) p' \<and> pstate p' ts"
      using e [of n p ts] by simp
  qed
qed auto

lemma expr_reads_print:
  assumes "first_order e" and "2 * nodes e \<le> n" and "pstate p (ptoks e False)"
  shows "\<exists>p'. pgf_expr_parser_expr (Suc n) p = Done (Some e, p') \<and> pstate p' [] \<and>
    lookahead p' = None"
proof -
  obtain p1 where p1: "pgf_expr_parser_expr (Suc n) p = pgf_expr_parser_args (n - nargs e) e p1"
    "pstate p1 []"
    using term_expr_ptoks [OF assms(1)] assms(2,3) by (metis append_Nil2)
  obtain j where j: "n - nargs e = Suc (Suc j)"
    using assms(2) nargs_less [of e] by (cases "n - nargs e"; cases "n - nargs e - 1") auto
  obtain p2 where "pgf_expr_parser_term (Suc j) p1 = Done (None, p2)" "pstate p2 []" "lookahead p2 = None"
    using term_closes [OF p1(2), of j] by (auto simp: closes_def first_tok_def)
  with p1 j show ?thesis by auto
qed

lemma printed_chars:
  "first_order e \<Longrightarrow> pgf_expr_print_with_paren e np = Done s \<Longrightarrow> CHR 0x00 \<notin> set s"
proof (induction e np arbitrary: s rule: ptoks.induct)
  case (1 f np)
  then show ?case
    by (auto simp: is_ident_def list_all_iff)
next
  case (2 f a np)
  then show ?case by (auto simp: run_simps)
qed auto

lemma print_read_pstate:
  assumes "first_order e" and "pgf_expr_print e = Done s"
  shows "pstate \<lparr>rdr = map Ch s, perr = False, lookahead = None, next_char = - 1\<rparr> (ptoks e False)"
  using lex_print [OF assms(1), of "[]" False] printed_chars [OF assms(1)] assms(2)
  by (auto simp: pgf_expr_print_def pstate_def rd_rest_def delim_def)



text \<open>C19. Taking an application apart gives back the function and the arguments, in order, it was
  built from; so \<open>pgf_expr_unapply\<close> undoes application, never aborts on any tree, and returns
  the null pointer exactly for the trees that are not an application of a function symbol.\<close>

theorem unapply_correct:
  "pgf_expr_unapply (apply_args c args) = Done (Some \<lparr>app_fun = PGF_EXPR_FUN c, app_args = args\<rparr>)
   \<and> (\<exists>r. pgf_expr_unapply e = Done r \<and> (r = None \<longleftrightarrow> spine e = None))
   \<and> (pgf_expr_unapply e = Done None \<longleftrightarrow> pgf_expr_arity e = - 1)"
  by (simp add: unapply_spine spine_apply_args pgf_expr_arity_def arity_loop_spine
      split: option.splits prod.splits)

text \<open>The reader accepts malformed input: after a complete expression it takes any character it
  has no token for as the end of the input, so \<open>f ? g\<close> reads as \<open>f\<close> with no exception raised;
  in particular a printed metavariable, as in \<open>f ?0\<close>, is dropped on reading.\<close>

theorem read_expr_ignores_junk:
  "pgf_read_expr 8 (map Ch ''f ? g'') = Done (Some (PGF_EXPR_FUN ''f''), False)
   \<and> pgf_expr_print (PGF_EXPR_APP (PGF_EXPR_FUN ''f'') (PGF_EXPR_META 0)) = Done ''f ?0''
   \<and> pgf_read_expr 8 (map Ch ''f ?0'') = Done (Some (PGF_EXPR_FUN ''f''), False)"
  by code_simp

end
