(* ===== verification/PgfData.thy ===== *)
theory PgfData
  imports Expr
begin

text \<open>
  The grammar data of \<open>pgf/data.h\<close> and the queries of \<open>pgf/data.c\<close> and \<open>pgf/pgf.c\<close>.

  Concrete categories (\<open>PgfCCat\<close>) are shared objects that the parser mutates and creates at run
  time, so they live in an explicit store: a \<open>ccat_id\<close> stands for a \<open>PgfCCat*\<close>, and the store
  maps it to the object. The four static literal categories of \<open>pgf/data.c\<close> have the ids
  0 to 3. A concrete function (\<open>PgfCncFun*\<close>) is immutable after reading; it is kept by value,
  with its \<open>fid\<close>, its index in the grammar's function table, which makes equality of values
  coincide with equality of pointers. A \<open>PgfCncCat*\<close> is named by the \<open>cid\<close> of its category.

  The productions of a category are a null sequence, a sequence from the grammar file, or a
  buffer (only categories created by the parser have one, and the code tells them apart by
  \<open>gu_seq_is_buf\<close>).
\<close>

subsection \<open>Grammar objects\<close>

type_synonym PgfToken = string
type_synonym PgfTokens = "PgfToken list"
type_synonym PgfFId = int
type_synonym PgfCtntId = int
type_synonym ccat_id = nat

record PgfAlternative =
  form :: PgfTokens
  prefixes :: "string list"

datatype PgfSymbol =
    PGF_SYMBOL_CAT int int
  | PGF_SYMBOL_LIT int int
  | PGF_SYMBOL_VAR int int
  | PGF_SYMBOL_KS PgfTokens
  | PGF_SYMBOL_KP PgfTokens "PgfAlternative list"

type_synonym PgfSequence = "PgfSymbol list"

record PgfCncFun =
  cncfun_fun :: PgfCId
  lins :: "PgfSequence list"
  cncfun_fid :: PgfFId

record PgfPArg =
  parg_hypos :: "ccat_id list"
  parg_ccat :: ccat_id

datatype PgfProduction =
    PGF_PRODUCTION_APPLY PgfCncFun "PgfPArg list"
  | PGF_PRODUCTION_COERCE ccat_id

datatype PgfProductions =
    Prods_Null
  | Prods_Seq "PgfProduction list"
  | Prods_Buf "PgfProduction list"

text \<open>\<open>gu_seq_is_null\<close>, \<open>gu_seq_is_buf\<close> and the elements of a production sequence.\<close>

fun prods_null :: "PgfProductions \<Rightarrow> bool" where
  "prods_null Prods_Null \<longleftrightarrow> True"
| "prods_null _ \<longleftrightarrow> False"

fun prods_is_buf :: "PgfProductions \<Rightarrow> bool" where
  "prods_is_buf (Prods_Buf _) \<longleftrightarrow> True"
| "prods_is_buf _ \<longleftrightarrow> False"

fun prods_list :: "PgfProductions \<Rightarrow> PgfProduction list" where
  "prods_list Prods_Null = []"
| "prods_list (Prods_Seq ps) = ps"
| "prods_list (Prods_Buf ps) = ps"

record PgfCCat =
  ccat_cnccat :: "PgfCId option"
  prods :: PgfProductions
  ccat_fid :: PgfFId

type_synonym ccats = "ccat_id \<rightharpoonup> PgfCCat"

record PgfCncCat =
  cnccat_cid :: PgfCId
  cats :: "ccat_id option list"
  lindefs :: "PgfCncFun list"
  n_ctnts :: nat
  ctnts :: "string list"

record PgfConcr =
  concr_id :: PgfCId
  cflags :: "string \<rightharpoonup> PgfLiteral"
  printnames :: "string \<rightharpoonup> string"
  cnccats :: "(PgfCId \<times> PgfCncCat) list"
  extra_ccats :: "ccat_id list"
  store :: ccats

datatype PgfPatt =
    PGF_PATT_APP PgfCId "PgfPatt list"
  | PGF_PATT_VAR PgfCId
  | PGF_PATT_AS PgfCId PgfPatt
  | PGF_PATT_WILD
  | PGF_PATT_LIT PgfLiteral
  | PGF_PATT_IMPL_ARG PgfPatt
  | PGF_PATT_TILDE PgfExpr

record PgfEquation =
  patts :: "PgfPatt list"
  body :: PgfExpr

record PgfFunDecl =
  fun_type :: PgfType
  defns :: "PgfEquation list option"
  prob :: u64
  arity :: int

record PgfCat =
  cat_cid :: PgfCId
  cat_context :: "PgfHypo list"
  cat_functions :: "(u64 \<times> PgfCId) list"

record PgfAbstr =
  abs_name :: PgfCId
  aflags :: "string \<rightharpoonup> PgfLiteral"
  funs :: "PgfCId \<rightharpoonup> PgfFunDecl"
  abs_cats :: "PgfCId \<rightharpoonup> PgfCat"

record PgfPGF =
  major_version :: u16
  minor_version :: u16
  gflags :: "string \<rightharpoonup> PgfLiteral"
  abstract :: PgfAbstr
  concretes :: "(PgfCId \<times> PgfConcr) list"

subsection \<open>The static literal categories\<close>

definition pgf_ccat_string :: ccat_id where "pgf_ccat_string = 0"
definition pgf_ccat_int :: ccat_id where "pgf_ccat_int = 1"
definition pgf_ccat_float :: ccat_id where "pgf_ccat_float = 2"
definition pgf_ccat_var :: ccat_id where "pgf_ccat_var = 3"

definition pgf_static_ccats :: ccats where
  "pgf_static_ccats =
     [pgf_ccat_string \<mapsto> \<lparr>ccat_cnccat = None, prods = Prods_Null, ccat_fid = - 1\<rparr>,
      pgf_ccat_int \<mapsto> \<lparr>ccat_cnccat = None, prods = Prods_Null, ccat_fid = - 2\<rparr>,
      pgf_ccat_float \<mapsto> \<lparr>ccat_cnccat = None, prods = Prods_Null, ccat_fid = - 3\<rparr>,
      pgf_ccat_var \<mapsto> \<lparr>ccat_cnccat = None, prods = Prods_Null, ccat_fid = - 4\<rparr>]"

fun pgf_literal_cat :: "PgfLiteral \<Rightarrow> ccat_id" where
  "pgf_literal_cat (PGF_LITERAL_STR s) = pgf_ccat_string"
| "pgf_literal_cat (PGF_LITERAL_INT i) = pgf_ccat_int"
| "pgf_literal_cat (PGF_LITERAL_FLT d) = pgf_ccat_float"

subsection \<open>Constituent labels\<close>

definition PGF_CTNT_ID_BAD :: PgfCtntId where
  "PGF_CTNT_ID_BAD = - 1"

fun ctnt_id_loop :: "string list \<Rightarrow> string \<Rightarrow> int \<Rightarrow> PgfCtntId" where
  "ctnt_id_loop [] ctnt i = PGF_CTNT_ID_BAD"
| "ctnt_id_loop (s # ss) ctnt i = (if ctnt = s then i else ctnt_id_loop ss ctnt (i + 1))"

definition pgf_cnccat_ctnt_id :: "PgfCncCat \<Rightarrow> string \<Rightarrow> PgfCtntId" where
  "pgf_cnccat_ctnt_id cnccat ctnt = ctnt_id_loop (ctnts cnccat) ctnt 0"

text \<open>In the queries below a null \<open>GuString\<close> is \<open>None\<close>. The categories passed in belong to the
  grammar at hand, which the code requires.\<close>

definition pgf_concr_cat_ctnt_id :: "PgfConcr \<Rightarrow> PgfCId \<Rightarrow> string option \<Rightarrow> PgfCtntId" where
  "pgf_concr_cat_ctnt_id concr cat ctnt =
     (case map_of (cnccats concr) cat of
        None \<Rightarrow> PGF_CTNT_ID_BAD
      | Some cnccat \<Rightarrow>
          (case ctnt of
             None \<Rightarrow> if n_ctnts cnccat = 1 then 0 else PGF_CTNT_ID_BAD
           | Some c \<Rightarrow> pgf_cnccat_ctnt_id cnccat c))"

definition pgf_concr_cat_ctnts :: "PgfConcr \<Rightarrow> PgfCId \<Rightarrow> string list option" where
  "pgf_concr_cat_ctnts concr cat = map_option ctnts (map_of (cnccats concr) cat)"

subsection \<open>Grammar queries\<close>

definition pgf_pgf_concr :: "PgfPGF \<Rightarrow> string \<Rightarrow> PgfConcr option" where
  "pgf_pgf_concr pgf cid = map_of (concretes pgf) cid"

definition pgf_concr_lang :: "PgfConcr \<Rightarrow> string option" where
  "pgf_concr_lang concr =
     (case cflags concr ''language'' of
        None \<Rightarrow> None
      | Some lit \<Rightarrow> (case lit of PGF_LITERAL_STR s \<Rightarrow> Some s | _ \<Rightarrow> None))"

text \<open>The first concrete grammar, in the order of the enumeration, whose language flag is \<open>lang\<close>;
  a null language string is equal to no other string.\<close>

fun concr_by_lang_loop :: "PgfConcr list \<Rightarrow> string \<Rightarrow> PgfConcr option" where
  "concr_by_lang_loop [] lang = None"
| "concr_by_lang_loop (concr # rest) lang =
     (if (case pgf_concr_lang concr of None \<Rightarrow> False | Some s \<Rightarrow> s = lang) then Some concr
      else concr_by_lang_loop rest lang)"

definition pgf_pgf_concr_by_lang :: "PgfPGF \<Rightarrow> string option \<Rightarrow> PgfConcr option run" where
  "pgf_pgf_concr_by_lang pgf lang =
     (case lang of None \<Rightarrow> Fault (Abort GU_ASSERT_PRECOND)
      | Some l \<Rightarrow> Done (concr_by_lang_loop (map snd (concretes pgf)) l))"

definition pgf_pgf_startcat :: "PgfPGF \<Rightarrow> PgfCat option" where
  "pgf_pgf_startcat pgf =
     (case aflags (abstract pgf) ''startcat'' of
        Some (PGF_LITERAL_STR s) \<Rightarrow> abs_cats (abstract pgf) s
      | _ \<Rightarrow> None)"

definition pgf_pgf_cat :: "PgfPGF \<Rightarrow> PgfCId option \<Rightarrow> PgfCat option" where
  "pgf_pgf_cat pgf cid =
     (case cid of None \<Rightarrow> pgf_pgf_startcat pgf | Some c \<Rightarrow> abs_cats (abstract pgf) c)"

subsection \<open>Properties of the queries\<close>

lemma ctnt_id_loop_spec:
  "ctnt_id_loop ss ctnt i =
     (if ctnt \<in> set ss then i + int (LEAST k. k < length ss \<and> ss ! k = ctnt) else - 1)"
proof (induction ss arbitrary: i)
  case Nil
  then show ?case by (simp add: PGF_CTNT_ID_BAD_def)
next
  case (Cons s ss)
  show ?case
  proof (cases "ctnt = s")
    case True
    then have "(LEAST k. k < length (s # ss) \<and> (s # ss) ! k = ctnt) = 0"
      by (intro Least_equality) auto
    with True show ?thesis by simp
  next
    case False
    show ?thesis
    proof (cases "ctnt \<in> set ss")
      case True
      then obtain k where "k < length ss" "ss ! k = ctnt"
        by (auto simp: in_set_conv_nth)
      then have "(LEAST k. k < length (s # ss) \<and> (s # ss) ! k = ctnt) =
          Suc (LEAST k. Suc k < length (s # ss) \<and> (s # ss) ! Suc k = ctnt)"
        using False by (intro Least_Suc [of _ "Suc k"]) auto
      with Cons.IH False True show ?thesis by simp
    qed (use Cons.IH False in simp)
  qed
qed


end
