(* ===== verification/Linearize.thy ===== *)
theory Linearize
  imports PgfData Choice
begin

text \<open>
  \<open>pgf/linearize.c\<close>: the linearizer. \<open>pgf_new_lzr\<close> indexes the productions of a concrete grammar
  bottom-up (by function and argument categories, and coercions by the category they start
  from). \<open>pgf_lzn_infer\<close> uses the index to find a concrete category and a concrete syntax tree for
  an abstract tree; where the grammar has alternatives it consults a choice object, and it
  backtracks over the arguments of an application when a combination leads nowhere.
  \<open>pgf_lzr_linearize\<close> walks a concrete tree and reports events to a presenter.

  Ids of categories that occur in a grammar resolve in its store; the category that an unknown
  id would stand for has no productions here.

  In the C code the tree is built only when a place for it is passed in; that place is written
  and never read, so the model always returns the tree.
\<close>

definition prods_of :: "ccats \<Rightarrow> ccat_id \<Rightarrow> PgfProduction list" where
  "prods_of st c = (case st c of None \<Rightarrow> [] | Some cc \<Rightarrow> prods_list (prods cc))"

subsection \<open>The index\<close>

record PgfLinInferEntry =
  entry_cat :: ccat_id
  entry_fun :: PgfCncFun

type_synonym PgfInferMap = "ccat_id list \<rightharpoonup> PgfLinInferEntry list"

record PgfLzr =
  fun_indices :: "PgfCId \<rightharpoonup> PgfInferMap"
  coerce_idx :: "ccat_id \<rightharpoonup> ccat_id list"

definition or_empty :: "'a list option \<Rightarrow> 'a list" where
  "or_empty x = (case x of None \<Rightarrow> [] | Some l \<Rightarrow> l)"

definition pgf_lzr_add_infer_entry ::
  "PgfInferMap \<Rightarrow> ccat_id \<Rightarrow> PgfCncFun \<Rightarrow> PgfPArg list \<Rightarrow> PgfInferMap" where
  "pgf_lzr_add_infer_entry infer_table cat fn args =
     (let arg_cats = map parg_ccat args;
          entries = or_empty (infer_table arg_cats)
      in infer_table(arg_cats \<mapsto> entries @ [\<lparr>entry_cat = cat, entry_fun = fn\<rparr>]))"

fun pgf_lzr_index :: "ccat_id \<Rightarrow> PgfProduction \<Rightarrow> PgfLzr \<Rightarrow> PgfLzr" where
  "pgf_lzr_index cat (PGF_PRODUCTION_APPLY fn args) lzr =
     (let f = cncfun_fun fn;
          infer = (case fun_indices lzr f of None \<Rightarrow> Map.empty | Some m \<Rightarrow> m)
      in lzr\<lparr>fun_indices := (fun_indices lzr)(f \<mapsto> pgf_lzr_add_infer_entry infer cat fn args)\<rparr>)"
| "pgf_lzr_index cat (PGF_PRODUCTION_COERCE c) lzr =
     lzr\<lparr>coerce_idx := (coerce_idx lzr)(c \<mapsto> or_empty (coerce_idx lzr c) @ [cat])\<rparr>"

definition pgf_lzr_index_ccat :: "ccats \<Rightarrow> ccat_id \<Rightarrow> PgfLzr \<Rightarrow> PgfLzr" where
  "pgf_lzr_index_ccat st cat lzr = fold (pgf_lzr_index cat) (prods_of st cat) lzr"

definition pgf_lzr_index_cnccat_cb :: "ccats \<Rightarrow> PgfCncCat \<Rightarrow> PgfLzr \<Rightarrow> PgfLzr" where
  "pgf_lzr_index_cnccat_cb st cnccat lzr =
     fold (\<lambda>c l. case c of None \<Rightarrow> l | Some cat \<Rightarrow> pgf_lzr_index_ccat st cat l) (cats cnccat) lzr"

definition pgf_new_lzr :: "PgfConcr \<Rightarrow> PgfLzr" where
  "pgf_new_lzr cnc =
     (let lzr0 = \<lparr>fun_indices = Map.empty, coerce_idx = Map.empty\<rparr>;
          lzr1 = fold (pgf_lzr_index_cnccat_cb (store cnc)) (map snd (cnccats cnc)) lzr0
      in fold (pgf_lzr_index_ccat (store cnc)) (extra_ccats cnc) lzr1)"

subsection \<open>Concrete trees and inference\<close>

datatype PgfCncTree =
    PGF_CNC_TREE_APP PgfCncFun "PgfCncTree list"
  | PGF_CNC_TREE_LIT PgfLiteral

record PgfLzn =
  lzn_lzr :: PgfLzr
  lzn_ch :: GuChoice
  lzn_expr :: "PgfExpr option"

fun pgf_lzn_pick_supercat :: "nat \<Rightarrow> PgfLzr \<Rightarrow> GuChoice \<Rightarrow> ccat_id \<Rightarrow> (ccat_id \<times> GuChoice) run" where
  "pgf_lzn_pick_supercat 0 lzr ch cat = Out_Of_Fuel"
| "pgf_lzn_pick_supercat (Suc n) lzr ch cat =
     (case coerce_idx lzr cat of
        None \<Rightarrow> Done (cat, ch)
      | Some supers \<Rightarrow>
          bindR (gu_choice_next ch (int (length supers) + 1)) (\<lambda>(c, ch').
            if c = 0 then Done (cat, ch')
            else if c < 0 then Fault Out_Of_Bounds
            else bindR (seq_at supers (nat (c - 1))) (\<lambda>cat'.
              pgf_lzn_pick_supercat n lzr ch' cat')))"

text \<open>
  The marks and the arguments inferred so far are kept as stacks with the latest on top; the
  code's index \<open>i\<close> is the number of arguments inferred, and the mark on top is \<open>marks[i]\<close>.
  \<open>backtrack\<close> is the inner \<open>do\<close> loop of \<open>pgf_lzn_infer_application\<close>: \<open>None\<close> when it leaves by
  \<open>goto finish\<close>.
\<close>

type_synonym lzn_args = "(ccat_id \<times> PgfCncTree) list"

fun backtrack ::
  "GuChoiceMark list \<Rightarrow> lzn_args \<Rightarrow> GuChoice \<Rightarrow>
     ((GuChoiceMark list \<times> lzn_args) option \<times> GuChoice) run" where
  "backtrack (m # m' # ms) (x # xs) ch =
     bindR (gu_choice_reset ch m') (\<lambda>ch1.
     bindR (gu_choice_advance ch1) (\<lambda>(b, ch2).
       if b then Done (Some (m' # ms, xs), ch2) else backtrack (m' # ms) xs ch2))"
| "backtrack ms xs ch = Done (None, ch)"

function pgf_lzn_infer ::
    "nat \<Rightarrow> PgfLzr \<Rightarrow> GuChoice \<Rightarrow> PgfExpr \<Rightarrow> ((ccat_id \<times> PgfCncTree) option \<times> GuChoice) run"
  and pgf_lzn_infer_application ::
    "nat \<Rightarrow> PgfLzr \<Rightarrow> GuChoice \<Rightarrow> PgfCId \<Rightarrow> PgfExpr list \<Rightarrow>
       ((ccat_id \<times> PgfCncTree) option \<times> GuChoice) run"
  and infer_application_loop ::
    "nat \<Rightarrow> PgfLzr \<Rightarrow> GuChoice \<Rightarrow> PgfInferMap \<Rightarrow> PgfExpr list \<Rightarrow> GuChoiceMark list \<Rightarrow> lzn_args \<Rightarrow>
       ((ccat_id \<times> PgfCncTree) option \<times> GuChoice) run"
  and pgf_lzn_infer_apply_try ::
    "nat \<Rightarrow> PgfLzr \<Rightarrow> GuChoice \<Rightarrow> PgfInferMap \<Rightarrow> PgfExpr list \<Rightarrow> GuChoiceMark list \<Rightarrow> lzn_args \<Rightarrow>
       (PgfLinInferEntry option \<times> GuChoiceMark list \<times> lzn_args \<times> GuChoice) run"
where
  "pgf_lzn_infer 0 lzr ch expr = Out_Of_Fuel"
| "pgf_lzn_infer (Suc n) lzr ch expr =
     bindR (pgf_expr_unapply expr) (\<lambda>appl.
       case appl of
         Some a \<Rightarrow>
           (case app_fun a of
              PGF_EXPR_FUN f \<Rightarrow> pgf_lzn_infer_application n lzr ch f (app_args a)
            | _ \<Rightarrow> gu_impossible)
       | None \<Rightarrow>
           (case pgf_expr_unwrap expr of
              PGF_EXPR_LIT lit \<Rightarrow> Done (Some (pgf_literal_cat lit, PGF_CNC_TREE_LIT lit), ch)
            | _ \<Rightarrow> Done (None, ch)))"
| "pgf_lzn_infer_application 0 lzr ch f args = Out_Of_Fuel"
| "pgf_lzn_infer_application (Suc n) lzr ch f args =
     (case fun_indices lzr f of
        None \<Rightarrow> Done (None, ch)
      | Some infer \<Rightarrow>
          bindR (gu_choice_mark ch) (\<lambda>m. infer_application_loop n lzr ch infer args [m] []))"
| "infer_application_loop 0 lzr ch infer args marks filled = Out_Of_Fuel"
| "infer_application_loop (Suc n) lzr ch infer args marks filled =
     bindR (pgf_lzn_infer_apply_try n lzr ch infer args marks filled)
       (\<lambda>(ret, marks1, filled1, ch1).
         case ret of
           Some entry \<Rightarrow>
             Done (Some (entry_cat entry,
                         PGF_CNC_TREE_APP (entry_fun entry) (rev (map snd filled1))), ch1)
         | None \<Rightarrow>
             bindR (backtrack marks1 filled1 ch1) (\<lambda>(r, ch2).
               case r of
                 None \<Rightarrow> Done (None, ch2)
               | Some (marks2, filled2) \<Rightarrow>
                   infer_application_loop n lzr ch2 infer args marks2 filled2))"
| "pgf_lzn_infer_apply_try 0 lzr ch infer args marks filled = Out_Of_Fuel"
| "pgf_lzn_infer_apply_try (Suc n) lzr ch infer args marks filled =
     (if length filled < length args then
        bindR (pgf_lzn_infer n lzr ch (args ! length filled)) (\<lambda>(r, ch1).
          case r of
            None \<Rightarrow> Done (None, marks, filled, ch1)
          | Some (arg_i, t) \<Rightarrow>
              bindR (pgf_lzn_pick_supercat n lzr ch1 arg_i) (\<lambda>(arg_i', ch2).
              bindR (gu_choice_mark ch2) (\<lambda>m.
                pgf_lzn_infer_apply_try n lzr ch2 infer args (m # marks) ((arg_i', t) # filled))))
      else
        (case infer (rev (map fst filled)) of
           None \<Rightarrow> Done (None, marks, filled, ch)
         | Some entries \<Rightarrow>
             bindR (gu_choice_next ch (int (length entries))) (\<lambda>(e, ch1).
               if e < 0 then Done (None, marks, filled, ch1)
               else bindR (seq_at entries (nat e)) (\<lambda>entry.
                 Done (Some entry, marks, filled, ch1)))))"
  by pat_completeness auto
termination
  by (relation "measure (case_sum (case_sum fst fst) (case_sum fst fst))") simp_all

text \<open>The search loop of \<open>pgf_lzn_next\<close>: infer, reset, and advance until a category is found.\<close>

fun lzn_search :: "nat \<Rightarrow> PgfLzr \<Rightarrow> GuChoice \<Rightarrow> PgfExpr \<Rightarrow> GuChoiceMark \<Rightarrow> (ccat_id option \<times> GuChoice) run" where
  "lzn_search 0 lzr ch expr mark = Out_Of_Fuel"
| "lzn_search (Suc n) lzr ch expr mark =
     bindR (pgf_lzn_infer n lzr ch expr) (\<lambda>(r, ch1).
     bindR (gu_choice_reset ch1 mark) (\<lambda>ch2.
       case r of
         Some (cat, _) \<Rightarrow> Done (Some cat, ch2)
       | None \<Rightarrow>
           bindR (gu_choice_advance ch2) (\<lambda>(b, ch3).
             if b then lzn_search n lzr ch3 expr mark else Done (None, ch3))))"

definition pgf_lzn_next :: "nat \<Rightarrow> PgfLzn \<Rightarrow> (PgfCncTree option \<times> PgfLzn) run" where
  "pgf_lzn_next fuel lzn =
     (case lzn_expr lzn of
        None \<Rightarrow> Done (None, lzn)
      | Some expr \<Rightarrow>
          bindR (gu_choice_mark (lzn_ch lzn)) (\<lambda>mark.
          bindR (lzn_search fuel (lzn_lzr lzn) (lzn_ch lzn) expr mark) (\<lambda>(cat, ch1).
            case cat of
              None \<Rightarrow> Done (None, lzn\<lparr>lzn_ch := ch1\<rparr>)
            | Some c \<Rightarrow>
                bindR (pgf_lzn_infer fuel (lzn_lzr lzn) ch1 expr) (\<lambda>(r2, ch2).
                  gu_assert (map_option fst r2 = Some c)
                   (bindR (gu_choice_reset ch2 mark) (\<lambda>ch3.
                    bindR (gu_choice_advance ch3) (\<lambda>(b, ch4).
                      Done (map_option snd r2,
                            lzn\<lparr>lzn_ch := ch4, lzn_expr := (if b then Some expr else None)\<rparr>))))))))"

definition pgf_lzr_concretize :: "PgfLzr \<Rightarrow> PgfExpr \<Rightarrow> PgfLzn" where
  "pgf_lzr_concretize lzr expr = \<lparr>lzn_lzr = lzr, lzn_ch = gu_new_choice, lzn_expr = Some expr\<rparr>"

subsection \<open>Linearization\<close>

datatype lin_event =
    Expr_Apply PgfCId nat
  | Symbol_Tokens PgfTokens
  | Expr_Literal PgfLiteral

fun pgf_cnc_tree_n_ctnts :: "PgfCncTree \<Rightarrow> int" where
  "pgf_cnc_tree_n_ctnts (PGF_CNC_TREE_LIT lit) = 1"
| "pgf_cnc_tree_n_ctnts (PGF_CNC_TREE_APP fn args) = int (length (lins fn))"

text \<open>The symbols of one sequence, given the linearization function of every argument.\<close>

fun lin_symbols :: "(int \<Rightarrow> lin_event list run) list \<Rightarrow> PgfSymbol list \<Rightarrow> lin_event list run" where
  "lin_symbols largs [] = Done []"
| "lin_symbols largs (s # syms) =
     bindR
       (case s of
          PGF_SYMBOL_CAT d r \<Rightarrow>
            (if d < 0 then Fault Out_Of_Bounds else bindR (seq_at largs (nat d)) (\<lambda>l. l r))
        | PGF_SYMBOL_VAR d r \<Rightarrow>
            (if d < 0 then Fault Out_Of_Bounds else bindR (seq_at largs (nat d)) (\<lambda>l. l r))
        | PGF_SYMBOL_LIT d r \<Rightarrow>
            (if d < 0 then Fault Out_Of_Bounds else bindR (seq_at largs (nat d)) (\<lambda>l. l r))
        | PGF_SYMBOL_KS toks \<Rightarrow> Done [Symbol_Tokens toks]
        | PGF_SYMBOL_KP default_form alts \<Rightarrow> Done [Symbol_Tokens default_form])
       (\<lambda>ev. bindR (lin_symbols largs syms) (\<lambda>evs. Done (ev @ evs)))"

fun pgf_lzr_linearize :: "PgfCncTree \<Rightarrow> PgfCtntId \<Rightarrow> lin_event list run" where
  "pgf_lzr_linearize (PGF_CNC_TREE_LIT lit) lin_idx =
     gu_require (lin_idx \<ge> 0) (gu_require (lin_idx = 0) (Done [Expr_Literal lit]))"
| "pgf_lzr_linearize (PGF_CNC_TREE_APP fn args) lin_idx =
     gu_require (lin_idx \<ge> 0)
      (gu_require (nat lin_idx < length (lins fn))
       (bindR (lin_symbols (map pgf_lzr_linearize args) (lins fn ! nat lin_idx)) (\<lambda>evs.
          Done (Expr_Apply (cncfun_fun fn) (length args) # evs))))"

text \<open>The presenter of \<open>pgf_lzr_linearize_simple\<close> writes the tokens, each followed by a space.\<close>

fun pgf_simple_prtr_symbol_tokens :: "lin_event \<Rightarrow> string" where
  "pgf_simple_prtr_symbol_tokens (Symbol_Tokens toks) = concat (map (\<lambda>t. t @ '' '') toks)"
| "pgf_simple_prtr_symbol_tokens _ = []"

definition pgf_lzr_linearize_simple :: "PgfCncTree \<Rightarrow> PgfCtntId \<Rightarrow> string run" where
  "pgf_lzr_linearize_simple ctree lin_idx =
     bindR (pgf_lzr_linearize ctree lin_idx) (\<lambda>evs.
       Done (concat (map pgf_simple_prtr_symbol_tokens evs)))"

subsection \<open>The index holds the productions of the grammar\<close>

type_synonym indexed_prods = "(ccat_id \<times> PgfProduction) list"

definition prods_with :: "ccats \<Rightarrow> ccat_id \<Rightarrow> indexed_prods" where
  "prods_with st c = map (Pair c) (prods_of st c)"

text \<open>Every production of the grammar with its category, in the order of indexing.\<close>

definition grammar_prods :: "PgfConcr \<Rightarrow> indexed_prods" where
  "grammar_prods cnc =
     concat (map (\<lambda>cc. concat (map (\<lambda>c. case c of None \<Rightarrow> [] | Some c' \<Rightarrow> prods_with (store cnc) c') (cats cc)))
       (map snd (cnccats cnc))) @
     concat (map (prods_with (store cnc)) (extra_ccats cnc))"

definition index_all :: "indexed_prods \<Rightarrow> PgfLzr \<Rightarrow> PgfLzr" where
  "index_all G = fold (\<lambda>(c, p). pgf_lzr_index c p) G"

lemma index_all_Nil [simp]: "index_all [] = id"
  by (auto simp: index_all_def)

lemma index_all_append: "index_all (G @ H) l = index_all H (index_all G l)"
  by (simp add: index_all_def)

lemma index_ccat_all: "pgf_lzr_index_ccat st c l = index_all (prods_with st c) l"
  by (simp add: pgf_lzr_index_ccat_def index_all_def prods_with_def fold_map comp_def)

lemma index_all_concat:
  "index_all (concat (map g xs)) = fold (\<lambda>x. index_all (g x)) xs"
  by (induction xs) (auto simp: fun_eq_iff index_all_append)

lemma new_lzr_index_all:
  "pgf_new_lzr cnc = index_all (grammar_prods cnc) \<lparr>fun_indices = Map.empty, coerce_idx = Map.empty\<rparr>"
proof -
  have "(case c of None \<Rightarrow> l | Some cat \<Rightarrow> pgf_lzr_index_ccat st cat l) =
      index_all (case c of None \<Rightarrow> [] | Some c' \<Rightarrow> prods_with st c') l" for c st l
    by (simp add: index_ccat_all split: option.splits)
  then show ?thesis
    by (simp add: pgf_new_lzr_def grammar_prods_def index_all_append index_all_concat
        pgf_lzr_index_cnccat_cb_def [abs_def] index_ccat_all [abs_def] fold_map comp_def)
qed

definition lzr_entries :: "PgfLzr \<Rightarrow> PgfCId \<Rightarrow> ccat_id list \<Rightarrow> PgfLinInferEntry list" where
  "lzr_entries lzr f cs =
     (case fun_indices lzr f of None \<Rightarrow> [] | Some m \<Rightarrow> or_empty (m cs))"

fun entry_for :: "PgfCId \<Rightarrow> ccat_id list \<Rightarrow> ccat_id \<times> PgfProduction \<Rightarrow> PgfLinInferEntry list" where
  "entry_for f cs (cat, PGF_PRODUCTION_APPLY fn args) =
     (if cncfun_fun fn = f \<and> map parg_ccat args = cs
      then [\<lparr>entry_cat = cat, entry_fun = fn\<rparr>] else [])"
| "entry_for f cs (cat, PGF_PRODUCTION_COERCE c) = []"

fun super_for :: "ccat_id \<Rightarrow> ccat_id \<times> PgfProduction \<Rightarrow> ccat_id list" where
  "super_for c (cat, PGF_PRODUCTION_COERCE c') = (if c' = c then [cat] else [])"
| "super_for c (cat, PGF_PRODUCTION_APPLY fn args) = []"

lemma entries_index:
  "lzr_entries (pgf_lzr_index c p l) f cs = lzr_entries l f cs @ entry_for f cs (c, p)"
  by (cases p)
    (auto simp: lzr_entries_def pgf_lzr_add_infer_entry_def or_empty_def Let_def
      split: option.splits)

lemma supers_index:
  "or_empty (coerce_idx (pgf_lzr_index cat p l) c) = or_empty (coerce_idx l c) @ super_for c (cat, p)"
  by (cases p) (auto simp: or_empty_def Let_def split: option.splits)

lemma entries_index_all:
  "lzr_entries (index_all G l) f cs = lzr_entries l f cs @ concat (map (entry_for f cs) G)"
  by (induction G arbitrary: l) (auto simp: index_all_def entries_index)

lemma supers_index_all:
  "or_empty (coerce_idx (index_all G l) c) = or_empty (coerce_idx l c) @ concat (map (super_for c) G)"
  by (induction G arbitrary: l) (auto simp: index_all_def supers_index)

lemma new_lzr_entries: "lzr_entries (pgf_new_lzr cnc) f cs = concat (map (entry_for f cs) (grammar_prods cnc))"
  by (simp add: new_lzr_index_all entries_index_all) (simp add: lzr_entries_def)

lemma new_lzr_supers: "or_empty (coerce_idx (pgf_new_lzr cnc) c) = concat (map (super_for c) (grammar_prods cnc))"
  by (simp add: new_lzr_index_all supers_index_all) (simp add: or_empty_def)

lemma in_entry_for:
  "e \<in> set (entry_for f cs (cat, p)) \<longleftrightarrow>
     (\<exists>args. p = PGF_PRODUCTION_APPLY (entry_fun e) args \<and> cncfun_fun (entry_fun e) = f \<and>
        map parg_ccat args = cs \<and> entry_cat e = cat)"
  by (cases p) auto

lemma in_super_for: "d \<in> set (super_for c (cat, p)) \<longleftrightarrow> p = PGF_PRODUCTION_COERCE c \<and> d = cat"
  by (cases p) auto

subsection \<open>What it means for a concrete tree to realise an abstract one\<close>

inductive supercat :: "indexed_prods \<Rightarrow> ccat_id \<Rightarrow> ccat_id \<Rightarrow> bool" for G where
  supercat_refl: "supercat G c c"
| supercat_step: "(d, PGF_PRODUCTION_COERCE c) \<in> set G \<Longrightarrow> supercat G d e \<Longrightarrow> supercat G c e"

inductive concretizes :: "indexed_prods \<Rightarrow> PgfExpr \<Rightarrow> ccat_id \<Rightarrow> PgfCncTree \<Rightarrow> bool" for G where
  concr_lit: "spine e = None \<Longrightarrow> pgf_expr_unwrap e = PGF_EXPR_LIT l \<Longrightarrow>
     concretizes G e (pgf_literal_cat l) (PGF_CNC_TREE_LIT l)"
| concr_app: "spine e = Some (cncfun_fun fn, args) \<Longrightarrow> (cat, PGF_PRODUCTION_APPLY fn pargs) \<in> set G \<Longrightarrow>
     length pargs = length args \<Longrightarrow> length ts = length args \<Longrightarrow>
     (\<And>i. i < length args \<Longrightarrow>
        \<exists>c. concretizes G (args ! i) c (ts ! i) \<and> supercat G c (parg_ccat (pargs ! i))) \<Longrightarrow>
     concretizes G e cat (PGF_CNC_TREE_APP fn ts)"

definition arg_ok :: "indexed_prods \<Rightarrow> PgfExpr \<Rightarrow> ccat_id \<times> PgfCncTree \<Rightarrow> bool" where
  "arg_ok G e x \<longleftrightarrow> (\<exists>c. concretizes G e c (snd x) \<and> supercat G c (fst x))"

definition filled_ok :: "indexed_prods \<Rightarrow> PgfExpr list \<Rightarrow> lzn_args \<Rightarrow> bool" where
  "filled_ok G args filled \<longleftrightarrow>
     length filled \<le> length args \<and> (\<forall>i < length filled. arg_ok G (args ! i) (rev filled ! i))"

lemma filled_ok_Nil [simp]: "filled_ok G args []"
  by (simp add: filled_ok_def)

lemma filled_ok_push:
  "filled_ok G args filled \<Longrightarrow> length filled < length args \<Longrightarrow>
     arg_ok G (args ! length filled) x \<Longrightarrow> filled_ok G args (x # filled)"
  by (auto simp: filled_ok_def nth_append less_Suc_eq)

lemma filled_ok_pop: "filled_ok G args (x # filled) \<Longrightarrow> filled_ok G args filled"
proof -
  assume a: "filled_ok G args (x # filled)"
  show ?thesis
    unfolding filled_ok_def
  proof (intro conjI allI impI)
    show "length filled \<le> length args"
      using a by (simp add: filled_ok_def)
    fix i
    assume i: "i < length filled"
    with a have "arg_ok G (args ! i) (rev (x # filled) ! i)"
      by (simp add: filled_ok_def)
    with i show "arg_ok G (args ! i) (rev filled ! i)"
      by (simp add: nth_append)
  qed
qed

lemma backtrack_filled_ok:
  "filled_ok G args filled \<Longrightarrow> backtrack marks filled ch = Done (Some (marks', filled'), ch') \<Longrightarrow>
     filled_ok G args filled'"
proof (induction marks filled ch rule: backtrack.induct)
  case (1 m m' ms x xs ch)
  from "1.prems" show ?case
    by (auto simp: run_simps split: if_splits dest: filled_ok_pop intro: "1.IH")
qed auto

subsection \<open>Inference is sound\<close>

lemma supercat_trans1: "supercat G c d \<Longrightarrow> (e, PGF_PRODUCTION_COERCE d) \<in> set G \<Longrightarrow> supercat G c e"
  by (induction rule: supercat.induct) (auto intro: supercat.intros)

lemma supercat_trans: "supercat G c d \<Longrightarrow> supercat G d e \<Longrightarrow> supercat G c e"
  by (induction rule: supercat.induct) (auto intro: supercat.intros)

lemma pick_supercat_sound:
  "pgf_lzn_pick_supercat n (pgf_new_lzr cnc) ch cat = Done (cat', ch') \<Longrightarrow>
     supercat (grammar_prods cnc) cat cat'"
proof (induction n arbitrary: ch cat)
  case (Suc n)
  show ?case
  proof (cases "coerce_idx (pgf_new_lzr cnc) cat")
    case None
    with Suc.prems show ?thesis by (auto intro: supercat.intros)
  next
    case (Some supers)
    then have s: "supers = concat (map (super_for cat) (grammar_prods cnc))"
      using new_lzr_supers [of cnc cat] by (simp add: or_empty_def)
    have st: "(d, PGF_PRODUCTION_COERCE cat) \<in> set (grammar_prods cnc)" if "d \<in> set supers" for d
      using that s by (auto simp: in_super_for)
    obtain c ch1 where nx: "gu_choice_next ch (int (length supers) + 1) = Done (c, ch1)"
      and r: "(if c = 0 then Done (cat, ch1) else if c < 0 then Fault Out_Of_Bounds
        else bindR (seq_at supers (nat (c - 1))) (\<lambda>cat'.
          pgf_lzn_pick_supercat n (pgf_new_lzr cnc) ch1 cat')) = Done (cat', ch')"
      using Suc.prems Some by (auto elim!: bindR_DoneE)
    show ?thesis
    proof (cases "c = 0")
      case True
      with r show ?thesis by (simp add: supercat_refl)
    next
      case False
      with r have k: "nat (c - 1) < length supers"
        and rec: "pgf_lzn_pick_supercat n (pgf_new_lzr cnc) ch1 (supers ! nat (c - 1)) = Done (cat', ch')"
        by (auto simp: run_simps split: if_splits)
      show ?thesis
        by (rule supercat_step [OF st [OF nth_mem [OF k]] Suc.IH [OF rec]])
    qed
  qed
qed simp

text \<open>The four mutually recursive functions, by induction on the fuel they share.\<close>

definition infer_sound :: "PgfConcr \<Rightarrow> nat \<Rightarrow> bool" where
  "infer_sound cnc n \<longleftrightarrow> (\<forall>ch e c t ch'.
     pgf_lzn_infer n (pgf_new_lzr cnc) ch e = Done (Some (c, t), ch') \<longrightarrow>
       concretizes (grammar_prods cnc) e c t)"

lemma infer_soundD:
  "infer_sound cnc n \<Longrightarrow> pgf_lzn_infer n (pgf_new_lzr cnc) ch e = Done (Some (c, t), ch') \<Longrightarrow>
     concretizes (grammar_prods cnc) e c t"
  unfolding infer_sound_def by blast

lemma apply_try_sound:
  assumes "\<And>m. m < n \<Longrightarrow> infer_sound cnc m"
    and "filled_ok (grammar_prods cnc) args filled"
    and "pgf_lzn_infer_apply_try n (pgf_new_lzr cnc) ch infer args marks filled =
       Done (ret, marks', filled', ch')"
  shows "filled_ok (grammar_prods cnc) args filled' \<and>
    (\<forall>entry. ret = Some entry \<longrightarrow> length filled' = length args \<and>
       entry \<in> set (or_empty (infer (rev (map fst filled')))))"
  using assms
proof (induction n arbitrary: ch marks filled)
  case (Suc n)
  show ?case
  proof (cases "length filled < length args")
    case False
    have "length filled = length args"
      using False Suc.prems(2) by (simp add: filled_ok_def)
    then show ?thesis
      using False Suc.prems(2,3)
      by (auto simp: run_simps or_empty_def split: option.splits if_splits)
  next
    case True
    obtain r ch1 where r: "pgf_lzn_infer n (pgf_new_lzr cnc) ch (args ! length filled) = Done (r, ch1)"
      using Suc.prems(3) True by (auto elim!: bindR_DoneE)
    show ?thesis
    proof (cases r)
      case None
      with True r Suc.prems(2,3) show ?thesis by auto
    next
      case (Some x)
      then obtain arg_i t where x: "r = Some (arg_i, t)" by (cases x) auto
      obtain arg_i' ch2 m where
        p: "pgf_lzn_pick_supercat n (pgf_new_lzr cnc) ch1 arg_i = Done (arg_i', ch2)" and
        rec: "pgf_lzn_infer_apply_try n (pgf_new_lzr cnc) ch2 infer args (m # marks)
           ((arg_i', t) # filled) = Done (ret, marks', filled', ch')"
        using Suc.prems(3) True r x by (auto elim!: bindR_DoneE)
      have "concretizes (grammar_prods cnc) (args ! length filled) arg_i t"
        using Suc.prems(1) [of n] r x by (auto intro: infer_soundD)
      then have "arg_ok (grammar_prods cnc) (args ! length filled) (arg_i', t)"
        using pick_supercat_sound [OF p] by (auto simp: arg_ok_def)
      then have ok: "filled_ok (grammar_prods cnc) args ((arg_i', t) # filled)"
        using filled_ok_push [OF Suc.prems(2) True] by blast
      show ?thesis
        using Suc.IH [OF _ ok rec] Suc.prems(1) by simp
    qed
  qed
qed simp

lemma application_loop_sound:
  assumes "\<And>m. m < n \<Longrightarrow> infer_sound cnc m"
    and "filled_ok (grammar_prods cnc) args filled"
    and "infer_application_loop n (pgf_new_lzr cnc) ch infer args marks filled = Done (Some (c, t), ch')"
  shows "\<exists>entry xs. c = entry_cat entry \<and> t = PGF_CNC_TREE_APP (entry_fun entry) (rev (map snd xs)) \<and>
    filled_ok (grammar_prods cnc) args xs \<and> length xs = length args \<and>
    entry \<in> set (or_empty (infer (rev (map fst xs))))"
  using assms
proof (induction n arbitrary: ch marks filled)
  case (Suc n)
  obtain ret marks1 filled1 ch1 where
    tr: "pgf_lzn_infer_apply_try n (pgf_new_lzr cnc) ch infer args marks filled =
      Done (ret, marks1, filled1, ch1)"
    using Suc.prems(3) by (auto elim!: bindR_DoneE)
  have ok: "filled_ok (grammar_prods cnc) args filled1 \<and>
      (\<forall>entry. ret = Some entry \<longrightarrow> length filled1 = length args \<and>
        entry \<in> set (or_empty (infer (rev (map fst filled1)))))"
    by (rule apply_try_sound [OF _ Suc.prems(2) tr]) (use Suc.prems(1) in auto)
  show ?case
  proof (cases ret)
    case (Some entry)
    with ok tr Suc.prems(3) show ?thesis by auto
  next
    case None
    then obtain r ch2 where bt: "backtrack marks1 filled1 ch1 = Done (r, ch2)"
      using Suc.prems(3) tr by (auto elim!: bindR_DoneE)
    then obtain marks2 filled2 where r: "r = Some (marks2, filled2)"
      using Suc.prems(3) tr None by (cases r) auto
    have rec: "infer_application_loop n (pgf_new_lzr cnc) ch2 infer args marks2 filled2 =
        Done (Some (c, t), ch')"
      using Suc.prems(3) tr None bt r by auto
    show ?thesis
      using Suc.IH [OF _ _ rec] Suc.prems(1) backtrack_filled_ok bt r ok by auto
  qed
qed simp

lemma application_sound:
  assumes "\<And>m. m < n \<Longrightarrow> infer_sound cnc m"
    and "pgf_lzn_infer_application n (pgf_new_lzr cnc) ch f args = Done (Some (c, t), ch')"
    and "spine e = Some (f, args)"
  shows "concretizes (grammar_prods cnc) e c t"
proof -
  obtain k where n: "n = Suc k"
    using assms(2) by (cases n) auto
  obtain infer where infer: "fun_indices (pgf_new_lzr cnc) f = Some infer"
    using assms(2) n by (auto split: option.splits)
  obtain m where loop: "infer_application_loop k (pgf_new_lzr cnc) ch infer args [m] [] = Done (Some (c, t), ch')"
    using assms(2) n infer by (auto elim!: bindR_DoneE)
  obtain entry xs where x: "c = entry_cat entry" "t = PGF_CNC_TREE_APP (entry_fun entry) (rev (map snd xs))"
    "filled_ok (grammar_prods cnc) args xs" "length xs = length args"
    "entry \<in> set (or_empty (infer (rev (map fst xs))))"
    using application_loop_sound [OF _ filled_ok_Nil loop] assms(1) n by (auto simp: less_Suc_eq)
  have "entry \<in> set (lzr_entries (pgf_new_lzr cnc) f (rev (map fst xs)))"
    using x(5) by (simp add: lzr_entries_def infer)
  then obtain pargs where p: "(c, PGF_PRODUCTION_APPLY (entry_fun entry) pargs) \<in> set (grammar_prods cnc)"
    "cncfun_fun (entry_fun entry) = f" "map parg_ccat pargs = rev (map fst xs)"
    using x(1) unfolding new_lzr_entries by (auto simp: in_entry_for)
  have len: "length pargs = length args"
    using p(3) x(4) by (metis length_map length_rev)
  have nth: "parg_ccat (pargs ! i) = fst (rev xs ! i)" if "i < length args" for i
    using that p(3) len x(4) by (metis length_rev nth_map rev_map)
  show ?thesis
    unfolding x(2)
  proof (rule concr_app [OF _ p(1)])
    fix i
    assume i: "i < length args"
    with x(3,4) have "arg_ok (grammar_prods cnc) (args ! i) (rev xs ! i)"
      by (simp add: filled_ok_def)
    then show "\<exists>c. concretizes (grammar_prods cnc) (args ! i) c (rev (map snd xs) ! i) \<and>
        supercat (grammar_prods cnc) c (parg_ccat (pargs ! i))"
      using i x(4) nth [OF i] by (auto simp: arg_ok_def rev_map)
  qed (use assms(3) p len x in auto)
qed

lemma infer_sound_all: "infer_sound cnc n"
proof (induction n rule: less_induct)
  case (less n)
  show ?case
    unfolding infer_sound_def
  proof (intro allI impI)
    fix ch e c t ch'
    assume run: "pgf_lzn_infer n (pgf_new_lzr cnc) ch e = Done (Some (c, t), ch')"
    then obtain k where n: "n = Suc k" by (cases n) auto
    show "concretizes (grammar_prods cnc) e c t"
    proof (cases "spine e")
      case None
      with run n show ?thesis
        by (auto simp: unapply_spine split: PgfExpr.splits intro: concr_lit)
    next
      case (Some x)
      then obtain f args where s: "spine e = Some (f, args)" by (cases x) auto
      with run n have "pgf_lzn_infer_application k (pgf_new_lzr cnc) ch f args = Done (Some (c, t), ch')"
        by (simp add: unapply_spine)
      from application_sound [OF _ this s] less n show ?thesis by simp
    qed
  qed
qed

lemma lzn_next_infers:
  assumes "pgf_lzn_next fuel lzn = Done (Some t, lzn')"
  obtains expr c ch ch' where "lzn_expr lzn = Some expr"
    and "pgf_lzn_infer fuel (lzn_lzr lzn) ch expr = Done (Some (c, t), ch')"
  using assms
  by (auto simp: pgf_lzn_next_def run_simps split: option.splits)

subsection \<open>The token strings of a concrete tree\<close>

text \<open>
  The reference semantics of concrete trees: \<open>tree_yields t r w\<close> says that \<open>w\<close> is a token string
  of constituent \<open>r\<close> of \<open>t\<close>. A prefix-dependent symbol may take its default form or any of its
  alternative forms.
\<close>

inductive tree_yields :: "PgfCncTree \<Rightarrow> int \<Rightarrow> PgfTokens \<Rightarrow> bool"
  and seq_yields :: "PgfCncTree list \<Rightarrow> PgfSymbol list \<Rightarrow> PgfTokens \<Rightarrow> bool"
  and sym_yields :: "PgfCncTree list \<Rightarrow> PgfSymbol \<Rightarrow> PgfTokens \<Rightarrow> bool"
where
  yields_app: "0 \<le> r \<Longrightarrow> nat r < length (lins fn) \<Longrightarrow> seq_yields ts (lins fn ! nat r) w \<Longrightarrow>
     tree_yields (PGF_CNC_TREE_APP fn ts) r w"
| yields_lit: "tree_yields (PGF_CNC_TREE_LIT l) 0 []"
| yields_Nil: "seq_yields ts [] []"
| yields_Cons: "sym_yields ts s u \<Longrightarrow> seq_yields ts ss v \<Longrightarrow> seq_yields ts (s # ss) (u @ v)"
| yields_cat: "0 \<le> d \<Longrightarrow> nat d < length ts \<Longrightarrow> tree_yields (ts ! nat d) r w \<Longrightarrow>
     s = PGF_SYMBOL_CAT d r \<or> s = PGF_SYMBOL_VAR d r \<or> s = PGF_SYMBOL_LIT d r \<Longrightarrow>
     sym_yields ts s w"
| yields_ks: "sym_yields ts (PGF_SYMBOL_KS toks) toks"
| yields_kp: "sym_yields ts (PGF_SYMBOL_KP toks alts) toks"
| yields_kp_alt: "a \<in> set alts \<Longrightarrow> sym_yields ts (PGF_SYMBOL_KP toks alts) (form a)"

fun event_tokens :: "lin_event \<Rightarrow> PgfTokens" where
  "event_tokens (Symbol_Tokens toks) = toks"
| "event_tokens _ = []"

definition events_tokens :: "lin_event list \<Rightarrow> PgfTokens" where
  "events_tokens evs = concat (map event_tokens evs)"

lemma events_tokens_simps [simp]:
  "events_tokens [] = []"
  "events_tokens (e # es) = event_tokens e @ events_tokens es"
  "events_tokens (es @ fs) = events_tokens es @ events_tokens fs"
  by (simp_all add: events_tokens_def)

lemma lin_symbols_yields:
  assumes "\<And>t i evs. t \<in> set ts \<Longrightarrow> pgf_lzr_linearize t i = Done evs \<Longrightarrow> tree_yields t i (events_tokens evs)"
    and "lin_symbols (map pgf_lzr_linearize ts) syms = Done evs"
  shows "seq_yields ts syms (events_tokens evs)"
  using assms(2)
proof (induction syms arbitrary: evs)
  case Nil
  then show ?case by (simp add: yields_Nil)
next
  case (Cons s syms)
  have arg: "sym_yields ts s (events_tokens ev)"
    if "\<not> d < 0" and "nat d < length ts" and "pgf_lzr_linearize (ts ! nat d) r = Done ev"
      and "s = PGF_SYMBOL_CAT d r \<or> s = PGF_SYMBOL_VAR d r \<or> s = PGF_SYMBOL_LIT d r" for d r ev
    using that assms(1) by (auto intro!: yields_cat [of d])
  from Cons.prems obtain ev evs' where r: "lin_symbols (map pgf_lzr_linearize ts) syms = Done evs'"
    "evs = ev @ evs'" and s: "sym_yields ts s (events_tokens ev)"
  proof (cases s)
    case (PGF_SYMBOL_CAT d i)
    with Cons.prems arg [of d i] that show ?thesis by (auto simp: run_simps split: if_splits)
  next
    case (PGF_SYMBOL_LIT d i)
    with Cons.prems arg [of d i] that show ?thesis by (auto simp: run_simps split: if_splits)
  next
    case (PGF_SYMBOL_VAR d i)
    with Cons.prems arg [of d i] that show ?thesis by (auto simp: run_simps split: if_splits)
  next
    case (PGF_SYMBOL_KS toks)
    with Cons.prems that [of _ "[Symbol_Tokens toks]"] show ?thesis
      by (auto simp: run_simps yields_ks)
  next
    case (PGF_SYMBOL_KP toks alts)
    with Cons.prems that [of _ "[Symbol_Tokens toks]"] show ?thesis
      by (auto simp: run_simps yields_kp)
  qed
  show ?case
    using yields_Cons [OF s Cons.IH [OF r(1)]] r(2) by simp
qed

lemma linearize_yields:
  "pgf_lzr_linearize t i = Done evs \<Longrightarrow> tree_yields t i (events_tokens evs)"
proof (induction t i arbitrary: evs rule: pgf_lzr_linearize.induct)
  case (1 lit i)
  then show ?case by (auto simp: run_simps intro: yields_lit)
next
  case (2 fn args i)
  then obtain evs' where "0 \<le> i" "nat i < length (lins fn)"
    "lin_symbols (map pgf_lzr_linearize args) (lins fn ! nat i) = Done evs'"
    "evs = Expr_Apply (cncfun_fun fn) (length args) # evs'"
    by (auto simp: run_simps)
  moreover have "seq_yields args (lins fn ! nat i) (events_tokens evs')"
    by (rule lin_symbols_yields) (use "2.IH" calculation in auto)
  ultimately show ?case by (auto intro: yields_app)
qed

subsection \<open>Linearization of well-typed trees never aborts\<close>

text \<open>
  A dimension for every category: what \<open>pgf_ccat_n_ctnts\<close> of the reader computes and checks. In a
  well-formed grammar every production of a category has as many sequences as its dimension, and
  every symbol refers to an argument, and to a constituent of it, that exist.
\<close>

fun sym_ok :: "(ccat_id \<Rightarrow> nat) \<Rightarrow> PgfPArg list \<Rightarrow> PgfSymbol \<Rightarrow> bool" where
  "sym_ok dim pargs (PGF_SYMBOL_CAT d r) \<longleftrightarrow>
     0 \<le> d \<and> nat d < length pargs \<and> 0 \<le> r \<and> nat r < dim (parg_ccat (pargs ! nat d))"
| "sym_ok dim pargs (PGF_SYMBOL_LIT d r) \<longleftrightarrow>
     0 \<le> d \<and> nat d < length pargs \<and> 0 \<le> r \<and> nat r < dim (parg_ccat (pargs ! nat d))"
| "sym_ok dim pargs (PGF_SYMBOL_VAR d r) \<longleftrightarrow>
     0 \<le> d \<and> nat d < length pargs \<and> 0 \<le> r \<and> nat r < dim (parg_ccat (pargs ! nat d))"
| "sym_ok dim pargs _ \<longleftrightarrow> True"

fun prod_ok :: "(ccat_id \<Rightarrow> nat) \<Rightarrow> ccat_id \<times> PgfProduction \<Rightarrow> bool" where
  "prod_ok dim (c, PGF_PRODUCTION_APPLY fn pargs) \<longleftrightarrow>
     length (lins fn) = dim c \<and> list_all (list_all (sym_ok dim pargs)) (lins fn)"
| "prod_ok dim (c, PGF_PRODUCTION_COERCE c') \<longleftrightarrow> dim c = dim c'"

definition wf_prods :: "(ccat_id \<Rightarrow> nat) \<Rightarrow> indexed_prods \<Rightarrow> bool" where
  "wf_prods dim G \<longleftrightarrow> list_all (prod_ok dim) G \<and>
     dim pgf_ccat_string = 1 \<and> dim pgf_ccat_int = 1 \<and> dim pgf_ccat_float = 1"

lemma supercat_dim: "supercat G c d \<Longrightarrow> wf_prods dim G \<Longrightarrow> dim c = dim d"
  by (induction rule: supercat.induct) (fastforce simp: wf_prods_def list_all_iff)+

lemma lin_symbols_total:
  assumes "list_all (sym_ok dim pargs) syms" and "length ts = length pargs"
    and "\<And>d r. d < length ts \<Longrightarrow> 0 \<le> r \<Longrightarrow> nat r < dim (parg_ccat (pargs ! d)) \<Longrightarrow>
       \<exists>evs. pgf_lzr_linearize (ts ! d) r = Done evs"
  shows "\<exists>evs. lin_symbols (map pgf_lzr_linearize ts) syms = Done evs"
  using assms(1)
proof (induction syms)
  case (Cons s syms)
  then obtain evs where evs: "lin_symbols (map pgf_lzr_linearize ts) syms = Done evs" by auto
  have a: "\<exists>ev. bindR (seq_at (map pgf_lzr_linearize ts) (nat d)) (\<lambda>l. l r) = Done ev"
    if "nat d < length pargs" "0 \<le> r" "nat r < dim (parg_ccat (pargs ! nat d))" for d r
    using that assms(2,3) by simp
  show ?case
  proof (cases s)
    case (PGF_SYMBOL_CAT d r)
    with Cons.prems a [of d r] evs show ?thesis by auto
  next
    case (PGF_SYMBOL_LIT d r)
    with Cons.prems a [of d r] evs show ?thesis by auto
  next
    case (PGF_SYMBOL_VAR d r)
    with Cons.prems a [of d r] evs show ?thesis by auto
  qed (use evs in auto)
qed simp

lemma linearize_total:
  assumes "concretizes G e c t" and "wf_prods dim G" and "0 \<le> i" and "nat i < dim c"
  shows "\<exists>evs. pgf_lzr_linearize t i = Done evs"
  using assms
proof (induction arbitrary: i rule: concretizes.induct)
  case (concr_lit e l)
  then have "dim (pgf_literal_cat l) = 1" by (cases l) (auto simp: wf_prods_def)
  with concr_lit show ?case by simp
next
  case (concr_app e fn args cat pargs ts)
  have p: "length (lins fn) = dim cat" "list_all (list_all (sym_ok dim pargs)) (lins fn)"
    using concr_app.hyps(2) concr_app.prems(1) by (auto simp: wf_prods_def list_all_iff)
  have "\<exists>evs. lin_symbols (map pgf_lzr_linearize ts) (lins fn ! nat i) = Done evs"
  proof (rule lin_symbols_total)
    show "list_all (sym_ok dim pargs) (lins fn ! nat i)"
      using p concr_app.prems(3) by (simp add: list_all_length)
  next
    fix d :: nat and r :: int
    assume d: "d < length ts" "0 \<le> r" "nat r < dim (parg_ccat (pargs ! d))"
    then obtain c where c: "supercat G c (parg_ccat (pargs ! d))"
      "\<And>i. wf_prods dim G \<Longrightarrow> 0 \<le> i \<Longrightarrow> nat i < dim c \<Longrightarrow> \<exists>evs. pgf_lzr_linearize (ts ! d) i = Done evs"
      using concr_app.IH [of d] concr_app.hyps(4) by auto
    show "\<exists>evs. pgf_lzr_linearize (ts ! d) r = Done evs"
      using c(2) [OF concr_app.prems(1) d(2)] d(3) supercat_dim [OF c(1) concr_app.prems(1)] by simp
  qed (use concr_app.hyps in simp)
  with concr_app.prems p show ?case by auto
qed

lemma dim_literal: "wf_prods dim G \<Longrightarrow> dim (pgf_literal_cat l) = 1"
  by (cases l) (auto simp: wf_prods_def)

lemma n_ctnts_dim:
  "concretizes G e c t \<Longrightarrow> wf_prods dim G \<Longrightarrow> pgf_cnc_tree_n_ctnts t = int (dim c)"
  by (erule concretizes.cases) (auto simp: dim_literal, fastforce simp: wf_prods_def list_all_iff)

subsection \<open>Properties\<close>

text \<open>C13. After \<open>pgf_new_lzr\<close> the index lists, for a function and argument categories, exactly the
  categories and concrete functions of the application productions of the grammar with that
  function and those argument categories, and for a category exactly the categories that
  coerce to it; both in grammar order and with nothing lost to another key.\<close>

theorem lzr_index_exact:
  "lzr_entries (pgf_new_lzr cnc) f cs = concat (map (entry_for f cs) (grammar_prods cnc)) \<and>
   or_empty (coerce_idx (pgf_new_lzr cnc) c) = concat (map (super_for c) (grammar_prods cnc))"
  by (simp add: new_lzr_entries new_lzr_supers)

text \<open>C9. Every concrete tree that \<open>pgf_lzn_next\<close> returns realises the abstract tree it was asked for:
  each application node uses a production of the grammar for the function at the head of the
  abstract node, each argument tree realises the corresponding argument, and its category reaches the
  production's argument category by coercions of the grammar.\<close>

theorem lzn_next_sound:
  assumes "lzn_lzr lzn = pgf_new_lzr cnc" and "lzn_expr lzn = Some expr"
    and "pgf_lzn_next fuel lzn = Done (Some t, lzn')"
  shows "\<exists>cat. concretizes (grammar_prods cnc) expr cat t"
proof -
  obtain c ch ch' where "pgf_lzn_infer fuel (pgf_new_lzr cnc) ch expr = Done (Some (c, t), ch')"
    using lzn_next_infers [OF assms(3)] assms(1,2) by (metis option.inject)
  then show ?thesis
    using infer_soundD [OF infer_sound_all] by blast
qed

text \<open>C10. In a well-formed grammar a tree found by \<open>pgf_lzn_next\<close> has as many constituents as its
  category, every one of them linearizes without an abort, and the tokens reported to
  the presenter are a token string of that constituent.\<close>

theorem linearize_concretized:
  assumes "lzn_lzr lzn = pgf_new_lzr cnc" and "pgf_lzn_next fuel lzn = Done (Some t, lzn')"
    and "wf_prods dim (grammar_prods cnc)" and "0 \<le> i" and "i < pgf_cnc_tree_n_ctnts t"
  shows "\<exists>evs. pgf_lzr_linearize t i = Done evs \<and> tree_yields t i (events_tokens evs)"
proof -
  obtain expr c ch ch' where "pgf_lzn_infer fuel (pgf_new_lzr cnc) ch expr = Done (Some (c, t), ch')"
    using lzn_next_infers [OF assms(2)] assms(1) by metis
  then have c: "concretizes (grammar_prods cnc) expr c t"
    using infer_soundD [OF infer_sound_all] by blast
  moreover have "nat i < dim c"
    using n_ctnts_dim [OF c assms(3)] assms(4,5) by simp
  ultimately show ?thesis
    using linearize_total assms(3,4) linearize_yields by blast
qed

subsection \<open>A small grammar\<close>

text \<open>One category with a word and a modifier: \<open>big (big dog)\<close> is the abstract tree
  \<open>Mod (Mod Dog)\<close>; a second category coerces to the first.\<close>

definition ex_dog :: PgfCncFun where
  "ex_dog = \<lparr>cncfun_fun = ''Dog'', lins = [[PGF_SYMBOL_KS [''dog'']]], cncfun_fid = 0\<rparr>"

definition ex_mod :: PgfCncFun where
  "ex_mod = \<lparr>cncfun_fun = ''Mod'',
     lins = [[PGF_SYMBOL_KS [''big''], PGF_SYMBOL_CAT 0 0]], cncfun_fid = 1\<rparr>"

definition ex_concr :: PgfConcr where
  "ex_concr = \<lparr>concr_id = ''Ex'', cflags = Map.empty, printnames = Map.empty,
     cnccats = [(''N'', \<lparr>cnccat_cid = ''N'', cats = [Some 10], lindefs = [], n_ctnts = 1, ctnts = [''s'']\<rparr>)],
     extra_ccats = [11],
     store = pgf_static_ccats(
       10 \<mapsto> \<lparr>ccat_cnccat = Some ''N'', prods = Prods_Seq [PGF_PRODUCTION_APPLY ex_dog [],
          PGF_PRODUCTION_APPLY ex_mod [\<lparr>parg_hypos = [], parg_ccat = 11\<rparr>]], ccat_fid = 10\<rparr>,
       11 \<mapsto> \<lparr>ccat_cnccat = Some ''N'', prods = Prods_Seq [PGF_PRODUCTION_COERCE 10], ccat_fid = 11\<rparr>)\<rparr>"

definition ex_tree :: PgfExpr where
  "ex_tree = PGF_EXPR_APP (PGF_EXPR_FUN ''Mod'') (PGF_EXPR_FUN ''Dog'')"

definition ex_ctree :: PgfCncTree where
  "ex_ctree = PGF_CNC_TREE_APP ex_mod [PGF_CNC_TREE_APP ex_dog []]"

lemma ex_wf: "wf_prods (\<lambda>c. 1) (grammar_prods ex_concr)"
  by code_simp

lemma ex_next:
  "map_option fst (case pgf_lzn_next 30 (pgf_lzr_concretize (pgf_new_lzr ex_concr) ex_tree) of
     Done x \<Rightarrow> Some x | _ \<Rightarrow> None) = Some (Some ex_ctree)"
  by code_simp

lemma ex_next_run:
  obtains lzn' where
    "pgf_lzn_next 30 (pgf_lzr_concretize (pgf_new_lzr ex_concr) ex_tree) = Done (Some ex_ctree, lzn')"
  using ex_next by (auto split: run.splits)

theorem lzn_next_sound_witness:
  "\<exists>lzn' cat. pgf_lzn_next 30 (pgf_lzr_concretize (pgf_new_lzr ex_concr) ex_tree) = Done (Some ex_ctree, lzn') \<and>
     concretizes (grammar_prods ex_concr) ex_tree cat ex_ctree"
proof -
  obtain lzn' where r: "pgf_lzn_next 30 (pgf_lzr_concretize (pgf_new_lzr ex_concr) ex_tree) = Done (Some ex_ctree, lzn')"
    by (rule ex_next_run)
  from lzn_next_sound [OF _ _ r, of ex_concr ex_tree] r show ?thesis
    by (auto simp: pgf_lzr_concretize_def)
qed

theorem linearize_concretized_witness:
  "\<exists>evs. pgf_lzr_linearize ex_ctree 0 = Done evs \<and> tree_yields ex_ctree 0 (events_tokens evs) \<and>
     events_tokens evs = [''big'', ''dog'']"
proof -
  obtain lzn' where r: "pgf_lzn_next 30 (pgf_lzr_concretize (pgf_new_lzr ex_concr) ex_tree) = Done (Some ex_ctree, lzn')"
    by (rule ex_next_run)
  obtain evs where e: "pgf_lzr_linearize ex_ctree 0 = Done evs" "tree_yields ex_ctree 0 (events_tokens evs)"
    using linearize_concretized [OF _ r ex_wf, of 0]
    by (auto simp: pgf_lzr_concretize_def ex_ctree_def ex_mod_def)
  then have "events_tokens evs = [''big'', ''dog'']"
    by (auto simp: ex_ctree_def ex_mod_def ex_dog_def)
  with e show ?thesis by blast
qed

end
