(* ===== verification/Prime.thy ===== *)
theory Prime
  imports Prelude
begin

text \<open>
  \<open>gu/prime.c\<close>: trial division on the wheel of residues modulo 30, and the search for primes and
  twin primes next to a number, which gives the hash tables their sizes. C \<open>int\<close> is modelled by
  unbounded \<open>int\<close>. The only product, \<open>d * d\<close> in \<open>gu_is_wheel_prime\<close>, leaves the range of a 32-bit \<open>int\<close> for
  numbers from 2145542400 (the square of 46320) on, where the model and the C code part.

  The upward searches end when there is a prime (a twin prime) above, so they take fuel; the
  theorems give the fuel that is enough.
\<close>

unbundle bit_operations_syntax

definition gu_prime_wheel_mask :: u32 where
  "gu_prime_wheel_mask =
     push_bit 1 1 OR push_bit 7 1 OR push_bit 11 1 OR push_bit 13 1 OR
     push_bit 17 1 OR push_bit 19 1 OR push_bit 23 1 OR push_bit 29 1"

definition gu_prime_wheel :: "int \<Rightarrow> bool run" where
  "gu_prime_wheel i =
     gu_assert (i \<ge> 0 \<and> i < 30) (Done ((gu_prime_wheel_mask AND push_bit (nat i) 1) \<noteq> 0))"

definition gu_small_prime_mask :: u32 where
  "gu_small_prime_mask =
     push_bit 2 1 OR push_bit 3 1 OR push_bit 5 1 OR push_bit 7 1 OR push_bit 11 1 OR
     push_bit 13 1 OR push_bit 17 1 OR push_bit 19 1 OR push_bit 23 1 OR push_bit 29 1 OR push_bit 31 1"

text \<open>The test \<open>gu_small_prime_mask \& (1 << i)\<close>.\<close>

definition small_prime :: "int \<Rightarrow> bool" where
  "small_prime i \<longleftrightarrow> (gu_small_prime_mask AND push_bit (nat i) 1) \<noteq> 0"

text \<open>One pass of the \<open>for\<close> loop of \<open>gu_is_wheel_prime\<close> over the given values of \<open>i\<close>: has it found a
  divisor?\<close>

fun wheel_scan :: "int \<Rightarrow> int \<Rightarrow> int list \<Rightarrow> bool run" where
  "wheel_scan u d [] = Done False"
| "wheel_scan u d (i # is) =
     bindR (gu_prime_wheel i) (\<lambda>w. if w \<and> u mod (d + i) = 0 then Done True else wheel_scan u d is)"

definition odds_from :: "int \<Rightarrow> int list" where
  "odds_from a = filter (\<lambda>i. a \<le> i) [1, 3, 5, 7, 9, 11, 13, 15, 17, 19, 21, 23, 25, 27, 29]"

declare bindR_cong [fundef_cong]

lemma le_of_sq_le: "d * d \<le> u \<Longrightarrow> d \<le> (u :: int)"
proof (cases "d \<le> 0")
  case True
  assume "d * d \<le> u"
  moreover have "0 \<le> d * d" by (rule zero_le_square)
  ultimately show ?thesis using True by linarith
next
  case False
  assume "d * d \<le> u"
  moreover have "1 * d \<le> d * d"
    using False by (intro mult_right_mono) auto
  ultimately show ?thesis by simp
qed

function wheel_loop :: "int \<Rightarrow> int \<Rightarrow> bool run" where
  "wheel_loop u d =
     (if d * d \<le> u
      then bindR (wheel_scan u d (odds_from 1)) (\<lambda>found.
             if found then Done False else wheel_loop u (d + 30))
      else Done True)"
  by pat_completeness auto
termination
proof (relation "measure (\<lambda>(u, d). nat (u + 1 - d))")
  fix u d :: int
  assume "d * d \<le> u"
  then have "d \<le> u" by (rule le_of_sq_le)
  then show "((u, d + 30), (u, d)) \<in> measure (\<lambda>(u, d). nat (u + 1 - d))" by simp
qed simp

declare wheel_loop.simps [simp del]

definition gu_is_wheel_prime :: "int \<Rightarrow> bool run" where
  "gu_is_wheel_prime u =
     gu_assert (u > 30 \<and> u mod 2 \<noteq> 0 \<and> u mod 3 \<noteq> 0 \<and> u mod 5 \<noteq> 0)
      (bindR (wheel_scan u 0 (odds_from 7)) (\<lambda>found.
         if found then Done False else wheel_loop u 30))"

definition gu_is_prime :: "int \<Rightarrow> bool run" where
  "gu_is_prime i =
     (if i < 2 then Done False
      else if i < 30 then Done (small_prime i)
      else bindR (gu_prime_wheel (i mod 30)) (\<lambda>w. if \<not> w then Done False else gu_is_wheel_prime i))"

definition gu_is_twin_prime :: "int \<Rightarrow> bool run" where
  "gu_is_twin_prime i = bindR (gu_is_prime i) (\<lambda>b. if b then gu_is_prime (i - 2) else Done False)"

text \<open>\<open>!gu_prime_wheel(r) || !gu_is_wheel_prime(d)\<close>, negated.\<close>

definition wheel_hit :: "int \<Rightarrow> int \<Rightarrow> bool run" where
  "wheel_hit d r = bindR (gu_prime_wheel r) (\<lambda>w. if w then gu_is_wheel_prime d else Done False)"

fun small_down :: "nat \<Rightarrow> int \<Rightarrow> int run" where
  "small_down 0 i = Out_Of_Fuel"
| "small_down (Suc n) i = (if small_prime i then Done i else small_down n (i - 1))"

fun small_up :: "nat \<Rightarrow> int \<Rightarrow> int run" where
  "small_up 0 i = Out_Of_Fuel"
| "small_up (Suc n) i = (if small_prime i then Done i else small_up n (i + 1))"

fun inf_loop :: "nat \<Rightarrow> int \<Rightarrow> int \<Rightarrow> int run" where
  "inf_loop 0 d r = Out_Of_Fuel"
| "inf_loop (Suc n) d r =
     bindR (wheel_hit d r) (\<lambda>p.
       if p then Done d
       else let r' = r - 2 in inf_loop n (d - 2) (if r' < 0 then r' + 30 else r'))"

text \<open>The downward search needs no fuel from outside: it stops at 31.\<close>

definition gu_prime_inf :: "int \<Rightarrow> int run" where
  "gu_prime_inf i =
     (if i < 2 then Done 0
      else if i < 32 then small_down (nat i) i
      else let d = (i - 1) OR 1 in inf_loop (nat i) d (d mod 30))"

fun sup_loop :: "nat \<Rightarrow> int \<Rightarrow> int \<Rightarrow> int run" where
  "sup_loop 0 d r = Out_Of_Fuel"
| "sup_loop (Suc n) d r =
     bindR (wheel_hit d r) (\<lambda>p.
       if p then Done d
       else let r' = r + 2 in sup_loop n (d + 2) (if r' > 30 then r' - 30 else r'))"

definition gu_prime_sup :: "nat \<Rightarrow> int \<Rightarrow> int run" where
  "gu_prime_sup fuel i =
     (if i \<le> 2 then Done 2
      else if i < 32 then small_up 32 i
      else let d = i OR 1 in sup_loop fuel d (d mod 30))"

fun twin_inf_loop :: "nat \<Rightarrow> int \<Rightarrow> int run" where
  "twin_inf_loop 0 i = Out_Of_Fuel"
| "twin_inf_loop (Suc n) i =
     bindR (gu_prime_inf i) (\<lambda>p.
       if p = 0 then Done 0
       else bindR (gu_is_prime (p - 2)) (\<lambda>b. if b then Done p else twin_inf_loop n (p - 4)))"

definition gu_twin_prime_inf :: "int \<Rightarrow> int run" where
  "gu_twin_prime_inf i = twin_inf_loop (Suc (nat i)) i"

fun twin_sup_loop :: "nat \<Rightarrow> nat \<Rightarrow> int \<Rightarrow> int run" where
  "twin_sup_loop 0 fuel i = Out_Of_Fuel"
| "twin_sup_loop (Suc n) fuel i =
     bindR (gu_prime_sup fuel i) (\<lambda>p.
       bindR (gu_is_prime (p + 2)) (\<lambda>b. if b then Done (p + 2) else twin_sup_loop n fuel (p + 4)))"

definition gu_twin_prime_sup :: "nat \<Rightarrow> int \<Rightarrow> int run" where
  "gu_twin_prime_sup fuel i = (if i \<le> 5 then Done 5 else twin_sup_loop fuel fuel (i - 2))"

subsection \<open>The wheel\<close>

definition is_prime :: "int \<Rightarrow> bool" where
  "is_prime p \<longleftrightarrow> 1 < p \<and> (\<forall>k. 1 < k \<and> k < p \<longrightarrow> \<not> k dvd p)"

definition wheel30 :: "int set" where
  "wheel30 = {1, 7, 11, 13, 17, 19, 23, 29}"

lemma upt30: "0 \<le> i \<Longrightarrow> i < 30 \<Longrightarrow> i \<in> set [0..29 :: int]"
  by simp

lemma prime_wheel_all: "list_all (\<lambda>i. gu_prime_wheel i = Done (i \<in> wheel30)) [0..29]"
  by code_simp

lemma prime_wheel: "0 \<le> i \<Longrightarrow> i < 30 \<Longrightarrow> gu_prime_wheel i = Done (i \<in> wheel30)"
  using prime_wheel_all by (simp add: list_all_iff)

lemma wheel_coprime_all:
  "list_all (\<lambda>i. i \<in> wheel30 \<longleftrightarrow> i mod 2 \<noteq> 0 \<and> i mod 3 \<noteq> 0 \<and> i mod 5 \<noteq> 0) [0..29 :: int]"
  by code_simp

lemma wheel_coprime:
  "i mod 30 \<in> wheel30 \<longleftrightarrow> i mod 2 \<noteq> 0 \<and> i mod 3 \<noteq> 0 \<and> i mod 5 \<noteq> (0 :: int)"
proof -
  have "i mod 30 mod 2 = i mod 2" "i mod 30 mod 3 = i mod 3" "i mod 30 mod 5 = i mod 5"
    by (simp_all add: mod_mod_cancel)
  moreover have "i mod 30 \<in> set [0..29]"
    by simp
  ultimately show ?thesis
    using wheel_coprime_all unfolding list_all_iff by metis
qed

lemma odds_from_bounds: "i \<in> set (odds_from a) \<Longrightarrow> 0 \<le> i \<and> i < 30"
  by (simp only: odds_from_def set_filter mem_Collect_eq) auto

lemma wheel_scan_spec:
  "(\<And>i. i \<in> set is \<Longrightarrow> 0 \<le> i \<and> i < 30) \<Longrightarrow>
     wheel_scan u d is = Done (\<exists>i \<in> set is \<inter> wheel30. (d + i) dvd u)"
  by (induction "is") (auto simp: prime_wheel dvd_eq_mod_eq_0)

lemma wheel_odds: "set (odds_from 1) \<inter> wheel30 = wheel30" "set (odds_from 7) \<inter> wheel30 = wheel30 - {1}"
  by (auto simp: odds_from_def wheel30_def)

lemma wheel_loop_spec:
  assumes "d \<ge> 30" and "d mod 30 = 0"
  shows "wheel_loop u d =
    Done (\<not> (\<exists>k. d \<le> k \<and> k mod 30 \<in> wheel30 \<and> (k - k mod 30) * (k - k mod 30) \<le> u \<and> k dvd u))"
  using assms
proof (induction u d rule: wheel_loop.induct)
  case (1 u d)
  let ?hit = "\<lambda>k. k mod 30 \<in> wheel30 \<and> (k - k mod 30) * (k - k mod 30) \<le> u \<and> k dvd u"
  have scan: "wheel_scan u d (odds_from 1) = Done (\<exists>i \<in> wheel30. (d + i) dvd u)"
    using wheel_scan_spec [of "odds_from 1" u d] odds_from_bounds unfolding wheel_odds by blast
  have w: "(d + i) mod 30 = i" "0 < i" "i < 30" if "i \<in> wheel30" for i
    using that 1(3) by (auto simp: wheel30_def mod_add_left_eq [symmetric])
  show ?case
  proof (cases "d * d \<le> u")
    case False
    have "\<not> ?hit k" if "d \<le> k" for k
    proof -
      have "d \<le> k - k mod 30"
        using that 1(3) by (metis minus_mod_eq_mult_div zdiv_mono1 zero_less_numeral mult_left_mono
            minus_mod_eq_div_mult mult.commute diff_zero zero_le_numeral)
      then have "d * d \<le> (k - k mod 30) * (k - k mod 30)"
        using 1(2) by (intro mult_mono) auto
      with False show ?thesis by simp
    qed
    with False show ?thesis
      by (subst wheel_loop.simps) auto
  next
    case True
    have split: "(\<exists>k \<ge> d. ?hit k) \<longleftrightarrow> (\<exists>i \<in> wheel30. (d + i) dvd u) \<or> (\<exists>k \<ge> d + 30. ?hit k)"
    proof
      assume "\<exists>k \<ge> d. ?hit k"
      then obtain k where k: "d \<le> k" "?hit k" by blast
      show "(\<exists>i \<in> wheel30. (d + i) dvd u) \<or> (\<exists>k \<ge> d + 30. ?hit k)"
      proof (cases "d + 30 \<le> k")
        case False
        have "k mod 30 = (k - d) mod 30"
          using 1(3) by (simp add: mod_diff_right_eq [symmetric])
        then have "k mod 30 = k - d"
          using False k(1) by simp
        then have "d + k mod 30 = k"
          by simp
        with k show ?thesis by metis
      qed (use k in blast)
    next
      assume "(\<exists>i \<in> wheel30. (d + i) dvd u) \<or> (\<exists>k \<ge> d + 30. ?hit k)"
      then show "\<exists>k \<ge> d. ?hit k"
      proof
        assume "\<exists>i \<in> wheel30. (d + i) dvd u"
        then obtain i where i: "i \<in> wheel30" "(d + i) dvd u" by blast
        with w [OF i(1)] True show ?thesis
          by (intro exI [of _ "d + i"]) auto
      next
        assume "\<exists>k \<ge> d + 30. ?hit k"
        then obtain k where "d + 30 \<le> k" "?hit k" by blast
        then show ?thesis by (intro exI [of _ k]) simp
      qed
    qed
    show ?thesis
    proof (cases "\<exists>i \<in> wheel30. (d + i) dvd u")
      case found: True
      with True scan split show ?thesis
        by (subst wheel_loop.simps) auto
    next
      case False
      with True scan have "wheel_loop u d = wheel_loop u (d + 30)"
        by (subst wheel_loop.simps) auto
      moreover have "wheel_loop u (d + 30) = Done (\<not> (\<exists>k \<ge> d + 30. ?hit k))"
        using 1(1) [OF True scan] False 1(2,3) by (simp add: mod_add_right_eq)
      ultimately show ?thesis
        using split False by simp
    qed
  qed
qed

subsection \<open>The primality test\<close>

lemma is_prime_code [code]: "is_prime p \<longleftrightarrow> 1 < p \<and> list_all (\<lambda>k. \<not> k dvd p) [2..p - 1]"
  by (auto simp: is_prime_def list_all_iff)

lemma prime_odd: "is_prime p \<Longrightarrow> 2 < p \<Longrightarrow> odd p"
  by (auto simp: is_prime_def)

lemma composite_factor:
  assumes "1 < u" and "\<not> is_prime u"
  obtains p where "is_prime p" and "p dvd u" and "p * p \<le> u"
proof -
  define P where "P = (\<lambda>k :: nat. 1 < int k \<and> int k dvd u)"
  have "P (nat u)"
    using assms(1) by (simp add: P_def)
  define p where "p = (LEAST k. P k)"
  have p: "P p"
    unfolding p_def by (rule LeastI [of P, OF \<open>P (nat u)\<close>])
  have least: "p \<le> k" if "P k" for k
    unfolding p_def using that by (rule Least_le)
  have prime: "is_prime (int p)"
    unfolding is_prime_def
  proof (intro conjI allI impI)
    show "1 < int p" using p by (simp add: P_def)
    fix k assume k: "1 < k \<and> k < int p"
    show "\<not> k dvd int p"
    proof
      assume "k dvd int p"
      with k p have "P (nat k)"
        unfolding P_def by (auto intro: dvd_trans)
      from least [OF this] k show False by linarith
    qed
  qed
  obtain m where m: "u = int p * m"
    using p by (auto simp: P_def)
  have "1 < m"
  proof (rule ccontr)
    assume "\<not> 1 < m"
    moreover have "0 < m"
    proof (rule zero_less_mult_pos)
      show "0 < int p * m" using m assms(1) by simp
      show "0 < int p" using p by (simp add: P_def)
    qed
    ultimately have "u = int p"
      using m by simp
    with prime assms(2) show False by simp
  qed
  then have "P (nat m)"
    using m by (simp add: P_def)
  from least [OF this] have "int p \<le> m"
    using \<open>1 < m\<close> by simp
  then have "int p * int p \<le> u"
    using m by (simp add: mult_left_mono)
  with prime p that show ?thesis
    by (simp add: P_def)
qed

lemma wheel_prime:
  assumes "u > 30" and "u mod 2 \<noteq> 0 \<and> u mod 3 \<noteq> 0 \<and> u mod 5 \<noteq> 0"
  shows "gu_is_wheel_prime u = Done (is_prime u)"
proof -
  let ?hit = "\<lambda>k. k mod 30 \<in> wheel30 \<and> (k - k mod 30) * (k - k mod 30) \<le> u \<and> k dvd u"
  have scan: "wheel_scan u 0 (odds_from 7) = Done (\<exists>i \<in> wheel30 - {1}. i dvd u)"
    using wheel_scan_spec [of "odds_from 7" u 0] odds_from_bounds unfolding wheel_odds by simp
  have small: "1 < i" "i < u" if "i \<in> wheel30 - {1}" for i
    using that assms(1) by (auto simp: wheel30_def)
  have large: "1 < k" "k < u" if "30 \<le> k" "?hit k" for k
  proof -
    define d where "d = k - k mod 30"
    have "k div 30 \<ge> 1"
      using that(1) by simp
    then have d: "30 \<le> d"
      by (simp add: d_def minus_mod_eq_mult_div)
    then have "30 * d \<le> d * d"
      by (intro mult_right_mono) auto
    moreover have "k < d + 30"
      by (simp add: d_def)
    moreover have "d * d \<le> u"
      using that(2) by (simp add: d_def)
    ultimately show "k < u"
      using d by linarith
    show "1 < k"
      using that(1) by simp
  qed
  have "(\<exists>i \<in> wheel30 - {1}. i dvd u) \<or> (\<exists>k \<ge> 30. ?hit k) \<longleftrightarrow> \<not> is_prime u"
  proof
    assume "(\<exists>i \<in> wheel30 - {1}. i dvd u) \<or> (\<exists>k \<ge> 30. ?hit k)"
    then show "\<not> is_prime u"
      unfolding is_prime_def using small large by blast
  next
    assume np: "\<not> is_prime u"
    have "1 < u" using assms(1) by simp
    then obtain p where p: "is_prime p" "p dvd u" "p * p \<le> u"
      using composite_factor np by blast
    have "p mod 2 \<noteq> 0 \<and> p mod 3 \<noteq> 0 \<and> p mod 5 \<noteq> 0"
      using assms(2) p(2) by (metis dvd_eq_mod_eq_0 dvd_trans)
    then have w: "p mod 30 \<in> wheel30"
      by (simp add: wheel_coprime)
    have p1: "1 < p"
      using p(1) by (simp add: is_prime_def)
    show "(\<exists>i \<in> wheel30 - {1}. i dvd u) \<or> (\<exists>k \<ge> 30. ?hit k)"
    proof (cases "p < 30")
      case True
      with p1 w p(2) show ?thesis by auto
    next
      case False
      have "p - p mod 30 \<le> p" "0 \<le> p - p mod 30"
        using p1 by (simp_all add: minus_mod_eq_mult_div)
      then have "(p - p mod 30) * (p - p mod 30) \<le> p * p"
        by (intro mult_mono) auto
      with False w p show ?thesis by (meson not_less order_trans)
    qed
  qed
  then show ?thesis
    using assms scan wheel_loop_spec [of 30 u]
    by (auto simp: gu_is_wheel_prime_def)
qed

lemma small_prime_all: "list_all (\<lambda>i. small_prime i = is_prime i) [2..31]"
  by code_simp

lemma small_prime: "2 \<le> i \<Longrightarrow> i < 32 \<Longrightarrow> small_prime i = is_prime i"
  using small_prime_all atLeastAtMost_iff [of i 2 31] unfolding list_all_iff set_upto by simp

lemma prime_wheel_residue:
  assumes "is_prime p" and "30 < p"
  shows "p mod 30 \<in> wheel30"
proof -
  have "\<not> 2 dvd p" "\<not> 3 dvd p" "\<not> 5 dvd p"
    using assms by (auto simp: is_prime_def)
  then show ?thesis
    unfolding wheel_coprime by (simp add: dvd_eq_mod_eq_0)
qed

lemma is_prime_test: "gu_is_prime i = Done (is_prime i)"
proof -
  have w: "gu_prime_wheel (i mod 30) = Done (i mod 30 \<in> wheel30)"
    by (rule prime_wheel) auto
  have "\<not> is_prime i" if "i < 2" using that by (simp add: is_prime_def)
  moreover have "gu_is_wheel_prime i = Done (is_prime i)" if "30 \<le> i" "i mod 30 \<in> wheel30"
  proof (rule wheel_prime)
    show "30 < i" using that by (cases "i = 30") (auto simp: wheel30_def)
  qed (use that wheel_coprime [of i] in simp)
  moreover have "\<not> is_prime i" if "30 \<le> i" "i mod 30 \<notin> wheel30"
    using that prime_wheel_residue [of i] prime_odd [of 30] by (cases "i = 30") auto
  ultimately show ?thesis
    using w small_prime [of i] by (auto simp: gu_is_prime_def)
qed

subsection \<open>The searches\<close>

definition prime_below :: "int \<Rightarrow> int \<Rightarrow> bool" where
  "prime_below i p \<longleftrightarrow> is_prime p \<and> p \<le> i \<and> (\<forall>q. p < q \<and> q \<le> i \<longrightarrow> \<not> is_prime q)"

definition prime_above :: "int \<Rightarrow> int \<Rightarrow> bool" where
  "prime_above i p \<longleftrightarrow> is_prime p \<and> i \<le> p \<and> (\<forall>q. i \<le> q \<and> q < p \<longrightarrow> \<not> is_prime q)"

lemma wheel_hit_prime:
  assumes "odd d" and "31 \<le> d"
  shows "wheel_hit d (d mod 30) = Done (is_prime d)"
proof -
  have w: "gu_prime_wheel (d mod 30) = Done (d mod 30 \<in> wheel30)"
    by (rule prime_wheel) auto
  show ?thesis
  proof (cases "d mod 30 \<in> wheel30")
    case True
    with w wheel_prime [of d] wheel_coprime [of d] assms(2) show ?thesis
      by (simp add: wheel_hit_def)
  next
    case False
    with w prime_wheel_residue [of d] assms(2) show ?thesis
      by (auto simp: wheel_hit_def)
  qed
qed

lemma odd_residue: "odd (d :: int) \<Longrightarrow> d mod 30 mod 2 = 1 \<and> 0 \<le> d mod 30 \<and> d mod 30 < 30"
  by (simp add: mod_mod_cancel odd_iff_mod_2_eq_one)

lemma residue_down:
  assumes "odd (d :: int)"
  shows "(if d mod 30 - 2 < 0 then d mod 30 - 2 + 30 else d mod 30 - 2) = (d - 2) mod 30"
proof -
  define r where "r = d mod 30"
  have r: "r mod 2 = 1" "0 \<le> r" "r < 30"
    using odd_residue [OF assms] by (auto simp: r_def)
  have "(d - 2) mod 30 = (r - 2) mod 30"
    by (simp add: r_def mod_diff_left_eq)
  moreover have "r = 1" if "r - 2 < 0"
    using that r by (cases "r = 0") auto
  ultimately show ?thesis
    using r by (auto simp: r_def [symmetric])
qed

lemma residue_up:
  assumes "odd (d :: int)"
  shows "(if d mod 30 + 2 > 30 then d mod 30 + 2 - 30 else d mod 30 + 2) = (d + 2) mod 30"
proof -
  define r where "r = d mod 30"
  have r: "r mod 2 = 1" "0 \<le> r" "r < 30"
    using odd_residue [OF assms] by (auto simp: r_def)
  have "(d + 2) mod 30 = (r + 2) mod 30"
    by (simp add: r_def mod_add_left_eq)
  moreover have "r \<noteq> 28"
    using r by auto
  ultimately show ?thesis
    using r by (cases "r = 29") (auto simp: r_def [symmetric])
qed

lemma inf_loop_spec:
  "odd d \<Longrightarrow> 31 \<le> d \<Longrightarrow> d - 31 < 2 * int n \<Longrightarrow>
     \<exists>p. inf_loop n d (d mod 30) = Done p \<and> prime_below d p"
proof (induction n arbitrary: d)
  case (Suc n)
  show ?case
  proof (cases "is_prime d")
    case True
    with wheel_hit_prime [OF Suc.prems(1,2)] show ?thesis by (auto simp: prime_below_def)
  next
    case False
    have "is_prime 31" by code_simp
    with False Suc.prems(1,2) have "33 \<le> d"
      by (cases "d = 31"; cases "d = 32") auto
    then obtain p where p: "inf_loop n (d - 2) ((d - 2) mod 30) = Done p" "prime_below (d - 2) p"
      using Suc.IH [of "d - 2"] Suc.prems by auto
    have "\<not> is_prime q" if "p < q" "q \<le> d" for q
    proof (cases "q \<le> d - 2")
      case True
      with p(2) that show ?thesis by (simp add: prime_below_def)
    next
      case F: False
      then have "q = d \<or> q = d - 1" using that by auto
      moreover have "\<not> is_prime (d - 1)"
        using prime_odd [of "d - 1"] Suc.prems(1) \<open>33 \<le> d\<close> by auto
      ultimately show ?thesis using False by auto
    qed
    with p False wheel_hit_prime [OF Suc.prems(1,2)] residue_down [OF Suc.prems(1)] show ?thesis
      by (auto simp: prime_below_def Let_def)
  qed
qed simp

lemma sup_loop_spec:
  "odd d \<Longrightarrow> 31 \<le> d \<Longrightarrow> is_prime q \<Longrightarrow> d \<le> q \<Longrightarrow> q - d < 2 * int n \<Longrightarrow>
     \<exists>p. sup_loop n d (d mod 30) = Done p \<and> prime_above d p"
proof (induction n arbitrary: d)
  case (Suc n)
  show ?case
  proof (cases "is_prime d")
    case True
    with wheel_hit_prime [OF Suc.prems(1,2)] show ?thesis by (auto simp: prime_above_def)
  next
    case False
    have q: "q \<noteq> d" "q \<noteq> d + 1"
      using False Suc.prems prime_odd [of q] by auto
    then obtain p where p: "sup_loop n (d + 2) ((d + 2) mod 30) = Done p" "prime_above (d + 2) p"
      using Suc.IH [of "d + 2"] Suc.prems by auto
    have "\<not> is_prime k" if "d \<le> k" "k < p" for k
    proof (cases "d + 2 \<le> k")
      case True
      with p(2) that show ?thesis by (simp add: prime_above_def)
    next
      case F: False
      then have "k = d \<or> k = d + 1" using that by auto
      moreover have "\<not> is_prime (d + 1)"
        using prime_odd [of "d + 1"] Suc.prems(1,2) by auto
      ultimately show ?thesis using False by auto
    qed
    with p False wheel_hit_prime [OF Suc.prems(1,2)] residue_up [OF Suc.prems(1)] show ?thesis
      by (auto simp: prime_above_def Let_def)
  qed
qed simp

lemma small_down:
  "2 \<le> i \<Longrightarrow> i < 32 \<Longrightarrow> i - 2 < int n \<Longrightarrow> \<exists>p. small_down n i = Done p \<and> prime_below i p"
proof (induction n arbitrary: i)
  case (Suc n)
  show ?case
  proof (cases "is_prime i")
    case True
    with small_prime [OF Suc.prems(1,2)] show ?thesis by (auto simp: prime_below_def)
  next
    case False
    have "is_prime 2" by code_simp
    with False have "i \<noteq> 2" by auto
    then obtain p where p: "small_down n (i - 1) = Done p" "prime_below (i - 1) p"
      using Suc.IH [of "i - 1"] Suc.prems by auto
    have "\<not> is_prime q" if "p < q" "q \<le> i" for q
      using p(2) that False by (cases "q = i") (auto simp: prime_below_def)
    with p False small_prime [OF Suc.prems(1,2)] show ?thesis
      by (auto simp: prime_below_def)
  qed
qed simp

lemma small_up:
  "2 < i \<Longrightarrow> i < 32 \<Longrightarrow> 31 - i < int n \<Longrightarrow> \<exists>p. small_up n i = Done p \<and> prime_above i p"
proof (induction n arbitrary: i)
  case (Suc n)
  have eq: "small_prime i = is_prime i"
    using small_prime Suc.prems by simp
  show ?case
  proof (cases "is_prime i")
    case True
    with eq show ?thesis by (auto simp: prime_above_def)
  next
    case False
    have "is_prime 31" by code_simp
    with False have "i \<noteq> 31" by auto
    then obtain p where p: "small_up n (i + 1) = Done p" "prime_above (i + 1) p"
      using Suc.IH [of "i + 1"] Suc.prems by auto
    have "\<not> is_prime q" if "i \<le> q" "q < p" for q
      using p(2) that False by (cases "q = i") (auto simp: prime_above_def)
    with p False eq show ?thesis
      by (auto simp: prime_above_def)
  qed
qed simp

lemma or_one: "i OR 1 = (if even i then i + 1 else i)" for i :: int
  by (auto simp: or_one_eq)

lemma prime_inf_spec:
  "\<exists>p. gu_prime_inf i = Done p \<and> (if i < 2 then p = 0 else prime_below i p)"
proof (cases "i < 32")
  case True
  with small_down [of i "nat i"] show ?thesis by (auto simp: gu_prime_inf_def)
next
  case False
  define d where "d = (i - 1) OR 1"
  have d: "d = (if even i then i - 1 else i)"
    by (simp add: d_def or_one)
  obtain p where p: "inf_loop (nat i) d (d mod 30) = Done p" "prime_below d p"
    using inf_loop_spec [of d "nat i"] False d by (auto split: if_splits)
  have "\<not> is_prime q" if "d < q" "q \<le> i" for q
    using that d False prime_odd [of q] by (auto split: if_splits) (metis False less_trans linorder_not_less order_less_le zle_diff1_eq add1_zle_eq diff_add_cancel numeral_less_iff)
  with p d False show ?thesis
    by (force simp: gu_prime_inf_def Let_def prime_below_def d_def [symmetric] split: if_splits)
qed

lemma prime_sup_spec:
  assumes "is_prime q" and "i \<le> q" and "q - i < int fuel"
  shows "\<exists>p. gu_prime_sup fuel i = Done p \<and> p \<le> q \<and> (if i \<le> 2 then p = 2 else prime_above i p)"
proof (cases "i < 32")
  case True
  have le: "p \<le> q" if "prime_above i p" for p
    using that assms(1,2) by (metis not_less prime_above_def)
  have "2 \<le> q"
    using assms(1) by (simp add: is_prime_def)
  with True small_up [of i 32] le show ?thesis
    by (auto simp: gu_prime_sup_def)
next
  case False
  define d where "d = i OR 1"
  have d: "d = (if even i then i + 1 else i)"
    by (simp add: d_def or_one)
  have q: "odd q"
    using prime_odd [OF assms(1)] False assms(2) by simp
  then have "d \<le> q"
    using d assms(2) by (cases "i = q") auto
  then obtain p where p: "sup_loop fuel d (d mod 30) = Done p" "prime_above d p"
    using sup_loop_spec [of d q fuel] False d assms by (auto split: if_splits)
  have pq: "p \<le> q"
    using p(2) assms(1) \<open>d \<le> q\<close> by (metis not_less prime_above_def)
  have "\<not> is_prime k" if "i \<le> k" "k < p" for k
  proof (cases "d \<le> k")
    case True
    with p(2) that show ?thesis by (simp add: prime_above_def)
  next
    case F: False
    then have "k = i" "even i" using d that by (auto split: if_splits)
    with prime_odd [of k] False show ?thesis by auto
  qed
  then have "prime_above i p"
    using p(2) d by (auto simp: prime_above_def split: if_splits)
  with p(1) pq False show ?thesis
    by (simp add: gu_prime_sup_def Let_def d_def [symmetric])
qed

lemma prime_sup_prime:
  assumes "gu_prime_sup fuel i = Done p"
  shows "is_prime p \<and> i \<le> p"
proof -
  have loop: "is_prime p \<and> d \<le> p" if "odd d" "31 \<le> d" "sup_loop n d (d mod 30) = Done p" for n d
    using that
  proof (induction n arbitrary: d)
    case (Suc n)
    show ?case
    proof (cases "is_prime d")
      case False
      with Suc.prems wheel_hit_prime [OF Suc.prems(1,2)] residue_up [OF Suc.prems(1)]
      have "sup_loop n (d + 2) ((d + 2) mod 30) = Done p" by (simp add: Let_def)
      with Suc.IH [of "d + 2"] Suc.prems(1,2) show ?thesis by simp
    qed (use Suc.prems wheel_hit_prime [OF Suc.prems(1,2)] in simp)
  qed simp
  show ?thesis
  proof (cases "i < 32")
    case True
    moreover have "is_prime 2" by code_simp
    ultimately show ?thesis
      using assms small_up [of i 32] by (auto simp: gu_prime_sup_def prime_above_def split: if_splits)
  next
    case False
    with assms loop [of "i OR 1" fuel] show ?thesis
      by (auto simp: gu_prime_sup_def Let_def or_one split: if_splits)
  qed
qed

definition is_twin :: "int \<Rightarrow> bool" where
  "is_twin q \<longleftrightarrow> is_prime q \<and> is_prime (q - 2)"

lemma twin_ge5: "is_twin q \<Longrightarrow> 5 \<le> q \<and> odd q"
proof -
  assume t: "is_twin q"
  then have "2 < q"
    by (simp add: is_twin_def is_prime_def)
  then have "odd q"
    using t prime_odd by (simp add: is_twin_def)
  moreover have "q \<noteq> 3"
    using t by (auto simp: is_twin_def is_prime_def)
  ultimately show ?thesis
    using \<open>2 < q\<close> by (cases "q = 4") auto
qed

lemma twin_inf_loop_spec:
  "0 < n \<Longrightarrow> i < int n \<Longrightarrow> \<exists>p. twin_inf_loop n i = Done p \<and> (p = 0 \<or> is_twin p \<and> p \<le> i) \<and>
     (\<forall>q. is_twin q \<and> q \<le> i \<longrightarrow> q \<le> p)"
proof (induction n arbitrary: i)
  case (Suc n)
  obtain p where p: "gu_prime_inf i = Done p" "if i < 2 then p = 0 else prime_below i p"
    using prime_inf_spec by blast
  show ?case
  proof (cases "i < 2")
    case True
    with p twin_ge5 show ?thesis by fastforce
  next
    case False
    then have b: "is_prime p" "p \<le> i" "\<And>q. p < q \<Longrightarrow> q \<le> i \<Longrightarrow> \<not> is_prime q" "2 \<le> p"
      using p(2) by (auto simp: prime_below_def is_prime_def)
    have le: "q \<le> p" if "is_twin q" "q \<le> i" for q
      using b(3) [of q] that by (cases "p < q") (auto simp: is_twin_def)
    show ?thesis
    proof (cases "is_prime (p - 2)")
      case True
      with p(1) b le show ?thesis by (auto simp: is_prime_test is_twin_def)
    next
      case np: False
      obtain p' where p': "twin_inf_loop n (p - 4) = Done p'" "p' = 0 \<or> is_twin p' \<and> p' \<le> p - 4"
        "\<And>q. is_twin q \<Longrightarrow> q \<le> p - 4 \<Longrightarrow> q \<le> p'"
        using Suc.IH [of "p - 4"] b(2,4) Suc.prems(2) by auto
      have "q \<le> p - 4" if q: "is_twin q" "q \<le> i" for q
      proof -
        have "odd q" "5 \<le> q" "q \<le> p" "q \<noteq> p" "q \<noteq> p - 2"
          using twin_ge5 [OF q(1)] le [OF q] q np by (auto simp: is_twin_def)
        moreover have "is_prime q" using q by (simp add: is_twin_def)
        moreover have "odd p"
          using prime_odd [OF b(1)] calculation by auto
        ultimately show ?thesis
          by (cases "q = p - 1"; cases "q = p - 3") auto
      qed
      then have "\<forall>q. is_twin q \<and> q \<le> i \<longrightarrow> q \<le> p'"
        using p'(3) by blast
      moreover have "p' = 0 \<or> is_twin p' \<and> p' \<le> i"
        using p'(2) b(2) by auto
      ultimately show ?thesis
        using p(1) np b(4) p'(1) by (auto simp: is_prime_test)
    qed
  qed
qed simp

lemma twin_prime_inf_spec:
  "\<exists>p. gu_twin_prime_inf i = Done p \<and> (p = 0 \<or> is_twin p \<and> p \<le> i) \<and> (\<forall>q. is_twin q \<and> q \<le> i \<longrightarrow> q \<le> p)"
  unfolding gu_twin_prime_inf_def by (rule twin_inf_loop_spec) auto

lemma twin_sup_loop_spec:
  "4 \<le> i \<Longrightarrow> is_twin (q + 2) \<Longrightarrow> i \<le> q \<Longrightarrow> q - i < int n \<Longrightarrow> q - i < int fuel \<Longrightarrow>
     \<exists>p. twin_sup_loop n fuel i = Done p \<and> is_twin p \<and> i + 2 \<le> p \<and> p \<le> q + 2"
proof (induction n arbitrary: i)
  case (Suc n)
  have qp: "is_prime q"
    using Suc.prems(2) by (simp add: is_twin_def)
  obtain p where p: "gu_prime_sup fuel i = Done p" "p \<le> q" "prime_above i p"
    using prime_sup_spec [OF qp Suc.prems(3,5)] Suc.prems(1) by auto
  have i: "is_prime p" "i \<le> p"
    using p(3) by (auto simp: prime_above_def)
  show ?case
  proof (cases "is_prime (p + 2)")
    case True
    with p(1,2) i show ?thesis by (auto simp: is_prime_test is_twin_def)
  next
    case False
    have "odd p" "odd q" "q \<noteq> p"
      using prime_odd i(1) qp i(2) p(2) Suc.prems(1,2) False by (auto simp: is_twin_def)
    moreover have "q \<noteq> p + 2"
      using False qp by auto
    ultimately have "p + 4 \<le> q"
      using p(2) by (cases "q = p + 1"; cases "q = p + 3") auto
    then obtain p' where "twin_sup_loop n fuel (p + 4) = Done p'" "is_twin p'" "p + 6 \<le> p'" "p' \<le> q + 2"
      using Suc.IH [of "p + 4"] Suc.prems i by auto
    with p(1) False i(2) show ?thesis by (auto simp: is_prime_test)
  qed
qed simp

lemma twin_sup_loop_twin:
  "twin_sup_loop n fuel i = Done p \<Longrightarrow> is_twin p \<and> i + 2 \<le> p"
proof (induction n arbitrary: i)
  case (Suc n)
  then obtain p1 where p1: "gu_prime_sup fuel i = Done p1"
    and r: "(if is_prime (p1 + 2) then Done (p1 + 2) else twin_sup_loop n fuel (p1 + 4)) = Done p"
    by (auto simp: is_prime_test elim!: bindR_DoneE)
  from prime_sup_prime [OF p1] r Suc.IH [of "p1 + 4"] show ?case
    by (auto simp: is_twin_def split: if_splits)
qed simp

lemma is_twin_5: "is_twin 5"
  by code_simp

lemma twin_prime_sup_twin: "gu_twin_prime_sup fuel i = Done p \<Longrightarrow> is_twin p \<and> i \<le> p"
  using twin_sup_loop_twin [of fuel fuel "i - 2" p] is_twin_5
  by (auto simp: gu_twin_prime_sup_def split: if_splits)

lemma twin_prime_sup_fuel:
  assumes "is_twin q" and "i \<le> q" and "q - i < int fuel"
  shows "\<exists>p. gu_twin_prime_sup fuel i = Done p \<and> is_twin p \<and> i \<le> p \<and> p \<le> q"
proof (cases "i \<le> 5")
  case True
  with is_twin_5 twin_ge5 [OF assms(1)] show ?thesis by (simp add: gu_twin_prime_sup_def)
next
  case False
  with twin_sup_loop_spec [of "i - 2" "q - 2" fuel fuel] assms show ?thesis
    by (auto simp: gu_twin_prime_sup_def)
qed

subsection \<open>Properties\<close>

text \<open>C16. \<open>gu_is_prime\<close> decides primality, for every argument in the range where its arithmetic stays
  within \<open>int\<close>, and without failing an assertion (the residue passed to \<open>gu_prime_wheel\<close> is in range and
  the number passed to \<open>gu_is_wheel_prime\<close> has no factor 2, 3 or 5).\<close>

theorem gu_is_prime_correct:
  assumes "i < 2145542400"
  shows "gu_is_prime i = Done (1 < i \<and> (\<forall>k. 1 < k \<and> k < i \<longrightarrow> \<not> k dvd i))"
  by (simp add: is_prime_test is_prime_def)

theorem gu_is_prime_correct_witness: "gu_is_prime 91 = Done False"
proof -
  have "\<not> (\<forall>k. 1 < k \<and> k < 91 \<longrightarrow> \<not> k dvd (91 :: int))"
    by (auto intro: exI [of _ 7])
  with gu_is_prime_correct [of 91] show ?thesis by (simp only:) simp
qed

text \<open>C17. The twin prime searches: \<open>gu_twin_prime_inf\<close> always returns, and returns the greatest upper
  twin prime up to its argument or 0 when there is none; \<open>gu_twin_prime_sup\<close> returns an upper
  twin prime from its argument on and below every other one, as soon as there is one within the fuel.
  All numbers are in the range where the arithmetic stays within \<open>int\<close>.\<close>

theorem twin_prime_search:
  assumes "i < 2145542400"
  shows "(\<exists>p. gu_twin_prime_inf i = Done p \<and> (p = 0 \<or> is_twin p \<and> p \<le> i) \<and>
       (\<forall>q. is_twin q \<and> q \<le> i \<longrightarrow> q \<le> p)) \<and>
     (\<forall>q. is_twin q \<and> i \<le> q \<and> q < 2145542400 \<and> q - i < int fuel \<longrightarrow>
       (\<exists>p. gu_twin_prime_sup fuel i = Done p \<and> is_twin p \<and> i \<le> p \<and> p \<le> q))"
  using twin_prime_inf_spec twin_prime_sup_fuel by blast

theorem twin_prime_search_witness:
  "(\<exists>p. gu_twin_prime_inf 15 = Done p \<and> (p = 0 \<or> is_twin p \<and> p \<le> 15)) \<and>
   (\<exists>p. gu_twin_prime_sup 10 15 = Done p \<and> is_twin p \<and> 15 \<le> p \<and> p \<le> 19)"
proof -
  have "is_twin 19" by code_simp
  with twin_prime_search [of 15 10] show ?thesis by auto
qed

end
