(* ===== verification/Mem.thy ===== *)
theory Mem
  imports Prelude
begin

text \<open>
  \<open>gu/mem.c\<close>: the sizes of heap buffers. Buffers are allocated in numbers of
  blocks taken from a sequence that grows by a factor of about 4/3, so that growing buffers are
  reallocated rarely. Sizes are \<open>size_t\<close> values: integers with the wrap-around at \<open>2 ^ 64\<close>
  written out.
\<close>

subsection \<open>Buffer sizes\<close>

definition SIZE_MAX :: int where "SIZE_MAX = 2 ^ 64 - 1"

definition gu_mem_chunk_max_size :: int where "gu_mem_chunk_max_size = 1024 * 8"
definition gu_mem_pool_initial_size :: int where "gu_mem_pool_initial_size = 24 * 8"
definition gu_mem_max_shared_alloc :: int where "gu_mem_max_shared_alloc = 64 * 8"
definition gu_mem_unit_size :: int where "gu_mem_unit_size = 2 * 8"
definition gu_malloc_overhead :: int where "gu_malloc_overhead = 8"

text \<open>The \<open>while\<close> loop of \<open>gu_mem_padovan\<close>.\<close>

fun padovan_loop :: "nat \<Rightarrow> int \<Rightarrow> int \<Rightarrow> int \<Rightarrow> int \<Rightarrow> int run" where
  "padovan_loop 0 mn a b c = Out_Of_Fuel"
| "padovan_loop (Suc n) mn a b c =
     (if mn > a
      then if b < a then Done SIZE_MAX
           else let tmp = (a + b) mod 2 ^ 64 in padovan_loop n mn b c tmp
      else Done a)"

text \<open>200 iterations are enough for every request below \<open>2 ^ 60\<close> blocks (\<open>padovan_bounds\<close>).\<close>

definition gu_mem_padovan :: "int \<Rightarrow> int run" where
  "gu_mem_padovan mn = (if mn \<le> 5 then Done mn else padovan_loop 200 mn 7 9 12)"

text \<open>The size of the buffer that \<open>gu_mem_buf_realloc\<close> and \<open>gu_mem_buf_alloc\<close> return for a request;
  running out of memory ends the program and is not modelled.\<close>

definition gu_mem_buf_realloc :: "int \<Rightarrow> int run" where
  "gu_mem_buf_realloc min_size =
     (let min_blocks = ((min_size + gu_malloc_overhead - 1) mod 2 ^ 64) div gu_mem_unit_size + 1
      in bindR (gu_mem_padovan min_blocks) (\<lambda>blocks.
           Done ((blocks * gu_mem_unit_size - gu_malloc_overhead) mod 2 ^ 64)))"

definition gu_mem_buf_alloc :: "int \<Rightarrow> int run" where
  "gu_mem_buf_alloc min_size = gu_mem_buf_realloc min_size"

subsection \<open>Bounds\<close>

definition pad_inv :: "int \<Rightarrow> int \<Rightarrow> int \<Rightarrow> bool" where
  "pad_inv a b c \<longleftrightarrow> 0 < a \<and> a < b \<and> b < c \<and> c < a + b \<and> b \<le> 2 * a"

lemma pad_inv_step: "pad_inv a b c \<Longrightarrow> pad_inv b c (a + b)"
  by (auto simp: pad_inv_def)

lemma padovan_loop_bounds:
  "pad_inv a b c \<Longrightarrow> mn \<le> 2 ^ 60 \<Longrightarrow> a < 2 * mn \<Longrightarrow> padovan_loop n mn a b c = Done r \<Longrightarrow>
     mn \<le> r \<and> r < 2 * mn"
proof (induction n arbitrary: a b c)
  case (Suc n)
  show ?case
  proof (cases "mn > a")
    case False
    with Suc.prems show ?thesis by auto
  next
    case True
    have "(a + b) mod 2 ^ 64 = a + b" "\<not> b < a" "b < 2 * mn"
      using True Suc.prems(1,2) by (auto simp: pad_inv_def)
    with Suc.prems True show ?thesis
      using Suc.IH [OF pad_inv_step [OF Suc.prems(1)]] by (simp add: Let_def)
  qed
qed simp

lemma padovan_loop_more:
  "padovan_loop n mn a b c = Done r \<Longrightarrow> n \<le> m \<Longrightarrow> padovan_loop m mn a b c = Done r"
proof (induction n arbitrary: a b c m)
  case (Suc n)
  then obtain m' where "m = Suc m'" by (cases m) auto
  with Suc show ?case by (auto simp: Let_def split: if_splits)
qed simp

lemma padovan_loop_ends:
  "pad_inv a b c \<Longrightarrow> mn \<le> a * 2 ^ k \<Longrightarrow> mn \<le> 2 ^ 60 \<Longrightarrow> \<exists>r. padovan_loop (3 * k + 1) mn a b c = Done r"
proof (induction k arbitrary: a b c)
  case (Suc k)
  have i: "pad_inv b c (a + b)" "pad_inv c (a + b) (b + c)" "pad_inv (a + b) (b + c) (c + (a + b))"
    using Suc.prems(1) pad_inv_step by blast+
  show ?case
  proof (cases "mn > c")
    case False
    then show ?thesis
      using Suc.prems i by (auto simp: Let_def numeral_3_eq_3 pad_inv_def)
  next
    case True
    have lt: "a < mn" "b < mn" "\<not> b < a" "\<not> c < b" "\<not> a + b < c" "(a + b) mod 2 ^ 64 = a + b"
      "(b + c) mod 2 ^ 64 = b + c" "(c + (a + b)) mod 2 ^ 64 = c + (a + b)"
      using True Suc.prems(1,3) by (auto simp: pad_inv_def)
    have "mn \<le> (a + b) * 2 ^ k"
    proof -
      have "a * 2 * 2 ^ k \<le> (a + b) * 2 ^ k"
        using Suc.prems(1) by (intro mult_right_mono) (auto simp: pad_inv_def)
      with Suc.prems(2) show ?thesis by (metis mult.assoc order_trans power_Suc)
    qed
    from Suc.IH [OF i(3) this Suc.prems(3)] obtain r where
      "padovan_loop (3 * k + 1) mn (a + b) (b + c) (c + (a + b)) = Done r" by blast
    moreover define f where "f = 3 * k + 1"
    ultimately have "padovan_loop (Suc (Suc (Suc f))) mn a b c = Done r"
      using lt True by (simp add: Let_def)
    moreover have "3 * Suc k + 1 = Suc (Suc (Suc f))" by (simp add: f_def)
    ultimately show ?thesis by metis
  qed
qed auto

lemma padovan_bounds:
  assumes "0 \<le> mn" and "mn \<le> 2 ^ 60"
  shows "\<exists>r. gu_mem_padovan mn = Done r \<and> mn \<le> r \<and> r \<le> 2 * mn"
proof (cases "mn \<le> 5")
  case True
  with assms(1) show ?thesis by (simp add: gu_mem_padovan_def)
next
  case False
  have i: "pad_inv 7 9 12" by (simp add: pad_inv_def)
  obtain r where "padovan_loop (3 * 60 + 1) mn 7 9 12 = Done r"
    using padovan_loop_ends [OF i, of mn 60] assms by auto
  then have r: "padovan_loop 200 mn 7 9 12 = Done r"
    by (rule padovan_loop_more) simp
  with padovan_loop_bounds [OF i assms(2) _ r] False show ?thesis
    by (auto simp: gu_mem_padovan_def)
qed

lemma buf_alloc_bounds:
  assumes "0 \<le> n" and "n < 2 ^ 60"
  shows "\<exists>s. gu_mem_buf_alloc n = Done s \<and> n \<le> s \<and> s \<le> 2 * n + 48 \<and> s < 2 ^ 62"
proof -
  define mb where "mb = (n + 7) div 16 + 1"
  have a: "(n + gu_malloc_overhead - 1) mod 2 ^ 64 = n + 7"
    using assms by (simp add: gu_malloc_overhead_def)
  have mb: "0 \<le> mb" "mb \<le> 2 ^ 60" "n + 8 \<le> 16 * mb" "16 * mb \<le> n + 23"
    using assms by (simp_all add: mb_def)
  obtain r where r: "gu_mem_padovan mb = Done r" "mb \<le> r" "r \<le> 2 * mb"
    using padovan_bounds [OF mb(1,2)] by blast
  have "(r * gu_mem_unit_size - gu_malloc_overhead) mod 2 ^ 64 = 16 * r - 8"
    using r mb assms by (simp add: gu_mem_unit_size_def gu_malloc_overhead_def)
  then have "gu_mem_buf_alloc n = Done (16 * r - 8)"
    using r(1) a by (simp add: gu_mem_buf_alloc_def gu_mem_buf_realloc_def Let_def gu_mem_unit_size_def mb_def)
  with r mb assms show ?thesis by auto
qed

end
