(* ===== verification/GuMap.thy ===== *)
theory GuMap
  imports Mem Prime
begin

text \<open>
  \<open>gu/map.c\<close>: the hash tables of the library, with open addressing and double hashing. A table has a
  prime number \<open>n\<close> of slots such that \<open>n - 2\<close> is prime too; a key probes the slots
  \<open>hash mod n\<close>, and from there on in steps of \<open>hash mod (n - 2) + 1\<close>. A slot whose key bytes are all zero
  is free, except for the slot \<open>zero_idx\<close>, which holds the key that is all zero bytes.

  The three kinds of tables of the code (\<open>GU_MAP_GENERIC\<close>, \<open>GU_MAP_ADDR\<close>, \<open>GU_MAP_WORD\<close>) differ in how they
  get at the bytes, the hash and the equality of keys; the model has keys of an arbitrary type
  with equality, and a configuration that fixes the rest: the zero key, the hash function (whose
  values depend on addresses), the sizes of keys and values in bytes, the default value and the
  value of zeroed memory. A value size of 0 makes the table a set.

  \<open>gu_map_insert\<close> and \<open>gu_map_resize\<close> call each other; the fuel of \<open>gu_map_insert\<close> bounds the nesting,
  and 2 is enough because an insertion made by a resize never resizes again
  (\<open>insert_total\<close> below).
\<close>

subsection \<open>State\<close>

record ('k, 'v) GuMapConf =
  mc_zero :: 'k
  mc_hash :: "'k \<Rightarrow> nat"
  mc_key_size :: int
  mc_value_size :: int
  mc_default :: "'v option"
  mc_zero_value :: 'v
  mc_fuel :: nat

record ('k, 'v) GuMapData =
  mkeys :: "'k list"
  mvalues :: "'v list"
  n_occupied :: nat
  n_entries :: nat
  zero_idx :: "nat option"

subsection \<open>Operations\<close>

definition gu_map_entry_is_free :: "('k, 'v) GuMapConf \<Rightarrow> ('k, 'v) GuMapData \<Rightarrow> nat \<Rightarrow> bool" where
  "gu_map_entry_is_free cf m i \<longleftrightarrow>
     (if zero_idx m = Some i then False else mkeys m ! i = mc_zero cf)"

fun lookup_loop ::
  "('k, 'v) GuMapConf \<Rightarrow> ('k, 'v) GuMapData \<Rightarrow> 'k \<Rightarrow> nat \<Rightarrow> nat \<Rightarrow> nat \<Rightarrow> (bool \<times> nat) run" where
  "lookup_loop cf m key offset 0 i = Out_Of_Fuel"
| "lookup_loop cf m key offset (Suc f) i =
     bindR (seq_at (mkeys m) i) (\<lambda>entry_key.
       if entry_key = mc_zero cf \<and> zero_idx m \<noteq> Some i then Done (False, i)
       else if key = entry_key then Done (True, i)
       else lookup_loop cf m key offset f ((i + offset) mod n_entries m))"

text \<open>As many iterations as there are slots; \<open>lookup_total\<close> below shows that they are enough.\<close>

definition gu_map_lookup ::
  "('k, 'v) GuMapConf \<Rightarrow> ('k, 'v) GuMapData \<Rightarrow> 'k \<Rightarrow> (bool \<times> nat) run" where
  "gu_map_lookup cf m key =
     (let n = n_entries m; hash = mc_hash cf key
      in lookup_loop cf m key (hash mod (n - 2) + 1) n (hash mod n))"

type_synonym ('k, 'v) map_insert = "'k \<Rightarrow> ('k, 'v) GuMapData \<Rightarrow> (nat \<times> ('k, 'v) GuMapData) run"

text \<open>The sizes of the new table: the number of slots requested, then what the allocated buffers hold.\<close>

definition resize_entries :: "('k, 'v) GuMapConf \<Rightarrow> nat \<Rightarrow> nat run" where
  "resize_entries cf occ =
     bindR (gu_twin_prime_sup (mc_fuel cf) (int (max 11 (occ * 4 div 3 + 1)))) (\<lambda>req.
     bindR (gu_mem_buf_alloc (req * mc_key_size cf)) (\<lambda>ksz.
     let n1 = ksz div mc_key_size cf in
     bindR (if mc_value_size cf \<noteq> 0
            then bindR (gu_mem_buf_alloc (req * mc_value_size cf)) (\<lambda>vsz.
                   Done (min n1 (vsz div mc_value_size cf)))
            else Done n1) (\<lambda>n2.
     bindR (gu_twin_prime_inf n2) (\<lambda>n. Done (nat n)))))"

definition gu_map_resize ::
  "('k, 'v) GuMapConf \<Rightarrow> ('k, 'v) map_insert \<Rightarrow> ('k, 'v) GuMapData \<Rightarrow> ('k, 'v) GuMapData run" where
  "gu_map_resize cf ins old =
     bindR (resize_entries cf (n_occupied old)) (\<lambda>n.
     gu_assert (n > n_occupied old)
      (foldR (\<lambda>i m.
          if gu_map_entry_is_free cf old i then Done m
          else bindR (ins (mkeys old ! i) m) (\<lambda>(j, m'). Done (m'\<lparr>mvalues := (mvalues m')[j := mvalues old ! i]\<rparr>)))
        [0..<n_entries old]
        \<lparr>mkeys = replicate n (mc_zero cf), mvalues = replicate n (mc_zero_value cf),
         n_occupied = 0, n_entries = n, zero_idx = None\<rparr>))"

definition gu_map_maybe_resize ::
  "('k, 'v) GuMapConf \<Rightarrow> ('k, 'v) map_insert \<Rightarrow> ('k, 'v) GuMapData \<Rightarrow> (bool \<times> ('k, 'v) GuMapData) run" where
  "gu_map_maybe_resize cf ins m =
     (if n_entries m \<le> n_occupied m + n_occupied m div 4
      then bindR (gu_map_resize cf ins m) (\<lambda>m'. Done (True, m'))
      else Done (False, m))"

text \<open>Writing a new key into slot \<open>i\<close>.\<close>

definition insert_at :: "('k, 'v) GuMapConf \<Rightarrow> 'k \<Rightarrow> nat \<Rightarrow> ('k, 'v) GuMapData \<Rightarrow> ('k, 'v) GuMapData run" where
  "insert_at cf key i m =
     (let m1 = m\<lparr>mkeys := (mkeys m)[i := key],
                 mvalues := (case mc_default cf of None \<Rightarrow> mvalues m | Some d \<Rightarrow> (mvalues m)[i := d])\<rparr>
      in bindR
           (if gu_map_entry_is_free cf m1 i
            then gu_assert (zero_idx m1 = None) (Done (m1\<lparr>zero_idx := Some i\<rparr>))
            else Done m1)
           (\<lambda>m2. Done (m2\<lparr>n_occupied := n_occupied m2 + 1\<rparr>)))"

text \<open>The result is the slot whose value the returned pointer points to.\<close>

fun gu_map_insert :: "('k, 'v) GuMapConf \<Rightarrow> nat \<Rightarrow> ('k, 'v) map_insert" where
  "gu_map_insert cf 0 key m = Out_Of_Fuel"
| "gu_map_insert cf (Suc f) key m =
     bindR (gu_map_lookup cf m key) (\<lambda>(found, i).
       if found then Done (i, m)
       else
         bindR (gu_map_maybe_resize cf (gu_map_insert cf f) m) (\<lambda>(resized, m1).
         bindR (if resized
                then bindR (gu_map_lookup cf m1 key) (\<lambda>(found, i'). gu_assert (\<not> found) (Done i'))
                else Done i) (\<lambda>i1.
         bindR (insert_at cf key i1 m1) (\<lambda>m2. Done (i1, m2)))))"

definition gu_map_put ::
  "('k, 'v) GuMapConf \<Rightarrow> 'k \<Rightarrow> 'v \<Rightarrow> ('k, 'v) GuMapData \<Rightarrow> ('k, 'v) GuMapData run" where
  "gu_map_put cf key v m =
     bindR (gu_map_insert cf 2 key m) (\<lambda>(i, m'). Done (m'\<lparr>mvalues := (mvalues m')[i := v]\<rparr>))"

definition gu_map_find :: "('k, 'v) GuMapConf \<Rightarrow> ('k, 'v) GuMapData \<Rightarrow> 'k \<Rightarrow> 'v option run" where
  "gu_map_find cf m key =
     bindR (gu_map_lookup cf m key) (\<lambda>(found, i).
       if found then bindR (seq_at (mvalues m) i) (\<lambda>v. Done (Some v)) else Done None)"

definition gu_map_find_default :: "('k, 'v) GuMapConf \<Rightarrow> ('k, 'v) GuMapData \<Rightarrow> 'k \<Rightarrow> 'v option run" where
  "gu_map_find_default cf m key =
     bindR (gu_map_find cf m key) (\<lambda>p. Done (case p of None \<Rightarrow> mc_default cf | Some v \<Rightarrow> Some v))"

definition gu_map_find_key :: "('k, 'v) GuMapConf \<Rightarrow> ('k, 'v) GuMapData \<Rightarrow> 'k \<Rightarrow> 'k option run" where
  "gu_map_find_key cf m key =
     bindR (gu_map_lookup cf m key) (\<lambda>(found, i).
       if found then bindR (seq_at (mkeys m) i) (\<lambda>k. Done (Some k)) else Done None)"

definition gu_map_has :: "('k, 'v) GuMapConf \<Rightarrow> ('k, 'v) GuMapData \<Rightarrow> 'k \<Rightarrow> bool run" where
  "gu_map_has cf m key = bindR (gu_map_find_key cf m key) (\<lambda>p. Done (p \<noteq> None))"

definition gu_make_map :: "('k, 'v) GuMapConf \<Rightarrow> ('k, 'v) GuMapData run" where
  "gu_make_map cf =
     gu_map_resize cf (gu_map_insert cf 0)
       \<lparr>mkeys = [], mvalues = [], n_occupied = 0, n_entries = 0, zero_idx = None\<rparr>"

text \<open>Enumeration of the keys: the next used slot from the cursor on.\<close>

fun enum_scan :: "('k, 'v) GuMapConf \<Rightarrow> ('k, 'v) GuMapData \<Rightarrow> nat list \<Rightarrow> nat option" where
  "enum_scan cf m [] = None"
| "enum_scan cf m (i # is) = (if gu_map_entry_is_free cf m i then enum_scan cf m is else Some i)"

definition gu_map_enum_next :: "('k, 'v) GuMapConf \<Rightarrow> ('k, 'v) GuMapData \<Rightarrow> nat \<Rightarrow> ('k \<times> nat) option" where
  "gu_map_enum_next cf m i =
     map_option (\<lambda>j. (mkeys m ! j, j + 1)) (enum_scan cf m [i..<n_entries m])"

definition gu_map_iter :: "('k, 'v) GuMapConf \<Rightarrow> ('k, 'v) GuMapData \<Rightarrow> ('k \<Rightarrow> 'v \<Rightarrow> 's \<Rightarrow> 's run) \<Rightarrow> 's \<Rightarrow> 's run" where
  "gu_map_iter cf m fn =
     foldR (\<lambda>i s. if gu_map_entry_is_free cf m i then Done s else fn (mkeys m ! i) (mvalues m ! i) s)
       [0..<n_entries m]"

subsection \<open>The invariant\<close>

definition probe :: "('k, 'v) GuMapConf \<Rightarrow> nat \<Rightarrow> 'k \<Rightarrow> nat \<Rightarrow> nat" where
  "probe cf n key t = (mc_hash cf key mod n + t * (mc_hash cf key mod (n - 2) + 1)) mod n"

definition used :: "('k, 'v) GuMapConf \<Rightarrow> ('k, 'v) GuMapData \<Rightarrow> nat \<Rightarrow> bool" where
  "used cf m i \<longleftrightarrow> i < n_entries m \<and> \<not> gu_map_entry_is_free cf m i"

definition reachable_by_probe :: "('k, 'v) GuMapConf \<Rightarrow> ('k, 'v) GuMapData \<Rightarrow> nat \<Rightarrow> bool" where
  "reachable_by_probe cf m i \<longleftrightarrow>
     (\<exists>t. probe cf (n_entries m) (mkeys m ! i) t = i \<and>
        (\<forall>u < t. used cf m (probe cf (n_entries m) (mkeys m ! i) u)))"

definition map_wf :: "('k, 'v) GuMapConf \<Rightarrow> ('k, 'v) GuMapData \<Rightarrow> bool" where
  "map_wf cf m \<longleftrightarrow>
     is_twin (int (n_entries m)) \<and> 13 \<le> n_entries m \<and>
     length (mkeys m) = n_entries m \<and> length (mvalues m) = n_entries m \<and>
     (\<forall>i. zero_idx m = Some i \<longrightarrow> i < n_entries m \<and> mkeys m ! i = mc_zero cf) \<and>
     (\<forall>i j. used cf m i \<and> used cf m j \<and> mkeys m ! i = mkeys m ! j \<longrightarrow> i = j) \<and>
     n_occupied m = card {i. used cf m i} \<and> n_occupied m < n_entries m \<and>
     (\<forall>i. used cf m i \<longrightarrow> reachable_by_probe cf m i)"

subsection \<open>Probing visits every slot\<close>

lemma twin_prime_nat: "is_twin (int n) \<Longrightarrow> k dvd n \<Longrightarrow> k = 1 \<or> k = n"
proof -
  assume t: "is_twin (int n)" and k: "k dvd n"
  then have n: "1 < int n" "\<And>d. 1 < d \<Longrightarrow> d < int n \<Longrightarrow> \<not> d dvd int n"
    by (auto simp: is_twin_def is_prime_def)
  have "k \<noteq> 0"
    using k n(1) by (cases "k = 0") auto
  moreover have "k \<le> n"
    using k n(1) by (intro dvd_imp_le) auto
  moreover have "\<not> (1 < k \<and> k < n)"
    using n(2) [of "int k"] k by auto
  ultimately show ?thesis by linarith
qed

lemma twin_coprime:
  assumes "is_twin (int n)" and "0 < d" and "d < n"
  shows "coprime d n"
proof -
  have "gcd d n = 1 \<or> gcd d n = n"
    using twin_prime_nat [OF assms(1)] by simp
  moreover have "gcd d n \<le> d"
    using assms(2) by (simp add: gcd_le1_nat)
  ultimately show ?thesis
    using assms(3) by (auto simp: coprime_iff_gcd_eq_1)
qed

lemma probe_inj:
  assumes "is_twin (int n)" and "13 \<le> n"
  shows "inj_on (probe cf n key) {..<n}"
proof -
  define d where "d = mc_hash cf key mod (n - 2) + 1"
  define a where "a = mc_hash cf key mod n"
  have "mc_hash cf key mod (n - 2) < n - 2"
    using assms(2) by simp
  then have d: "0 < d" "d < n"
    by (simp_all add: d_def)
  have le: "s = t" if "s \<le> t" "t < n" "(a + s * d) mod n = (a + t * d) mod n" for s t
  proof -
    have "n dvd (a + t * d) - (a + s * d)"
      using that mod_eq_dvd_iff_nat [of "a + s * d" "a + t * d" n] by simp
    moreover have "(a + t * d) - (a + s * d) = (t - s) * d"
      by (simp add: diff_mult_distrib)
    ultimately have "n dvd t - s"
      using twin_coprime [OF assms(1) d] by (simp add: coprime_commute coprime_dvd_mult_left_iff)
    with that(2) have "t - s = 0"
      by (meson dvd_imp_le diff_le_self le_less_trans not_less zero_less_iff_neq_zero)
    with that(1) show ?thesis by simp
  qed
  show ?thesis
  proof (rule inj_onI)
    fix s t
    assume "s \<in> {..<n}" "t \<in> {..<n}" "probe cf n key s = probe cf n key t"
    then have "s < n" "t < n" "(a + s * d) mod n = (a + t * d) mod n"
      by (simp_all add: probe_def a_def d_def)
    with le [of s t] le [of t s] show "s = t"
      by (cases "s \<le> t") auto
  qed
qed

lemma probe_less: "0 < n \<Longrightarrow> probe cf n key t < n"
  by (simp add: probe_def)

lemma probe_surj:
  assumes "is_twin (int n)" and "13 \<le> n" and "i < n"
  shows "\<exists>t < n. probe cf n key t = i"
proof -
  have "probe cf n key ` {..<n} = {..<n}"
    by (rule card_subset_eq) (use assms probe_less [of n cf key] in \<open>auto simp: card_image probe_inj\<close>)
  then show ?thesis
    using assms(3) by (metis imageE lessThan_iff)
qed

subsection \<open>Lookup\<close>

definition stops :: "('k, 'v) GuMapConf \<Rightarrow> ('k, 'v) GuMapData \<Rightarrow> 'k \<Rightarrow> nat \<Rightarrow> bool" where
  "stops cf m key t \<longleftrightarrow>
     \<not> used cf m (probe cf (n_entries m) key t) \<or> mkeys m ! probe cf (n_entries m) key t = key"

definition has_key :: "('k, 'v) GuMapConf \<Rightarrow> ('k, 'v) GuMapData \<Rightarrow> 'k \<Rightarrow> bool" where
  "has_key cf m key \<longleftrightarrow> (\<exists>i. used cf m i \<and> mkeys m ! i = key)"

lemma probe_step:
  "(probe cf n key t + (mc_hash cf key mod (n - 2) + 1)) mod n = probe cf n key (Suc t)"
proof -
  define a d where "a = mc_hash cf key mod n" and "d = mc_hash cf key mod (n - 2) + 1"
  have "((a + t * d) mod n + d) mod n = (a + t * d + d) mod n"
    by (rule mod_add_left_eq)
  also have "a + t * d + d = a + Suc t * d"
    by simp
  finally show ?thesis
    by (simp add: probe_def a_def d_def)
qed

lemma lookup_loop_spec:
  assumes "0 < n_entries m" and "length (mkeys m) = n_entries m"
    and "t \<le> T" and "\<And>u. t \<le> u \<Longrightarrow> u < T \<Longrightarrow> \<not> stops cf m key u" and "stops cf m key T" and "T - t < f"
  shows "lookup_loop cf m key (mc_hash cf key mod (n_entries m - 2) + 1) f (probe cf (n_entries m) key t) =
    Done (used cf m (probe cf (n_entries m) key T), probe cf (n_entries m) key T)"
  using assms(3-6)
proof (induction f arbitrary: t)
  case (Suc f)
  let ?p = "probe cf (n_entries m) key"
  have lt: "?p t < n_entries m"
    using assms(1) by (rule probe_less)
  show ?case
  proof (cases "t = T")
    case True
    with Suc.prems(3) lt assms(2) show ?thesis
      by (auto simp: stops_def used_def gu_map_entry_is_free_def)
  next
    case False
    then have ns: "\<not> stops cf m key t" and t: "Suc t \<le> T" "T - Suc t < f"
      using Suc.prems by auto
    then have "lookup_loop cf m key (mc_hash cf key mod (n_entries m - 2) + 1) (Suc f) (?p t) =
        lookup_loop cf m key (mc_hash cf key mod (n_entries m - 2) + 1) f (?p (Suc t))"
      using lt assms(2) probe_step [of cf "n_entries m" key t]
      by (auto simp: stops_def used_def gu_map_entry_is_free_def split: if_splits)
    with Suc.IH [OF t(1) _ Suc.prems(3) t(2)] Suc.prems(2) show ?thesis by simp
  qed
qed simp

lemma used_bound: "used cf m i \<Longrightarrow> i < n_entries m"
  by (simp add: used_def)

lemma finite_used [simp]: "finite {i. used cf m i}"
  by (rule finite_subset [of _ "{..<n_entries m}"]) (auto simp: used_def)

lemma free_slot: "map_wf cf m \<Longrightarrow> \<exists>i < n_entries m. \<not> used cf m i"
proof (rule ccontr)
  assume wf: "map_wf cf m" and "\<not> (\<exists>i < n_entries m. \<not> used cf m i)"
  then have "{i. used cf m i} = {..<n_entries m}"
    by (auto simp: used_def)
  with wf show False by (auto simp: map_wf_def)
qed

lemma lookup_stops:
  assumes "map_wf cf m"
  shows "\<exists>T. (\<forall>u < T. \<not> stops cf m key u) \<and> stops cf m key T \<and>
    gu_map_lookup cf m key =
      Done (used cf m (probe cf (n_entries m) key T), probe cf (n_entries m) key T)"
proof -
  have n: "is_twin (int (n_entries m))" "13 \<le> n_entries m" "length (mkeys m) = n_entries m"
    using assms by (auto simp: map_wf_def)
  obtain i where i: "i < n_entries m" "\<not> used cf m i"
    using free_slot [OF assms] by blast
  then obtain t where t: "t < n_entries m" "stops cf m key t"
    using probe_surj [OF n(1,2) i(1), of cf key] by (auto simp: stops_def)
  define T where "T = (LEAST t. stops cf m key t)"
  have T: "stops cf m key T" "T \<le> t" "\<forall>u < T. \<not> stops cf m key u"
    unfolding T_def using t(2) not_less_Least by (auto intro: LeastI Least_le)
  have p0: "probe cf (n_entries m) key 0 = mc_hash cf key mod n_entries m"
    by (simp add: probe_def)
  have "gu_map_lookup cf m key =
      Done (used cf m (probe cf (n_entries m) key T), probe cf (n_entries m) key T)"
    using lookup_loop_spec [of m 0 T cf key "n_entries m"] T t(1) n p0
    by (simp add: gu_map_lookup_def Let_def)
  with T show ?thesis by blast
qed

lemma lookup_total:
  assumes "map_wf cf m"
  shows "(\<exists>i. gu_map_lookup cf m key = Done (True, i) \<and> used cf m i \<and> mkeys m ! i = key) \<or>
    (\<exists>i T. gu_map_lookup cf m key = Done (False, i) \<and> i < n_entries m \<and> \<not> used cf m i \<and>
       \<not> has_key cf m key \<and> probe cf (n_entries m) key T = i \<and>
       (\<forall>u < T. used cf m (probe cf (n_entries m) key u)))"
proof -
  let ?p = "probe cf (n_entries m) key"
  obtain T where T: "\<And>u. u < T \<Longrightarrow> \<not> stops cf m key u" "stops cf m key T"
    "gu_map_lookup cf m key = Done (used cf m (?p T), ?p T)"
    using lookup_stops [OF assms] by blast
  show ?thesis
  proof (cases "used cf m (?p T)")
    case True
    with T show ?thesis by (auto simp: stops_def)
  next
    case False
    have path: "used cf m (?p u)" if "u < T" for u
      using T(1) [OF that] by (simp add: stops_def)
    have "\<not> has_key cf m key"
    proof
      assume "has_key cf m key"
      then obtain i where i: "used cf m i" "mkeys m ! i = key"
        by (auto simp: has_key_def)
      then obtain t where t: "?p t = i" "\<And>u. u < t \<Longrightarrow> used cf m (?p u)"
        using assms by (auto simp: map_wf_def reachable_by_probe_def)
      have "stops cf m key t"
        using t(1) i(2) by (simp add: stops_def)
      then have "T \<le> t"
        using T(1) not_less by blast
      then show False
        using False t i(1) by (cases "T = t") auto
    qed
    moreover have "?p T < n_entries m"
      using assms by (intro probe_less) (simp add: map_wf_def)
    ultimately show ?thesis
      using T(3) False path by auto
  qed
qed

subsection \<open>The map a table stands for\<close>

definition amap :: "('k, 'v) GuMapConf \<Rightarrow> ('k, 'v) GuMapData \<Rightarrow> 'k \<rightharpoonup> 'v" where
  "amap cf m key =
     (if has_key cf m key then Some (mvalues m ! (THE i. used cf m i \<and> mkeys m ! i = key)) else None)"

lemma amap_used:
  assumes "map_wf cf m" and "used cf m i"
  shows "amap cf m (mkeys m ! i) = Some (mvalues m ! i)"
proof -
  have "(THE j. used cf m j \<and> mkeys m ! j = mkeys m ! i) = i"
    using assms by (intro the_equality) (auto simp: map_wf_def)
  with assms(2) show ?thesis by (auto simp: amap_def has_key_def)
qed

lemma amap_None: "amap cf m key = None \<longleftrightarrow> \<not> has_key cf m key"
  by (simp add: amap_def)

lemma find_amap: "map_wf cf m \<Longrightarrow> gu_map_find cf m key = Done (amap cf m key)"
proof -
  assume wf: "map_wf cf m"
  have len: "length (mvalues m) = n_entries m"
    using wf by (simp add: map_wf_def)
  from lookup_total [OF wf, of key] show ?thesis
  proof (elim disjE exE conjE)
    fix i
    assume "gu_map_lookup cf m key = Done (True, i)" "used cf m i" "mkeys m ! i = key"
    with amap_used [OF wf, of i] len used_bound show ?thesis
      by (fastforce simp: gu_map_find_def)
  next
    fix i
    assume "gu_map_lookup cf m key = Done (False, i)" "\<not> has_key cf m key"
    then show ?thesis
      by (simp add: gu_map_find_def amap_def)
  qed
qed

subsection \<open>Insertion into a free slot\<close>

lemma insert_at_spec:
  assumes wf: "map_wf cf m" and i: "i < n_entries m" "\<not> used cf m i" and new: "\<not> has_key cf m key"
    and path: "probe cf (n_entries m) key T = i" "\<And>u. u < T \<Longrightarrow> used cf m (probe cf (n_entries m) key u)"
    and room: "n_occupied m + 1 < n_entries m"
  shows "\<exists>m'. insert_at cf key i m = Done m' \<and> map_wf cf m' \<and> n_entries m' = n_entries m \<and>
    n_occupied m' = n_occupied m + 1 \<and> used cf m' i \<and> mkeys m' ! i = key \<and>
    (\<forall>k. k \<noteq> key \<longrightarrow> amap cf m' k = amap cf m k)"
proof -
  have w: "is_twin (int (n_entries m))" "13 \<le> n_entries m" "length (mkeys m) = n_entries m"
    "length (mvalues m) = n_entries m" "n_occupied m = card {i. used cf m i}"
    "\<And>j. zero_idx m = Some j \<Longrightarrow> j < n_entries m \<and> mkeys m ! j = mc_zero cf"
    "\<And>j. used cf m j \<Longrightarrow> reachable_by_probe cf m j"
    "\<And>j k. used cf m j \<Longrightarrow> used cf m k \<Longrightarrow> mkeys m ! j = mkeys m ! k \<Longrightarrow> j = k"
    using wf by (auto simp: map_wf_def)
  have zi: "zero_idx m \<noteq> Some i"
    using i by (auto simp: used_def gu_map_entry_is_free_def)
  have zk: "zero_idx m = None" if "key = mc_zero cf"
  proof (rule ccontr)
    assume "zero_idx m \<noteq> None"
    then obtain j where "zero_idx m = Some j" by auto
    with w(6) [OF this] that new show False
      by (auto simp: has_key_def used_def gu_map_entry_is_free_def)
  qed
  define m' where "m' = m\<lparr>mkeys := (mkeys m)[i := key],
     mvalues := (case mc_default cf of None \<Rightarrow> mvalues m | Some d \<Rightarrow> (mvalues m)[i := d]),
     zero_idx := (if key = mc_zero cf then Some i else zero_idx m), n_occupied := n_occupied m + 1\<rparr>"
  have run: "insert_at cf key i m = Done m'"
    using zi zk i(1) w(3) by (auto simp: insert_at_def Let_def gu_map_entry_is_free_def m'_def)
  have n': "n_entries m' = n_entries m" "n_occupied m' = n_occupied m + 1"
    by (simp_all add: m'_def)
  have keys': "mkeys m' ! j = (if j = i then key else mkeys m ! j)" if "j < n_entries m" for j
    using that w(3) by (simp add: m'_def)
  have vals': "mvalues m' ! j = mvalues m ! j" if "j \<noteq> i" for j
    using that by (simp add: m'_def split: option.splits)
  have used': "used cf m' j \<longleftrightarrow> used cf m j \<or> j = i" for j
    using i zi zk keys' [of j] by (auto simp: used_def gu_map_entry_is_free_def n' m'_def split: if_splits)
  have reach: "reachable_by_probe cf m' j" if "used cf m' j" for j
  proof (cases "j = i")
    case True
    with path i(1) keys' used' n' show ?thesis
      unfolding reachable_by_probe_def by auto
  next
    case False
    with that have j: "used cf m j" by (simp add: used')
    then have "mkeys m' ! j = mkeys m ! j"
      using keys' [OF used_bound [OF j]] False by simp
    with w(7) [OF j] used' n' show ?thesis
      unfolding reachable_by_probe_def by auto
  qed
  have inj: "j = k" if "used cf m' j" "used cf m' k" "mkeys m' ! j = mkeys m' ! k" for j k
    using that w(8) [of j k] new keys' used_bound [of cf m] i
    by (auto simp: used' has_key_def split: if_splits)
  have card: "card {j. used cf m' j} = n_occupied m + 1"
  proof -
    have "{j. used cf m' j} = insert i {j. used cf m j}"
      by (auto simp: used')
    then show ?thesis
      using i(2) w(5) by simp
  qed
  have z': "j < n_entries m \<and> mkeys m' ! j = mc_zero cf" if "zero_idx m' = Some j" for j
  proof (cases "j = i")
    case True
    with that zi have "key = mc_zero cf" by (auto simp: m'_def split: if_splits)
    with True i(1) keys' show ?thesis by simp
  next
    case False
    with that have "zero_idx m = Some j" by (auto simp: m'_def split: if_splits)
    with w(6) keys' False show ?thesis by auto
  qed
  have l': "length (mkeys m') = n_entries m" "length (mvalues m') = n_entries m"
    using w(3,4) by (simp_all add: m'_def split: option.splits)
  have wf': "map_wf cf m'"
    using w(1-2) card room inj reach z' l' unfolding map_wf_def n' by simp
  have "amap cf m' k = amap cf m k" if "k \<noteq> key" for k
  proof (cases "has_key cf m k")
    case True
    then obtain j where j: "used cf m j" "mkeys m ! j = k" by (auto simp: has_key_def)
    then have "j \<noteq> i" "used cf m' j" "mkeys m' ! j = k"
      using i keys' [OF used_bound [OF j(1)]] used' by auto
    with amap_used [OF wf j(1)] amap_used [OF wf', of j] vals' j(2) show ?thesis by simp
  next
    case False
    have "mkeys m' ! j \<noteq> k" if "used cf m' j" for j
    proof (cases "j = i")
      case True
      with keys' [OF i(1)] \<open>k \<noteq> key\<close> show ?thesis by simp
    next
      case j: False
      with that have "used cf m j" by (simp add: used')
      with keys' [OF used_bound [OF this]] j False show ?thesis by (auto simp: has_key_def)
    qed
    then have "\<not> has_key cf m' k"
      by (auto simp: has_key_def)
    with False show ?thesis by (simp add: amap_def)
  qed
  with run wf' n' used' keys' i show ?thesis by auto
qed

lemma set_value:
  assumes "map_wf cf m" and "used cf m i" and "m' = m\<lparr>mvalues := (mvalues m)[i := v]\<rparr>"
  shows "map_wf cf m'" and "amap cf m' = (amap cf m)(mkeys m ! i \<mapsto> v)"
    and "n_entries m' = n_entries m" and "n_occupied m' = n_occupied m" and "has_key cf m' = has_key cf m"
proof -
  have u: "used cf m' = used cf m"
    by (auto simp: used_def gu_map_entry_is_free_def assms(3) fun_eq_iff)
  have k: "mkeys m' = mkeys m" "n_entries m' = n_entries m" "n_occupied m' = n_occupied m" "zero_idx m' = zero_idx m"
    "length (mvalues m') = length (mvalues m)"
    by (simp_all add: assms(3))
  show wf: "map_wf cf m'"
    using assms(1) by (simp add: map_wf_def u k reachable_by_probe_def)
  show h: "has_key cf m' = has_key cf m"
    by (auto simp: has_key_def u k fun_eq_iff)
  have i: "i < length (mvalues m)"
    using assms(1,2) used_bound by (fastforce simp: map_wf_def)
  show "amap cf m' = (amap cf m)(mkeys m ! i \<mapsto> v)"
  proof
    fix key
    show "amap cf m' key = ((amap cf m)(mkeys m ! i \<mapsto> v)) key"
    proof (cases "has_key cf m key")
      case True
      then obtain j where j: "used cf m j" "mkeys m ! j = key" by (auto simp: has_key_def)
      have "j = i \<longleftrightarrow> key = mkeys m ! i"
        using j assms(1,2) by (auto simp: map_wf_def)
      moreover have "mvalues m' ! j = (if j = i then v else mvalues m ! j)"
        using i by (simp add: assms(3))
      ultimately show ?thesis
        using amap_used [OF wf, of j] amap_used [OF assms(1) j(1)] j by (auto simp: u k)
    next
      case False
      with assms(2) have "key \<noteq> mkeys m ! i" by (auto simp: has_key_def)
      with False h show ?thesis by (simp add: amap_def)
    qed
  qed
  show "n_entries m' = n_entries m" "n_occupied m' = n_occupied m"
    by (simp_all add: k)
qed

text \<open>What an insertion promises: the slot it returns holds the key, the other keys keep their values.\<close>

definition inserted ::
  "('k, 'v) GuMapConf \<Rightarrow> 'k \<Rightarrow> ('k, 'v) GuMapData \<Rightarrow> nat \<Rightarrow> ('k, 'v) GuMapData \<Rightarrow> bool" where
  "inserted cf key m i m' \<longleftrightarrow>
     map_wf cf m' \<and> used cf m' i \<and> mkeys m' ! i = key \<and>
     (\<forall>k. k \<noteq> key \<longrightarrow> amap cf m' k = amap cf m k) \<and>
     (has_key cf m key \<longrightarrow> m' = m) \<and>
     n_occupied m' = n_occupied m + (if has_key cf m key then 0 else 1)"

lemma insert_fits:
  assumes "map_wf cf m" and "n_occupied m + n_occupied m div 4 < n_entries m"
  shows "\<exists>i m'. gu_map_insert cf (Suc f) key m = Done (i, m') \<and> inserted cf key m i m' \<and>
    n_entries m' = n_entries m"
  using lookup_total [OF assms(1), of key]
proof (elim disjE exE conjE)
  fix i
  assume l: "gu_map_lookup cf m key = Done (True, i)" and u: "used cf m i" "mkeys m ! i = key"
  then have "has_key cf m key" by (auto simp: has_key_def)
  with l u assms(1) show ?thesis by (auto simp: inserted_def)
next
  fix i T
  assume l: "gu_map_lookup cf m key = Done (False, i)" and i: "i < n_entries m" "\<not> used cf m i"
    "\<not> has_key cf m key" "probe cf (n_entries m) key T = i"
    "\<forall>u < T. used cf m (probe cf (n_entries m) key u)"
  have "n_occupied m + 1 < n_entries m"
  proof (cases "n_occupied m < 4")
    case True
    with assms(1) show ?thesis by (simp add: map_wf_def)
  next
    case False
    then have "1 \<le> n_occupied m div 4" by simp
    with assms(2) show ?thesis by linarith
  qed
  from insert_at_spec [OF assms(1) i(1-4) _ this] i(5) obtain m' where
    "insert_at cf key i m = Done m'" "map_wf cf m'" "n_entries m' = n_entries m"
    "n_occupied m' = n_occupied m + 1" "used cf m' i" "mkeys m' ! i = key"
    "\<forall>k. k \<noteq> key \<longrightarrow> amap cf m' k = amap cf m k"
    by blast
  with l i(3) assms(2) show ?thesis
    by (auto simp: gu_map_maybe_resize_def inserted_def)
qed

subsection \<open>Resizing\<close>

text \<open>The room a configuration leaves: a twin prime within the fuel, and tables that fit the address
  space.\<close>

definition size_ok :: "('k, 'v) GuMapConf \<Rightarrow> nat \<Rightarrow> bool" where
  "size_ok cf occ \<longleftrightarrow>
     0 < mc_key_size cf \<and> 0 \<le> mc_value_size cf \<and>
     (\<exists>q. is_twin (int q) \<and> max 11 (occ * 4 div 3 + 1) \<le> q \<and> q - max 11 (occ * 4 div 3 + 1) < mc_fuel cf \<and>
        int q * mc_key_size cf < 2 ^ 60 \<and> int q * mc_value_size cf < 2 ^ 60)"

lemma twin_ge13: "is_twin n \<Longrightarrow> 11 \<le> n \<Longrightarrow> 13 \<le> n"
proof -
  assume t: "is_twin n" and n: "11 \<le> n"
  have "\<not> is_twin 11" by code_simp
  then have "n \<noteq> 11" using t by auto
  moreover have "n \<noteq> 12" using twin_ge5 [OF t] by auto
  ultimately show ?thesis using n by simp
qed

lemma div_ge: "p * k \<le> s \<Longrightarrow> 0 < k \<Longrightarrow> p \<le> s div (k :: int)"
  by (metis nonzero_mult_div_cancel_right order_less_irrefl zdiv_mono1)

lemma resize_entries_spec:
  assumes "size_ok cf occ"
  shows "\<exists>n. resize_entries cf occ = Done n \<and> is_twin (int n) \<and> 13 \<le> n \<and> occ * 4 div 3 + 1 \<le> n"
proof -
  define r where "r = max 11 (occ * 4 div 3 + 1)"
  obtain q where q: "0 < mc_key_size cf" "0 \<le> mc_value_size cf" "is_twin (int q)" "r \<le> q" "q - r < mc_fuel cf"
    "int q * mc_key_size cf < 2 ^ 60" "int q * mc_value_size cf < 2 ^ 60"
    using assms unfolding size_ok_def r_def by blast
  have "int q - int r < int (mc_fuel cf)" "int r \<le> int q"
    using q(4,5) by linarith+
  then obtain p where p: "gu_twin_prime_sup (mc_fuel cf) (int r) = Done p" "is_twin p" "int r \<le> p" "p \<le> int q"
    using twin_prime_sup_fuel [OF q(3), of "int r" "mc_fuel cf"] by blast
  have k: "p * mc_key_size cf < 2 ^ 60" "p * mc_value_size cf < 2 ^ 60"
    "0 \<le> p * mc_key_size cf" "0 \<le> p * mc_value_size cf"
  proof -
    have "p * mc_key_size cf \<le> int q * mc_key_size cf" "p * mc_value_size cf \<le> int q * mc_value_size cf"
      using p(4) q(1,2) by (auto intro: mult_right_mono)
    with q(6,7) show "p * mc_key_size cf < 2 ^ 60" "p * mc_value_size cf < 2 ^ 60" by linarith+
    show "0 \<le> p * mc_key_size cf" "0 \<le> p * mc_value_size cf"
      using p(3) q(1,2) by auto
  qed
  obtain ks where ks: "gu_mem_buf_alloc (p * mc_key_size cf) = Done ks" "p \<le> ks div mc_key_size cf"
    using buf_alloc_bounds [OF k(3,1)] div_ge q(1) by blast
  obtain n2 where n2: "(if mc_value_size cf \<noteq> 0
      then bindR (gu_mem_buf_alloc (p * mc_value_size cf)) (\<lambda>vsz.
             Done (min (ks div mc_key_size cf) (vsz div mc_value_size cf)))
      else Done (ks div mc_key_size cf)) = Done n2" "p \<le> n2"
    using buf_alloc_bounds [OF k(4,2)] div_ge [of p "mc_value_size cf"] ks(2) q(2)
    by (cases "mc_value_size cf = 0") force+
  obtain n where n: "gu_twin_prime_inf n2 = Done n" "n = 0 \<or> is_twin n" "p \<le> n"
    using twin_prime_inf_spec [of n2] p(2) n2(2) by auto
  have "is_twin n" "int r \<le> n"
    using n p(3) r_def by auto
  moreover have "resize_entries cf occ = Done (nat n)"
    unfolding resize_entries_def r_def [symmetric] using p(1) ks(1) n2(1) n(1)
    by (cases "mc_value_size cf = 0") (simp_all add: Let_def)
  moreover have "11 \<le> r" "occ * 4 div 3 + 1 \<le> r"
    by (simp_all add: r_def)
  moreover have "int (nat n) = n" "13 \<le> n"
    using calculation twin_ge13 [of n] by auto
  ultimately show ?thesis
    by (intro exI [of _ "nat n"]) auto
qed

definition empty_table :: "('k, 'v) GuMapConf \<Rightarrow> nat \<Rightarrow> ('k, 'v) GuMapData" where
  "empty_table cf n =
     \<lparr>mkeys = replicate n (mc_zero cf), mvalues = replicate n (mc_zero_value cf),
      n_occupied = 0, n_entries = n, zero_idx = None\<rparr>"

lemma empty_table_simps [simp]:
  "n_entries (empty_table cf n) = n" "n_occupied (empty_table cf n) = 0"
  by (simp_all add: empty_table_def)

lemma empty_table_spec:
  assumes "is_twin (int n)" and "13 \<le> n"
  shows "map_wf cf (empty_table cf n)" and "amap cf (empty_table cf n) = Map.empty"
    and "\<not> used cf (empty_table cf n) i"
proof -
  have u: "used cf (empty_table cf n) = (\<lambda>i. False)"
    by (auto simp: used_def gu_map_entry_is_free_def empty_table_def fun_eq_iff)
  then show "\<not> used cf (empty_table cf n) i" by simp
  show "map_wf cf (empty_table cf n)"
    using assms unfolding map_wf_def u by (simp add: empty_table_def)
  show "amap cf (empty_table cf n) = Map.empty"
    by (auto simp: amap_def has_key_def u fun_eq_iff)
qed

lemma resize_loop:
  assumes "map_wf cf old" and "is_twin (int n)" and "13 \<le> n" and "n_occupied old * 4 div 3 + 1 \<le> n"
    and "j \<le> n_entries old"
  shows "\<exists>m. foldR (\<lambda>i m. if gu_map_entry_is_free cf old i then Done m
          else bindR (gu_map_insert cf (Suc f) (mkeys old ! i) m)
                 (\<lambda>(j, m'). Done (m'\<lparr>mvalues := (mvalues m')[j := mvalues old ! i]\<rparr>)))
        [0..<j] (empty_table cf n) = Done m \<and> map_wf cf m \<and> n_entries m = n \<and>
      n_occupied m = card {i. i < j \<and> used cf old i} \<and>
      (\<forall>k. amap cf m k = (if \<exists>i < j. used cf old i \<and> mkeys old ! i = k then amap cf old k else None))"
  using assms(5)
proof (induction j)
  case 0
  then show ?case
    using empty_table_spec(1,2) [OF assms(2,3), where cf = cf] by simp
next
  case (Suc j)
  let ?f = "\<lambda>i m. if gu_map_entry_is_free cf old i then Done m
      else bindR (gu_map_insert cf (Suc f) (mkeys old ! i) m)
             (\<lambda>(j, m'). Done (m'\<lparr>mvalues := (mvalues m')[j := mvalues old ! i]\<rparr>))"
  obtain m where m: "foldR ?f [0..<j] (empty_table cf n) = Done m" "map_wf cf m" "n_entries m = n"
    "n_occupied m = card {i. i < j \<and> used cf old i}"
    "\<And>k. amap cf m k = (if \<exists>i < j. used cf old i \<and> mkeys old ! i = k then amap cf old k else None)"
    using Suc by auto
  have step: "foldR ?f [0..<Suc j] (empty_table cf n) = bindR (?f j m) (foldR ?f [])"
    using m(1) by (simp add: foldR_append)
  show ?case
  proof (cases "used cf old j")
    case False
    then have free: "gu_map_entry_is_free cf old j"
      using Suc.prems by (simp add: used_def)
    have "{i. i < Suc j \<and> used cf old i} = {i. i < j \<and> used cf old i}"
      using False less_Suc_eq by auto
    with m step free False show ?thesis by (auto simp: less_Suc_eq)
  next
    case True
    then have free: "\<not> gu_map_entry_is_free cf old j" by (simp add: used_def)
    have fin: "finite {i. i < j \<and> used cf old i}" by simp
    have ins: "{i. i < Suc j \<and> used cf old i} = insert j {i. i < j \<and> used cf old i}"
      using True by (auto simp: less_Suc_eq)
    have "card {i. i < Suc j \<and> used cf old i} \<le> card {i. used cf old i}"
      by (intro card_mono) auto
    then have le: "n_occupied m + 1 \<le> n_occupied old"
      using m(4) assms(1) ins fin by (simp add: map_wf_def)
    have fits: "n_occupied m + n_occupied m div 4 < n_entries m"
      using le assms(4) m(3) by linarith
    obtain i' m' where i': "gu_map_insert cf (Suc f) (mkeys old ! j) m = Done (i', m')"
      "inserted cf (mkeys old ! j) m i' m'" "n_entries m' = n"
      using insert_fits [OF m(2) fits, of f "mkeys old ! j"] m(3) by auto
    have new: "\<not> has_key cf m (mkeys old ! j)"
    proof -
      have "\<not> (\<exists>i < j. used cf old i \<and> mkeys old ! i = mkeys old ! j)"
        using True assms(1) by (auto simp: map_wf_def)
      then show ?thesis
        using m(5) amap_None by metis
    qed
    define m2 where "m2 = m'\<lparr>mvalues := (mvalues m')[i' := mvalues old ! j]\<rparr>"
    have in': "map_wf cf m'" "used cf m' i'" "mkeys m' ! i' = mkeys old ! j"
      "\<And>k. k \<noteq> mkeys old ! j \<Longrightarrow> amap cf m' k = amap cf m k" "n_occupied m' = n_occupied m + 1"
      using i'(2) new by (auto simp: inserted_def)
    note sv = set_value [OF in'(1,2) m2_def]
    have a2: "amap cf m2 = (amap cf m')(mkeys old ! j \<mapsto> mvalues old ! j)"
      using sv(2) in'(3) by simp
    have am: "amap cf m2 k = (if \<exists>i < Suc j. used cf old i \<and> mkeys old ! i = k then amap cf old k else None)" for k
    proof (cases "k = mkeys old ! j")
      case k: True
      then show ?thesis
        using a2 amap_used [OF assms(1) True] True by auto
    next
      case k: False
      then have "(\<exists>i < Suc j. used cf old i \<and> mkeys old ! i = k) \<longleftrightarrow> (\<exists>i < j. used cf old i \<and> mkeys old ! i = k)"
        by (auto simp: less_Suc_eq)
      then show ?thesis
        using a2 k in'(4) m(5) by simp
    qed
    have "foldR ?f [0..<Suc j] (empty_table cf n) = Done m2"
      using step free i'(1) by (simp add: m2_def)
    with sv in'(5) i'(3) am m(4) ins fin show ?thesis by auto
  qed
qed

lemma resize_spec:
  assumes "map_wf cf old" and "size_ok cf (n_occupied old)"
  shows "\<exists>m. gu_map_resize cf (gu_map_insert cf (Suc f)) old = Done m \<and> map_wf cf m \<and>
    amap cf m = amap cf old \<and> n_occupied m = n_occupied old \<and> n_occupied m * 4 div 3 + 1 \<le> n_entries m"
proof -
  obtain n where n: "resize_entries cf (n_occupied old) = Done n" "is_twin (int n)" "13 \<le> n"
    "n_occupied old * 4 div 3 + 1 \<le> n"
    using resize_entries_spec [OF assms(2)] by blast
  have gt: "n_occupied old < n"
    using n(4) by linarith
  from resize_loop [OF assms(1) n(2-4) order_refl, of f] obtain m where
    m: "gu_map_resize cf (gu_map_insert cf (Suc f)) old = Done m" "map_wf cf m" "n_entries m = n"
    "n_occupied m = card {i. i < n_entries old \<and> used cf old i}"
    "\<And>k. amap cf m k = (if \<exists>i < n_entries old. used cf old i \<and> mkeys old ! i = k then amap cf old k else None)"
    using n(1) gt by (auto simp: gu_map_resize_def empty_table_def simp del: gu_map_insert.simps)
  have "{i. i < n_entries old \<and> used cf old i} = {i. used cf old i}"
    using used_bound by blast
  then have occ: "n_occupied m = n_occupied old"
    using m(4) assms(1) by (simp add: map_wf_def)
  have "amap cf m k = amap cf old k" for k
  proof (cases "has_key cf old k")
    case True
    then have "\<exists>i < n_entries old. used cf old i \<and> mkeys old ! i = k"
      using used_bound by (auto simp: has_key_def)
    with m(5) show ?thesis by simp
  next
    case False
    with m(5) [of k] show ?thesis by (auto simp: has_key_def amap_def)
  qed
  then have "amap cf m = amap cf old" by auto
  with m occ n(4) show ?thesis by auto
qed

lemma insert_total:
  assumes "map_wf cf m" and "size_ok cf (n_occupied m)"
  shows "\<exists>i m'. gu_map_insert cf (Suc (Suc f)) key m = Done (i, m') \<and> inserted cf key m i m'"
proof (cases "n_occupied m + n_occupied m div 4 < n_entries m")
  case True
  with insert_fits [OF assms(1)] show ?thesis by blast
next
  case False
  show ?thesis
    using lookup_total [OF assms(1), of key]
  proof (elim disjE exE conjE)
    fix i
    assume l: "gu_map_lookup cf m key = Done (True, i)" and u: "used cf m i" "mkeys m ! i = key"
    then have "has_key cf m key" by (auto simp: has_key_def)
    with l u assms(1) show ?thesis by (auto simp: inserted_def)
  next
    fix i T
    assume l: "gu_map_lookup cf m key = Done (False, i)" and new: "\<not> has_key cf m key"
    obtain m1 where m1: "gu_map_resize cf (gu_map_insert cf (Suc f)) m = Done m1" "map_wf cf m1"
      "amap cf m1 = amap cf m" "n_occupied m1 = n_occupied m" "n_occupied m1 * 4 div 3 + 1 \<le> n_entries m1"
      using resize_spec [OF assms] by blast
    have new1: "\<not> has_key cf m1 key"
      using new m1(3) amap_None by metis
    then obtain i1 T1 where i1: "gu_map_lookup cf m1 key = Done (False, i1)" "i1 < n_entries m1" "\<not> used cf m1 i1"
      "probe cf (n_entries m1) key T1 = i1" "\<And>u. u < T1 \<Longrightarrow> used cf m1 (probe cf (n_entries m1) key u)"
      using lookup_total [OF m1(2), of key] by (auto simp: has_key_def)
    have "13 \<le> n_entries m1"
      using m1(2) by (simp add: map_wf_def)
    with m1(5) have "n_occupied m1 + 1 < n_entries m1"
      by (cases "n_occupied m1 < 3") linarith+
    from insert_at_spec [OF m1(2) i1(2,3) new1 i1(4,5) this] obtain m2 where
      "insert_at cf key i1 m1 = Done m2" "map_wf cf m2" "n_occupied m2 = n_occupied m1 + 1"
      "used cf m2 i1" "mkeys m2 ! i1 = key" "\<forall>k. k \<noteq> key \<longrightarrow> amap cf m2 k = amap cf m1 k"
      by blast
    with l m1 i1(1) new False show ?thesis
      by (auto simp: gu_map_maybe_resize_def inserted_def simp del: gu_map_insert.simps(2)
          simp: gu_map_insert.simps(2) [of cf "Suc f"])
  qed
qed

lemma put_spec:
  assumes "map_wf cf m" and "size_ok cf (n_occupied m)"
  shows "\<exists>m'. gu_map_put cf key v m = Done m' \<and> map_wf cf m' \<and> amap cf m' = (amap cf m)(key \<mapsto> v) \<and>
    n_occupied m' = n_occupied m + (if has_key cf m key then 0 else 1)"
proof -
  obtain i m1 where i: "gu_map_insert cf 2 key m = Done (i, m1)" "inserted cf key m i m1"
    using insert_total [OF assms, of 0 key] by (metis Suc_1 One_nat_def)
  define m' where "m' = m1\<lparr>mvalues := (mvalues m1)[i := v]\<rparr>"
  have in1: "map_wf cf m1" "used cf m1 i" "mkeys m1 ! i = key" "\<And>k. k \<noteq> key \<Longrightarrow> amap cf m1 k = amap cf m k"
    using i(2) by (auto simp: inserted_def)
  note sv = set_value [OF in1(1,2) m'_def]
  have "amap cf m' = (amap cf m)(key \<mapsto> v)"
    using sv(2) in1(3,4) by (auto simp: fun_eq_iff)
  with sv i show ?thesis
    by (auto simp: gu_map_put_def m'_def inserted_def)
qed

lemma make_map_spec:
  assumes "size_ok cf 0"
  shows "\<exists>m. gu_make_map cf = Done m \<and> map_wf cf m \<and> amap cf m = Map.empty \<and> n_occupied m = 0"
proof -
  obtain n where n: "resize_entries cf 0 = Done n" "is_twin (int n)" "13 \<le> n"
    using resize_entries_spec [OF assms] by auto
  then have "gu_make_map cf = Done (empty_table cf n)"
    by (simp add: gu_make_map_def gu_map_resize_def empty_table_def)
  with empty_table_spec [OF n(2,3), of cf] show ?thesis by simp
qed

subsection \<open>Enumeration\<close>

lemma enum_scan_Some:
  "enum_scan cf m is = Some j \<Longrightarrow> j \<in> set is \<and> \<not> gu_map_entry_is_free cf m j"
  by (induction "is") (auto split: if_splits)

lemma enum_scan_None: "enum_scan cf m is = None \<longleftrightarrow> (\<forall>i \<in> set is. gu_map_entry_is_free cf m i)"
  by (induction "is") auto

lemma enum_next_used:
  "gu_map_enum_next cf m i = Some (k, j) \<Longrightarrow> i < j \<and> used cf m (j - 1) \<and> mkeys m ! (j - 1) = k"
  by (auto simp: gu_map_enum_next_def used_def dest: enum_scan_Some)

text \<open>The keys that the enumeration delivers from a cursor on, when the table does not change.\<close>

fun enum_from :: "('k, 'v) GuMapConf \<Rightarrow> ('k, 'v) GuMapData \<Rightarrow> nat list \<Rightarrow> 'k list" where
  "enum_from cf m [] = []"
| "enum_from cf m (i # is) = (if gu_map_entry_is_free cf m i then [] else [mkeys m ! i]) @ enum_from cf m is"

lemma enum_scan_from:
  "enum_from cf m [i..<n] =
     (case enum_scan cf m [i..<n] of None \<Rightarrow> [] | Some j \<Rightarrow> (mkeys m ! j) # enum_from cf m [Suc j..<n])"
proof (induction "n - i" arbitrary: i)
  case (Suc x)
  then have "[i..<n] = i # [Suc i..<n]" by (simp add: upt_conv_Cons)
  with Suc show ?case by simp
qed simp

lemma enum_from_next:
  "enum_from cf m [i..<n_entries m] =
     (case gu_map_enum_next cf m i of None \<Rightarrow> [] | Some (k, j) \<Rightarrow> k # enum_from cf m [j..<n_entries m])"
  by (subst enum_scan_from) (simp add: gu_map_enum_next_def split: option.splits)

lemma enum_from_set:
  "set (enum_from cf m is) = {mkeys m ! i | i. i \<in> set is \<and> \<not> gu_map_entry_is_free cf m i}"
  by (induction "is") auto

lemma enum_all_keys: "set (enum_from cf m [0..<n_entries m]) = {k. has_key cf m k}"
  by (auto simp: enum_from_set has_key_def used_def)

lemma enum_distinct:
  assumes "map_wf cf m"
  shows "distinct is \<Longrightarrow> set is \<subseteq> {..<n_entries m} \<Longrightarrow> distinct (enum_from cf m is)"
proof (induction "is")
  case (Cons i "is")
  have "mkeys m ! i \<notin> set (enum_from cf m is)" if "\<not> gu_map_entry_is_free cf m i"
    using that Cons.prems assms by (auto simp: enum_from_set map_wf_def used_def)
  with Cons show ?case by auto
qed simp

subsection \<open>Only inserted keys occur\<close>

text \<open>A bound on the keys of a table that needs no assumption on sizes or fuel.\<close>

definition keys_in :: "('k, 'v) GuMapConf \<Rightarrow> 'k set \<Rightarrow> ('k, 'v) GuMapData \<Rightarrow> bool" where
  "keys_in cf K m \<longleftrightarrow> set (mkeys m) \<subseteq> insert (mc_zero cf) K \<and> (zero_idx m \<noteq> None \<longrightarrow> mc_zero cf \<in> K) \<and>
     length (mkeys m) = n_entries m"

lemma keys_in_values [simp]: "keys_in cf K (m\<lparr>mvalues := vs\<rparr>) = keys_in cf K m"
  by (simp add: keys_in_def)

lemma keys_in_used: "keys_in cf K m \<Longrightarrow> used cf m i \<Longrightarrow> mkeys m ! i \<in> K"
  by (auto simp: keys_in_def used_def gu_map_entry_is_free_def split: if_splits)
    (metis insertE nth_mem subsetD)+

lemma insert_at_keys_in:
  assumes "insert_at cf key i m = Done m'" and "keys_in cf K m" and "key \<in> K" and "i < length (mkeys m)"
  shows "keys_in cf K m'"
  using assms set_update_subset_insert [of "mkeys m" i key]
  by (auto simp: insert_at_def Let_def run_simps keys_in_def gu_map_entry_is_free_def split: if_splits)

lemma lookup_loop_bound: "lookup_loop cf m key d f i = Done (b, j) \<Longrightarrow> j < length (mkeys m)"
  by (induction f arbitrary: i) (auto simp: run_simps split: if_splits)

lemma resize_keys_in:
  assumes "gu_map_resize cf ins old = Done m" and "keys_in cf K old"
    and "\<And>key m i m'. ins key m = Done (i, m') \<Longrightarrow> keys_in cf K m \<Longrightarrow> key \<in> K \<Longrightarrow> keys_in cf K m'"
  shows "keys_in cf K m"
proof -
  obtain n where f: "foldR (\<lambda>i m. if gu_map_entry_is_free cf old i then Done m
        else bindR (ins (mkeys old ! i) m) (\<lambda>(j, m'). Done (m'\<lparr>mvalues := (mvalues m')[j := mvalues old ! i]\<rparr>)))
      [0..<n_entries old] (empty_table cf n) = Done m"
    using assms(1) by (auto simp: gu_map_resize_def run_simps empty_table_def)
  show ?thesis
    using f
  proof (rule foldR_invariant)
    show "keys_in cf K (empty_table cf n)"
      by (auto simp: keys_in_def empty_table_def)
  next
    fix i m1 m2
    assume i: "i \<in> set [0..<n_entries old]" and k: "keys_in cf K m1"
      and st: "(if gu_map_entry_is_free cf old i then Done m1
        else bindR (ins (mkeys old ! i) m1) (\<lambda>(j, m'). Done (m'\<lparr>mvalues := (mvalues m')[j := mvalues old ! i]\<rparr>))) = Done m2"
    show "keys_in cf K m2"
    proof (cases "gu_map_entry_is_free cf old i")
      case True
      with st k show ?thesis by simp
    next
      case False
      with i have "used cf old i" by (simp add: used_def)
      from assms(3) [OF _ k keys_in_used [OF assms(2) this]] st False show ?thesis
        by (auto simp: run_simps)
    qed
  qed
qed

lemma insert_keys_in:
  "gu_map_insert cf f key m = Done (i, m') \<Longrightarrow> keys_in cf K m \<Longrightarrow> key \<in> K \<Longrightarrow> keys_in cf K m'"
proof (induction f arbitrary: key m i m')
  case (Suc f)
  obtain found i0 where l: "gu_map_lookup cf m key = Done (found, i0)"
    using Suc.prems(1) by (auto elim!: bindR_DoneE)
  have i0: "i0 < length (mkeys m)"
    using l lookup_loop_bound by (fastforce simp: gu_map_lookup_def Let_def)
  show ?case
  proof (cases found)
    case True
    with Suc.prems l show ?thesis by simp
  next
    case False
    obtain b m1 where r: "gu_map_maybe_resize cf (gu_map_insert cf f) m = Done (b, m1)"
      using Suc.prems(1) l False by (auto elim!: bindR_DoneE)
    have k1: "keys_in cf K m1"
    proof (cases "n_entries m \<le> n_occupied m + n_occupied m div 4")
      case True
      with r have "gu_map_resize cf (gu_map_insert cf f) m = Done m1"
        by (auto simp: gu_map_maybe_resize_def run_simps)
      from resize_keys_in [OF this Suc.prems(2) Suc.IH] show ?thesis .
    qed (use r Suc.prems(2) in \<open>simp add: gu_map_maybe_resize_def\<close>)
    obtain i1 where i1: "(if b then bindR (gu_map_lookup cf m1 key) (\<lambda>(found, i'). gu_assert (\<not> found) (Done i'))
        else Done i0) = Done i1" and at: "insert_at cf key i1 m1 = Done m'"
      using Suc.prems(1) l False r by (auto simp: run_simps)
    have "i1 < length (mkeys m1)"
    proof (cases b)
      case True
      then have "gu_map_lookup cf m1 key = Done (False, i1)"
        using i1 by (auto simp: run_simps)
      then show ?thesis
        using lookup_loop_bound by (fastforce simp: gu_map_lookup_def Let_def)
    next
      case False
      with r i1 i0 show ?thesis
        by (auto simp: gu_map_maybe_resize_def run_simps split: if_splits)
    qed
    with insert_at_keys_in [OF at k1 Suc.prems(3)] show ?thesis .
  qed
qed simp

lemma make_map_keys_in: "gu_make_map cf = Done m \<Longrightarrow> keys_in cf K m"
  by (auto simp: gu_make_map_def gu_map_resize_def run_simps keys_in_def)

subsection \<open>The interface of a map\<close>

text \<open>What the clients of a map rely on: \<open>room\<close> tells for which numbers of entries an insertion is
  known to succeed.\<close>

locale map_contract =
  fixes wf :: "'m \<Rightarrow> bool" and find :: "'m \<Rightarrow> 'k \<Rightarrow> 'v option run" and put :: "'k \<Rightarrow> 'v \<Rightarrow> 'm \<Rightarrow> 'm run"
    and room :: "nat \<Rightarrow> bool" and count :: "'m \<Rightarrow> nat" and make :: "'m run"
  assumes make_ok: "room 0 \<Longrightarrow> \<exists>m. make = Done m \<and> wf m \<and> count m = 0 \<and> (\<forall>k. find m k = Done None)"
    and put_ok: "wf m \<Longrightarrow> room (count m) \<Longrightarrow>
      \<exists>m'. put k v m = Done m' \<and> wf m' \<and> count m' \<le> Suc (count m) \<and>
        (\<forall>k'. find m' k' = (if k' = k then Done (Some v) else find m k'))"
begin

lemma puts_ok:
  assumes "wf m" and "\<And>n. n < count m + length kvs \<Longrightarrow> room n"
    and "\<And>k. find m k = Done (f k)"
  shows "\<exists>m'. foldR (\<lambda>(k, v). put k v) kvs m = Done m' \<and> wf m' \<and>
    (\<forall>k. find m' k = Done ((f ++ map_of (rev kvs)) k))"
  using assms
proof (induction kvs arbitrary: m f)
  case (Cons kv kvs)
  obtain k v where kv: "kv = (k, v)" by (cases kv)
  obtain m1 where m1: "put k v m = Done m1" "wf m1" "count m1 \<le> Suc (count m)"
    "\<And>k'. find m1 k' = (if k' = k then Done (Some v) else find m k')"
    using put_ok [OF Cons.prems(1), of k v] Cons.prems(2) [of "count m"] by auto
  have "find m1 k' = Done ((f(k \<mapsto> v)) k')" for k'
    using m1(4) Cons.prems(3) by simp
  moreover have "room n" if "n < count m1 + length kvs" for n
    using Cons.prems(2) [of n] that m1(3) by simp
  ultimately obtain m' where "foldR (\<lambda>(k, v). put k v) kvs m1 = Done m'" "wf m'"
    "\<And>k'. find m' k' = Done ((f(k \<mapsto> v) ++ map_of (rev kvs)) k')"
    using Cons.IH [OF m1(2), of "f(k \<mapsto> v)"] by blast
  with m1(1) kv show ?case
    by (auto simp: map_add_def split: option.splits)
qed simp

lemma make_puts_ok:
  assumes "\<And>n. n \<le> length kvs \<Longrightarrow> room n"
  shows "\<exists>m. bindR make (foldR (\<lambda>(k, v). put k v) kvs) = Done m \<and> wf m \<and>
    (\<forall>k. find m k = Done (map_of (rev kvs) k))"
proof -
  obtain m0 where m0: "make = Done m0" "wf m0" "count m0 = 0" "\<And>k. find m0 k = Done None"
    using make_ok assms by blast
  obtain m where "foldR (\<lambda>(k, v). put k v) kvs m0 = Done m" "wf m"
    "\<And>k. find m k = Done ((Map.empty ++ map_of (rev kvs)) k)"
    using puts_ok [OF m0(2), of kvs Map.empty] m0(3,4) assms by auto
  with m0(1) show ?thesis by auto
qed

end

interpretation gm: map_contract "map_wf cf" "gu_map_find cf" "gu_map_put cf" "size_ok cf" n_occupied "gu_make_map cf"
  for cf
proof
  show "\<exists>m. gu_make_map cf = Done m \<and> map_wf cf m \<and> n_occupied m = 0 \<and> (\<forall>k. gu_map_find cf m k = Done None)"
    if "size_ok cf 0"
    using make_map_spec [OF that] find_amap by fastforce
  show "\<exists>m'. gu_map_put cf k v m = Done m' \<and> map_wf cf m' \<and> n_occupied m' \<le> Suc (n_occupied m) \<and>
      (\<forall>k'. gu_map_find cf m' k' = (if k' = k then Done (Some v) else gu_map_find cf m k'))"
    if wf: "map_wf cf m" and ok: "size_ok cf (n_occupied m)" for m k v
  proof -
    obtain m' where m': "gu_map_put cf k v m = Done m'" "map_wf cf m'" "amap cf m' = (amap cf m)(k \<mapsto> v)"
      "n_occupied m' = n_occupied m + (if has_key cf m k then 0 else 1)"
      using put_spec [OF wf ok, of k v] by blast
    with find_amap [OF wf] find_amap [OF m'(2)] show ?thesis by auto
  qed
qed

subsection \<open>Properties\<close>


definition ex_conf :: "(nat, nat) GuMapConf" where
  "ex_conf = \<lparr>mc_zero = 0, mc_hash = (\<lambda>k. 7 * k), mc_key_size = 8, mc_value_size = 4,
     mc_default = None, mc_zero_value = 0, mc_fuel = 100\<rparr>"

lemma ex_size_ok: "n \<le> 3 \<Longrightarrow> size_ok ex_conf n"
  unfolding size_ok_def
proof (intro conjI exI [of _ 13])
  show "is_twin (int 13)" by code_simp
qed (auto simp: ex_conf_def)


text \<open>C11. Looking up a key in a well-formed table ends within as many probes as the table has slots,
  finds the slot of the key when the key is in the table, and otherwise the first free slot of its
  probe sequence.\<close>

theorem lookup_terminates:
  assumes "map_wf cf m"
  shows "\<exists>i. i < n_entries m \<and> gu_map_lookup cf m key = Done (has_key cf m key, i) \<and>
    (if has_key cf m key then used cf m i \<and> mkeys m ! i = key else \<not> used cf m i)"
  using lookup_total [OF assms, of key]
proof (elim disjE exE conjE)
  fix i
  assume "gu_map_lookup cf m key = Done (True, i)" "used cf m i" "mkeys m ! i = key"
  moreover from this have "has_key cf m key" by (auto simp: has_key_def)
  ultimately show ?thesis using used_bound by fastforce
qed auto

definition ex_build :: "(nat, nat) GuMapData run" where
  "ex_build = bindR (gu_make_map ex_conf) (foldR (\<lambda>(k, v). gu_map_put ex_conf k v) [(5, 1), (0, 2), (5, 3)])"

lemma ex_build_occupied: "(case ex_build of Done m \<Rightarrow> n_occupied m | _ \<Rightarrow> 0) = 2"
  by code_simp

lemma ex_build_wf:
  obtains m where "ex_build = Done m" and "map_wf ex_conf m" and "n_occupied m = 2"
    and "gu_map_find ex_conf m 5 = Done (Some 3)" and "gu_map_find ex_conf m 4 = Done None"
proof -
  obtain m where m: "ex_build = Done m" "map_wf ex_conf m"
    "\<And>k. gu_map_find ex_conf m k = Done (map_of (rev [(5, 1), (0, 2), (5, 3)]) k)"
    using gm.make_puts_ok [of "[(5, 1), (0, 2), (5, 3)]" ex_conf] ex_size_ok
    unfolding ex_build_def by auto
  show thesis
    by (rule that [OF m(1,2)]) (use ex_build_occupied m(3) in \<open>simp_all add: m(1)\<close>)
qed

theorem lookup_terminates_witness:
  "\<exists>m i. ex_build = Done m \<and> gu_map_lookup ex_conf m 5 = Done (True, i) \<and> mkeys m ! i = 5"
proof -
  obtain m where m: "ex_build = Done m" "map_wf ex_conf m" "gu_map_find ex_conf m 5 = Done (Some 3)"
    by (rule ex_build_wf)
  then have "has_key ex_conf m 5"
    using find_amap [OF m(2), of 5] by (auto simp: amap_def split: if_splits)
  with lookup_terminates [OF m(2), of 5] m(1) show ?thesis by auto
qed

text \<open>C12. Enumerating an unchanging table with \<open>gu_map_enum_next\<close>, from cursor 0 until it delivers
  nothing, gives each key of the table exactly once.\<close>

theorem enumeration_complete:
  assumes "map_wf cf m"
  shows "\<exists>ks. distinct ks \<and> set ks = {k. has_key cf m k} \<and> length ks = n_occupied m \<and>
    ks = enum_from cf m [0..<n_entries m] \<and>
    (\<forall>i. enum_from cf m [i..<n_entries m] =
       (case gu_map_enum_next cf m i of None \<Rightarrow> [] | Some (k, j) \<Rightarrow> k # enum_from cf m [j..<n_entries m]))"
proof -
  let ?ks = "enum_from cf m [0..<n_entries m]"
  have d: "distinct ?ks"
    using enum_distinct [OF assms, of "[0..<n_entries m]"] by (simp add: atLeast0LessThan)
  have "bij_betw (\<lambda>i. mkeys m ! i) {i. used cf m i} {k. has_key cf m k}"
    using assms by (auto simp: bij_betw_def inj_on_def has_key_def map_wf_def)
  then have "length ?ks = n_occupied m"
    using assms distinct_card [OF d] by (simp add: enum_all_keys map_wf_def bij_betw_same_card)
  show ?thesis
  proof (intro exI [of _ ?ks] conjI allI)
    fix i
    show "enum_from cf m [i..<n_entries m] =
        (case gu_map_enum_next cf m i of None \<Rightarrow> [] | Some (k, j) \<Rightarrow> k # enum_from cf m [j..<n_entries m])"
      by (rule enum_from_next)
  qed (use d \<open>length ?ks = n_occupied m\<close> enum_all_keys [of cf m] in simp_all)
qed

theorem enumeration_complete_witness:
  "\<exists>m ks. ex_build = Done m \<and> ks = enum_from ex_conf m [0..<n_entries m] \<and> distinct ks \<and> length ks = 2"
proof -
  obtain m where m: "ex_build = Done m" "map_wf ex_conf m" "n_occupied m = 2"
    by (rule ex_build_wf)
  from enumeration_complete [OF m(2)] m(1,3) show ?thesis by metis
qed

end
