(* ===== verification/Parser.thy ===== *)
theory Parser
  imports Linearize
begin

text \<open>
  \<open>pgf/parser.c\<close>: the incremental chart parser. A \<open>PgfParse\<close> holds, for one position of the input,
  the items that wait for each possible next token and the categories completed there.
  \<open>pgf_parse_token\<close> scans one token and closes the chart at the next position under prediction,
  completion and combination.

  The objects that the C code allocates and shares are explicit: categories live in a store
  (\<open>p_store\<close>, \<open>next_ccat\<close> the first unused address) and item sets in \<open>item_sets\<close>, where a
  \<open>PgfItemSet*\<close> is an index. An item set lists its items in the order of their insertion; items are
  equal when their contents are (the code hashes the pointed-to struct), and the null item,
  which stands for the start of the parse, is \<open>None\<close>. The order in which the hash table delivers
  the items of a set, and the fact that the table is enumerated while it grows, is behind the
  argument \<open>en\<close>: \<open>en items i\<close> is what \<open>gu_map_enum_next\<close> delivers with the cursor at \<open>i\<close> from the table
  obtained by inserting \<open>items\<close> one after the other (theory \<open>ItemSet\<close> instantiates it).

  Index fields have the widths of the C struct, with the wrap-around written out.
  \<open>pgf_parsing_item\<close> is forward declared in C; here the functions that call it take it as an
  argument \<open>rec\<close>, and \<open>pgf_parsing_item\<close> ties the knot with a fuel argument that bounds the depth of
  the recursion (and the length of one enumeration).
\<close>

subsection \<open>Items and state\<close>

type_synonym set_id = nat

record PgfItemBase =
  base_conts :: set_id
  base_ccat :: ccat_id
  base_prod :: PgfProduction
  base_lin_idx :: nat

record PgfItem =
  item_base :: PgfItemBase
  item_args :: "PgfPArg list"
  curr_sym :: "PgfSymbol option"
  seq_idx :: nat
  tok_idx :: nat
  alt :: nat

record PgfParse =
  transitions :: "PgfToken \<rightharpoonup> PgfItem list"
  completed :: "ccat_id list"

record PgfParser =
  parser_concr :: PgfConcr
  next_fid :: int
  p_store :: ccats
  next_ccat :: ccat_id
  item_sets :: "PgfItem option list list"

record PgfParsing =
  pg_parser :: PgfParser
  pg_parse :: PgfParse
  seen_items :: "PgfItem list"
  conts_map :: "ccat_id \<rightharpoonup> set_id option list"
  generated_cats :: "set_id \<rightharpoonup> ccat_id"

type_synonym item_enum = "PgfItem option list \<Rightarrow> nat \<Rightarrow> (PgfItem option \<times> nat) option run"

text \<open>Conversion of a C \<open>int\<close> to \<open>size_t\<close>, and of a \<open>GuWord\<close> to \<open>int\<close>.\<close>

definition to_size :: "int \<Rightarrow> nat" where
  "to_size i = nat (i mod 2 ^ 64)"

definition to_int :: "nat \<Rightarrow> int" where
  "to_int n = sint (of_nat n :: 32 word)"

text \<open>The truncation to \<open>uint16_t\<close> and \<open>uint8_t\<close>.\<close>

definition u16_of :: "nat \<Rightarrow> nat" where
  "u16_of n = n mod 2 ^ 16"

definition u8_of :: "nat \<Rightarrow> nat" where
  "u8_of n = n mod 2 ^ 8"

lemma u16_of_code [code]: "u16_of n = nat (int n mod 65536)"
  by (simp add: u16_of_def nat_mod_distrib)

lemma u8_of_code [code]: "u8_of n = nat (int n mod 256)"
  by (simp add: u8_of_def nat_mod_distrib)

definition get_ccat :: "PgfParser \<Rightarrow> ccat_id \<Rightarrow> PgfCCat run" where
  "get_ccat ps c = (case p_store ps c of None \<Rightarrow> Fault Null_Deref | Some cc \<Rightarrow> Done cc)"

text \<open>\<open>cat->cnccat\<close>, followed to the object.\<close>

definition get_cnccat :: "PgfParser \<Rightarrow> ccat_id \<Rightarrow> PgfCncCat run" where
  "get_cnccat ps c =
     bindR (get_ccat ps c) (\<lambda>cc.
       case ccat_cnccat cc of
         None \<Rightarrow> Fault Null_Deref
       | Some cid \<Rightarrow>
           (case map_of (cnccats (parser_concr ps)) cid of
              None \<Rightarrow> Fault Null_Deref
            | Some cnccat \<Rightarrow> Done cnccat))"

subsection \<open>Operations on the chart\<close>

definition pgf_parsing_add_transition :: "PgfToken \<Rightarrow> PgfItem \<Rightarrow> PgfParsing \<Rightarrow> PgfParsing" where
  "pgf_parsing_add_transition tok item st =
     (let tmap = transitions (pg_parse st);
          items = or_empty (tmap tok);
          items' = (if item \<in> set items then items else items @ [item])
      in st\<lparr>pg_parse := (pg_parse st)\<lparr>transitions := tmap(tok \<mapsto> items')\<rparr>\<rparr>)"

definition pgf_parsing_get_contss ::
  "ccat_id \<Rightarrow> PgfParsing \<Rightarrow> (set_id option list \<times> PgfParsing) run" where
  "pgf_parsing_get_contss cat st =
     (case conts_map st cat of
        Some contss \<Rightarrow> Done (contss, st)
      | None \<Rightarrow>
          bindR (get_cnccat (pg_parser st) cat) (\<lambda>cnccat.
            let contss = replicate (n_ctnts cnccat) None
            in Done (contss, st\<lparr>conts_map := (conts_map st)(cat \<mapsto> contss)\<rparr>)))"

definition new_item_set :: "PgfParsing \<Rightarrow> set_id \<times> PgfParsing" where
  "new_item_set st =
     (let ps = pg_parser st
      in (length (item_sets ps), st\<lparr>pg_parser := ps\<lparr>item_sets := item_sets ps @ [[]]\<rparr>\<rparr>))"

definition pgf_parsing_get_conts ::
  "ccat_id \<Rightarrow> nat \<Rightarrow> PgfParsing \<Rightarrow> (set_id \<times> PgfParsing) run" where
  "pgf_parsing_get_conts cat lin_idx st =
     bindR (get_cnccat (pg_parser st) cat) (\<lambda>cnccat.
     gu_require (lin_idx < n_ctnts cnccat)
      (bindR (pgf_parsing_get_contss cat st) (\<lambda>(contss, st1).
       bindR (seq_at contss lin_idx) (\<lambda>conts.
         case conts of
           Some s \<Rightarrow> Done (s, st1)
         | None \<Rightarrow>
             (let (s, st2) = new_item_set st1
              in Done (s, st2\<lparr>conts_map := (conts_map st2)(cat \<mapsto> contss[lin_idx := Some s])\<rparr>))))))"

definition pgf_parsing_create_completed ::
  "set_id \<Rightarrow> PgfCId option \<Rightarrow> PgfParsing \<Rightarrow> ccat_id \<times> PgfParsing" where
  "pgf_parsing_create_completed conts cnccat st =
     (let ps = pg_parser st;
          cat = next_ccat ps;
          fid = next_fid ps - 1;
          cc = \<lparr>ccat_cnccat = cnccat, prods = Prods_Buf [], ccat_fid = fid\<rparr>
      in (cat, st\<lparr>pg_parser := ps\<lparr>next_ccat := Suc cat, next_fid := fid,
                               p_store := (p_store ps)(cat \<mapsto> cc)\<rparr>,
                  generated_cats := (generated_cats st)(conts \<mapsto> cat)\<rparr>))"

definition pgf_parsing_get_completed :: "set_id \<Rightarrow> PgfParsing \<Rightarrow> ccat_id option" where
  "pgf_parsing_get_completed conts st = generated_cats st conts"

text \<open>\<open>gu_buf_push(gu_seq_buf(cat->prods), PgfProduction, prod)\<close>.\<close>

definition push_prod :: "ccat_id \<Rightarrow> PgfProduction \<Rightarrow> PgfParsing \<Rightarrow> PgfParsing run" where
  "push_prod cat prd st =
     bindR (get_ccat (pg_parser st) cat) (\<lambda>cc.
       case prods cc of
         Prods_Buf ps \<Rightarrow>
           Done (st\<lparr>pg_parser := (pg_parser st)\<lparr>p_store :=
             (p_store (pg_parser st))(cat \<mapsto> cc\<lparr>prods := Prods_Buf (ps @ [prd])\<rparr>)\<rparr>\<rparr>)
       | _ \<Rightarrow> Fault (Abort GU_ASSERT_PRECOND))"

definition set_insert :: "set_id \<Rightarrow> PgfItem option \<Rightarrow> PgfParsing \<Rightarrow> PgfParsing" where
  "set_insert s item st =
     (let ps = pg_parser st; xs = item_sets ps ! s
      in if item \<in> set xs then st
         else st\<lparr>pg_parser := ps\<lparr>item_sets := (item_sets ps)[s := xs @ [item]]\<rparr>\<rparr>)"

subsection \<open>Items\<close>

definition pgf_item_base_symbol :: "PgfItemBase \<Rightarrow> nat \<Rightarrow> PgfSymbol option run" where
  "pgf_item_base_symbol ibase idx =
     (case base_prod ibase of
        PGF_PRODUCTION_APPLY fn args \<Rightarrow>
          bindR (seq_at (lins fn) (base_lin_idx ibase)) (\<lambda>sq.
            gu_assert (idx \<le> length sq)
              (if idx = length sq then Done None else Done (Some (sq ! idx))))
      | PGF_PRODUCTION_COERCE c \<Rightarrow>
          gu_assert (idx \<le> 1)
            (if idx = 1 then Done None
             else Done (Some (PGF_SYMBOL_CAT 0 (to_int (base_lin_idx ibase))))))"

definition pgf_new_item :: "PgfItemBase \<Rightarrow> PgfItem run" where
  "pgf_new_item base =
     bindR (pgf_item_base_symbol base 0) (\<lambda>s.
       Done \<lparr>item_base = base,
             item_args = (case base_prod base of
                PGF_PRODUCTION_APPLY fn args \<Rightarrow> args
              | PGF_PRODUCTION_COERCE c \<Rightarrow> [\<lparr>parg_hypos = [], parg_ccat = c\<rparr>]),
             curr_sym = s, seq_idx = 0, tok_idx = 0, alt = 0\<rparr>)"

definition pgf_item_advance :: "PgfItem \<Rightarrow> PgfItem run" where
  "pgf_item_advance item =
     (let i = u16_of (seq_idx item + 1)
      in bindR (pgf_item_base_symbol (item_base item) i) (\<lambda>s.
           Done (item\<lparr>seq_idx := i, curr_sym := s\<rparr>)))"

subsection \<open>Prediction, completion, combination\<close>

type_synonym item_step = "PgfItem \<Rightarrow> PgfParsing \<Rightarrow> PgfParsing run"

definition pgf_parsing_combine ::
  "item_step \<Rightarrow> PgfItem option \<Rightarrow> ccat_id \<Rightarrow> PgfParsing \<Rightarrow> PgfParsing run" where
  "pgf_parsing_combine rec cont cat st =
     (case cont of
        None \<Rightarrow> Done (st\<lparr>pg_parse := (pg_parse st)\<lparr>completed := completed (pg_parse st) @ [cat]\<rparr>\<rparr>)
      | Some c \<Rightarrow>
          (case curr_sym c of
             Some (PGF_SYMBOL_CAT d r) \<Rightarrow>
               (if 0 \<le> d \<and> nat d < length (item_args c) then
                  bindR (pgf_item_advance
                      (c\<lparr>item_args := (item_args c)[nat d := \<lparr>parg_hypos = [], parg_ccat = cat\<rparr>]\<rparr>))
                    (\<lambda>item. rec item st)
                else Fault Out_Of_Bounds)
           | _ \<Rightarrow> Fault (Abort GU_ASSERT_ASSERTION)))"

definition pgf_parsing_production ::
  "item_step \<Rightarrow> ccat_id \<Rightarrow> nat \<Rightarrow> PgfProduction \<Rightarrow> set_id \<Rightarrow> PgfParsing \<Rightarrow> PgfParsing run" where
  "pgf_parsing_production rec cat lin_idx prd conts st =
     bindR (pgf_new_item \<lparr>base_conts = conts, base_ccat = cat, base_prod = prd, base_lin_idx = lin_idx\<rparr>)
       (\<lambda>item. rec item st)"

text \<open>The production that a finished item adds to its completed category.\<close>

definition completed_prod :: "PgfItem \<Rightarrow> PgfProduction run" where
  "completed_prod item =
     (case base_prod (item_base item) of
        PGF_PRODUCTION_APPLY fn args \<Rightarrow> Done (PGF_PRODUCTION_APPLY fn (item_args item))
      | PGF_PRODUCTION_COERCE c \<Rightarrow>
          bindR (seq_at (item_args item) 0) (\<lambda>parg.
            gu_assert (parg_hypos parg = []) (Done (PGF_PRODUCTION_COERCE (parg_ccat parg)))))"

text \<open>\<open>while (gu_enum_next(cenum, \&cont, tmp_pool))\<close>, on the set as it is at each step.\<close>

fun combine_conts ::
  "item_enum \<Rightarrow> item_step \<Rightarrow> nat \<Rightarrow> set_id \<Rightarrow> ccat_id \<Rightarrow> nat \<Rightarrow> PgfParsing \<Rightarrow> PgfParsing run" where
  "combine_conts en rec 0 conts cat i st = Out_Of_Fuel"
| "combine_conts en rec (Suc n) conts cat i st =
     bindR (en (item_sets (pg_parser st) ! conts) i) (\<lambda>r.
       case r of
         None \<Rightarrow> Done st
       | Some (cont, j) \<Rightarrow>
           bindR (pgf_parsing_combine rec cont cat st) (combine_conts en rec n conts cat j))"

definition pgf_parsing_complete ::
  "item_enum \<Rightarrow> item_step \<Rightarrow> nat \<Rightarrow> PgfItem \<Rightarrow> PgfParsing \<Rightarrow> PgfParsing run" where
  "pgf_parsing_complete en rec n item st =
     bindR (completed_prod item) (\<lambda>prd.
     let conts = base_conts (item_base item) in
     case pgf_parsing_get_completed conts st of
       Some cat \<Rightarrow>
         bindR (push_prod cat prd st) (\<lambda>st1.
         bindR (pgf_parsing_get_contss cat st1) (\<lambda>(contss, st2).
           foldR (\<lambda>i s.
               bindR (seq_at (or_empty (conts_map s cat)) i) (\<lambda>conts2.
                 case conts2 of
                   None \<Rightarrow> Done s
                 | Some c2 \<Rightarrow> pgf_parsing_production rec cat i prd c2 s))
             [0..<length contss] st2))
     | None \<Rightarrow>
         bindR (get_ccat (pg_parser st) (base_ccat (item_base item))) (\<lambda>bc.
         let (cat, st1) = pgf_parsing_create_completed conts (ccat_cnccat bc) st in
         bindR (push_prod cat prd st1) (combine_conts en rec n conts cat 0)))"

definition pgf_parsing_predict ::
  "item_step \<Rightarrow> PgfItem option \<Rightarrow> ccat_id \<Rightarrow> nat \<Rightarrow> PgfParsing \<Rightarrow> PgfParsing run" where
  "pgf_parsing_predict rec item cat lin_idx st =
     bindR (get_ccat (pg_parser st) cat) (\<lambda>cc.
     if prods_null (prods cc) then Done st
     else
       bindR (pgf_parsing_get_conts cat lin_idx st) (\<lambda>(conts, st1).
       bindR
         (if item \<in> set (item_sets (pg_parser st1) ! conts) then Done st1
          else
            foldR (\<lambda>i s.
                bindR (get_ccat (pg_parser s) cat) (\<lambda>cc.
                bindR (seq_at (prods_list (prods cc)) i) (\<lambda>prd.
                  pgf_parsing_production rec cat lin_idx prd conts s)))
              [0..<length (prods_list (prods cc))] (set_insert conts item st1))
         (\<lambda>st2.
           case pgf_parsing_get_completed conts st2 of
             None \<Rightarrow> Done st2
           | Some c \<Rightarrow> pgf_parsing_combine rec item c st2)))"

text \<open>The duplicate test of the loops over alternatives: the form of alternative \<open>i\<close> equals the
  default form or the form of an earlier alternative.\<close>

definition alt_skip :: "PgfTokens \<Rightarrow> PgfAlternative list \<Rightarrow> nat \<Rightarrow> bool" where
  "alt_skip dflt alts i \<longleftrightarrow>
     form (alts ! i) = dflt \<or> list_ex (\<lambda>j. form (alts ! i) = form (alts ! j)) [0..<i]"

definition pgf_parsing_symbol ::
  "item_step \<Rightarrow> PgfItem \<Rightarrow> PgfSymbol \<Rightarrow> PgfParsing \<Rightarrow> PgfParsing run" where
  "pgf_parsing_symbol rec item sy st =
     (case sy of
        PGF_SYMBOL_CAT d r \<Rightarrow>
          (if 0 \<le> d \<and> nat d < length (item_args item) then
             (let parg = item_args item ! nat d
              in gu_assert (parg_hypos parg = [])
                   (pgf_parsing_predict rec (Some item) (parg_ccat parg) (to_size r) st))
           else Fault Out_Of_Bounds)
      | PGF_SYMBOL_KS toks \<Rightarrow>
          bindR (seq_at toks (tok_idx item)) (\<lambda>tok.
            Done (pgf_parsing_add_transition tok item st))
      | PGF_SYMBOL_KP dflt alts \<Rightarrow>
          (if tok_idx item = 0 then
             bindR (seq_at dflt 0) (\<lambda>tok.
               foldR (\<lambda>i s.
                   if alt_skip dflt alts i then Done s
                   else bindR (seq_at (form (alts ! i)) 0) (\<lambda>tok'.
                          Done (pgf_parsing_add_transition tok' item s)))
                 [0..<length alts] (pgf_parsing_add_transition tok item st))
           else if alt item = 0 then
             bindR (seq_at dflt (tok_idx item)) (\<lambda>tok.
               Done (pgf_parsing_add_transition tok item st))
           else
             gu_assert (alt item \<le> length alts)
               (bindR (seq_at (form (alts ! (alt item - 1))) (tok_idx item)) (\<lambda>tok.
                  Done (pgf_parsing_add_transition tok item st))))
      | PGF_SYMBOL_LIT d r \<Rightarrow> Done st
      | PGF_SYMBOL_VAR d r \<Rightarrow> Done st)"

fun pgf_parsing_item :: "item_enum \<Rightarrow> nat \<Rightarrow> item_step" where
  "pgf_parsing_item en 0 item st = Out_Of_Fuel"
| "pgf_parsing_item en (Suc n) item st =
     (if item \<in> set (seen_items st) then Done st
      else
        let st1 = st\<lparr>seen_items := item # seen_items st\<rparr>;
            base = item_base item;
            rec = pgf_parsing_item en n
        in case base_prod base of
             PGF_PRODUCTION_APPLY fn args \<Rightarrow>
               bindR (seq_at (lins fn) (base_lin_idx base)) (\<lambda>sq.
                 if seq_idx item = length sq then pgf_parsing_complete en rec n item st1
                 else bindR (seq_at sq (seq_idx item)) (\<lambda>sy. pgf_parsing_symbol rec item sy st1))
           | PGF_PRODUCTION_COERCE c \<Rightarrow>
               (if seq_idx item = 0 then pgf_parsing_predict rec (Some item) c (base_lin_idx base) st1
                else if seq_idx item = 1 then pgf_parsing_complete en rec n item st1
                else gu_impossible))"

subsection \<open>Scanning\<close>

definition pgf_parsing_scan_toks ::
  "item_step \<Rightarrow> PgfItem \<Rightarrow> PgfToken \<Rightarrow> nat \<Rightarrow> PgfTokens \<Rightarrow> PgfParsing \<Rightarrow> (bool \<times> PgfParsing) run" where
  "pgf_parsing_scan_toks rec old_item tok al toks st =
     bindR (seq_at toks (tok_idx old_item)) (\<lambda>t.
       if t \<noteq> tok then Done (False, st)
       else
         let item = old_item\<lparr>tok_idx := u8_of (tok_idx old_item + 1), alt := u8_of al\<rparr>
         in bindR
              (if tok_idx item = length toks then pgf_item_advance (item\<lparr>tok_idx := 0\<rparr>) else Done item)
              (\<lambda>item'. bindR (rec item' st) (\<lambda>st'. Done (True, st'))))"

definition pgf_parsing_scan :: "item_step \<Rightarrow> PgfToken \<Rightarrow> PgfItem \<Rightarrow> PgfParsing \<Rightarrow> PgfParsing run" where
  "pgf_parsing_scan rec tok item st =
     bindR
       (case curr_sym item of
          Some (PGF_SYMBOL_KS toks) \<Rightarrow> pgf_parsing_scan_toks rec item tok 0 toks st
        | Some (PGF_SYMBOL_KP dflt alts) \<Rightarrow>
            (if tok_idx item = 0 then
               bindR (pgf_parsing_scan_toks rec item tok 0 dflt st)
                 (foldR (\<lambda>i (succ, s).
                     if alt_skip dflt alts i then Done (succ, s)
                     else bindR (pgf_parsing_scan_toks rec item tok (i + 1) (form (alts ! i)) s)
                            (\<lambda>(b, s'). Done (succ \<or> b, s')))
                   [0..<length alts])
             else if alt item = 0 then pgf_parsing_scan_toks rec item tok 0 dflt st
             else
               gu_assert (alt item \<le> length alts)
                 (pgf_parsing_scan_toks rec item tok (alt item) (form (alts ! (alt item - 1))) st))
        | _ \<Rightarrow> gu_impossible)
       (\<lambda>(succ, s). gu_assert succ (Done s))"

subsection \<open>Entry points\<close>

definition pgf_new_parse :: PgfParse where
  "pgf_new_parse = \<lparr>transitions = Map.empty, completed = []\<rparr>"

definition pgf_new_parsing :: "PgfParser \<Rightarrow> PgfParse \<Rightarrow> PgfParsing" where
  "pgf_new_parsing parser parse =
     \<lparr>pg_parser = parser, pg_parse = parse, seen_items = [], conts_map = Map.empty,
      generated_cats = Map.empty\<rparr>"

fun scan_agenda ::
  "item_enum \<Rightarrow> item_step \<Rightarrow> nat \<Rightarrow> PgfItem list \<Rightarrow> PgfToken \<Rightarrow> nat \<Rightarrow> PgfParsing \<Rightarrow> PgfParsing run" where
  "scan_agenda en rec 0 agenda tok i st = Out_Of_Fuel"
| "scan_agenda en rec (Suc n) agenda tok i st =
     bindR (en (map Some agenda) i) (\<lambda>r.
       case r of
         None \<Rightarrow> Done st
       | Some (None, j) \<Rightarrow> Fault Null_Deref
       | Some (Some item, j) \<Rightarrow>
           bindR (pgf_parsing_scan rec tok item st) (scan_agenda en rec n agenda tok j))"

text \<open>\<open>None\<close> is the null pointer: no item of the parse accepts the token.\<close>

definition pgf_parse_token ::
  "item_enum \<Rightarrow> nat \<Rightarrow> PgfParser \<Rightarrow> PgfParse \<Rightarrow> PgfToken \<Rightarrow> (PgfParser \<times> PgfParse option) run" where
  "pgf_parse_token en n parser parse tok =
     (case transitions parse tok of
        None \<Rightarrow> Done (parser, None)
      | Some agenda \<Rightarrow>
          bindR (scan_agenda en (pgf_parsing_item en n) n agenda tok 0
              (pgf_new_parsing parser pgf_new_parse)) (\<lambda>st.
            Done (pg_parser st, Some (pg_parse st))))"

text \<open>\<open>same_pgf\<close> is \<open>cat->pgf == parser->concr->pgf\<close>.\<close>

definition pgf_parser_parse ::
  "item_enum \<Rightarrow> nat \<Rightarrow> PgfParser \<Rightarrow> bool \<Rightarrow> PgfCId \<Rightarrow> PgfCtntId \<Rightarrow> (PgfParser \<times> PgfParse) run" where
  "pgf_parser_parse en n parser same_pgf cat lin_idx =
     gu_require same_pgf
      (case map_of (cnccats (parser_concr parser)) cat of
         None \<Rightarrow> Done (parser, pgf_new_parse)
       | Some cnccat \<Rightarrow>
           gu_require (lin_idx \<ge> 0 \<and> nat lin_idx < n_ctnts cnccat)
            (bindR
               (foldR (\<lambda>ccat s.
                   case ccat of
                     None \<Rightarrow> Done s
                   | Some c \<Rightarrow> pgf_parsing_predict (pgf_parsing_item en n) None c (nat lin_idx) s)
                 (cats cnccat) (pgf_new_parsing parser pgf_new_parse))
               (\<lambda>st. Done (pg_parser st, pg_parse st))))"

definition PGF_FID_SYNTHETIC :: int where
  "PGF_FID_SYNTHETIC = - 999"

text \<open>\<open>first\<close> is an address above those of the categories of the grammar.\<close>

definition pgf_new_parser :: "ccat_id \<Rightarrow> PgfConcr \<Rightarrow> PgfParser" where
  "pgf_new_parser first concr =
     \<lparr>parser_concr = concr, next_fid = PGF_FID_SYNTHETIC, p_store = store concr,
      next_ccat = first, item_sets = []\<rparr>"

text \<open>A whole parse: the start category, then the tokens one by one.\<close>

fun parse_tokens ::
  "item_enum \<Rightarrow> nat \<Rightarrow> PgfParser \<Rightarrow> PgfParse \<Rightarrow> PgfTokens \<Rightarrow> (PgfParser \<times> PgfParse option) run" where
  "parse_tokens en n parser parse [] = Done (parser, Some parse)"
| "parse_tokens en n parser parse (tok # toks) =
     bindR (pgf_parse_token en n parser parse tok) (\<lambda>(parser', next).
       case next of
         None \<Rightarrow> Done (parser', None)
       | Some parse' \<Rightarrow> parse_tokens en n parser' parse' toks)"

end
