(* ===== verification/ParserSound.thy ===== *)
theory ParserSound
  imports Parser
begin

text \<open>
  Soundness of the parser. Every category that the parser creates stands for a parent category, a
  constituent of it and a span of the input; this attribution is not stored by the code and is
  tracked here as a ghost state, for categories (\<open>g\<close>) and for continuation sets (\<open>gs\<close>). The chart
  invariant \<open>inv\<close> says that every production of such a category arises from a production of
  its parent by replacing arguments along the symbols of the constituent, each replacement
  covering its part of the span (\<open>path\<close>), and that every item in a set, on the agenda or in a
  transition is such a partial path. All operations preserve it, and at the end every tree of a
  completed category is a tree of the grammar whose constituent yields the tokens consumed.
\<close>

subsection \<open>Spans of the input\<close>

definition slice :: "'a list \<Rightarrow> nat \<Rightarrow> nat \<Rightarrow> 'a list" where
  "slice w j k = take (k - j) (drop j w)"

lemma slice_refl [simp]: "slice w j j = []"
  by (simp add: slice_def)

lemma slice_append: "j \<le> m \<Longrightarrow> m \<le> k \<Longrightarrow> slice w j m @ slice w m k = slice w j k"
proof -
  assume "j \<le> m" "m \<le> k"
  then have "k - j = (m - j) + (k - m)" "drop (m - j) (drop j w) = drop m w"
    by simp_all
  then show ?thesis
    unfolding slice_def by (metis take_add)
qed

lemma slice_Suc: "m \<le> k \<Longrightarrow> k < length w \<Longrightarrow> slice w m (Suc k) = slice w m k @ [w ! k]"
  by (simp add: slice_def Suc_diff_le take_Suc_conv_app_nth)

lemma slice_all: "slice w 0 (length w) = w"
  by (simp add: slice_def)

subsection \<open>Trees of a category in a store\<close>

inductive derives :: "ccats \<Rightarrow> ccat_id \<Rightarrow> PgfCncTree \<Rightarrow> bool" for st where
  derives_app: "PGF_PRODUCTION_APPLY fn args \<in> set (prods_of st c) \<Longrightarrow>
     list_all2 (\<lambda>a t. derives st (parg_ccat a) t) args ts \<Longrightarrow> derives st c (PGF_CNC_TREE_APP fn ts)"
| derives_coerce: "PGF_PRODUCTION_COERCE d \<in> set (prods_of st c) \<Longrightarrow> derives st d t \<Longrightarrow> derives st c t"
| derives_lit: "derives st (pgf_literal_cat l) (PGF_CNC_TREE_LIT l)"

subsection \<open>The ghost state and the chart invariant\<close>

type_synonym span = "ccat_id \<times> nat \<times> nat \<times> nat"
type_synonym cat_ghost = "ccat_id \<rightharpoonup> span"
type_synonym set_ghost = "set_id \<rightharpoonup> ccat_id \<times> nat \<times> nat"

fun sym_forms :: "PgfSymbol \<Rightarrow> PgfTokens set" where
  "sym_forms (PGF_SYMBOL_KS toks) = {toks}"
| "sym_forms (PGF_SYMBOL_KP dflt alts) = insert dflt (form ` set alts)"
| "sym_forms _ = {}"

text \<open>\<open>path w g ss as as' j k\<close>: reading the symbols \<open>ss\<close> from position \<open>j\<close> to position \<open>k\<close> turns the
  arguments \<open>as\<close> into \<open>as'\<close>.\<close>

inductive path ::
  "PgfTokens \<Rightarrow> cat_ghost \<Rightarrow> PgfSymbol list \<Rightarrow> PgfPArg list \<Rightarrow> PgfPArg list \<Rightarrow> nat \<Rightarrow> nat \<Rightarrow> bool"
  for w g where
  path_Nil: "path w g [] as as j j"
| path_cat: "path w g ss as as' j m \<Longrightarrow> 0 \<le> d \<Longrightarrow> nat d < length as' \<Longrightarrow>
     g c = Some (parg_ccat (as' ! nat d), to_size r, m, k) \<Longrightarrow> m \<le> k \<Longrightarrow>
     path w g (ss @ [PGF_SYMBOL_CAT d r]) as (as'[nat d := \<lparr>parg_hypos = [], parg_ccat = c\<rparr>]) j k"
| path_tok: "path w g ss as as' j m \<Longrightarrow> m \<le> k \<Longrightarrow> slice w m k \<in> sym_forms s \<Longrightarrow>
     path w g (ss @ [s]) as as' j k"

lemma path_le: "path w g ss as as' j k \<Longrightarrow> j \<le> k"
  by (induction rule: path.induct) auto

lemma path_mono: "path w g ss as as' j k \<Longrightarrow> g \<subseteq>\<^sub>m g' \<Longrightarrow> path w g' ss as as' j k"
proof (induction rule: path.induct)
  case (path_cat ss as as' j m d c r k)
  then have "g' c = Some (parg_ccat (as' ! nat d), to_size r, m, k)"
    by (metis domI map_le_def)
  with path_cat show ?case by (intro path.path_cat) auto
qed (auto intro: path.intros)

lemma path_length: "path w g ss as as' j k \<Longrightarrow> length as' = length as"
  by (induction rule: path.induct) auto

fun sel_form :: "PgfSymbol \<Rightarrow> nat \<Rightarrow> PgfTokens option" where
  "sel_form (PGF_SYMBOL_KS toks) al = Some toks"
| "sel_form (PGF_SYMBOL_KP dflt alts) 0 = Some dflt"
| "sel_form (PGF_SYMBOL_KP dflt alts) (Suc i) = (if i < length alts then Some (form (alts ! i)) else None)"
| "sel_form _ al = None"

lemma sel_form_in: "sel_form s al = Some f \<Longrightarrow> f \<in> sym_forms s"
  by (cases "(s, al)" rule: sel_form.cases) (auto split: if_splits)

text \<open>The dot of an item: the symbols before it are read, and of the symbol at it the first
  \<open>tok_idx\<close> tokens of the selected form.\<close>

definition dot_ok :: "PgfTokens \<Rightarrow> PgfSymbol list \<Rightarrow> PgfItem \<Rightarrow> nat \<Rightarrow> nat \<Rightarrow> bool" where
  "dot_ok w sq item m k \<longleftrightarrow>
     (if tok_idx item = 0 then m = k
      else seq_idx item < length sq \<and>
        (\<exists>f. sel_form (sq ! seq_idx item) (alt item) = Some f \<and> tok_idx item < length f \<and>
           m \<le> k \<and> slice w m k = take (tok_idx item) f))"

definition item_path :: "PgfTokens \<Rightarrow> cat_ghost \<Rightarrow> PgfItem \<Rightarrow> nat \<Rightarrow> nat \<Rightarrow> bool" where
  "item_path w g item j k \<longleftrightarrow>
     (let base = item_base item; r = base_lin_idx base in
      case base_prod base of
        PGF_PRODUCTION_APPLY fn as \<Rightarrow>
          r < length (lins fn) \<and> seq_idx item \<le> length (lins fn ! r) \<and>
          (\<exists>m. path w g (take (seq_idx item) (lins fn ! r)) as (item_args item) j m \<and>
             dot_ok w (lins fn ! r) item m k)
      | PGF_PRODUCTION_COERCE c0 \<Rightarrow>
          tok_idx item = 0 \<and>
          (seq_idx item = 0 \<and> item_args item = [\<lparr>parg_hypos = [], parg_ccat = c0\<rparr>] \<and> j = k \<or>
           seq_idx item = 1 \<and> j \<le> k \<and>
             (\<exists>c. item_args item = [\<lparr>parg_hypos = [], parg_ccat = c\<rparr>] \<and> g c = Some (c0, r, j, k))))"

definition item_ok ::
  "PgfTokens \<Rightarrow> cat_ghost \<Rightarrow> set_ghost \<Rightarrow> ccats \<Rightarrow> PgfItem \<Rightarrow> nat \<Rightarrow> bool" where
  "item_ok w g gs h item k \<longleftrightarrow>
     (let base = item_base item in
      base_prod base \<in> set (prods_of h (base_ccat base)) \<and>
      pgf_item_base_symbol base (seq_idx item) = Done (curr_sym item) \<and>
      (\<exists>j. gs (base_conts base) = Some (base_ccat base, base_lin_idx base, j) \<and> j \<le> k \<and>
         item_path w g item j k))"

text \<open>The item waits for constituent \<open>r\<close> of category \<open>C\<close>.\<close>

definition awaits :: "PgfItem \<Rightarrow> ccat_id \<Rightarrow> nat \<Rightarrow> bool" where
  "awaits item C r \<longleftrightarrow>
     (let base = item_base item in
      case base_prod base of
        PGF_PRODUCTION_APPLY fn as \<Rightarrow>
          (\<exists>d r'. seq_idx item < length (lins fn ! base_lin_idx base) \<and>
             lins fn ! base_lin_idx base ! seq_idx item = PGF_SYMBOL_CAT d r' \<and> to_size r' = r \<and>
             0 \<le> d \<and> nat d < length (item_args item) \<and> parg_ccat (item_args item ! nat d) = C)
      | PGF_PRODUCTION_COERCE c0 \<Rightarrow> seq_idx item = 0 \<and> C = c0 \<and> r = base_lin_idx base)"

text \<open>What is fixed during a parse: the input, the grammar's store and the first address above it,
  the start categories and the constituent parsed.\<close>

record pspec =
  sp_word :: PgfTokens
  sp_store :: ccats
  sp_first :: ccat_id
  sp_starts :: "ccat_id set"
  sp_lin :: nat

definition member_ok ::
  "pspec \<Rightarrow> cat_ghost \<Rightarrow> set_ghost \<Rightarrow> ccats \<Rightarrow> ccat_id \<times> nat \<times> nat \<Rightarrow> PgfItem option \<Rightarrow> bool" where
  "member_ok S g gs h = (\<lambda>(C, r, j) x.
     case x of
       None \<Rightarrow> C \<in> sp_starts S \<and> r = sp_lin S \<and> j = 0
     | Some item \<Rightarrow> item_ok (sp_word S) g gs h item j \<and> awaits item C r)"

definition prod_from :: "PgfTokens \<Rightarrow> cat_ghost \<Rightarrow> ccats \<Rightarrow> span \<Rightarrow> PgfProduction \<Rightarrow> bool" where
  "prod_from w g h = (\<lambda>(p, r, j, k) prd.
     case prd of
       PGF_PRODUCTION_APPLY fn as' \<Rightarrow>
         r < length (lins fn) \<and>
         (\<exists>as. PGF_PRODUCTION_APPLY fn as \<in> set (prods_of h p) \<and> path w g (lins fn ! r) as as' j k)
     | PGF_PRODUCTION_COERCE c1 \<Rightarrow>
         (\<exists>c0. PGF_PRODUCTION_COERCE c0 \<in> set (prods_of h p) \<and> g c1 = Some (c0, r, j, k)))"

text \<open>The limits of the index fields of an item, and references that exist.\<close>

fun sym_small :: "PgfSymbol \<Rightarrow> bool" where
  "sym_small (PGF_SYMBOL_CAT d r) \<longleftrightarrow> 0 \<le> r \<and> r < 2 ^ 31"
| "sym_small (PGF_SYMBOL_KS toks) \<longleftrightarrow> length toks < 2 ^ 8"
| "sym_small (PGF_SYMBOL_KP dflt alts) \<longleftrightarrow>
     length dflt < 2 ^ 8 \<and> length alts < 2 ^ 8 \<and> list_all (\<lambda>a. length (form a) < 2 ^ 8) alts"
| "sym_small _ \<longleftrightarrow> True"

definition fun_small :: "PgfCncFun \<Rightarrow> bool" where
  "fun_small fn \<longleftrightarrow> list_all (\<lambda>sq. length sq < 2 ^ 16 \<and> list_all sym_small sq) (lins fn)"

fun prod_small :: "PgfProduction \<Rightarrow> bool" where
  "prod_small (PGF_PRODUCTION_APPLY fn as) \<longleftrightarrow> fun_small fn"
| "prod_small (PGF_PRODUCTION_COERCE c) \<longleftrightarrow> True"

fun prod_below :: "ccat_id \<Rightarrow> PgfProduction \<Rightarrow> bool" where
  "prod_below b (PGF_PRODUCTION_APPLY fn as) \<longleftrightarrow> list_all (\<lambda>a. parg_ccat a < b) as"
| "prod_below b (PGF_PRODUCTION_COERCE c) \<longleftrightarrow> c < b"

definition store_ok :: "ccat_id \<Rightarrow> ccats \<Rightarrow> bool" where
  "store_ok first st \<longleftrightarrow>
     pgf_ccat_var < first \<and> (\<forall>c \<ge> first. st c = None) \<and>
     (\<forall>c < first. \<forall>prd \<in> set (prods_of st c). prod_small prd \<and> prod_below first prd)"

abbreviation heap :: "PgfParsing \<Rightarrow> ccats" where
  "heap st \<equiv> p_store (pg_parser st)"

text \<open>The invariant of the objects that outlive a position.\<close>

definition heap_inv :: "pspec \<Rightarrow> cat_ghost \<Rightarrow> set_ghost \<Rightarrow> PgfParser \<Rightarrow> bool" where
  "heap_inv S g gs ps \<longleftrightarrow>
     (\<forall>c < sp_first S. p_store ps c = sp_store S c) \<and>
     sp_first S \<le> next_ccat ps \<and>
     (\<forall>c. c \<ge> next_ccat ps \<longrightarrow> p_store ps c = None) \<and>
     (\<forall>c. sp_first S \<le> c \<and> p_store ps c \<noteq> None \<longrightarrow> g c \<noteq> None) \<and>
     (\<forall>c p r j k. g c = Some (p, r, j, k) \<longrightarrow>
        sp_first S \<le> c \<and> c < next_ccat ps \<and> p < c \<and> j \<le> k \<and>
        (\<forall>prd \<in> set (prods_of (p_store ps) c). prod_from (sp_word S) g (p_store ps) (p, r, j, k) prd)) \<and>
     (\<forall>c. \<forall>prd \<in> set (prods_of (p_store ps) c). prod_small prd) \<and>
     (\<forall>s x. gs s = Some x \<longrightarrow> s < length (item_sets ps) \<and> fst x < next_ccat ps \<and>
        (\<forall>m \<in> set (item_sets ps ! s). member_ok S g gs (p_store ps) x m))"

text \<open>The invariant of the \<open>PgfParse\<close> of position \<open>k\<close>.\<close>

definition parse_inv :: "pspec \<Rightarrow> nat \<Rightarrow> cat_ghost \<Rightarrow> set_ghost \<Rightarrow> PgfParser \<Rightarrow> PgfParse \<Rightarrow> bool" where
  "parse_inv S k g gs ps parse \<longleftrightarrow>
     (\<forall>tok items item. transitions parse tok = Some items \<and> item \<in> set items \<longrightarrow>
        item_ok (sp_word S) g gs (p_store ps) item k) \<and>
     (\<forall>c \<in> set (completed parse). \<exists>p \<in> sp_starts S. g c = Some (p, sp_lin S, 0, k))"

definition inv :: "pspec \<Rightarrow> nat \<Rightarrow> cat_ghost \<Rightarrow> set_ghost \<Rightarrow> PgfParsing \<Rightarrow> bool" where
  "inv S k g gs st \<longleftrightarrow>
     heap_inv S g gs (pg_parser st) \<and> parse_inv S k g gs (pg_parser st) (pg_parse st) \<and>
     (\<forall>C l r s. conts_map st C = Some l \<and> r < length l \<and> l ! r = Some s \<longrightarrow> gs s = Some (C, r, k)) \<and>
     (\<forall>s c. generated_cats st s = Some c \<longrightarrow>
        (\<exists>C r j. gs s = Some (C, r, j) \<and> g c = Some (C, r, j, k)))"

text \<open>Growth of the ghost state and of the store.\<close>

definition heap_le :: "ccats \<Rightarrow> ccats \<Rightarrow> bool" where
  "heap_le h h' \<longleftrightarrow> (\<forall>c. set (prods_of h c) \<subseteq> set (prods_of h' c))"

definition grows ::
  "cat_ghost \<Rightarrow> set_ghost \<Rightarrow> ccats \<Rightarrow> cat_ghost \<Rightarrow> set_ghost \<Rightarrow> ccats \<Rightarrow> bool" where
  "grows g gs h g' gs' h' \<longleftrightarrow> g \<subseteq>\<^sub>m g' \<and> gs \<subseteq>\<^sub>m gs' \<and> heap_le h h'"

definition keeps :: "pspec \<Rightarrow> nat \<Rightarrow> cat_ghost \<Rightarrow> set_ghost \<Rightarrow> PgfParsing \<Rightarrow> PgfParsing \<Rightarrow> bool" where
  "keeps S k g gs st st' \<longleftrightarrow>
     (\<exists>g' gs'. grows g gs (heap st) g' gs' (heap st') \<and> inv S k g' gs' st')"

subsection \<open>Trees of created categories\<close>

inductive sat :: "pspec \<Rightarrow> cat_ghost \<Rightarrow> ccat_id \<Rightarrow> PgfCncTree \<Rightarrow> bool" for S g where
  sat_base: "g c = None \<Longrightarrow> derives (sp_store S) c t \<Longrightarrow> sat S g c t"
| sat_syn: "g c = Some (p, r, j, k) \<Longrightarrow> sat S g p t \<Longrightarrow>
     tree_yields t (int r) (slice (sp_word S) j k) \<Longrightarrow> sat S g c t"

inductive_simps sat_iff: "sat S g c t"

lemma seq_yields_snoc:
  "seq_yields ts ss u \<Longrightarrow> sym_yields ts s v \<Longrightarrow> seq_yields ts (ss @ [s]) (u @ v)"
proof (induction ss arbitrary: u)
  case Nil
  then have "u = []" by (auto elim: seq_yields.cases)
  with Nil yields_Cons [of ts s v "[]" "[]"] show ?case by (simp add: yields_Nil)
next
  case (Cons s' ss)
  then obtain u1 u2 where "u = u1 @ u2" "sym_yields ts s' u1" "seq_yields ts ss u2"
    by (auto elim: seq_yields.cases)
  with Cons yields_Cons show ?case by fastforce
qed

lemma sym_forms_yields: "f \<in> sym_forms s \<Longrightarrow> sym_yields ts s f"
  by (cases s) (auto intro: yields_ks yields_kp yields_kp_alt)

lemma to_size_small: "0 \<le> r \<Longrightarrow> r < 2 ^ 31 \<Longrightarrow> int (to_size r) = r"
  by (simp add: to_size_def)

lemma path_sat:
  "path (sp_word S) g ss as as' j k \<Longrightarrow> list_all sym_small ss \<Longrightarrow>
     list_all2 (\<lambda>a t. sat S g (parg_ccat a) t) as' ts \<Longrightarrow>
     list_all2 (\<lambda>a t. sat S g (parg_ccat a) t) as ts \<and> seq_yields ts ss (slice (sp_word S) j k)"
proof (induction arbitrary: ts rule: path.induct)
  case (path_Nil as j)
  then show ?case by (simp add: yields_Nil)
next
  case (path_cat ss as as' j m d c r k)
  let ?d = "nat d"
  have len: "length ts = length as'"
    using list_all2_lengthD [OF path_cat.prems(2)] by simp
  have "sat S g c (ts ! ?d)"
    using list_all2_nthD [OF path_cat.prems(2), of ?d] path_cat.hyps by simp
  then have d: "sat S g (parg_ccat (as' ! ?d)) (ts ! ?d)"
    and y: "tree_yields (ts ! ?d) (int (to_size r)) (slice (sp_word S) m k)"
    using path_cat.hyps(4) by (auto simp: sat_iff [of S g c])
  have "list_all2 (\<lambda>a t. sat S g (parg_ccat a) t) as' ts"
  proof (rule list_all2_all_nthI)
    fix i
    assume "i < length as'"
    then show "sat S g (parg_ccat (as' ! i)) (ts ! i)"
      using d list_all2_nthD [OF path_cat.prems(2), of i] by (cases "i = ?d") auto
  qed (simp add: len)
  then have IH: "list_all2 (\<lambda>a t. sat S g (parg_ccat a) t) as ts" "seq_yields ts ss (slice (sp_word S) j m)"
    using path_cat.IH path_cat.prems(1) by auto
  have "int (to_size r) = r"
    using path_cat.prems(1) by (simp add: to_size_small)
  then have "sym_yields ts (PGF_SYMBOL_CAT d r) (slice (sp_word S) m k)"
    using y path_cat.hyps len by (auto intro: yields_cat)
  from seq_yields_snoc [OF IH(2) this] IH(1) show ?case
    using path_le [OF path_cat.hyps(1)] path_cat.hyps(5) by (simp add: slice_append)
next
  case (path_tok ss as as' j m k s)
  then have IH: "list_all2 (\<lambda>a t. sat S g (parg_ccat a) t) as ts" "seq_yields ts ss (slice (sp_word S) j m)"
    by auto
  from seq_yields_snoc [OF IH(2) sym_forms_yields [OF path_tok.hyps(3)]] IH(1) show ?case
    using path_le [OF path_tok.hyps(1)] path_tok.hyps(2) by (simp add: slice_append)
qed

lemma heap_inv_ghost:
  assumes "heap_inv S g gs ps" and "g c = Some (p, r, j, k)"
  shows "sp_first S \<le> c" "c < next_ccat ps" "p < c" "j \<le> k"
    "prd \<in> set (prods_of (p_store ps) c) \<Longrightarrow> prod_from (sp_word S) g (p_store ps) (p, r, j, k) prd"
  using assms unfolding heap_inv_def by blast+

lemma heap_inv_small: "heap_inv S g gs ps \<Longrightarrow> prd \<in> set (prods_of (p_store ps) c) \<Longrightarrow> prod_small prd"
  unfolding heap_inv_def by blast

lemma heap_inv_set:
  "heap_inv S g gs ps \<Longrightarrow> gs s = Some x \<Longrightarrow> s < length (item_sets ps) \<and> fst x < next_ccat ps"
  unfolding heap_inv_def by blast

lemma heap_inv_base:
  assumes "heap_inv S g gs ps" and "prd \<in> set (prods_of (p_store ps) c)" and "g c = None"
  shows "c < sp_first S" and "prd \<in> set (prods_of (sp_store S) c)"
proof -
  have "p_store ps c \<noteq> None"
    using assms(2) by (cases "p_store ps c") (auto simp: prods_of_def)
  then show c: "c < sp_first S"
    using assms(1,3) unfolding heap_inv_def by (metis not_less)
  then show "prd \<in> set (prods_of (sp_store S) c)"
    using assms(1,2) by (simp add: heap_inv_def prods_of_def)
qed

lemma sat_below:
  assumes "heap_inv S g gs ps" and "c < sp_first S" and "sat S g c t"
  shows "derives (sp_store S) c t"
  using assms(3)
proof (cases rule: sat.cases)
  case (sat_syn p r j k)
  then show ?thesis
    using heap_inv_ghost(1) [OF assms(1)] assms(2) by fastforce
qed

lemma app_sat:
  assumes "heap_inv S g gs ps" and "store_ok (sp_first S) (sp_store S)"
    and "PGF_PRODUCTION_APPLY fn as \<in> set (prods_of (p_store ps) c)"
    and "list_all2 (\<lambda>a t. sat S g (parg_ccat a) t) as ts"
  shows "sat S g c (PGF_CNC_TREE_APP fn ts)"
  using assms(3,4)
proof (induction c arbitrary: as rule: less_induct)
  case (less c)
  show ?case
  proof (cases "g c")
    case None
    note b = heap_inv_base [OF assms(1) less.prems(1) None]
    have "list_all (\<lambda>a. parg_ccat a < sp_first S) as"
      using assms(2) b by (fastforce simp: store_ok_def)
    then have "list_all2 (\<lambda>a t. derives (sp_store S) (parg_ccat a) t) as ts"
      using less.prems(2) sat_below [OF assms(1)]
      by (fastforce simp: list_all2_conv_all_nth list_all_length)
    with b(2) None show ?thesis
      by (auto intro: sat_base derives_app)
  next
    case (Some x)
    then obtain p r j k where x: "g c = Some (p, r, j, k)" by (cases x) auto
    note gh = heap_inv_ghost [OF assms(1) x]
    obtain as0 where as0: "PGF_PRODUCTION_APPLY fn as0 \<in> set (prods_of (p_store ps) p)"
      "r < length (lins fn)" "path (sp_word S) g (lins fn ! r) as0 as j k"
      using gh(5) [OF less.prems(1)] by (auto simp: prod_from_def)
    have "list_all sym_small (lins fn ! r)"
      using heap_inv_small [OF assms(1) less.prems(1)] as0(2) by (simp add: fun_small_def list_all_length)
    from path_sat [OF as0(3) this less.prems(2)]
    have s: "list_all2 (\<lambda>a t. sat S g (parg_ccat a) t) as0 ts"
      "seq_yields ts (lins fn ! r) (slice (sp_word S) j k)" by auto
    have "tree_yields (PGF_CNC_TREE_APP fn ts) (int r) (slice (sp_word S) j k)"
      using as0(2) s(2) by (simp add: yields_app)
    then show ?thesis
      using sat_syn [OF x less.IH [OF gh(3) as0(1) s(1)]] by blast
  qed
qed

lemma coerce_sat:
  assumes "heap_inv S g gs ps" and "store_ok (sp_first S) (sp_store S)"
    and "PGF_PRODUCTION_COERCE d \<in> set (prods_of (p_store ps) c)" and "sat S g d t"
  shows "sat S g c t"
  using assms(3,4)
proof (induction c arbitrary: d rule: less_induct)
  case (less c)
  show ?case
  proof (cases "g c")
    case None
    note b = heap_inv_base [OF assms(1) less.prems(1) None]
    have "d < sp_first S"
      using assms(2) b by (fastforce simp: store_ok_def)
    with sat_below [OF assms(1) this less.prems(2)] b(2) None show ?thesis
      by (auto intro: sat_base derives_coerce)
  next
    case (Some x)
    then obtain p r j k where x: "g c = Some (p, r, j, k)" by (cases x) auto
    note gh = heap_inv_ghost [OF assms(1) x]
    obtain c0 where c0: "PGF_PRODUCTION_COERCE c0 \<in> set (prods_of (p_store ps) p)" "g d = Some (c0, r, j, k)"
      using gh(5) [OF less.prems(1)] by (auto simp: prod_from_def)
    then have d: "sat S g c0 t" "tree_yields t (int r) (slice (sp_word S) j k)"
      using less.prems(2) by (auto simp: sat_iff [of S g d])
    show ?thesis
      using sat_syn [OF x less.IH [OF gh(3) c0(1) d(1)] d(2)] .
  qed
qed

lemma literal_below: "store_ok first st \<Longrightarrow> pgf_literal_cat l < first"
  by (cases l) (auto simp: store_ok_def pgf_ccat_string_def pgf_ccat_int_def pgf_ccat_float_def
      pgf_ccat_var_def)

lemma derives_sat:
  assumes "derives (p_store ps) c t" and "heap_inv S g gs ps" and "store_ok (sp_first S) (sp_store S)"
  shows "sat S g c t"
  using assms(1)
proof (induction rule: derives.induct)
  case (derives_app fn as c ts)
  have "list_all2 (\<lambda>a t. sat S g (parg_ccat a) t) as ts"
    using derives_app(2) by (rule list_all2_mono) simp
  from app_sat [OF assms(2,3) derives_app(1) this] show ?case .
next
  case (derives_coerce d c t)
  from coerce_sat [OF assms(2,3) derives_coerce(1,3)] show ?case .
next
  case (derives_lit l)
  have "g (pgf_literal_cat l) = None"
    using literal_below [OF assms(3), of l] heap_inv_ghost(1) [OF assms(2)]
    by (cases "g (pgf_literal_cat l)") fastforce+
  then show ?case
    by (intro sat_base) (auto intro: derives.derives_lit)
qed

subsection \<open>Growth\<close>

lemma map_leD: "g \<subseteq>\<^sub>m g' \<Longrightarrow> g c = Some x \<Longrightarrow> g' c = Some x"
  by (metis domI map_le_def)

lemma map_le_fresh: "g c = None \<Longrightarrow> g \<subseteq>\<^sub>m g(c \<mapsto> x)"
  by (auto simp: map_le_def)

lemma heap_leD: "heap_le h h' \<Longrightarrow> prd \<in> set (prods_of h c) \<Longrightarrow> prd \<in> set (prods_of h' c)"
  by (auto simp: heap_le_def)

lemma heap_le_refl [simp]: "heap_le h h"
  by (simp add: heap_le_def)

lemma grows_refl [simp]: "grows g gs h g gs h"
  by (simp add: grows_def)

lemma grows_trans: "grows g gs h g1 gs1 h1 \<Longrightarrow> grows g1 gs1 h1 g2 gs2 h2 \<Longrightarrow> grows g gs h g2 gs2 h2"
  by (auto simp: grows_def heap_le_def intro: map_le_trans)

lemma item_path_mono: "item_path w g item j k \<Longrightarrow> g \<subseteq>\<^sub>m g' \<Longrightarrow> item_path w g' item j k"
  unfolding item_path_def Let_def
  by (auto split: PgfProduction.splits dest: path_mono map_leD)

lemma item_ok_mono:
  "item_ok w g gs h item k \<Longrightarrow> grows g gs h g' gs' h' \<Longrightarrow> item_ok w g' gs' h' item k"
  unfolding item_ok_def grows_def Let_def
  by (blast dest: map_leD heap_leD intro: item_path_mono)

lemma member_ok_mono:
  "member_ok S g gs h x m \<Longrightarrow> grows g gs h g' gs' h' \<Longrightarrow> member_ok S g' gs' h' x m"
  unfolding member_ok_def by (auto split: option.splits intro: item_ok_mono)

lemma prod_from_mono:
  "prod_from w g h x prd \<Longrightarrow> g \<subseteq>\<^sub>m g' \<Longrightarrow> heap_le h h' \<Longrightarrow> prod_from w g' h' x prd"
  unfolding prod_from_def
  by (auto split: PgfProduction.splits) (blast dest: path_mono map_leD heap_leD)+

lemma parse_inv_mono:
  assumes "parse_inv S k g gs ps parse" and "grows g gs (p_store ps) g' gs' (p_store ps')"
  shows "parse_inv S k g' gs' ps' parse"
proof -
  have "g \<subseteq>\<^sub>m g'"
    using assms(2) by (simp add: grows_def)
  with assms show ?thesis
    unfolding parse_inv_def by (blast intro: item_ok_mono map_leD)
qed

text \<open>The part of \<open>inv\<close> about the tables of the current position.\<close>

definition tables_inv ::
  "nat \<Rightarrow> cat_ghost \<Rightarrow> set_ghost \<Rightarrow> (ccat_id \<rightharpoonup> set_id option list) \<Rightarrow> (set_id \<rightharpoonup> ccat_id) \<Rightarrow> bool" where
  "tables_inv k g gs cm gen \<longleftrightarrow>
     (\<forall>C l r s. cm C = Some l \<and> r < length l \<and> l ! r = Some s \<longrightarrow> gs s = Some (C, r, k)) \<and>
     (\<forall>s c. gen s = Some c \<longrightarrow> (\<exists>C r j. gs s = Some (C, r, j) \<and> g c = Some (C, r, j, k)))"

lemma inv_split:
  "inv S k g gs st \<longleftrightarrow>
     heap_inv S g gs (pg_parser st) \<and> parse_inv S k g gs (pg_parser st) (pg_parse st) \<and>
     tables_inv k g gs (conts_map st) (generated_cats st)"
  by (simp add: inv_def tables_inv_def)

lemma tables_inv_mono:
  "tables_inv k g gs cm gen \<Longrightarrow> g \<subseteq>\<^sub>m g' \<Longrightarrow> gs \<subseteq>\<^sub>m gs' \<Longrightarrow> tables_inv k g' gs' cm gen"
  unfolding tables_inv_def by (blast dest: map_leD)

lemma keeps_refl: "inv S k g gs st \<Longrightarrow> keeps S k g gs st st"
  unfolding keeps_def using grows_refl by blast

lemma keepsI: "grows g gs (heap st) g' gs' (heap st') \<Longrightarrow> inv S k g' gs' st' \<Longrightarrow> keeps S k g gs st st'"
  unfolding keeps_def by blast

lemma keeps_bind:
  assumes "keeps S k g gs st s"
    and "\<And>g1 gs1. grows g gs (heap st) g1 gs1 (heap s) \<Longrightarrow> inv S k g1 gs1 s \<Longrightarrow> keeps S k g1 gs1 s s'"
  shows "keeps S k g gs st s'"
  using assms unfolding keeps_def by (blast intro: grows_trans)

lemma keeps_start:
  assumes "grows g gs (heap st) g1 gs1 (heap s)" and "keeps S k g1 gs1 s s'"
  shows "keeps S k g gs st s'"
  using assms unfolding keeps_def by (blast intro: grows_trans)

lemma foldR_keeps:
  assumes "foldR f xs s = Done s'" and "inv S k g gs s"
    and "\<And>x s1 s2 g1 gs1. x \<in> set xs \<Longrightarrow> grows g gs (heap s) g1 gs1 (heap s1) \<Longrightarrow> inv S k g1 gs1 s1 \<Longrightarrow>
       f x s1 = Done s2 \<Longrightarrow> keeps S k g1 gs1 s1 s2"
  shows "keeps S k g gs s s'"
proof (rule foldR_invariant [OF assms(1)])
  show "keeps S k g gs s s"
    using assms(2) by (rule keeps_refl)
next
  fix x s1 s2
  assume "x \<in> set xs" "keeps S k g gs s s1" "f x s1 = Done s2"
  with assms(3) show "keeps S k g gs s s2"
    by (blast intro: keeps_bind)
qed

subsection \<open>The elementary state changes\<close>

lemma inv_seen [simp]: "inv S k g gs (st\<lparr>seen_items := xs\<rparr>) = inv S k g gs st"
  by (simp add: inv_def)

lemma inv_member:
  "inv S k g gs st \<Longrightarrow> gs s = Some x \<Longrightarrow> m \<in> set (item_sets (pg_parser st) ! s) \<Longrightarrow>
     member_ok S g gs (heap st) x m"
  unfolding inv_def heap_inv_def by blast

lemma inv_generated:
  "inv S k g gs st \<Longrightarrow> generated_cats st s = Some c \<Longrightarrow> gs s = Some (C, r, j) \<Longrightarrow> g c = Some (C, r, j, k)"
  unfolding inv_def by fastforce

lemma inv_conts:
  "inv S k g gs st \<Longrightarrow> conts_map st C = Some l \<Longrightarrow> r < length l \<Longrightarrow> l ! r = Some s \<Longrightarrow> gs s = Some (C, r, k)"
  unfolding inv_def by blast

lemma add_transition_keeps:
  assumes "inv S k g gs st" and "item_ok (sp_word S) g gs (heap st) item k"
  shows "keeps S k g gs st (pgf_parsing_add_transition tok item st)"
proof (rule keepsI)
  let ?st = "pgf_parsing_add_transition tok item st"
  have "item_ok (sp_word S) g gs (heap st) it k"
    if "transitions (pg_parse ?st) t = Some items" "it \<in> set items" for t items it
    using that assms unfolding inv_def parse_inv_def
    by (auto simp: pgf_parsing_add_transition_def or_empty_def Let_def split: if_splits option.splits)
  moreover have "pg_parser ?st = pg_parser st" "conts_map ?st = conts_map st"
    "generated_cats ?st = generated_cats st" "completed (pg_parse ?st) = completed (pg_parse st)"
    by (simp_all add: pgf_parsing_add_transition_def Let_def)
  ultimately show "inv S k g gs ?st"
    using assms(1) unfolding inv_split parse_inv_def by auto
qed (simp add: pgf_parsing_add_transition_def Let_def)

lemma completed_keeps:
  assumes "inv S k g gs st" and "g c = Some (p, sp_lin S, 0, k)" and "p \<in> sp_starts S"
  shows "keeps S k g gs st
    (st\<lparr>pg_parse := (pg_parse st)\<lparr>completed := completed (pg_parse st) @ [c]\<rparr>\<rparr>)"
  by (rule keepsI [of _ _ _ g gs]) (use assms in \<open>auto simp: inv_def parse_inv_def\<close>)

lemma get_contss_inv:
  assumes "pgf_parsing_get_contss cat st = Done (contss, st')" and "inv S k g gs st"
  shows "inv S k g gs st' \<and> conts_map st' cat = Some contss \<and> pg_parser st' = pg_parser st"
proof (cases "conts_map st cat")
  case None
  then obtain n where n: "contss = replicate n None" "st' = st\<lparr>conts_map := (conts_map st)(cat \<mapsto> contss)\<rparr>"
    using assms(1) by (auto simp: pgf_parsing_get_contss_def Let_def elim!: bindR_DoneE)
  with assms(2) show ?thesis
    unfolding n(2) inv_def by auto
next
  case (Some l)
  with assms show ?thesis by (auto simp: pgf_parsing_get_contss_def)
qed

lemma new_set_keeps:
  assumes "inv S k g gs st" and "heap st cat \<noteq> None"
    and "conts_map st cat = Some contss" and "r < length contss" and "contss ! r = None"
    and "new_item_set st = (s, st1)" and "st' = st1\<lparr>conts_map := (conts_map st1)(cat \<mapsto> contss[r := Some s])\<rparr>"
  shows "inv S k g (gs(s \<mapsto> (cat, r, k))) st'" and "gs s = None" and "heap st' = heap st"
proof -
  have s: "s = length (item_sets (pg_parser st))"
    "st1 = st\<lparr>pg_parser := (pg_parser st)\<lparr>item_sets := item_sets (pg_parser st) @ [[]]\<rparr>\<rparr>"
    using assms(6) by (auto simp: new_item_set_def Let_def)
  show h: "heap st' = heap st"
    using assms(7) s by simp
  have hi: "heap_inv S g gs (pg_parser st)"
    using assms(1) by (simp add: inv_def)
  then show fresh: "gs s = None"
    unfolding heap_inv_def s(1) by (metis less_irrefl not_None_eq)
  let ?gs = "gs(s \<mapsto> (cat, r, k))"
  have gr: "grows g gs (heap st) g ?gs (heap st)"
    using fresh by (simp add: grows_def map_le_fresh)
  have cat: "cat < next_ccat (pg_parser st)"
    using hi assms(2) unfolding heap_inv_def by (meson not_less)
  have mem: "x < length (item_sets (pg_parser st)) \<and> fst y < next_ccat (pg_parser st) \<and>
      (\<forall>m \<in> set (item_sets (pg_parser st) ! x). member_ok S g ?gs (heap st) y m)"
    if "gs x = Some y" for x y
    using hi that member_ok_mono [OF _ gr] unfolding heap_inv_def by blast
  have "heap_inv S g ?gs (pg_parser st')"
    using hi mem cat unfolding heap_inv_def assms(7) s
    by (auto simp: nth_append less_Suc_eq split: if_splits)
  moreover have "parse_inv S k g ?gs (pg_parser st') (pg_parse st')"
    using parse_inv_mono [of S k g gs "pg_parser st" _ g ?gs "pg_parser st'"] gr assms(1,7) h s
    by (simp add: inv_def)
  moreover have "tables_inv k g ?gs (conts_map st') (generated_cats st')"
  proof -
    have t: "tables_inv k g ?gs (conts_map st) (generated_cats st)"
      using assms(1) fresh by (auto simp: inv_split intro: tables_inv_mono map_le_fresh)
    show ?thesis
      using t assms(3-5) unfolding assms(7) s(2)
      by (auto simp: tables_inv_def nth_list_update split: if_splits)
  qed
  ultimately show "inv S k g ?gs st'"
    by (simp add: inv_split)
qed

lemma get_conts_keeps:
  assumes "pgf_parsing_get_conts cat r st = Done (s, st')" and "inv S k g gs st"
  shows "\<exists>gs'. gs \<subseteq>\<^sub>m gs' \<and> inv S k g gs' st' \<and> gs' s = Some (cat, r, k) \<and> heap st' = heap st"
proof -
  have c: "heap st cat \<noteq> None"
    using assms(1) by (auto simp: pgf_parsing_get_conts_def get_cnccat_def get_ccat_def elim!: bindR_DoneE
        split: option.splits)
  obtain contss st1 x where 1: "pgf_parsing_get_contss cat st = Done (contss, st1)" "r < length contss"
    and 2: "(case contss ! r of Some s \<Rightarrow> Done (s, st1)
       | None \<Rightarrow> (let (s, st2) = new_item_set st1
           in Done (s, st2\<lparr>conts_map := (conts_map st2)(cat \<mapsto> contss[r := Some s])\<rparr>))) = Done (s, st')"
    using assms(1) unfolding pgf_parsing_get_conts_def
    by (auto simp only: run_simps split_paired_Ex prod.case)
  have i: "inv S k g gs st1" "conts_map st1 cat = Some contss" "pg_parser st1 = pg_parser st"
    using get_contss_inv [OF 1(1) assms(2)] by auto
  show ?thesis
  proof (cases "contss ! r")
    case None
    obtain s' st2 where n: "new_item_set st1 = (s', st2)" by (cases "new_item_set st1")
    with 2 None have e: "s' = s" "st' = st2\<lparr>conts_map := (conts_map st2)(cat \<mapsto> contss[r := Some s])\<rparr>"
      by auto
    note ns = new_set_keeps [OF i(1) _ i(2) 1(2) None n [unfolded e(1)] e(2)]
    from ns c i(3) show ?thesis
      by (intro exI [of _ "gs(s \<mapsto> (cat, r, k))"]) (simp add: map_le_fresh)
  next
    case (Some s')
    with 2 have "s' = s" "st' = st1" by auto
    with i inv_conts [OF i(1,2) 1(2)] Some show ?thesis
      by (intro exI [of _ gs]) simp
  qed
qed

lemma set_insert_inv:
  assumes "inv S k g gs st" and "gs s = Some x" and "member_ok S g gs (heap st) x m"
  shows "inv S k g gs (set_insert s m st)" and "heap (set_insert s m st) = heap st"
proof -
  let ?ps = "pg_parser st"
  show h: "heap (set_insert s m st) = heap st"
    by (simp add: set_insert_def Let_def)
  have s: "s < length (item_sets ?ps)"
    using assms(1,2) unfolding inv_def heap_inv_def by blast
  have "\<forall>m' \<in> set (item_sets (pg_parser (set_insert s m st)) ! s'). member_ok S g gs (heap st) x' m'"
    if "gs s' = Some x'" for s' x'
    using that assms inv_member [OF assms(1) that] s
    by (auto simp: set_insert_def Let_def nth_list_update split: if_splits)
  moreover have "length (item_sets (pg_parser (set_insert s m st))) = length (item_sets ?ps)"
    "next_ccat (pg_parser (set_insert s m st)) = next_ccat ?ps"
    by (simp_all add: set_insert_def Let_def)
  ultimately have "heap_inv S g gs (pg_parser (set_insert s m st))"
    using assms(1) h unfolding inv_def heap_inv_def by simp blast
  then show "inv S k g gs (set_insert s m st)"
    using assms(1) h by (simp add: inv_def parse_inv_def) (simp add: set_insert_def Let_def)
qed

lemma prods_of_upd:
  "prods_of (h(c \<mapsto> cc)) d = (if d = c then prods_list (prods cc) else prods_of h d)"
  by (simp add: prods_of_def)

lemma push_prod_inv:
  assumes "push_prod cat prd st = Done st'" and "inv S k g gs st" and "g cat = Some x"
    and "prod_from (sp_word S) g (heap st) x prd" and "prod_small prd"
  shows "inv S k g gs st'" and "grows g gs (heap st) g gs (heap st')" and "prd \<in> set (prods_of (heap st') cat)"
    and "conts_map st' = conts_map st" and "generated_cats st' = generated_cats st"
proof -
  obtain cc ps where cc: "heap st cat = Some cc" "prods cc = Prods_Buf ps"
    and st': "st' = st\<lparr>pg_parser := (pg_parser st)\<lparr>p_store :=
      (heap st)(cat \<mapsto> cc\<lparr>prods := Prods_Buf (ps @ [prd])\<rparr>)\<rparr>\<rparr>"
    using assms(1) by (auto simp: push_prod_def get_ccat_def elim!: bindR_DoneE
        split: option.splits PgfProductions.splits)
  have po: "prods_of (heap st') c = (if c = cat then prods_of (heap st) cat @ [prd] else prods_of (heap st) c)" for c
    using cc by (simp add: st' prods_of_upd) (simp add: prods_of_def)
  have le: "heap_le (heap st) (heap st')"
    by (auto simp: heap_le_def po)
  then show gr: "grows g gs (heap st) g gs (heap st')"
    by (simp add: grows_def)
  show "prd \<in> set (prods_of (heap st') cat)"
    by (simp add: po)
  show "conts_map st' = conts_map st" "generated_cats st' = generated_cats st"
    by (simp_all add: st')
  have hi: "heap_inv S g gs (pg_parser st)"
    using assms(2) by (simp add: inv_def)
  obtain p0 r0 j0 k0 where x: "x = (p0, r0, j0, k0)" by (cases x)
  have "sp_first S \<le> cat"
    using heap_inv_ghost(1) [OF hi assms(3) [unfolded x]] .
  then have dom: "heap st' c = None \<longleftrightarrow> heap st c = None" "c < sp_first S \<Longrightarrow> heap st' c = heap st c" for c
    using cc(1) by (auto simp: st')
  have pf: "prod_from (sp_word S) g (heap st') y prd'"
    if "g c = Some y" "prd' \<in> set (prods_of (heap st') c)" for c y prd'
  proof (cases "prd' \<in> set (prods_of (heap st) c)")
    case True
    obtain p r j k' where "y = (p, r, j, k')" by (cases y)
    with heap_inv_ghost(5) [OF hi _ True] that(1) le show ?thesis
      by (blast intro: prod_from_mono map_le_refl)
  next
    case False
    with that assms(3) have "prd' = prd" "y = x" by (auto simp: po split: if_splits)
    with assms(4) le show ?thesis
      by (blast intro: prod_from_mono map_le_refl)
  qed
  have "heap_inv S g gs (pg_parser st')"
    unfolding heap_inv_def
  proof (intro conjI allI impI ballI)
    show "p_store (pg_parser st') c = sp_store S c" if "c < sp_first S" for c
      using hi dom(2) that by (simp add: heap_inv_def)
    show "sp_first S \<le> next_ccat (pg_parser st')"
      using hi by (simp add: heap_inv_def st')
    show "p_store (pg_parser st') c = None" if "next_ccat (pg_parser st') \<le> c" for c
      using hi that unfolding dom(1) by (simp add: heap_inv_def st')
    show "g c \<noteq> None" if "sp_first S \<le> c \<and> p_store (pg_parser st') c \<noteq> None" for c
      using hi that unfolding dom(1) heap_inv_def by blast
    show "prod_small p" if "p \<in> set (prods_of (p_store (pg_parser st')) c)" for p c
      using that assms(5) heap_inv_small [OF hi] by (auto simp: po split: if_splits)
  next
    fix s x' assume x: "gs s = Some x'"
    show "s < length (item_sets (pg_parser st'))" "fst x' < next_ccat (pg_parser st')"
      using heap_inv_set [OF hi x] by (auto simp: st')
    show "member_ok S g gs (p_store (pg_parser st')) x' m" if "m \<in> set (item_sets (pg_parser st') ! s)" for m
      using that inv_member [OF assms(2) x] gr by (auto simp: st' intro: member_ok_mono)
  next
    fix c p r j k'
    assume c: "g c = Some (p, r, j, k')"
    show "sp_first S \<le> c" "c < next_ccat (pg_parser st')" "p < c" "j \<le> k'"
      using heap_inv_ghost [OF hi c] by (auto simp: st')
    show "prod_from (sp_word S) g (p_store (pg_parser st')) (p, r, j, k') prd'"
      if "prd' \<in> set (prods_of (p_store (pg_parser st')) c)" for prd'
      using pf [OF c that] .
  qed
  moreover have "parse_inv S k g gs (pg_parser st') (pg_parse st')"
    using parse_inv_mono [of S k g gs "pg_parser st" _ g gs "pg_parser st'"] gr assms(2)
    by (simp add: inv_def st')
  ultimately show "inv S k g gs st'"
    using assms(2) by (simp add: inv_def st')
qed

lemma create_completed_inv:
  assumes "pgf_parsing_create_completed conts cc st = (cat, st')" and "inv S k g gs st"
    and "gs conts = Some (C, r, j)" and "j \<le> k"
  shows "inv S k (g(cat \<mapsto> (C, r, j, k))) gs st'"
    and "grows g gs (heap st) (g(cat \<mapsto> (C, r, j, k))) gs (heap st')"
proof -
  let ?ps = "pg_parser st" and ?g = "g(cat \<mapsto> (C, r, j, k))"
  define c :: PgfCCat where
    "c = \<lparr>ccat_cnccat = cc, prods = Prods_Buf [], ccat_fid = next_fid ?ps - 1\<rparr>"
  have cat: "cat = next_ccat ?ps" and c: "prods c = Prods_Buf []"
    and st': "st' = st\<lparr>pg_parser := ?ps\<lparr>next_ccat := Suc cat, next_fid := next_fid ?ps - 1,
        p_store := (heap st)(cat \<mapsto> c)\<rparr>, generated_cats := (generated_cats st)(conts \<mapsto> cat)\<rparr>"
    using assms(1) by (auto simp: pgf_parsing_create_completed_def Let_def c_def)
  have hi: "heap_inv S g gs ?ps"
    using assms(2) by (simp add: inv_def)
  have no: "heap st cat = None"
    using hi by (simp add: heap_inv_def cat)
  have fresh: "g cat = None"
    using heap_inv_ghost(2) [OF hi, of cat] cat by (cases "g cat") auto
  have po: "prods_of (heap st') = prods_of (heap st)"
    using no c by (auto simp: st' prods_of_upd prods_of_def fun_eq_iff)
  show gr: "grows g gs (heap st) ?g gs (heap st')"
    using fresh by (simp add: grows_def heap_le_def po map_le_fresh)
  have pf: "prod_from (sp_word S) ?g (heap st') y prd" if "prod_from (sp_word S) g (heap st) y prd" for y prd
    using that gr by (auto simp: grows_def intro: prod_from_mono)
  have C: "C < cat"
    using heap_inv_set [OF hi assms(3)] by (simp add: cat)
  have "heap_inv S ?g gs (pg_parser st')"
    unfolding heap_inv_def
  proof (intro conjI allI impI ballI)
    show "p_store (pg_parser st') c = sp_store S c" if "c < sp_first S" for c
      using hi that by (auto simp: heap_inv_def st' cat)
    show "sp_first S \<le> next_ccat (pg_parser st')"
      using hi by (simp add: heap_inv_def st' cat)
    show "p_store (pg_parser st') c = None" if "next_ccat (pg_parser st') \<le> c" for c
      using hi that by (simp add: heap_inv_def st' cat)
    show "?g c \<noteq> None" if "sp_first S \<le> c \<and> p_store (pg_parser st') c \<noteq> None" for c
      using hi that unfolding heap_inv_def by (auto simp: st' split: if_splits)
    show "prod_small p" if "p \<in> set (prods_of (p_store (pg_parser st')) c)" for p c
      using that heap_inv_small [OF hi] by (simp add: po)
  next
    fix s x' assume x: "gs s = Some x'"
    show "s < length (item_sets (pg_parser st'))" "fst x' < next_ccat (pg_parser st')"
      using heap_inv_set [OF hi x] by (auto simp: st' cat)
    show "member_ok S ?g gs (p_store (pg_parser st')) x' m" if "m \<in> set (item_sets (pg_parser st') ! s)" for m
      using that inv_member [OF assms(2) x] gr by (auto simp: st' intro: member_ok_mono)
  next
    fix c p r' j' k'
    assume c: "?g c = Some (p, r', j', k')"
    show "sp_first S \<le> c" "c < next_ccat (pg_parser st')" "p < c" "j' \<le> k'"
      using c heap_inv_ghost [OF hi, of c] C assms(4) hi
      by (auto simp: st' cat heap_inv_def less_SucI split: if_splits)
    show "prod_from (sp_word S) ?g (p_store (pg_parser st')) (p, r', j', k') prd'"
      if "prd' \<in> set (prods_of (p_store (pg_parser st')) c)" for prd'
      using c that heap_inv_ghost(5) [OF hi, of c] no pf
      by (auto simp: po split: if_splits) (simp add: prods_of_def)
  qed
  moreover have "parse_inv S k ?g gs (pg_parser st') (pg_parse st')"
    using parse_inv_mono [of S k g gs ?ps _ ?g gs "pg_parser st'"] gr assms(2)
    by (simp add: inv_def st')
  moreover have "tables_inv k ?g gs (conts_map st') (generated_cats st')"
  proof -
    have "tables_inv k ?g gs (conts_map st) (generated_cats st)"
      using assms(2) fresh by (auto simp: inv_split intro: tables_inv_mono map_le_fresh)
    then show ?thesis
      using assms(3) by (auto simp: tables_inv_def st')
  qed
  ultimately show "inv S k ?g gs st'"
    by (simp add: inv_split)
qed

subsection \<open>Items built by the operations\<close>

lemma base_symbol_apply:
  assumes "base_prod base = PGF_PRODUCTION_APPLY fn as" and "pgf_item_base_symbol base i = Done s"
  shows "base_lin_idx base < length (lins fn)" and "i \<le> length (lins fn ! base_lin_idx base)"
    and "s = (if i = length (lins fn ! base_lin_idx base) then None else Some (lins fn ! base_lin_idx base ! i))"
  using assms by (auto simp: pgf_item_base_symbol_def run_simps split: if_splits)

lemma new_item_ok:
  assumes "pgf_new_item \<lparr>base_conts = conts, base_ccat = cat, base_prod = prd, base_lin_idx = r\<rparr> = Done item"
    and "gs conts = Some (cat, r, k)" and "prd \<in> set (prods_of h cat)"
  shows "item_ok w g gs h item k"
  using assms
  by (auto simp: pgf_new_item_def run_simps item_ok_def item_path_def dot_ok_def
      pgf_item_base_symbol_def path_Nil split: PgfProduction.splits if_splits)

lemma item_small:
  assumes "heap_inv S g gs ps" and "item_ok w g gs (p_store ps) item k"
    and "base_prod (item_base item) = PGF_PRODUCTION_APPLY fn as"
    and "base_lin_idx (item_base item) < length (lins fn)"
  shows "length (lins fn ! base_lin_idx (item_base item)) < 2 ^ 16"
    and "list_all sym_small (lins fn ! base_lin_idx (item_base item))"
proof -
  have "PGF_PRODUCTION_APPLY fn as \<in> set (prods_of (p_store ps) (base_ccat (item_base item)))"
    using assms(2,3) by (simp add: item_ok_def Let_def)
  from heap_inv_small [OF assms(1) this] assms(4)
  show "length (lins fn ! base_lin_idx (item_base item)) < 2 ^ 16"
    "list_all sym_small (lins fn ! base_lin_idx (item_base item))"
    by (auto simp: fun_small_def list_all_length)
qed

text \<open>Advancing an item over a symbol that a path can read.\<close>

lemma item_pathD:
  assumes "item_ok w g gs h item k" and "base_prod (item_base item) = PGF_PRODUCTION_APPLY fn as"
  obtains j m where "gs (base_conts (item_base item)) = Some (base_ccat (item_base item), base_lin_idx (item_base item), j)"
    and "j \<le> k" and "base_lin_idx (item_base item) < length (lins fn)"
    and "seq_idx item \<le> length (lins fn ! base_lin_idx (item_base item))"
    and "path w g (take (seq_idx item) (lins fn ! base_lin_idx (item_base item))) as (item_args item) j m"
    and "dot_ok w (lins fn ! base_lin_idx (item_base item)) item m k"
  using assms unfolding item_ok_def item_path_def Let_def by auto

lemma advance_ok:
  assumes "item_ok w g gs h old k0" and "base_prod (item_base old) = PGF_PRODUCTION_APPLY fn as"
    and "gs (base_conts (item_base old)) = Some (base_ccat (item_base old), base_lin_idx (item_base old), j)"
    and "sq = lins fn ! base_lin_idx (item_base old)" and "seq_idx old < length sq" and "length sq < 2 ^ 16"
    and "path w g (take (seq_idx old) sq @ [sq ! seq_idx old]) as args' j k"
    and "pgf_item_advance (old\<lparr>item_args := args', tok_idx := 0, alt := al\<rparr>) = Done item"
  shows "item_ok w g gs h item k"
proof -
  have idx: "u16_of (seq_idx old + 1) = Suc (seq_idx old)"
    using assms(5,6) by (simp add: u16_of_def)
  obtain s where s: "pgf_item_base_symbol (item_base old) (Suc (seq_idx old)) = Done s"
    and item: "item = old\<lparr>item_args := args', tok_idx := 0, alt := al, seq_idx := Suc (seq_idx old), curr_sym := s\<rparr>"
    using assms(8) idx by (auto simp: pgf_item_advance_def Let_def run_simps)
  note b = base_symbol_apply [OF assms(2) s]
  have "path w g (take (Suc (seq_idx old)) sq) as args' j k"
    using assms(5,7) by (simp add: take_Suc_snoc)
  then show ?thesis
    using assms(1-4) b s path_le [OF assms(7)] unfolding item
    by (auto simp: item_ok_def item_path_def dot_ok_def Let_def)
qed

lemma combine_item_ok:
  assumes "heap_inv S g gs ps" and "member_ok S g gs (p_store ps) (C, r, j) (Some c)"
    and "g cat = Some (C, r, j, k)" and "j \<le> k"
    and "curr_sym c = Some (PGF_SYMBOL_CAT d r')" and "0 \<le> d" and "nat d < length (item_args c)"
    and "pgf_item_advance (c\<lparr>item_args := (item_args c)[nat d := \<lparr>parg_hypos = [], parg_ccat = cat\<rparr>]\<rparr>) = Done item"
  shows "item_ok (sp_word S) g gs (p_store ps) item k"
proof (cases "base_prod (item_base c)")
  case (PGF_PRODUCTION_APPLY fn as)
  have ok: "item_ok (sp_word S) g gs (p_store ps) c j" and aw: "awaits c C r"
    using assms(2) by (simp_all add: member_ok_def)
  let ?sq = "lins fn ! base_lin_idx (item_base c)"
  obtain j0 m where p: "gs (base_conts (item_base c)) = Some (base_ccat (item_base c), base_lin_idx (item_base c), j0)"
    "base_lin_idx (item_base c) < length (lins fn)"
    "path (sp_word S) g (take (seq_idx c) ?sq) as (item_args c) j0 m" "dot_ok (sp_word S) ?sq c m j"
    using item_pathD [OF ok PGF_PRODUCTION_APPLY] by blast
  have "pgf_item_base_symbol (item_base c) (seq_idx c) = Done (curr_sym c)"
    using ok by (simp add: item_ok_def Let_def)
  note cs = base_symbol_apply [OF PGF_PRODUCTION_APPLY this]
  obtain d1 r1 where a: "seq_idx c < length ?sq" "?sq ! seq_idx c = PGF_SYMBOL_CAT d1 r1" "to_size r1 = r"
    "parg_ccat (item_args c ! nat d1) = C"
    using aw PGF_PRODUCTION_APPLY by (auto simp: awaits_def Let_def)
  then have e: "d1 = d" "r1 = r'"
    using cs(3) assms(5) by auto
  have t: "tok_idx c = 0" "m = j"
    using p(4) a(2) by (auto simp: dot_ok_def split: if_splits)
  have pa: "path (sp_word S) g (take (seq_idx c) ?sq @ [?sq ! seq_idx c]) as
      ((item_args c)[nat d := \<lparr>parg_hypos = [], parg_ccat = cat\<rparr>]) j0 k"
    unfolding a(2) e using p(3) t assms(3,4,6,7) a(3,4) e by (intro path_cat) auto
  have "c\<lparr>item_args := xs, tok_idx := 0, alt := alt c\<rparr> = c\<lparr>item_args := xs\<rparr>" for xs
    using t(1) by (cases c) simp
  then show ?thesis
    using advance_ok [OF ok PGF_PRODUCTION_APPLY p(1) refl a(1) _ pa, of "alt c"] assms(8)
      item_small(1) [OF assms(1) ok PGF_PRODUCTION_APPLY p(2)] by simp
next
  case (PGF_PRODUCTION_COERCE c0)
  have ok: "item_ok (sp_word S) g gs (p_store ps) c j" and aw: "awaits c C r"
    using assms(2) by (simp_all add: member_ok_def)
  have a: "seq_idx c = 0" "C = c0" "r = base_lin_idx (item_base c)"
    using aw PGF_PRODUCTION_COERCE by (auto simp: awaits_def Let_def)
  have "curr_sym c = Some (PGF_SYMBOL_CAT 0 (to_int (base_lin_idx (item_base c))))"
    using ok PGF_PRODUCTION_COERCE a(1) by (auto simp: item_ok_def pgf_item_base_symbol_def Let_def)
  then have d: "d = 0"
    using assms(5) by simp
  have "item = c\<lparr>item_args := [\<lparr>parg_hypos = [], parg_ccat = cat\<rparr>], seq_idx := 1, curr_sym := None\<rparr>"
    using assms(8) ok PGF_PRODUCTION_COERCE a(1) d
    by (auto simp: pgf_item_advance_def pgf_item_base_symbol_def item_ok_def item_path_def Let_def u16_of_def)
  then show ?thesis
    using ok PGF_PRODUCTION_COERCE a assms(3,4)
    by (auto simp: item_ok_def item_path_def pgf_item_base_symbol_def Let_def)
qed

subsection \<open>The operations keep the invariant\<close>

definition rec_ok :: "pspec \<Rightarrow> nat \<Rightarrow> item_step \<Rightarrow> bool" where
  "rec_ok S k rec \<longleftrightarrow>
     (\<forall>g gs st item st'. inv S k g gs st \<longrightarrow> item_ok (sp_word S) g gs (heap st) item k \<longrightarrow>
        rec item st = Done st' \<longrightarrow> keeps S k g gs st st')"

lemma rec_okD:
  "rec_ok S k rec \<Longrightarrow> inv S k g gs st \<Longrightarrow> item_ok (sp_word S) g gs (heap st) item k \<Longrightarrow>
     rec item st = Done st' \<Longrightarrow> keeps S k g gs st st'"
  unfolding rec_ok_def by blast

lemma combine_keeps:
  assumes "rec_ok S k rec" and "inv S k g gs st" and "member_ok S g gs (heap st) (C, r, j) cont"
    and "g cat = Some (C, r, j, k)" and "pgf_parsing_combine rec cont cat st = Done st'"
  shows "keeps S k g gs st st'"
proof (cases cont)
  case None
  with assms completed_keeps [OF assms(2), of cat C] show ?thesis
    by (auto simp: pgf_parsing_combine_def member_ok_def)
next
  case (Some c)
  have hi: "heap_inv S g gs (pg_parser st)"
    using assms(2) by (simp add: inv_def)
  obtain d r' item where c: "curr_sym c = Some (PGF_SYMBOL_CAT d r')" "0 \<le> d" "nat d < length (item_args c)"
    and a: "pgf_item_advance (c\<lparr>item_args := (item_args c)[nat d := \<lparr>parg_hypos = [], parg_ccat = cat\<rparr>]\<rparr>) = Done item"
    and r: "rec item st = Done st'"
    using assms(5) Some by (auto simp: pgf_parsing_combine_def run_simps
        split: option.splits PgfSymbol.splits if_splits)
  have "item_ok (sp_word S) g gs (heap st) item k"
    using combine_item_ok [OF hi assms(3) [unfolded Some] assms(4) _ c a] heap_inv_ghost(4) [OF hi assms(4)]
    by blast
  from rec_okD [OF assms(1,2) this r] show ?thesis .
qed

lemma production_keeps:
  assumes "rec_ok S k rec" and "inv S k g gs st" and "gs conts = Some (cat, r, k)"
    and "prd \<in> set (prods_of (heap st) cat)" and "pgf_parsing_production rec cat r prd conts st = Done st'"
  shows "keeps S k g gs st st'"
proof -
  obtain item where i: "pgf_new_item \<lparr>base_conts = conts, base_ccat = cat, base_prod = prd, base_lin_idx = r\<rparr> = Done item"
    and r: "rec item st = Done st'"
    using assms(5) by (auto simp: pgf_parsing_production_def elim: bindR_DoneE)
  from rec_okD [OF assms(1,2) new_item_ok [where gs = gs and conts = conts, OF i assms(3,4)] r]
  show ?thesis .
qed

lemma completed_prod_from:
  assumes "item_ok w g gs h item k" and "completed_prod item = Done prd" and "curr_sym item = None"
    and "gs (base_conts (item_base item)) = Some (C, r, j)"
  shows "prod_from w g h (C, r, j, k) prd"
proof (cases "base_prod (item_base item)")
  case (PGF_PRODUCTION_APPLY fn as)
  obtain j' m where p: "gs (base_conts (item_base item)) = Some (base_ccat (item_base item), base_lin_idx (item_base item), j')"
    "path w g (take (seq_idx item) (lins fn ! base_lin_idx (item_base item))) as (item_args item) j' m"
    "dot_ok w (lins fn ! base_lin_idx (item_base item)) item m k"
    using item_pathD [OF assms(1) PGF_PRODUCTION_APPLY] by blast
  have "pgf_item_base_symbol (item_base item) (seq_idx item) = Done None"
    using assms(1,3) by (simp add: item_ok_def Let_def)
  note b = base_symbol_apply [OF PGF_PRODUCTION_APPLY this]
  then have "m = k"
    using p(3) by (auto simp: dot_ok_def split: if_splits)
  with p b assms PGF_PRODUCTION_APPLY show ?thesis
    by (auto simp: prod_from_def completed_prod_def item_ok_def Let_def split: if_splits)
next
  case (PGF_PRODUCTION_COERCE c)
  with assms show ?thesis
    by (auto simp: prod_from_def completed_prod_def item_ok_def item_path_def Let_def run_simps
        pgf_item_base_symbol_def)
qed

lemma completed_prod_small:
  assumes "heap_inv S g gs ps" and "item_ok w g gs (p_store ps) item k" and "completed_prod item = Done prd"
  shows "prod_small prd"
proof -
  have "prod_small (base_prod (item_base item))"
    using assms(2) heap_inv_small [OF assms(1)] by (auto simp: item_ok_def Let_def)
  with assms(3) show ?thesis
    by (auto simp: completed_prod_def run_simps split: PgfProduction.splits)
qed

text \<open>All that the parser needs to know of the enumeration of an item set: it delivers members.\<close>

locale item_enumeration =
  fixes en :: item_enum
  assumes en_mem: "en xs i = Done (Some (x, j)) \<Longrightarrow> x \<in> set xs"
begin

lemma combine_conts_keeps:
  assumes "rec_ok S k rec" and "inv S k g gs st" and "gs conts = Some (C, r, j)"
    and "g cat = Some (C, r, j, k)" and "combine_conts en rec n conts cat i st = Done st'"
  shows "keeps S k g gs st st'"
  using assms(2-5)
proof (induction n arbitrary: g gs st i)
  case (Suc n)
  obtain x where x: "en (item_sets (pg_parser st) ! conts) i = Done x"
    using Suc.prems(4) by (auto elim: bindR_DoneE)
  show ?case
  proof (cases x)
    case None
    with Suc.prems x show ?thesis by (simp add: keeps_refl)
  next
    case (Some y)
    then obtain cont j' where y: "en (item_sets (pg_parser st) ! conts) i = Done (Some (cont, j'))"
      using x by (cases y) auto
    then obtain s1 where s1: "pgf_parsing_combine rec cont cat st = Done s1"
      and r: "combine_conts en rec n conts cat j' s1 = Done st'"
      using Suc.prems(4) by (auto elim: bindR_DoneE)
    have "member_ok S g gs (heap st) (C, r, j) cont"
      using inv_member [OF Suc.prems(1,2) en_mem [OF y]] .
    from combine_keeps [OF assms(1) Suc.prems(1) this Suc.prems(3) s1] show ?thesis
    proof (rule keeps_bind)
      fix g1 gs1
      assume "grows g gs (heap st) g1 gs1 (heap s1)" and i1: "inv S k g1 gs1 s1"
      then have "gs1 conts = Some (C, r, j)" "g1 cat = Some (C, r, j, k)"
        using Suc.prems by (auto simp: grows_def intro: map_leD)
      from Suc.IH [OF i1 this r] show "keeps S k g1 gs1 s1 st'" .
    qed
  qed
qed simp

lemma complete_keeps:
  assumes "rec_ok S k rec" and "inv S k g gs st" and "item_ok (sp_word S) g gs (heap st) item k"
    and "curr_sym item = None" and "pgf_parsing_complete en rec n item st = Done st'"
  shows "keeps S k g gs st st'"
proof -
  let ?conts = "base_conts (item_base item)"
  have hi: "heap_inv S g gs (pg_parser st)"
    using assms(2) by (simp add: inv_def)
  obtain C r j where gs: "gs ?conts = Some (C, r, j)" "j \<le> k"
    using assms(3) by (auto simp: item_ok_def Let_def)
  obtain prd where prd: "completed_prod item = Done prd"
    using assms(5) by (auto simp: pgf_parsing_complete_def elim: bindR_DoneE)
  note pf = completed_prod_from [OF assms(3) prd assms(4) gs(1)]
    and sm = completed_prod_small [OF hi assms(3) prd]
  show ?thesis
  proof (cases "generated_cats st ?conts")
    case None
    have "bindR (get_ccat (pg_parser st) (base_ccat (item_base item))) (\<lambda>bc.
        let (cat, st1) = pgf_parsing_create_completed ?conts (ccat_cnccat bc) st in
        bindR (push_prod cat prd st1) (combine_conts en rec n ?conts cat 0)) = Done st'"
      using assms(5) prd None by (simp add: pgf_parsing_complete_def pgf_parsing_get_completed_def Let_def)
    then obtain bc :: PgfCCat where bc: "(let (cat, st1) = pgf_parsing_create_completed ?conts (ccat_cnccat bc) st in
        bindR (push_prod cat prd st1) (combine_conts en rec n ?conts cat 0)) = Done st'"
      by (rule bindR_DoneE)
    obtain cat st1 where c: "pgf_parsing_create_completed ?conts (ccat_cnccat bc) st = (cat, st1)"
      by (cases "pgf_parsing_create_completed ?conts (ccat_cnccat bc) st")
    obtain st2 where p: "push_prod cat prd st1 = Done st2"
      and r: "combine_conts en rec n ?conts cat 0 st2 = Done st'"
      using bc c by (auto elim: bindR_DoneE)
    let ?g = "g(cat \<mapsto> (C, r, j, k))"
    note cr = create_completed_inv [OF c assms(2) gs]
    have gc: "?g cat = Some (C, r, j, k)" by simp
    have "prod_from (sp_word S) ?g (heap st1) (C, r, j, k) prd"
      using pf cr(2) by (auto simp: grows_def intro: prod_from_mono)
    note pp = push_prod_inv [OF p cr(1) gc this sm]
    from combine_conts_keeps [OF assms(1) pp(1) gs(1) gc r]
    show ?thesis
      using keeps_start grows_trans [OF cr(2) pp(2)] by blast
  next
    case (Some cat)
    note gc = inv_generated [OF assms(2) Some gs(1)]
    obtain st1 contss st2 where p: "push_prod cat prd st = Done st1"
      and c: "pgf_parsing_get_contss cat st1 = Done (contss, st2)"
      and f: "foldR (\<lambda>i s. bindR (seq_at (or_empty (conts_map s cat)) i) (\<lambda>conts2.
          case conts2 of None \<Rightarrow> Done s | Some c2 \<Rightarrow> pgf_parsing_production rec cat i prd c2 s))
        [0..<length contss] st2 = Done st'"
      using assms(5) prd Some
      by (auto simp: pgf_parsing_complete_def pgf_parsing_get_completed_def Let_def elim!: bindR_DoneE)
    note pp = push_prod_inv [OF p assms(2) gc pf sm]
    have i2: "inv S k g gs st2" "pg_parser st2 = pg_parser st1"
      using get_contss_inv [OF c pp(1)] by auto
    have "keeps S k g gs st2 st'"
      using f i2(1)
    proof (rule foldR_keeps)
      fix i s1 s2 g1 gs1
      assume gr: "grows g gs (heap st2) g1 gs1 (heap s1)" and inv1: "inv S k g1 gs1 s1"
        and step: "bindR (seq_at (or_empty (conts_map s1 cat)) i) (\<lambda>conts2.
          case conts2 of None \<Rightarrow> Done s1 | Some c2 \<Rightarrow> pgf_parsing_production rec cat i prd c2 s1) = Done s2"
      from step obtain x where x: "i < length (or_empty (conts_map s1 cat))" "or_empty (conts_map s1 cat) ! i = x"
        "(case x of None \<Rightarrow> Done s1 | Some c2 \<Rightarrow> pgf_parsing_production rec cat i prd c2 s1) = Done s2"
        by (auto simp: run_simps)
      show "keeps S k g1 gs1 s1 s2"
      proof (cases x)
        case None
        with x inv1 show ?thesis by (simp add: keeps_refl)
      next
        case (Some c2)
        then have "gs1 c2 = Some (cat, i, k)"
          using x(1,2) inv_conts [OF inv1] by (cases "conts_map s1 cat") (auto simp: or_empty_def)
        moreover have "prd \<in> set (prods_of (heap s1) cat)"
          using pp(3) gr i2(2) by (auto simp: grows_def intro: heap_leD)
        ultimately show ?thesis
          using production_keeps [OF assms(1) inv1] x(3) Some by simp
      qed
    qed
    moreover have "grows g gs (heap st) g gs (heap st2)"
      using pp(2) i2(2) by simp
    ultimately show ?thesis
      by (rule keeps_start [rotated])
  qed
qed

end

lemma predict_keeps:
  assumes "rec_ok S k rec" and "inv S k g gs st" and "member_ok S g gs (heap st) (cat, r, k) item"
    and "pgf_parsing_predict rec item cat r st = Done st'"
  shows "keeps S k g gs st st'"
proof -
  obtain cc where cc: "heap st cat = Some cc"
    using assms(4) by (auto simp: pgf_parsing_predict_def get_ccat_def elim!: bindR_DoneE split: option.splits)
  show ?thesis
  proof (cases "prods_null (prods cc)")
    case True
    with cc assms(2,4) show ?thesis by (simp add: pgf_parsing_predict_def get_ccat_def keeps_refl)
  next
    case False
    let ?loop = "\<lambda>conts i s. bindR (get_ccat (pg_parser s) cat) (\<lambda>cc.
        bindR (seq_at (prods_list (prods cc)) i) (\<lambda>prd. pgf_parsing_production rec cat r prd conts s))"
    obtain conts st1 st2 where c: "pgf_parsing_get_conts cat r st = Done (conts, st1)"
      and l: "(if item \<in> set (item_sets (pg_parser st1) ! conts) then Done st1
          else foldR (?loop conts) [0..<length (prods_list (prods cc))] (set_insert conts item st1)) = Done st2"
      and f: "(case generated_cats st2 conts of None \<Rightarrow> Done st2
          | Some c \<Rightarrow> pgf_parsing_combine rec item c st2) = Done st'"
      using assms(4) cc False
      by (auto simp: pgf_parsing_predict_def pgf_parsing_get_completed_def get_ccat_def elim!: bindR_DoneE)
    obtain gs1 where gs1: "gs \<subseteq>\<^sub>m gs1" "inv S k g gs1 st1" "gs1 conts = Some (cat, r, k)" "heap st1 = heap st"
      using get_conts_keeps [OF c assms(2)] by blast
    have gr1: "grows g gs (heap st) g gs1 (heap st1)"
      using gs1 by (simp add: grows_def)
    have m1: "member_ok S g gs1 (heap st1) (cat, r, k) item"
      using member_ok_mono [OF assms(3) gr1] .
    have k2: "keeps S k g gs1 st1 st2"
    proof (cases "item \<in> set (item_sets (pg_parser st1) ! conts)")
      case True
      with l gs1(2) show ?thesis by (simp add: keeps_refl)
    next
      case False
      note si = set_insert_inv [OF gs1(2,3) m1]
      have fold: "foldR (?loop conts) [0..<length (prods_list (prods cc))] (set_insert conts item st1) = Done st2"
        using l False by simp
      have "keeps S k g gs1 (set_insert conts item st1) st2"
        using fold si(1)
      proof (rule foldR_keeps)
        fix i s1 s2 g1 gs2
        assume gr: "grows g gs1 (heap (set_insert conts item st1)) g1 gs2 (heap s1)"
          and inv1: "inv S k g1 gs2 s1" and step: "?loop conts i s1 = Done s2"
        from step obtain prd where p: "prd \<in> set (prods_of (heap s1) cat)"
          "pgf_parsing_production rec cat r prd conts s1 = Done s2"
          by (auto simp: run_simps get_ccat_def prods_of_def intro: nth_mem split: option.splits)
        have "gs2 conts = Some (cat, r, k)"
          using gr gs1(3) by (auto simp: grows_def intro: map_leD)
        from production_keeps [OF assms(1) inv1 this p] show "keeps S k g1 gs2 s1 s2" .
      qed
      then show ?thesis
        by (rule keeps_start [rotated]) (simp add: si(2))
    qed
    have "keeps S k g gs1 st1 st'"
    proof (rule keeps_bind [OF k2])
      fix g2 gs2
      assume gr: "grows g gs1 (heap st1) g2 gs2 (heap st2)" and inv2: "inv S k g2 gs2 st2"
      show "keeps S k g2 gs2 st2 st'"
      proof (cases "generated_cats st2 conts")
        case None
        with f inv2 show ?thesis by (simp add: keeps_refl)
      next
        case (Some c)
        have "gs2 conts = Some (cat, r, k)"
          using gr gs1(3) by (auto simp: grows_def intro: map_leD)
        from combine_keeps [OF assms(1) inv2 member_ok_mono [OF m1 gr] inv_generated [OF inv2 Some this]]
        show ?thesis using f Some by simp
      qed
    qed
    then show ?thesis
      by (rule keeps_start [OF gr1])
  qed
qed

lemma symbol_keeps:
  assumes "rec_ok S k rec" and "inv S k g gs st" and "item_ok (sp_word S) g gs (heap st) item k"
    and "base_prod (item_base item) = PGF_PRODUCTION_APPLY fn as"
    and "seq_idx item < length (lins fn ! base_lin_idx (item_base item))"
    and "sy = lins fn ! base_lin_idx (item_base item) ! seq_idx item"
    and "pgf_parsing_symbol rec item sy st = Done st'"
  shows "keeps S k g gs st st'"
proof (cases sy)
  case (PGF_SYMBOL_CAT d r)
  then have a: "awaits item (parg_ccat (item_args item ! nat d)) (to_size r)"
    "pgf_parsing_predict rec (Some item) (parg_ccat (item_args item ! nat d)) (to_size r) st = Done st'"
    using assms(4-7) by (auto simp: pgf_parsing_symbol_def awaits_def Let_def run_simps split: if_splits)
  show ?thesis
    by (rule predict_keeps [OF assms(1,2) _ a(2)]) (use a(1) assms(3) in \<open>simp add: member_ok_def\<close>)
next
  case (PGF_SYMBOL_KP dflt alts)
  have add: "keeps S k g1 gs1 s1 (pgf_parsing_add_transition tok item s1)"
    if "grows g gs (heap st) g1 gs1 (heap s1)" "inv S k g1 gs1 s1" for g1 gs1 s1 tok
    using add_transition_keeps [OF that(2) item_ok_mono [OF assms(3) that(1)]] .
  show ?thesis
  proof (cases "tok_idx item = 0")
    case True
    then obtain tok where f: "foldR (\<lambda>i s. if alt_skip dflt alts i then Done s
        else bindR (seq_at (form (alts ! i)) 0) (\<lambda>tok'. Done (pgf_parsing_add_transition tok' item s)))
        [0..<length alts] (pgf_parsing_add_transition tok item st) = Done st'"
      using assms(7) PGF_SYMBOL_KP by (auto simp: pgf_parsing_symbol_def elim!: bindR_DoneE)
    from add [OF grows_refl assms(2)] show ?thesis
    proof (rule keeps_bind)
      fix g1 gs1
      assume gr: "grows g gs (heap st) g1 gs1 (heap (pgf_parsing_add_transition tok item st))"
        and i1: "inv S k g1 gs1 (pgf_parsing_add_transition tok item st)"
      show "keeps S k g1 gs1 (pgf_parsing_add_transition tok item st) st'"
        using f i1
        by (rule foldR_keeps)
          (auto simp: run_simps keeps_refl split: if_splits intro: add grows_trans [OF gr])
    qed
  next
    case False
    with assms(7) PGF_SYMBOL_KP add [OF grows_refl assms(2)] show ?thesis
      by (auto simp: pgf_parsing_symbol_def run_simps split: if_splits)
  qed
next
  case (PGF_SYMBOL_KS toks)
  with assms(7) add_transition_keeps [OF assms(2,3)] show ?thesis
    by (auto simp: pgf_parsing_symbol_def run_simps)
qed (use assms(2,7) in \<open>simp_all add: pgf_parsing_symbol_def keeps_refl\<close>)

context item_enumeration
begin

lemma item_keeps: "rec_ok S k (pgf_parsing_item en n)"
proof (induction n)
  case 0
  then show ?case by (simp add: rec_ok_def)
next
  case (Suc n)
  show ?case
    unfolding rec_ok_def
  proof (intro allI impI)
    fix g gs st item st'
    assume i: "inv S k g gs st" and ok: "item_ok (sp_word S) g gs (heap st) item k"
      and run: "pgf_parsing_item en (Suc n) item st = Done st'"
    let ?st1 = "st\<lparr>seen_items := item # seen_items st\<rparr>" and ?base = "item_base item"
    have i1: "inv S k g gs ?st1" and ok1: "item_ok (sp_word S) g gs (heap ?st1) item k"
      using i ok by simp_all
    have cs: "pgf_item_base_symbol ?base (seq_idx item) = Done (curr_sym item)"
      using ok by (simp add: item_ok_def Let_def)
    have complete: "keeps S k g gs ?st1 st'"
      if "curr_sym item = None" "pgf_parsing_complete en (pgf_parsing_item en n) n item ?st1 = Done st'"
      using complete_keeps [OF Suc.IH i1 ok1 that] .
    have "keeps S k g gs ?st1 st'" if new: "item \<notin> set (seen_items st)"
    proof (cases "base_prod ?base")
      case (PGF_PRODUCTION_APPLY fn as)
      note b = base_symbol_apply [OF PGF_PRODUCTION_APPLY cs]
      show ?thesis
      proof (cases "seq_idx item = length (lins fn ! base_lin_idx ?base)")
        case True
        with b run new PGF_PRODUCTION_APPLY complete show ?thesis by (simp add: Let_def)
      next
        case False
        with b have lt: "seq_idx item < length (lins fn ! base_lin_idx ?base)" by simp
        show ?thesis
          by (rule symbol_keeps [OF Suc.IH i1 ok1 PGF_PRODUCTION_APPLY lt refl])
            (use b run new PGF_PRODUCTION_APPLY False lt in \<open>simp add: Let_def\<close>)
      qed
    next
      case (PGF_PRODUCTION_COERCE c)
      have "pgf_parsing_predict (pgf_parsing_item en n) (Some item) c (base_lin_idx ?base) ?st1 = Done st'"
        if "seq_idx item = 0"
        using that run new PGF_PRODUCTION_COERCE by (simp add: Let_def)
      moreover have "pgf_parsing_complete en (pgf_parsing_item en n) n item ?st1 = Done st'" "curr_sym item = None"
        if "seq_idx item \<noteq> 0"
        using that run new PGF_PRODUCTION_COERCE cs
        by (auto simp: Let_def run_simps pgf_item_base_symbol_def split: if_splits)
      moreover have "member_ok S g gs (heap ?st1) (c, base_lin_idx ?base, k) (Some item)" if "seq_idx item = 0"
        using that ok1 PGF_PRODUCTION_COERCE by (simp add: member_ok_def awaits_def Let_def)
      ultimately show ?thesis
        using predict_keeps [OF Suc.IH i1] complete by blast
    qed
    then have "keeps S k g gs st st'" if "item \<notin> set (seen_items st)"
      using that by (simp add: keeps_def)
    moreover have "keeps S k g gs st st'" if "item \<in> set (seen_items st)"
      using that run keeps_refl [OF i] by simp
    ultimately show "keeps S k g gs st st'" by blast
  qed
qed

end

subsection \<open>Scanning\<close>

lemma scan_toks_keeps:
  assumes "rec_ok S (Suc k) rec" and "inv S (Suc k) g gs st" and "item_ok (sp_word S) g gs (heap st) old k"
    and "base_prod (item_base old) = PGF_PRODUCTION_APPLY fn as"
    and "sq = lins fn ! base_lin_idx (item_base old)" and "seq_idx old < length sq"
    and "sel_form (sq ! seq_idx old) al = Some toks"
    and "tok_idx old \<noteq> 0 \<Longrightarrow> sel_form (sq ! seq_idx old) (alt old) = Some toks"
    and "k < length (sp_word S)" and "tok = sp_word S ! k"
    and "pgf_parsing_scan_toks rec old tok al toks st = Done (b, st')"
  shows "keeps S (Suc k) g gs st st'"
proof -
  let ?w = "sp_word S"
  define al8 where "al8 = u8_of al"
  have hi: "heap_inv S g gs (pg_parser st)"
    using assms(2) by (simp add: inv_def)
  obtain j m where p: "gs (base_conts (item_base old)) = Some (base_ccat (item_base old), base_lin_idx (item_base old), j)"
    "base_lin_idx (item_base old) < length (lins fn)" "j \<le> k"
    "path ?w g (take (seq_idx old) sq) as (item_args old) j m" "dot_ok ?w sq old m k"
    using item_pathD [OF assms(3,4)] unfolding assms(5) by blast
  note small = item_small [OF hi assms(3,4) p(2), folded assms(5)]
  have "sym_small (sq ! seq_idx old)"
    using small(2) assms(6) by (simp add: list_all_length)
  then have al: "al < 2 ^ 8 \<or> sel_form (sq ! seq_idx old) (al mod 2 ^ 8) = Some toks" and lt: "length toks < 2 ^ 8"
    using assms(7) by (cases "(sq ! seq_idx old, al)" rule: sel_form.cases; force split: if_splits simp: list_all_length)+
  have al': "sel_form (sq ! seq_idx old) (al8) = Some toks"
    using al assms(7) by (auto simp: al8_def u8_of_def)
  have ti: "tok_idx old < length toks" if "toks ! tok_idx old = tok" "b"
    using assms(11) by (auto simp: pgf_parsing_scan_toks_def run_simps)
  show ?thesis
  proof (cases "toks ! tok_idx old = tok")
    case False
    with assms(2,11) show ?thesis
      by (auto simp: pgf_parsing_scan_toks_def run_simps keeps_refl)
  next
    case True
    have ti: "tok_idx old < length toks"
      using assms(11) by (auto simp: pgf_parsing_scan_toks_def run_simps)
    then have inc: "u8_of (tok_idx old + 1) = Suc (tok_idx old)"
      using lt by (simp add: u8_of_def)
    have m: "m \<le> k" "slice ?w m k = take (tok_idx old) toks"
      using p(5) assms(8) by (auto simp: dot_ok_def split: if_splits)
    have sl: "slice ?w m (Suc k) = take (Suc (tok_idx old)) toks"
      using slice_Suc [OF m(1) assms(9)] m(2) True assms(10) ti by (simp add: take_Suc_snoc)
    let ?new = "old\<lparr>tok_idx := Suc (tok_idx old), alt := al8\<rparr>"
    obtain item where r: "rec item st = Done st'"
      and item: "(if Suc (tok_idx old) = length toks then pgf_item_advance (?new\<lparr>tok_idx := 0\<rparr>) else Done ?new) =
        Done item"
      using assms(11) True unfolding pgf_parsing_scan_toks_def inc Let_def al8_def [symmetric]
      by (auto simp: run_simps)
    have new: "?new\<lparr>tok_idx := 0\<rparr> = old\<lparr>item_args := item_args old, tok_idx := 0, alt := al8\<rparr>"
      by (cases old) simp
    have "item_ok ?w g gs (heap st) item (Suc k)"
    proof (cases "Suc (tok_idx old) = length toks")
      case True
      have pa: "path ?w g (take (seq_idx old) sq @ [sq ! seq_idx old]) as (item_args old) j (Suc k)"
        using path_tok [OF p(4), of "Suc k"] sl True m(1) sel_form_in [OF assms(7)] by simp
      have "pgf_item_advance (?new\<lparr>tok_idx := 0\<rparr>) = Done item"
        using item True by simp
      from advance_ok [OF assms(3,4) p(1) assms(5,6) small(1) pa this [unfolded new]]
      show ?thesis .
    next
      case False
      then have i: "item = old\<lparr>tok_idx := Suc (tok_idx old), alt := al8\<rparr>"
        using item by simp
      have "dot_ok ?w sq item m (Suc k)"
        using assms(6) al' ti False m(1) sl by (auto simp: dot_ok_def i)
      then show ?thesis
        using assms(3,4,5) p by (auto simp: item_ok_def item_path_def Let_def i)
    qed
    from rec_okD [OF assms(1,2) this r] show ?thesis .
  qed
qed

lemma scan_keeps:
  assumes "rec_ok S (Suc k) rec" and "inv S (Suc k) g gs st" and "item_ok (sp_word S) g gs (heap st) item k"
    and "k < length (sp_word S)" and "tok = sp_word S ! k"
    and "pgf_parsing_scan rec tok item st = Done st'"
  shows "keeps S (Suc k) g gs st st'"
proof -
  have cs: "pgf_item_base_symbol (item_base item) (seq_idx item) = Done (curr_sym item)"
    using assms(3) by (simp add: item_ok_def Let_def)
  obtain sy where sy: "curr_sym item = Some sy" "(\<exists>toks. sy = PGF_SYMBOL_KS toks) \<or> (\<exists>dflt alts. sy = PGF_SYMBOL_KP dflt alts)"
    using assms(6) by (auto simp: pgf_parsing_scan_def run_simps split: option.splits PgfSymbol.splits)
  then obtain fn as where a: "base_prod (item_base item) = PGF_PRODUCTION_APPLY fn as"
    using cs by (cases "base_prod (item_base item)") (auto simp: pgf_item_base_symbol_def run_simps split: if_splits)
  let ?sq = "lins fn ! base_lin_idx (item_base item)"
  note b = base_symbol_apply [OF a cs]
  have lt: "seq_idx item < length ?sq" and at: "?sq ! seq_idx item = sy"
    using b sy(1) by (auto split: if_splits)
  have dot: "\<exists>f. sel_form sy (alt item) = Some f" if "tok_idx item \<noteq> 0"
    using item_pathD [OF assms(3) a] at that by (metis dot_ok_def)
  have toks: "keeps S (Suc k) g1 gs1 s1 s2"
    if "pgf_parsing_scan_toks rec item tok al toks s1 = Done (b, s2)" "sel_form sy al = Some toks"
      "tok_idx item \<noteq> 0 \<Longrightarrow> sel_form sy (alt item) = Some toks"
      "grows g gs (heap st) g1 gs1 (heap s1)" "inv S (Suc k) g1 gs1 s1" for al toks s1 s2 b g1 gs1
    by (rule scan_toks_keeps [OF assms(1) that(5) item_ok_mono [OF assms(3) that(4)] a refl lt _ _ assms(4,5) that(1)])
      (use that(2,3) at in simp_all)
  show ?thesis
  proof (cases sy)
    case (PGF_SYMBOL_KS ts)
    with assms(6) sy(1) toks [OF _ _ _ grows_refl assms(2), of 0 ts] show ?thesis
      by (auto simp: pgf_parsing_scan_def run_simps)
  next
    case (PGF_SYMBOL_KP dflt alts)
    show ?thesis
    proof (cases "tok_idx item = 0")
      case False
      with dot PGF_SYMBOL_KP have "alt item \<le> length alts"
        by (cases "alt item") (auto split: if_splits)
      then have "sel_form sy (alt item) = Some (if alt item = 0 then dflt else form (alts ! (alt item - 1)))"
        using PGF_SYMBOL_KP by (cases "alt item") auto
      with False assms(6) sy(1) PGF_SYMBOL_KP toks [OF _ _ _ grows_refl assms(2), of "alt item"] show ?thesis
        by (auto simp: pgf_parsing_scan_def run_simps split: if_splits)
    next
      case True
      let ?body = "\<lambda>i (succ, s). if alt_skip dflt alts i then Done (succ, s)
          else bindR (pgf_parsing_scan_toks rec item tok (i + 1) (form (alts ! i)) s) (\<lambda>(b, s'). Done (succ \<or> b, s'))"
      obtain b0 s0 b1 where 0: "pgf_parsing_scan_toks rec item tok 0 dflt st = Done (b0, s0)"
        and f: "foldR ?body [0..<length alts] (b0, s0) = Done (b1, st')"
        using assms(6) sy(1) PGF_SYMBOL_KP True by (auto simp: pgf_parsing_scan_def run_simps)
      have k0: "keeps S (Suc k) g gs st s0"
        using toks [OF 0 _ _ grows_refl assms(2)] PGF_SYMBOL_KP True by simp
      have "keeps S (Suc k) g gs st (snd (b1, st'))"
        using f
      proof (rule foldR_invariant [where P = "\<lambda>x. keeps S (Suc k) g gs st (snd x)"])
        show "keeps S (Suc k) g gs st (snd (b0, s0))" using k0 by simp
      next
        fix i x x'
        assume i: "i \<in> set [0..<length alts]" and k1: "keeps S (Suc k) g gs st (snd x)" and st: "?body i x = Done x'"
        obtain b s where x: "x = (b, s)" by (cases x)
        show "keeps S (Suc k) g gs st (snd x')"
        proof (cases "alt_skip dflt alts i")
          case True
          with st x k1 show ?thesis by auto
        next
          case False
          then obtain b' where r: "pgf_parsing_scan_toks rec item tok (i + 1) (form (alts ! i)) (snd x) = Done (b', snd x')"
            using st x by (auto simp: run_simps)
          have "sel_form sy (i + 1) = Some (form (alts ! i))"
            using PGF_SYMBOL_KP i by simp
          from keeps_bind [OF k1 toks [OF r this]] \<open>tok_idx item = 0\<close> show ?thesis by simp
        qed
      qed
      then show ?thesis by simp
    qed
  qed (use sy(2) in simp_all)
qed

context item_enumeration
begin

lemma scan_agenda_keeps:
  assumes "rec_ok S (Suc k) rec" and "inv S (Suc k) g gs st"
    and "\<And>item. item \<in> set agenda \<Longrightarrow> item_ok (sp_word S) g gs (heap st) item k"
    and "k < length (sp_word S)" and "scan_agenda en rec n agenda (sp_word S ! k) i st = Done st'"
  shows "keeps S (Suc k) g gs st st'"
  using assms(2,3,5)
proof (induction n arbitrary: g gs st i)
  case (Suc n)
  obtain e where e: "en (map Some agenda) i = Done e"
    using Suc.prems(3) by (auto elim: bindR_DoneE)
  show ?case
  proof (cases e)
    case None
    with Suc.prems e show ?thesis by (simp add: keeps_refl)
  next
    case (Some y)
    obtain x j where y: "y = (x, j)" by (cases y)
    obtain item where x: "x = Some item" and mem: "item \<in> set agenda"
      using en_mem [of "map Some agenda" i x j] e Some y by auto
    obtain s1 where s1: "pgf_parsing_scan rec (sp_word S ! k) item st = Done s1"
      and r: "scan_agenda en rec n agenda (sp_word S ! k) j s1 = Done st'"
      using Suc.prems(3) e Some y x by (auto elim: bindR_DoneE)
    from scan_keeps [OF assms(1) Suc.prems(1,2) assms(4) refl s1] mem
    have "keeps S (Suc k) g gs st s1" by simp
    then show ?thesis
    proof (rule keeps_bind)
      fix g1 gs1
      assume gr: "grows g gs (heap st) g1 gs1 (heap s1)" and i1: "inv S (Suc k) g1 gs1 s1"
      show "keeps S (Suc k) g1 gs1 s1 st'"
        using Suc.IH [OF i1 _ r] item_ok_mono [OF Suc.prems(2) gr] by blast
    qed
  qed
qed simp

lemma parse_token_inv:
  assumes "heap_inv S g gs ps" and "parse_inv S k g gs ps parse" and "k < length (sp_word S)"
    and "pgf_parse_token en n ps parse (sp_word S ! k) = Done (ps', Some parse')"
  shows "\<exists>g' gs'. heap_inv S g' gs' ps' \<and> parse_inv S (Suc k) g' gs' ps' parse'"
proof -
  let ?st = "pgf_new_parsing ps pgf_new_parse"
  obtain agenda st where a: "transitions parse (sp_word S ! k) = Some agenda"
    and r: "scan_agenda en (pgf_parsing_item en n) n agenda (sp_word S ! k) 0 ?st = Done st"
    and e: "ps' = pg_parser st" "parse' = pg_parse st"
    using assms(4) by (auto simp: pgf_parse_token_def run_simps split: option.splits)
  have i: "inv S (Suc k) g gs ?st"
    using assms(1) by (simp add: inv_def parse_inv_def pgf_new_parsing_def pgf_new_parse_def)
  have "item_ok (sp_word S) g gs (heap ?st) item k" if "item \<in> set agenda" for item
    using assms(2) a that by (simp add: parse_inv_def pgf_new_parsing_def)
  from scan_agenda_keeps [OF item_keeps i this assms(3) r] show ?thesis
    unfolding keeps_def e inv_def by blast
qed

lemma parse_tokens_inv:
  assumes "heap_inv S g gs ps" and "parse_inv S k g gs ps parse" and "k \<le> length (sp_word S)"
    and "parse_tokens en n ps parse (drop k (sp_word S)) = Done (ps', Some parse')"
  shows "\<exists>g' gs'. heap_inv S g' gs' ps' \<and> parse_inv S (length (sp_word S)) g' gs' ps' parse'"
  using assms
proof (induction "length (sp_word S) - k" arbitrary: g gs ps parse k)
  case 0
  then show ?case by auto
next
  case (Suc x)
  then have k: "k < length (sp_word S)" by simp
  have "drop k (sp_word S) = (sp_word S ! k) # drop (Suc k) (sp_word S)"
    using k by (simp add: Cons_nth_drop_Suc)
  with Suc.prems(4) obtain ps1 parse1 where
    t: "pgf_parse_token en n ps parse (sp_word S ! k) = Done (ps1, Some parse1)"
    and r: "parse_tokens en n ps1 parse1 (drop (Suc k) (sp_word S)) = Done (ps', Some parse')"
    by (auto simp: run_simps split: option.splits)
  obtain g1 gs1 where "heap_inv S g1 gs1 ps1" "parse_inv S (Suc k) g1 gs1 ps1 parse1"
    using parse_token_inv [OF Suc.prems(1,2) k t] by blast
  then show ?case
    using Suc.hyps(1) [of "Suc k"] Suc.hyps(2) k r by fastforce
qed

lemma parser_parse_inv:
  assumes "heap_inv S g gs ps" and "map_of (cnccats (parser_concr ps)) cat = Some cnccat"
    and "sp_starts S = {c. Some c \<in> set (cats cnccat)}" and "sp_lin S = nat lin_idx"
    and "pgf_parser_parse en n ps same cat lin_idx = Done (ps', parse)"
  shows "\<exists>g' gs'. heap_inv S g' gs' ps' \<and> parse_inv S 0 g' gs' ps' parse"
proof -
  let ?st = "pgf_new_parsing ps pgf_new_parse" and ?item = "pgf_parsing_item en n"
  obtain st where f: "foldR (\<lambda>ccat s. case ccat of None \<Rightarrow> Done s
        | Some c \<Rightarrow> pgf_parsing_predict ?item None c (nat lin_idx) s) (cats cnccat) ?st = Done st"
    and e: "ps' = pg_parser st" "parse = pg_parse st"
    using assms(2,5) by (auto simp: pgf_parser_parse_def run_simps)
  have i: "inv S 0 g gs ?st"
    using assms(1) by (simp add: inv_def parse_inv_def pgf_new_parsing_def pgf_new_parse_def)
  have "keeps S 0 g gs ?st st"
    using f i
  proof (rule foldR_keeps)
    fix x s1 s2 g1 gs1
    assume x: "x \<in> set (cats cnccat)" and i1: "inv S 0 g1 gs1 s1"
      and st: "(case x of None \<Rightarrow> Done s1
        | Some c \<Rightarrow> pgf_parsing_predict ?item None c (nat lin_idx) s1) = Done s2"
    show "keeps S 0 g1 gs1 s1 s2"
    proof (cases x)
      case None
      with st i1 show ?thesis by (simp add: keeps_refl)
    next
      case (Some c)
      then have "member_ok S g1 gs1 (heap s1) (c, nat lin_idx, 0) None"
        using x assms(3,4) by (simp add: member_ok_def)
      from predict_keeps [OF item_keeps i1 this] st Some show ?thesis by simp
    qed
  qed
  then show ?thesis
    unfolding keeps_def e inv_def by blast
qed

lemma new_parser_inv:
  assumes "store_ok first (store cnc)" and "sp_first S = first" and "sp_store S = store cnc"
  shows "heap_inv S Map.empty Map.empty (pgf_new_parser first cnc)"
proof -
  have "\<forall>prd \<in> set (prods_of (store cnc) c). prod_small prd" for c
    using assms(1) by (cases "c < first") (auto simp: store_ok_def prods_of_def)
  with assms show ?thesis
    by (auto simp: heap_inv_def pgf_new_parser_def store_ok_def)
qed

text \<open>Every tree of a category in the result of a parse is a tree of the grammar for one of the start
  categories and yields the input.\<close>

lemma parse_sound:
  assumes "store_ok first (store cnc)" and "map_of (cnccats cnc) cat = Some cnccat"
    and "\<And>c. Some c \<in> set (cats cnccat) \<Longrightarrow> c < first"
    and "pgf_parser_parse en n (pgf_new_parser first cnc) same cat lin_idx = Done (ps0, parse0)"
    and "parse_tokens en n ps0 parse0 toks = Done (ps, Some parse)"
    and "c \<in> set (completed parse)" and "derives (p_store ps) c t"
  shows "\<exists>p. Some p \<in> set (cats cnccat) \<and> derives (store cnc) p t \<and> tree_yields t lin_idx toks"
proof -
  define S where "S = \<lparr>sp_word = toks, sp_store = store cnc, sp_first = first,
     sp_starts = {c. Some c \<in> set (cats cnccat)}, sp_lin = nat lin_idx\<rparr>"
  have S: "sp_word S = toks" "sp_store S = store cnc" "sp_first S = first"
    "sp_starts S = {c. Some c \<in> set (cats cnccat)}" "sp_lin S = nat lin_idx"
    by (simp_all add: S_def)
  have pc: "map_of (cnccats (parser_concr (pgf_new_parser first cnc))) cat = Some cnccat"
    using assms(2) by (simp add: pgf_new_parser_def)
  have lin: "0 \<le> lin_idx"
    using assms(4) pc by (auto simp: pgf_parser_parse_def run_simps)
  obtain g0 gs0 where 0: "heap_inv S g0 gs0 ps0" "parse_inv S 0 g0 gs0 ps0 parse0"
    using parser_parse_inv [OF new_parser_inv [OF assms(1) S(3,2)] pc S(4,5) assms(4)] by blast
  obtain g gs where 1: "heap_inv S g gs ps" "parse_inv S (length toks) g gs ps parse"
    using parse_tokens_inv [OF 0, of n ps parse] assms(5) S(1) by auto
  obtain p where p: "Some p \<in> set (cats cnccat)" "g c = Some (p, nat lin_idx, 0, length toks)"
    using 1(2) assms(6) S by (auto simp: parse_inv_def)
  have "sat S g c t"
    using derives_sat [OF assms(7) 1(1)] assms(1) S by simp
  then have "sat S g p t" "tree_yields t (int (nat lin_idx)) (slice toks 0 (length toks))"
    using p(2) S(1) by (auto simp: sat_iff [of S g c])
  moreover have "p < sp_first S"
    using assms(3) p(1) S(3) by simp
  ultimately show ?thesis
    using sat_below [OF 1(1)] S p(1) lin by (auto simp: slice_all)
qed

end

end
