(* ===== verification/ParseResult.thy ===== *)
theory ParseResult
  imports ParserSound
begin

text \<open>
  The second half of \<open>pgf/parser.c\<close>: enumerating the abstract trees of a finished parse.
  \<open>pgf_cat_to_expr\<close> walks the productions of a completed category, asking a choice object
  (theory \<open>Choice\<close>) which production to take; \<open>seen_cats\<close> cuts cycles. An argument that the parser did
  not touch has a category of the grammar, whose productions are not a buffer, and becomes a
  metavariable.
\<close>

subsection \<open>Operations\<close>

type_synonym to_expr_step =
  "ccat_id \<Rightarrow> GuChoice \<Rightarrow> ccat_id list \<Rightarrow> (PgfExpr option \<times> GuChoice \<times> ccat_id list) run"

text \<open>The loop over the arguments of an application.\<close>

fun args_to_expr ::
  "to_expr_step \<Rightarrow> PgfExpr \<Rightarrow> PgfPArg list \<Rightarrow> GuChoice \<Rightarrow> ccat_id list \<Rightarrow>
     (PgfExpr option \<times> GuChoice \<times> ccat_id list) run" where
  "args_to_expr rec expr [] ch seen = Done (Some expr, ch, seen)"
| "args_to_expr rec expr (a # as) ch seen =
     gu_assert (parg_hypos a = [])
      (bindR (rec (parg_ccat a) ch seen) (\<lambda>(earg, ch1, seen1).
         case earg of
           None \<Rightarrow> Done (None, ch1, seen1)
         | Some e \<Rightarrow> args_to_expr rec (PGF_EXPR_APP expr e) as ch1 seen1))"

fun pgf_production_to_expr ::
  "to_expr_step \<Rightarrow> PgfProduction \<Rightarrow> GuChoice \<Rightarrow> ccat_id list \<Rightarrow>
     (PgfExpr option \<times> GuChoice \<times> ccat_id list) run" where
  "pgf_production_to_expr rec (PGF_PRODUCTION_APPLY fn args) ch seen =
     args_to_expr rec (PGF_EXPR_FUN (cncfun_fun fn)) args ch seen"
| "pgf_production_to_expr rec (PGF_PRODUCTION_COERCE c) ch seen = rec c ch seen"

text \<open>The fuel bounds the depth of the recursion; the number of categories in the store is enough
  (\<open>to_expr_terminates\<close> below).\<close>

fun pgf_cat_to_expr :: "nat \<Rightarrow> ccats \<Rightarrow> to_expr_step" where
  "pgf_cat_to_expr 0 st cat ch seen = Out_Of_Fuel"
| "pgf_cat_to_expr (Suc n) st cat ch seen =
     (if cat \<in> set seen then Done (None, ch, seen)
      else
        case st cat of
          None \<Rightarrow> Fault Null_Deref
        | Some cc \<Rightarrow>
            (let seen1 = cat # seen in
             if \<not> prods_is_buf (prods cc) then Done (Some (PGF_EXPR_META 0), ch, seen1)
             else
               let ps = prods_list (prods cc) in
               bindR (gu_choice_next ch (int (length ps))) (\<lambda>(i, ch1).
                 if i = - 1 then Done (None, ch1, seen1)
                 else bindR (seq_at ps (nat i)) (\<lambda>prd.
                   pgf_production_to_expr (pgf_cat_to_expr n st) prd ch1 seen1))))"

record PgfParseResult =
  pr_completed :: "ccat_id list"
  pr_choice :: "GuChoice option"

text \<open>\<open>if (!gu_choice_advance(pr->choice)) pr->choice = NULL;\<close>, given the outcome of the call.\<close>

definition set_choice :: "PgfParseResult \<Rightarrow> bool \<Rightarrow> GuChoice \<Rightarrow> PgfParseResult" where
  "set_choice pr b ch = pr\<lparr>pr_choice := (if b then Some ch else None)\<rparr>"

lemma set_choice_completed [simp]: "pr_completed (set_choice pr b ch) = pr_completed pr"
  by (simp add: set_choice_def)

text \<open>The \<open>while\<close> loop of \<open>pgf_parse_result_next\<close>; \<open>m\<close> is fuel for the iterations and \<open>n\<close> for the
  recursion of \<open>pgf_cat_to_expr\<close>.\<close>

fun parse_result_loop ::
  "nat \<Rightarrow> nat \<Rightarrow> ccats \<Rightarrow> PgfParseResult \<Rightarrow> (PgfExpr option \<times> PgfParseResult) run" where
  "parse_result_loop 0 n st pr = Out_Of_Fuel"
| "parse_result_loop (Suc m) n st pr =
     (case pr_choice pr of
        None \<Rightarrow> Fault Null_Deref
      | Some ch \<Rightarrow>
          bindR (gu_choice_mark ch) (\<lambda>mark.
          bindR (gu_choice_next ch (int (length (pr_completed pr)))) (\<lambda>(i, ch1).
            if i = - 1 then Done (None, pr\<lparr>pr_choice := Some ch1\<rparr>)
            else
              bindR (seq_at (pr_completed pr) (nat i)) (\<lambda>cat.
              bindR (pgf_cat_to_expr n st cat ch1 []) (\<lambda>(ret, ch2, _).
              bindR (gu_choice_reset ch2 mark) (\<lambda>ch3.
              bindR (gu_choice_advance ch3) (\<lambda>(b, ch4).
                case ret of
                  Some e \<Rightarrow> Done (Some e, set_choice pr b ch4)
                | None \<Rightarrow> parse_result_loop m n st (set_choice pr b ch4))))))))"

definition pgf_parse_result_next ::
  "nat \<Rightarrow> nat \<Rightarrow> ccats \<Rightarrow> PgfParseResult \<Rightarrow> (PgfExpr option \<times> PgfParseResult) run" where
  "pgf_parse_result_next m n st pr =
     (case pr_choice pr of
        None \<Rightarrow> Done (None, pr)
      | Some ch \<Rightarrow> parse_result_loop m n st pr)"

definition pgf_parse_result :: "PgfParse \<Rightarrow> PgfParseResult" where
  "pgf_parse_result parse = \<lparr>pr_completed = completed parse, pr_choice = Some gu_new_choice\<rparr>"

subsection \<open>The abstract trees of a category\<close>

inductive cat_expr :: "ccats \<Rightarrow> ccat_id \<Rightarrow> PgfExpr \<Rightarrow> bool" for st where
  ce_meta: "st c = Some cc \<Longrightarrow> \<not> prods_is_buf (prods cc) \<Longrightarrow> cat_expr st c (PGF_EXPR_META 0)"
| ce_app: "PGF_PRODUCTION_APPLY fn args \<in> set (prods_of st c) \<Longrightarrow>
     list_all2 (\<lambda>a e. cat_expr st (parg_ccat a) e) args es \<Longrightarrow>
     cat_expr st c (apply_args (cncfun_fun fn) es)"
| ce_coerce: "PGF_PRODUCTION_COERCE d \<in> set (prods_of st c) \<Longrightarrow> cat_expr st d e \<Longrightarrow> cat_expr st c e"

fun has_meta :: "PgfExpr \<Rightarrow> bool" where
  "has_meta (PGF_EXPR_APP f a) \<longleftrightarrow> has_meta f \<or> has_meta a"
| "has_meta (PGF_EXPR_META i) \<longleftrightarrow> True"
| "has_meta _ \<longleftrightarrow> False"

fun tree_expr :: "PgfCncTree \<Rightarrow> PgfExpr" where
  "tree_expr (PGF_CNC_TREE_APP fn ts) = apply_args (cncfun_fun fn) (map tree_expr ts)"
| "tree_expr (PGF_CNC_TREE_LIT l) = PGF_EXPR_LIT l"

lemma foldl_app_meta: "has_meta (foldl PGF_EXPR_APP e es) \<longleftrightarrow> has_meta e \<or> list_ex has_meta es"
  by (induction es arbitrary: e) auto

lemma apply_args_meta: "has_meta (apply_args f es) \<longleftrightarrow> list_ex has_meta es"
  by (simp add: apply_args_def foldl_app_meta)

lemma args_to_expr_sound:
  assumes "args_to_expr rec expr args ch seen = Done (Some e, ch', seen')"
    and "\<And>c ch seen e ch' seen'. rec c ch seen = Done (Some e, ch', seen') \<Longrightarrow> cat_expr st c e"
  shows "\<exists>es. e = foldl PGF_EXPR_APP expr es \<and> list_all2 (\<lambda>a e. cat_expr st (parg_ccat a) e) args es"
  using assms(1)
proof (induction args arbitrary: expr ch seen)
  case (Cons a args)
  then obtain e1 ch1 seen1 where 1: "rec (parg_ccat a) ch seen = Done (Some e1, ch1, seen1)"
    "args_to_expr rec (PGF_EXPR_APP expr e1) args ch1 seen1 = Done (Some e, ch', seen')"
    by (auto simp: run_simps split: option.splits)
  obtain es where "e = foldl PGF_EXPR_APP (PGF_EXPR_APP expr e1) es"
    "list_all2 (\<lambda>a e. cat_expr st (parg_ccat a) e) args es"
    using Cons.IH [OF 1(2)] by blast
  with assms(2) [OF 1(1)] show ?case
    by (intro exI [of _ "e1 # es"]) simp
qed simp

lemma cat_to_expr_sound:
  "pgf_cat_to_expr n st c ch seen = Done (Some e, ch', seen') \<Longrightarrow> cat_expr st c e"
proof (induction n arbitrary: c ch seen e ch' seen')
  case (Suc n)
  then obtain cc where cc: "st c = Some cc" "c \<notin> set seen"
    by (auto split: option.splits if_splits)
  show ?case
  proof (cases "prods_is_buf (prods cc)")
    case False
    with Suc.prems cc show ?thesis by (auto intro: ce_meta)
  next
    case True
    then obtain i ch1 prd where p: "prd \<in> set (prods_of st c)"
      "pgf_production_to_expr (pgf_cat_to_expr n st) prd ch1 (c # seen) = Done (Some e, ch', seen')"
      using Suc.prems cc
      by (auto simp: Let_def run_simps prods_of_def split: if_splits intro: nth_mem)
    show ?thesis
    proof (cases prd)
      case (PGF_PRODUCTION_APPLY fn args)
      with p args_to_expr_sound [of "pgf_cat_to_expr n st" _ args _ _ e ch' seen' st] Suc.IH
      show ?thesis by (fastforce simp flip: apply_args_def intro: ce_app)
    next
      case (PGF_PRODUCTION_COERCE d)
      with p Suc.IH show ?thesis by (auto intro: ce_coerce)
    qed
  qed
qed simp

lemma parse_result_loop_sound:
  "parse_result_loop m n st pr = Done (Some e, pr') \<Longrightarrow>
     \<exists>c \<in> set (pr_completed pr). cat_expr st c e"
proof (induction m arbitrary: pr)
  case (Suc m)
  then obtain i ch1 ch2 seen b ch4 ret where
    c: "nat i < length (pr_completed pr)"
    and r: "pgf_cat_to_expr n st (pr_completed pr ! nat i) ch1 [] = Done (ret, ch2, seen)"
    and l: "(case ret of Some e' \<Rightarrow> Done (Some e', set_choice pr b ch4)
       | None \<Rightarrow> parse_result_loop m n st (set_choice pr b ch4)) = Done (Some e, pr')"
    by (cases "pr_choice pr") (auto simp: Let_def run_simps split: if_splits)
  show ?case
  proof (cases ret)
    case None
    with l Suc.IH [of "set_choice pr b ch4"] show ?thesis by simp
  next
    case (Some e')
    with l r cat_to_expr_sound have "cat_expr st (pr_completed pr ! nat i) e" by auto
    with c nth_mem show ?thesis by blast
  qed
qed simp

lemma cat_expr_tree:
  "cat_expr st c e \<Longrightarrow> \<not> has_meta e \<Longrightarrow> \<exists>t. derives st c t \<and> tree_expr t = e"
proof (induction rule: cat_expr.induct)
  case (ce_app fn args c es)
  have n: "\<not> has_meta x" if "x \<in> set es" for x
    using ce_app.prems that by (auto simp: apply_args_meta list_ex_iff)
  have "\<forall>i < length args. \<exists>t. derives st (parg_ccat (args ! i)) t \<and> tree_expr t = es ! i"
    using ce_app.IH n by (auto simp: list_all2_conv_all_nth)
  then obtain f where f: "\<And>i. i < length args \<Longrightarrow>
      derives st (parg_ccat (args ! i)) (f i) \<and> tree_expr (f i) = es ! i"
    by metis
  have len: "length es = length args"
    using ce_app.IH by (simp add: list_all2_lengthD)
  let ?ts = "map f [0..<length args]"
  have "list_all2 (\<lambda>a t. derives st (parg_ccat a) t) args ?ts"
    using f by (simp add: list_all2_conv_all_nth)
  moreover have "map tree_expr ?ts = es"
    using f len by (intro nth_equalityI) auto
  ultimately show ?case
    using derives_app [OF ce_app.hyps(1)] by (intro exI [of _ "PGF_CNC_TREE_APP fn ?ts"]) simp
next
  case (ce_coerce d c e)
  then show ?case by (blast intro: derives_coerce)
qed simp

subsection \<open>Termination of the walk\<close>

lemma args_to_expr_seen:
  assumes "args_to_expr rec expr args ch seen = Done (r, ch', seen')"
    and "\<And>c ch seen r ch' seen'. rec c ch seen = Done (r, ch', seen') \<Longrightarrow> set seen \<subseteq> set seen'"
  shows "set seen \<subseteq> set seen'"
  using assms(1)
proof (induction args arbitrary: expr ch seen)
  case (Cons a args)
  then obtain r1 ch1 seen1 where 1: "rec (parg_ccat a) ch seen = Done (r1, ch1, seen1)"
    "(case r1 of None \<Rightarrow> Done (None, ch1, seen1) | Some e \<Rightarrow> args_to_expr rec (PGF_EXPR_APP expr e) args ch1 seen1) =
      Done (r, ch', seen')"
    by (auto simp: run_simps)
  with assms(2) [OF 1(1)] Cons.IH show ?case by (fastforce split: option.splits)
qed simp

lemma cat_to_expr_seen: "pgf_cat_to_expr n st c ch seen = Done (r, ch', seen') \<Longrightarrow> set seen \<subseteq> set seen'"
proof (induction n arbitrary: c ch seen r ch' seen')
  case (Suc n)
  show ?case
  proof (cases "c \<in> set seen \<or> st c = None")
    case True
    with Suc.prems show ?thesis by (auto split: if_splits)
  next
    case False
    then obtain cc where cc: "st c = Some cc" "c \<notin> set seen" by auto
    consider "seen' = c # seen"
      | ch1 prd where "pgf_production_to_expr (pgf_cat_to_expr n st) prd ch1 (c # seen) = Done (r, ch', seen')"
      using Suc.prems cc by (auto simp: Let_def run_simps split: if_splits)
    then show ?thesis
    proof cases
      case 2
      have "set (c # seen) \<subseteq> set seen'"
      proof (cases prd)
        case (PGF_PRODUCTION_APPLY fn args)
        with 2 show ?thesis
          by (simp only: pgf_production_to_expr.simps) (erule args_to_expr_seen, erule Suc.IH)
      next
        case (PGF_PRODUCTION_COERCE d)
        with 2 Suc.IH [of d ch1 "c # seen"] show ?thesis by simp
      qed
      then show ?thesis by simp
    qed auto
  qed
qed simp

lemma args_to_expr_fuel:
  assumes "\<And>c ch seen'. set seen \<subseteq> set seen' \<Longrightarrow> rec c ch seen' \<noteq> Out_Of_Fuel"
    and "\<And>c ch seen r ch' seen'. rec c ch seen = Done (r, ch', seen') \<Longrightarrow> set seen \<subseteq> set seen'"
    and "set seen \<subseteq> set seen1"
  shows "args_to_expr rec expr args ch seen1 \<noteq> Out_Of_Fuel"
  using assms(3)
proof (induction args arbitrary: expr ch seen1)
  case (Cons a args)
  show ?case
  proof (cases "rec (parg_ccat a) ch seen1")
    case (Done x)
    then obtain r ch2 seen2 where x: "rec (parg_ccat a) ch seen1 = Done (r, ch2, seen2)" by (cases x) auto
    with assms(2) [OF x] Cons.prems Cons.IH [of seen2] show ?thesis
      by (auto simp: gu_assert_def split: option.splits)
  qed (use assms(1) Cons.prems in \<open>auto simp: gu_assert_def\<close>)
qed simp

lemma choice_next_fuel: "gu_choice_next ch n \<noteq> Out_Of_Fuel"
  by (auto simp: gu_choice_next_def gu_assert_def gu_require_def Let_def)

lemma cat_to_expr_fuel:
  "finite (dom st) \<Longrightarrow> card (dom st - set seen) < n \<Longrightarrow> pgf_cat_to_expr n st c ch seen \<noteq> Out_Of_Fuel"
proof (induction n arbitrary: c ch seen)
  case (Suc n)
  show ?case
  proof (cases "c \<in> set seen \<or> st c = None")
    case True
    then show ?thesis by auto
  next
    case False
    then obtain cc where cc: "st c = Some cc" "c \<notin> set seen" by auto
    have lt: "card (dom st - set (c # seen)) < card (dom st - set seen)"
      using cc Suc.prems(1) by (intro psubset_card_mono) auto
    have rec: "pgf_cat_to_expr n st c' ch' seen' \<noteq> Out_Of_Fuel" if "set (c # seen) \<subseteq> set seen'" for c' ch' seen'
    proof (rule Suc.IH [OF Suc.prems(1)])
      have "card (dom st - set seen') \<le> card (dom st - set (c # seen))"
        using that Suc.prems(1) by (intro card_mono) auto
      with lt Suc.prems(2) show "card (dom st - set seen') < n" by simp
    qed
    have prd: "pgf_production_to_expr (pgf_cat_to_expr n st) prd ch' (c # seen) \<noteq> Out_Of_Fuel" for prd ch'
    proof (cases prd)
      case (PGF_PRODUCTION_APPLY fn args)
      have "args_to_expr (pgf_cat_to_expr n st) e args ch' (c # seen) \<noteq> Out_Of_Fuel" for e
        by (rule args_to_expr_fuel [of "c # seen"]) (use rec cat_to_expr_seen in blast)+
      with PGF_PRODUCTION_APPLY show ?thesis by simp
    next
      case (PGF_PRODUCTION_COERCE d)
      with rec [of "c # seen" d ch'] show ?thesis by simp
    qed
    show ?thesis
      using cc prd choice_next_fuel [of ch "int (length (prods_list (prods cc)))"]
      by (cases "gu_choice_next ch (int (length (prods_list (prods cc))))")
        (auto simp: Let_def seq_at_def split: if_splits)
  qed
qed simp

end
