(* ===== verification/ItemSet.thy ===== *)
theory ItemSet
  imports ParseResult GuMap
begin

text \<open>
  The item sets of the parser are hash tables (\<open>gu_new_set(PgfItem*, item_hasher, pool)\<close>). This theory
  instantiates the enumeration that the parser model leaves open with the hash table model: the
  table obtained by inserting the items in their order, and \<open>gu_map_enum_next\<close> on it. The hash
  function is a parameter, because the hashes of items depend on addresses (of categories,
  functions and continuation sets). The null item has the zero key.
\<close>

definition item_conf :: "(PgfItem option \<Rightarrow> nat) \<Rightarrow> nat \<Rightarrow> (PgfItem option, unit) GuMapConf" where
  "item_conf h fuel =
     \<lparr>mc_zero = None, mc_hash = h, mc_key_size = 8, mc_value_size = 0,
      mc_default = None, mc_zero_value = (), mc_fuel = fuel\<rparr>"

definition item_table ::
  "(PgfItem option \<Rightarrow> nat) \<Rightarrow> nat \<Rightarrow> PgfItem option list \<Rightarrow> (PgfItem option, unit) GuMapData run" where
  "item_table h fuel items =
     bindR (gu_make_map (item_conf h fuel))
       (foldR (\<lambda>x m. bindR (gu_map_insert (item_conf h fuel) 2 x m) (\<lambda>(i, m'). Done m')) items)"

definition item_set_enum :: "(PgfItem option \<Rightarrow> nat) \<Rightarrow> nat \<Rightarrow> item_enum" where
  "item_set_enum h fuel items i =
     bindR (item_table h fuel items) (\<lambda>m. Done (gu_map_enum_next (item_conf h fuel) m i))"

lemma item_table_keys:
  assumes "item_table h fuel items = Done m"
  shows "keys_in (item_conf h fuel) (set items) m"
proof -
  obtain m0 where m0: "gu_make_map (item_conf h fuel) = Done m0"
    and f: "foldR (\<lambda>x m. bindR (gu_map_insert (item_conf h fuel) 2 x m) (\<lambda>(i, m'). Done m')) items m0 = Done m"
    using assms by (auto simp: item_table_def elim: bindR_DoneE)
  show ?thesis
    using f
  proof (rule foldR_invariant)
    show "keys_in (item_conf h fuel) (set items) m0"
      using m0 by (rule make_map_keys_in)
  qed (auto simp: run_simps intro: insert_keys_in)
qed

interpretation it: item_enumeration "item_set_enum h fuel" for h fuel
proof
  fix xs i x j
  assume "item_set_enum h fuel xs i = Done (Some (x, j))"
  then obtain m where m: "item_table h fuel xs = Done m"
    and e: "gu_map_enum_next (item_conf h fuel) m i = Some (x, j)"
    by (auto simp: item_set_enum_def run_simps)
  from enum_next_used [OF e] keys_in_used [OF item_table_keys [OF m], of "j - 1"]
  show "x \<in> set xs" by auto
qed

end
