(* ===== verification/ParserFuel.thy ===== *)
theory ParserFuel
  imports Parser
begin

text \<open>
  The fuel of the parser model is only a bound: once it is large enough for the parser to return, more
  fuel gives the same result. Every function that takes \<open>pgf_parsing_item\<close> as an argument
  returns the same for an argument that returns at least as often.
\<close>

subsection \<open>Outcomes ordered by how often they return\<close>

named_theorems run_mono \<open>monotonicity of the program constructs\<close>

definition le_run :: "'a run \<Rightarrow> 'a run \<Rightarrow> bool" where
  "le_run m m' \<longleftrightarrow> (\<forall>s. m = Done s \<longrightarrow> m' = Done s)"

lemma le_runD: "le_run m m' \<Longrightarrow> m = Done s \<Longrightarrow> m' = Done s"
  by (simp add: le_run_def)

lemma le_refl [run_mono]: "le_run m m"
  by (simp add: le_run_def)

lemma le_fuel: "le_run Out_Of_Fuel m"
  by (simp add: le_run_def)

lemma le_bind [run_mono]:
  "le_run m m' \<Longrightarrow> (\<And>x. le_run (f x) (f' x)) \<Longrightarrow> le_run (bindR m f) (bindR m' f')"
  by (cases m) (auto simp: le_run_def)

lemma le_foldR [run_mono]:
  assumes "\<And>x s. le_run (f x s) (f' x s)"
  shows "le_run (foldR f xs s) (foldR f' xs s)"
proof (induction xs arbitrary: s)
  case (Cons x xs)
  then show ?case using assms by (simp add: le_bind)
qed (simp add: le_refl)

lemma le_if [run_mono]:
  "le_run a a' \<Longrightarrow> le_run b b' \<Longrightarrow> le_run (if c then a else b) (if c then a' else b')"
  by simp

lemma le_assert [run_mono]: "le_run k k' \<Longrightarrow> le_run (gu_assert b k) (gu_assert b k')"
  by (simp add: le_run_def gu_assert_def)

lemma le_require [run_mono]: "le_run k k' \<Longrightarrow> le_run (gu_require b k) (gu_require b k')"
  by (simp add: le_run_def gu_require_def)

lemma le_case_option [run_mono]:
  "le_run a a' \<Longrightarrow> (\<And>x. le_run (f x) (f' x)) \<Longrightarrow>
     le_run (case c of None \<Rightarrow> a | Some x \<Rightarrow> f x) (case c of None \<Rightarrow> a' | Some x \<Rightarrow> f' x)"
  by (cases c) auto

lemma le_case_prod [run_mono]:
  "(\<And>x y. le_run (f x y) (f' x y)) \<Longrightarrow> le_run (case c of (x, y) \<Rightarrow> f x y) (case c of (x, y) \<Rightarrow> f' x y)"
  by (cases c) auto

lemma le_case_production [run_mono]:
  "(\<And>fn as. le_run (f fn as) (f' fn as)) \<Longrightarrow> (\<And>c. le_run (g c) (g' c)) \<Longrightarrow>
     le_run (case p of PGF_PRODUCTION_APPLY fn as \<Rightarrow> f fn as | PGF_PRODUCTION_COERCE c \<Rightarrow> g c)
       (case p of PGF_PRODUCTION_APPLY fn as \<Rightarrow> f' fn as | PGF_PRODUCTION_COERCE c \<Rightarrow> g' c)"
  by (cases p) auto

lemma le_case_symbol [run_mono]:
  "(\<And>d r. le_run (a d r) (a' d r)) \<Longrightarrow> (\<And>d r. le_run (b d r) (b' d r)) \<Longrightarrow> (\<And>d r. le_run (c d r) (c' d r)) \<Longrightarrow>
   (\<And>ts. le_run (d ts) (d' ts)) \<Longrightarrow> (\<And>ts alts. le_run (e ts alts) (e' ts alts)) \<Longrightarrow>
     le_run (case_PgfSymbol a b c d e sy) (case_PgfSymbol a' b' c' d' e' sy)"
  by (cases sy) auto

subsection \<open>The parser\<close>

definition more :: "item_step \<Rightarrow> item_step \<Rightarrow> bool" where
  "more rec rec' \<longleftrightarrow> (\<forall>item st. le_run (rec item st) (rec' item st))"

lemma moreD: "more rec rec' \<Longrightarrow> le_run (rec item st) (rec' item st)"
  by (simp add: more_def)

lemma combine_more:
  "more rec rec' \<Longrightarrow> le_run (pgf_parsing_combine rec c cat st) (pgf_parsing_combine rec' c cat st)"
  unfolding pgf_parsing_combine_def by (intro run_mono moreD)

lemma production_more:
  "more rec rec' \<Longrightarrow>
     le_run (pgf_parsing_production rec cat r prd conts st) (pgf_parsing_production rec' cat r prd conts st)"
  unfolding pgf_parsing_production_def by (intro run_mono moreD)

lemma combine_conts_more:
  "more rec rec' \<Longrightarrow> n \<le> n' \<Longrightarrow>
     le_run (combine_conts en rec n conts cat i st) (combine_conts en rec' n' conts cat i st)"
proof (induction n arbitrary: i st n')
  case (Suc n)
  then obtain k where k: "n' = Suc k" "n \<le> k" by (cases n') auto
  show ?case
    unfolding k(1) combine_conts.simps by (intro run_mono combine_more Suc.IH Suc.prems k(2))
qed (simp add: le_fuel)

lemma complete_more:
  "more rec rec' \<Longrightarrow> n \<le> n' \<Longrightarrow>
     le_run (pgf_parsing_complete en rec n item st) (pgf_parsing_complete en rec' n' item st)"
  unfolding pgf_parsing_complete_def Let_def by (intro run_mono production_more combine_conts_more)

lemma predict_more:
  "more rec rec' \<Longrightarrow> le_run (pgf_parsing_predict rec item cat r st) (pgf_parsing_predict rec' item cat r st)"
  unfolding pgf_parsing_predict_def by (intro run_mono production_more combine_more)

lemma symbol_more:
  "more rec rec' \<Longrightarrow> le_run (pgf_parsing_symbol rec item sy st) (pgf_parsing_symbol rec' item sy st)"
  unfolding pgf_parsing_symbol_def Let_def by (intro run_mono predict_more)

lemma item_more: "n \<le> n' \<Longrightarrow> more (pgf_parsing_item en n) (pgf_parsing_item en n')"
proof (induction n arbitrary: n')
  case 0
  then show ?case by (simp add: more_def le_fuel)
next
  case (Suc n)
  then obtain k where k: "n' = Suc k" "n \<le> k" by (cases n') auto
  note m = Suc.IH [OF k(2)]
  show ?case
    unfolding more_def k(1) pgf_parsing_item.simps Let_def
    by (intro allI run_mono complete_more symbol_more predict_more m k(2))
qed

lemma scan_toks_more:
  "more rec rec' \<Longrightarrow>
     le_run (pgf_parsing_scan_toks rec item tok al toks st) (pgf_parsing_scan_toks rec' item tok al toks st)"
  unfolding pgf_parsing_scan_toks_def Let_def by (intro run_mono moreD)

lemma scan_more:
  "more rec rec' \<Longrightarrow> le_run (pgf_parsing_scan rec tok item st) (pgf_parsing_scan rec' tok item st)"
  unfolding pgf_parsing_scan_def by (intro run_mono scan_toks_more)

lemma scan_agenda_more:
  "more rec rec' \<Longrightarrow> n \<le> n' \<Longrightarrow>
     le_run (scan_agenda en rec n agenda tok i st) (scan_agenda en rec' n' agenda tok i st)"
proof (induction n arbitrary: i st n')
  case (Suc n)
  then obtain k where k: "n' = Suc k" "n \<le> k" by (cases n') auto
  show ?case
    unfolding k(1) scan_agenda.simps by (intro run_mono scan_more Suc.IH Suc.prems k(2))
qed (simp add: le_fuel)

lemma parse_token_more:
  "n \<le> n' \<Longrightarrow> le_run (pgf_parse_token en n ps parse tok) (pgf_parse_token en n' ps parse tok)"
  unfolding pgf_parse_token_def by (intro run_mono scan_agenda_more item_more)

lemma parse_tokens_more:
  "n \<le> n' \<Longrightarrow> le_run (parse_tokens en n ps parse toks) (parse_tokens en n' ps parse toks)"
proof (induction toks arbitrary: ps parse)
  case (Cons tok toks)
  then show ?case
    unfolding parse_tokens.simps by (intro run_mono parse_token_more) auto
qed (simp add: le_refl)

lemma parser_parse_more:
  "n \<le> n' \<Longrightarrow> le_run (pgf_parser_parse en n ps same cat lin) (pgf_parser_parse en n' ps same cat lin)"
  unfolding pgf_parser_parse_def by (intro run_mono predict_more item_more)

text \<open>Two bounds that both suffice give the same outcome.\<close>

lemma parse_fuel_unique:
  assumes "bindR (pgf_parser_parse en n ps same cat lin) (\<lambda>(ps', p). parse_tokens en n ps' p toks) = Done r"
    and "bindR (pgf_parser_parse en n' ps same cat lin) (\<lambda>(ps', p). parse_tokens en n' ps' p toks) = Done r'"
  shows "r = r'"
proof -
  let ?run = "\<lambda>n. bindR (pgf_parser_parse en n ps same cat lin) (\<lambda>(ps', p). parse_tokens en n ps' p toks)"
  have "le_run (?run n) (?run (max n n'))" "le_run (?run n') (?run (max n n'))"
    by (intro run_mono parser_parse_more parse_tokens_more max.cobounded1 max.cobounded2)+
  from le_runD [OF this(1) assms(1)] le_runD [OF this(2) assms(2)] show ?thesis by simp
qed

end
