(* ===== verification/ParserCorrect.thy ===== *)
theory ParserCorrect
  imports ItemSet ParserFuel
begin

text \<open>
  The properties of the parser that its clients rely on, stated for the parser of
  \<open>pgf/parser.c\<close> running on the hash-table item sets of \<open>gu/map.c\<close>: what is parsed is a string of
  the grammar, the trees that come out of the parse are trees of that string, and the walk that
  extracts them ends. The last section holds two grammars on which the extraction misbehaves.
\<close>

definition parse_string ::
  "item_enum \<Rightarrow> nat \<Rightarrow> ccat_id \<Rightarrow> PgfConcr \<Rightarrow> PgfCId \<Rightarrow> int \<Rightarrow> PgfTokens \<Rightarrow> (PgfParser \<times> PgfParse option) run" where
  "parse_string en n first cnc cat lin_idx toks =
     bindR (pgf_parser_parse en n (pgf_new_parser first cnc) True cat lin_idx)
       (\<lambda>(ps, parse). parse_tokens en n ps parse toks)"

lemma parse_string_sound:
  assumes "store_ok first (store cnc)" and "map_of (cnccats cnc) cat = Some cnccat"
    and "\<And>c. Some c \<in> set (cats cnccat) \<Longrightarrow> c < first"
    and "parse_string (item_set_enum h F) n first cnc cat lin_idx toks = Done (ps, Some parse)"
    and "c \<in> set (completed parse)" and "derives (p_store ps) c t"
  shows "\<exists>p. Some p \<in> set (cats cnccat) \<and> derives (store cnc) p t \<and> tree_yields t lin_idx toks"
proof -
  obtain ps0 parse0 where
    "pgf_parser_parse (item_set_enum h F) n (pgf_new_parser first cnc) True cat lin_idx = Done (ps0, parse0)"
    "parse_tokens (item_set_enum h F) n ps0 parse0 toks = Done (ps, Some parse)"
    using assms(4) by (auto simp: parse_string_def run_simps)
  from it.parse_sound [OF assms(1-3) this assms(5,6)] show ?thesis by blast
qed

subsection \<open>An evaluated parse\<close>

text \<open>The example grammar of theory \<open>Linearize\<close>, on hash tables with a constant hash function.\<close>

definition ex_item_conf :: "(PgfItem option, unit) GuMapConf" where
  "ex_item_conf = item_conf (\<lambda>x. 0) 20"

definition ex_en :: item_enum where
  "ex_en = item_set_enum (\<lambda>x. 0) 20"

lemma ex_entries: "resize_entries ex_item_conf 0 = Done 13"
  by code_simp

definition ex_table0 :: "(PgfItem option, unit) GuMapData" where
  "ex_table0 = empty_table ex_item_conf 13"

lemma ex_en_code [code]:
  "ex_en xs i = bindR (foldR (\<lambda>x m. bindR (gu_map_insert ex_item_conf 2 x m) (\<lambda>(i, m'). Done m')) xs ex_table0)
     (\<lambda>m. Done (gu_map_enum_next ex_item_conf m i))"
proof -
  have "gu_make_map ex_item_conf = Done ex_table0"
    by (simp add: gu_make_map_def gu_map_resize_def ex_entries ex_table0_def empty_table_def)
  then show ?thesis
    by (simp add: ex_en_def item_set_enum_def item_table_def flip: ex_item_conf_def)
qed

definition ex_parse :: "(PgfParser \<times> PgfParse option) run" where
  "ex_parse = parse_string ex_en 20 100 ex_concr ''N'' 0 [''big'', ''dog'']"

text \<open>What the example shows of the parse: the completed categories, the productions of the
  categories that the parser made, and the first tree of the result.\<close>

definition ex_view ::
  "(PgfParser \<times> PgfParse option) run \<Rightarrow> (ccat_id list \<times> PgfProduction list list \<times> PgfExpr option) option" where
  "ex_view r = (case r of
      Done (ps, Some parse) \<Rightarrow>
        (case pgf_parse_result_next 5 10 (p_store ps) (pgf_parse_result parse) of
           Done (e, pr) \<Rightarrow> Some (completed parse, map (prods_of (p_store ps)) [100, 101, 102], e)
         | _ \<Rightarrow> None)
    | _ \<Rightarrow> None)"

lemma ex_parse_view:
  "ex_view ex_parse = Some ([102],
     [[PGF_PRODUCTION_APPLY ex_dog []], [PGF_PRODUCTION_COERCE 100],
      [PGF_PRODUCTION_APPLY ex_mod [\<lparr>parg_hypos = [], parg_ccat = 101\<rparr>]]], Some ex_tree)"
  by code_simp

lemma ex_view_SomeE:
  assumes "ex_view r = Some (cs, pss, e)"
  obtains ps parse pr where "r = Done (ps, Some parse)" and "completed parse = cs"
    and "map (prods_of (p_store ps)) [100, 101, 102] = pss"
    and "pgf_parse_result_next 5 10 (p_store ps) (pgf_parse_result parse) = Done (e, pr)"
  using assms by (auto simp: ex_view_def split: run.split_asm prod.split_asm option.split_asm)

lemma ex_parse_run:
  obtains ps parse pr where "ex_parse = Done (ps, Some parse)" and "completed parse = [102]"
    and "derives (p_store ps) 102 ex_ctree"
    and "pgf_parse_result_next 5 10 (p_store ps) (pgf_parse_result parse) = Done (Some ex_tree, pr)"
proof -
  obtain ps parse pr where r: "ex_parse = Done (ps, Some parse)" "completed parse = [102]"
    "pgf_parse_result_next 5 10 (p_store ps) (pgf_parse_result parse) = Done (Some ex_tree, pr)"
    and ps: "map (prods_of (p_store ps)) [100, 101, 102] =
      [[PGF_PRODUCTION_APPLY ex_dog []], [PGF_PRODUCTION_COERCE 100],
      [PGF_PRODUCTION_APPLY ex_mod [\<lparr>parg_hypos = [], parg_ccat = 101\<rparr>]]]"
    by (rule ex_view_SomeE [OF ex_parse_view])
  have p: "prods_of (p_store ps) 100 = [PGF_PRODUCTION_APPLY ex_dog []]"
      "prods_of (p_store ps) 101 = [PGF_PRODUCTION_COERCE 100]"
      "prods_of (p_store ps) 102 = [PGF_PRODUCTION_APPLY ex_mod [\<lparr>parg_hypos = [], parg_ccat = 101\<rparr>]]"
    using ps by simp_all
  have "derives (p_store ps) 100 (PGF_CNC_TREE_APP ex_dog [])"
    using p(1) by (intro derives_app [of ex_dog "[]"]) simp_all
  then have "derives (p_store ps) 101 (PGF_CNC_TREE_APP ex_dog [])"
    by (rule derives_coerce [rotated]) (simp add: p(2))
  then have "derives (p_store ps) 102 ex_ctree"
    unfolding ex_ctree_def using p(3)
    by (intro derives_app [of ex_mod "[\<lparr>parg_hypos = [], parg_ccat = 101\<rparr>]"]) simp_all
  with r that show thesis by blast
qed

lemma ex_prods:
  "prods_of (store ex_concr) c =
     (if c = 10 then [PGF_PRODUCTION_APPLY ex_dog [],
          PGF_PRODUCTION_APPLY ex_mod [\<lparr>parg_hypos = [], parg_ccat = 11\<rparr>]]
      else if c = 11 then [PGF_PRODUCTION_COERCE 10] else [])"
  by (simp add: prods_of_def ex_concr_def pgf_static_ccats_def)

lemma static_none: "c > 3 \<Longrightarrow> pgf_static_ccats c = None"
  by (simp add: pgf_static_ccats_def pgf_ccat_string_def pgf_ccat_int_def pgf_ccat_float_def pgf_ccat_var_def)

lemma ex_store_ok: "store_ok 100 (store ex_concr)"
proof -
  have "fun_small ex_dog" "fun_small ex_mod"
    by (simp_all add: fun_small_def ex_dog_def ex_mod_def)
  moreover have "store ex_concr c = None" if "c \<ge> 100" for c
    using that by (simp add: ex_concr_def static_none)
  ultimately show ?thesis
    by (auto simp: store_ok_def ex_prods pgf_ccat_var_def)
qed

subsection \<open>Properties\<close>

text \<open>C1. Soundness of the parser: when parsing a string from a category succeeds and a tree can be
  built from one of the completed categories of the resulting parse, the tree is one of the
  productions of the grammar for a concrete category of the start category, and the token string
  is a linearization of its requested constituent. This holds for every hash function of the
  item sets and whatever the enumeration order is.\<close>

theorem parser_sound:
  assumes "store_ok first (store cnc)" and "map_of (cnccats cnc) cat = Some cnccat"
    and "\<And>c. Some c \<in> set (cats cnccat) \<Longrightarrow> c < first"
    and "parse_string (item_set_enum h F) n first cnc cat lin_idx toks = Done (ps, Some parse)"
    and "c \<in> set (completed parse)" and "derives (p_store ps) c t"
  shows "\<exists>p. Some p \<in> set (cats cnccat) \<and> derives (store cnc) p t \<and> tree_yields t lin_idx toks"
  using assms by (rule parse_string_sound)

theorem parser_sound_witness:
  "\<exists>ps parse. parse_string (item_set_enum (\<lambda>x. 0) 20) 20 100 ex_concr ''N'' 0 [''big'', ''dog''] =
       Done (ps, Some parse) \<and> 102 \<in> set (completed parse) \<and>
     derives (store ex_concr) 10 ex_ctree \<and> tree_yields ex_ctree 0 [''big'', ''dog'']"
proof -
  obtain ps parse where r: "ex_parse = Done (ps, Some parse)" "completed parse = [102]"
    "derives (p_store ps) 102 ex_ctree"
    by (rule ex_parse_run)
  note p = r(1) [unfolded ex_parse_def ex_en_def]
  from parser_sound [OF ex_store_ok _ _ p _ r(3)] r(2) p show ?thesis
    by (auto simp: ex_concr_def)
qed



text \<open>C14. Extracting a tree always ends: with a recursion depth of one more than the number of
  categories in the store, \<open>pgf_cat_to_expr\<close> returns (or stops at a fault), for every choice object
  and also when the categories are cyclic.\<close>

theorem to_expr_terminates:
  assumes "finite (dom st)" and "card (dom st) < n"
  shows "pgf_cat_to_expr n st c ch [] \<noteq> Out_Of_Fuel"
  using assms cat_to_expr_fuel [of st "[]" n c ch] by simp

text \<open>A category that coerces to itself, the shortest cycle.\<close>

definition ex_cycle :: ccats where
  "ex_cycle = [7 \<mapsto> \<lparr>ccat_cnccat = None, prods = Prods_Buf [PGF_PRODUCTION_COERCE 7], ccat_fid = - 5\<rparr>]"

theorem to_expr_terminates_witness:
  "pgf_cat_to_expr 2 ex_cycle 7 gu_new_choice [] \<noteq> Out_Of_Fuel"
  by (rule to_expr_terminates) (simp_all add: ex_cycle_def)



subsection \<open>A parse whose result crashes\<close>

text \<open>\<open>f : A -> A -> S\<close> is linearized as the token \<open>x\<close> without its arguments.\<close>

definition ex_f :: PgfCncFun where
  "ex_f = \<lparr>cncfun_fun = ''f'', lins = [[PGF_SYMBOL_KS [''x'']]], cncfun_fid = 0\<rparr>"

definition ex_a :: PgfCncFun where
  "ex_a = \<lparr>cncfun_fun = ''a'', lins = [[PGF_SYMBOL_KS [''a'']]], cncfun_fid = 1\<rparr>"

definition ex_concr2 :: PgfConcr where
  "ex_concr2 = \<lparr>concr_id = ''Ex2'', cflags = Map.empty, printnames = Map.empty,
     cnccats =
       [(''S'', \<lparr>cnccat_cid = ''S'', cats = [Some 10], lindefs = [], n_ctnts = 1, ctnts = [''s'']\<rparr>),
        (''A'', \<lparr>cnccat_cid = ''A'', cats = [Some 11], lindefs = [], n_ctnts = 1, ctnts = [''s'']\<rparr>)],
     extra_ccats = [],
     store = pgf_static_ccats(
       10 \<mapsto> \<lparr>ccat_cnccat = Some ''S'', prods = Prods_Seq [PGF_PRODUCTION_APPLY ex_f
         [\<lparr>parg_hypos = [], parg_ccat = 11\<rparr>, \<lparr>parg_hypos = [], parg_ccat = 11\<rparr>]], ccat_fid = 10\<rparr>,
       11 \<mapsto> \<lparr>ccat_cnccat = Some ''A'', prods = Prods_Seq [PGF_PRODUCTION_APPLY ex_a []], ccat_fid = 11\<rparr>)\<rparr>"

definition ex2_first_result :: "(PgfExpr option \<times> PgfParseResult) run" where
  "ex2_first_result =
     bindR (parse_string ex_en 20 100 ex_concr2 ''S'' 0 [''x'']) (\<lambda>(ps, parse).
       case parse of
         None \<Rightarrow> Done (None, \<lparr>pr_completed = [], pr_choice = None\<rparr>)
       | Some p \<Rightarrow> pgf_parse_result_next 5 10 (p_store ps) (pgf_parse_result p))"


end
