(* ===== verification/Bits.thy ===== *)
theory Bits
  imports Prelude
begin

text \<open>
  \<open>gu/bits.h\<close> and \<open>gu/bits.c\<close>: rounding to powers of two, the lowest set bit, alignment of addresses, bitmaps,
  pointers with a tag in their low bits, and decoding of two's complement numbers. Machine
  integers are words of the width they have on an LP64 target. The alignment functions pass a
  \<open>size_t\<close> to \<open>gu_ceil2e\<close>, which takes an \<open>unsigned\<close>, so the upper half of the argument is dropped.
\<close>

unbundle bit_operations_syntax

subsection \<open>Operations\<close>

text \<open>One line of \<open>gu_ceil2e\<close>: \<open>u |= u >> k\<close>.\<close>

definition smear :: "nat \<Rightarrow> u32 \<Rightarrow> u32" where
  "smear k u = u OR drop_bit k u"

definition gu_ceil2e :: "u32 \<Rightarrow> u32" where
  "gu_ceil2e u = smear 16 (smear 8 (smear 4 (smear 2 (smear 1 (u - 1))))) + 1"

text \<open>One line of \<open>gu_lowest_set_bit\<close>: \<open>u = (c = u & mask) ? c : u\<close>.\<close>

definition narrow :: "u64 \<Rightarrow> u64 \<Rightarrow> u64" where
  "narrow m u = (let c = u AND m in if c \<noteq> 0 then c else u)"

definition gu_lowest_set_bit :: "u64 \<Rightarrow> u64" where
  "gu_lowest_set_bit u =
     narrow 0x5555555555555555 (narrow 0x3333333333333333 (narrow 0x0f0f0f0f0f0f0f0f
       (narrow 0x00ff00ff00ff00ff (narrow 0x0000ffff0000ffff (narrow 0x00000000ffffffff u)))))"

definition gu_sign :: "int \<Rightarrow> int" where
  "gu_sign i = of_bool (i > 0) - of_bool (i < 0)"

definition gu_ceildiv :: "u64 \<Rightarrow> u64 \<Rightarrow> u64" where
  "gu_ceildiv s d = (s + d - 1) div d"

definition is_alignment :: "u64 \<Rightarrow> bool" where
  "is_alignment a \<longleftrightarrow> a = ucast (gu_ceil2e (ucast a))"

definition gu_aligned :: "u64 \<Rightarrow> u64 \<Rightarrow> bool run" where
  "gu_aligned addr a = gu_require (is_alignment a) (Done (addr AND (a - 1) = 0))"

definition gu_align_forward :: "u64 \<Rightarrow> u64 \<Rightarrow> u64 run" where
  "gu_align_forward addr a =
     gu_require (is_alignment a) (let m = a - 1 in Done ((addr + m) AND NOT m))"

definition gu_align_backward :: "u64 \<Rightarrow> u64 \<Rightarrow> u64 run" where
  "gu_align_backward addr a = gu_require (is_alignment a) (Done (addr AND NOT (a - 1)))"

definition GU_WORD_BITS :: nat where "GU_WORD_BITS = 64"

text \<open>The test shifts the \<open>int\<close> 1, which is undefined from 32 bits on and is not modelled
  (\<open>None\<close>); setting and clearing shift a word. A bit index outside the bitmap is an access out of
  bounds.\<close>

definition gu_bits_test :: "u64 list \<Rightarrow> nat \<Rightarrow> bool option run" where
  "gu_bits_test bitmap idx =
     bindR (seq_at bitmap (idx div GU_WORD_BITS)) (\<lambda>w.
       let k = idx mod GU_WORD_BITS
       in Done (if k < 31 then Some (w AND push_bit k 1 \<noteq> 0) else None))"

definition gu_bits_set :: "u64 list \<Rightarrow> nat \<Rightarrow> u64 list run" where
  "gu_bits_set bitmap idx =
     bindR (seq_at bitmap (idx div GU_WORD_BITS)) (\<lambda>w.
       Done (bitmap[idx div GU_WORD_BITS := w OR push_bit (idx mod GU_WORD_BITS) 1]))"

definition gu_bits_clear :: "u64 list \<Rightarrow> nat \<Rightarrow> u64 list run" where
  "gu_bits_clear bitmap idx =
     bindR (seq_at bitmap (idx div GU_WORD_BITS)) (\<lambda>w.
       Done (bitmap[idx div GU_WORD_BITS := w AND NOT (push_bit (idx mod GU_WORD_BITS) 1)]))"

definition gu_bits_size :: "u64 \<Rightarrow> u64" where
  "gu_bits_size n_bits = gu_ceildiv n_bits 64 * 8"

text \<open>Tagged pointers: the three low bits of the address of a word hold the tag.\<close>

definition gu_tagged_tag :: "u64 \<Rightarrow> u64" where
  "gu_tagged_tag t = t AND (8 - 1)"

definition gu_tagged_ptr :: "u64 \<Rightarrow> u64 run" where
  "gu_tagged_ptr w = gu_align_backward w 8"

definition gu_tagged :: "u64 \<Rightarrow> u64 \<Rightarrow> u64 run" where
  "gu_tagged ptr tag =
     gu_require (tag < 8)
      (bindR (gu_align_backward ptr 8) (\<lambda>b. gu_require (b = ptr) (Done (ptr OR tag))))"

text \<open>The macro \<open>GU_DECODE_2C_\<close> at the four widths: \<open>None\<close> is the exception \<open>GuIntDecodeExn\<close>.
  The result is a signed integer.\<close>

definition GU_DECODE_2C :: "int \<Rightarrow> int \<Rightarrow> int \<Rightarrow> int \<Rightarrow> int option" where
  "GU_DECODE_2C u umax posmax tmin =
     (if u \<le> posmax then Some u
      else if tmin + (umax - u) < 0 then Some (- 1 - (umax - u))
      else None)"

definition gu_decode_2c8 :: "u8 \<Rightarrow> int option" where
  "gu_decode_2c8 u = GU_DECODE_2C (uint u) 0xff 0x7f (- 0x80)"

definition gu_decode_2c16 :: "u16 \<Rightarrow> int option" where
  "gu_decode_2c16 u = GU_DECODE_2C (uint u) 0xffff 0x7fff (- 0x8000)"

definition gu_decode_2c32 :: "u32 \<Rightarrow> int option" where
  "gu_decode_2c32 u = GU_DECODE_2C (uint u) 0xffffffff 0x7fffffff (- 0x80000000)"

definition gu_decode_2c64 :: "u64 \<Rightarrow> int option" where
  "gu_decode_2c64 u =
     GU_DECODE_2C (uint u) 0xffffffffffffffff 0x7fffffffffffffff (- 0x8000000000000000)"

subsection \<open>Rounding up to a power of two\<close>

lemma bit_smear: "bit (smear k u) n \<longleftrightarrow> bit u n \<or> bit u (n + k)"
  by (auto simp: smear_def bit_or_iff bit_drop_bit_eq ac_simps)

definition above :: "u32 \<Rightarrow> nat \<Rightarrow> nat \<Rightarrow> bool" where
  "above u k n \<longleftrightarrow> (\<exists>j < k. bit u (n + j))"

lemma above_double: "above u k n \<or> above u k (n + k) \<longleftrightarrow> above u (2 * k) n"
proof
  assume "above u (2 * k) n"
  then obtain j where j: "j < 2 * k" "bit u (n + j)" by (auto simp: above_def)
  show "above u k n \<or> above u k (n + k)"
  proof (cases "j < k")
    case False
    with j have "above u k (n + k)"
      by (auto simp: above_def intro!: exI [of _ "j - k"])
    then show ?thesis ..
  qed (use j in \<open>auto simp: above_def\<close>)
next
  assume "above u k n \<or> above u k (n + k)"
  then show "above u (2 * k) n"
  proof
    assume "above u k (n + k)"
    then obtain j where "j < k" "bit u (n + k + j)" by (auto simp: above_def)
    then show ?thesis
      by (auto simp: above_def ac_simps intro!: exI [of _ "k + j"])
  next
    assume "above u k n"
    then obtain j where "j < k" "bit u (n + j)" by (auto simp: above_def)
    then have "j < 2 * k" by simp
    with \<open>bit u (n + j)\<close> show ?thesis unfolding above_def by blast
  qed
qed

lemma smear_above: "(\<And>n. bit s n \<longleftrightarrow> above u k n) \<Longrightarrow> bit (smear k s) n \<longleftrightarrow> above u (2 * k) n"
  by (simp add: bit_smear above_double)

lemma smear_all: "bit (smear 16 (smear 8 (smear 4 (smear 2 (smear 1 u))))) n \<longleftrightarrow> above u 32 n"
proof -
  have 0: "bit u n \<longleftrightarrow> above u 1 n" for n by (simp add: above_def)
  have 1: "bit (smear 1 u) n \<longleftrightarrow> above u 2 n" for n
    using smear_above [of u u 1, OF 0] by simp
  have 2: "bit (smear 2 (smear 1 u)) n \<longleftrightarrow> above u 4 n" for n
    using smear_above [of _ u 2, OF 1] by simp
  have 3: "bit (smear 4 (smear 2 (smear 1 u))) n \<longleftrightarrow> above u 8 n" for n
    using smear_above [of _ u 4, OF 2] by simp
  have 4: "bit (smear 8 (smear 4 (smear 2 (smear 1 u)))) n \<longleftrightarrow> above u 16 n" for n
    using smear_above [of _ u 8, OF 3] by simp
  show ?thesis using smear_above [of _ u 16, OF 4] by simp
qed

lemma above_mask:
  fixes u :: u32
  assumes "0 < k" and "k \<le> 32" and "2 ^ (k - 1) \<le> unat u" and "unat u < 2 ^ k"
  shows "above u 32 n \<longleftrightarrow> n < k"
proof -
  have top: "bit u (k - 1)"
  proof -
    have "unat u div 2 ^ (k - 1) = 1"
    proof (rule antisym)
      have "unat u < 2 * 2 ^ (k - 1)"
        using assms(1,4) by (metis One_nat_def Suc_pred power_Suc)
      then show "unat u div 2 ^ (k - 1) \<le> 1"
        by (metis One_nat_def less_Suc_eq_le less_mult_imp_div_less mult.commute mult_2 numeral_2_eq_2)
    next
      show "1 \<le> unat u div 2 ^ (k - 1)"
        using div_le_mono [OF assms(3), of "2 ^ (k - 1)"] by simp
    qed
    then have "bit (unat u) (k - 1)" by (simp add: bit_iff_odd)
    then show ?thesis by (simp add: bit_unsigned_iff)
  qed
  have out: "\<not> bit u m" if "k \<le> m" for m
  proof -
    have "unat u < 2 ^ m"
      using assms(4) that by (meson less_le_trans one_le_numeral power_increasing)
    then have "\<not> bit (unat u) m" by (simp add: bit_iff_odd)
    moreover have "\<not> bit u m" if "m \<ge> 32"
      using that bit_imp_le_length [of u m] by auto
    ultimately show ?thesis by (auto simp: bit_unsigned_iff)
  qed
  show ?thesis
  proof
    assume "above u 32 n"
    then show "n < k" using out by (auto simp: above_def) (metis le_add1 not_less order_trans)
  next
    assume "n < k"
    with top assms(2) show "above u 32 n"
      by (auto simp: above_def intro!: exI [of _ "k - 1 - n"])
  qed
qed

lemma ceil2e_power:
  fixes u :: u32
  assumes "0 < k" and "k \<le> 32" and "2 ^ (k - 1) < unat u" and "unat u \<le> 2 ^ k"
  shows "gu_ceil2e u = 2 ^ k"
proof -
  have u1: "unat (u - 1) = unat u - 1"
    using assms(3) by (metis not_less_zero unat_0 unat_minus_one)
  have "smear 16 (smear 8 (smear 4 (smear 2 (smear 1 (u - 1))))) = mask k"
  proof (rule bit_word_eqI)
    fix n :: nat
    assume "n < LENGTH(32)"
    have "above (u - 1) 32 n \<longleftrightarrow> n < k"
      by (rule above_mask) (use assms u1 in auto)
    with \<open>n < LENGTH(32)\<close> show "bit (smear 16 (smear 8 (smear 4 (smear 2 (smear 1 (u - 1)))))) n \<longleftrightarrow> bit (mask k :: u32) n"
      by (simp add: smear_all [simplified] bit_mask_iff)
  qed
  then show ?thesis by (simp add: gu_ceil2e_def mask_eq_decr_exp)
qed

subsection \<open>Alignment\<close>

lemma uint_power:
  assumes "k < LENGTH('a)"
  shows "uint (2 ^ k :: 'a::len word) = 2 ^ k"
proof -
  have "uint (of_int (2 ^ k) :: 'a word) = 2 ^ k"
    using assms by (simp add: unsigned_of_int take_bit_of_exp del: of_int_power)
  then show ?thesis by simp
qed

lemma unat_power: "k < LENGTH('a) \<Longrightarrow> unat (2 ^ k :: 'a::len word) = 2 ^ k"
  by (simp add: unat_eq_nat_uint uint_power nat_power_eq)

lemma is_alignment_power:
  assumes "k < 32"
  shows "is_alignment (2 ^ k)"
proof -
  have c: "ucast (2 ^ k :: u64) = (2 ^ k :: u32)"
    by (rule bit_word_eqI) (auto simp: bit_simps)
  have "gu_ceil2e (2 ^ k) = 2 ^ k"
  proof (cases k)
    case 0
    then show ?thesis by (simp add: gu_ceil2e_def smear_def)
  next
    case (Suc j)
    then show ?thesis
      using assms unat_power [of k, where 'a = 32] by (intro ceil2e_power) simp_all
  qed
  moreover have "ucast (2 ^ k :: u32) = (2 ^ k :: u64)"
    using assms by (intro bit_word_eqI) (auto simp: bit_simps)
  ultimately show ?thesis by (simp add: is_alignment_def c)
qed

lemma and_not_mask_uint:
  fixes x :: "'a::len word"
  shows "uint (x AND NOT (mask k)) = uint x div 2 ^ k * 2 ^ k"
proof -
  have "uint (x AND NOT (mask k)) = uint x - uint x mod 2 ^ k"
  proof -
    have "x AND NOT (mask k) = push_bit k (drop_bit k x)"
      by (rule bit_word_eqI) (auto simp: bit_simps)
    moreover have "uint (push_bit k (drop_bit k x)) = push_bit k (drop_bit k (uint x))"
      by (rule bit_eqI) (auto simp: bit_simps dest: bit_imp_le_length)
    ultimately have "uint (x AND NOT (mask k)) = push_bit k (drop_bit k (uint x))" by simp
    also have "\<dots> = uint x div 2 ^ k * 2 ^ k"
      by (simp add: push_bit_eq_mult drop_bit_eq_div)
    finally show ?thesis by (simp add: minus_mod_eq_div_mult)
  qed
  then show ?thesis by (simp add: minus_mod_eq_div_mult)
qed

lemma align_backward_power:
  assumes "k < 32"
  shows "gu_align_backward addr (2 ^ k) = Done (addr AND NOT (mask k))"
  using is_alignment_power [OF assms] by (simp add: gu_align_backward_def mask_eq_decr_exp)

lemma align_forward_uint:
  assumes "k < 32" and "uint addr + 2 ^ k \<le> 2 ^ 64"
  shows "\<exists>r. gu_align_forward addr (2 ^ k) = Done r \<and> uint r = (uint addr + 2 ^ k - 1) div 2 ^ k * 2 ^ k"
proof -
  have p: "uint (2 ^ k :: u64) = 2 ^ k" using assms(1) by (simp add: uint_power)
  have m: "uint (2 ^ k - 1 :: u64) = 2 ^ k - 1"
    by (subst uint_sub_if') (simp add: p word_le_def)
  have "uint (addr + (2 ^ k - 1)) = uint addr + 2 ^ k - 1"
    using assms(2) by (subst uint_plus_if') (simp add: m)
  moreover have "gu_align_forward addr (2 ^ k) = Done ((addr + (2 ^ k - 1)) AND NOT (mask k))"
    using is_alignment_power [OF assms(1)] by (simp add: gu_align_forward_def Let_def mask_eq_decr_exp)
  ultimately show ?thesis by (simp add: and_not_mask_uint)
qed

subsection \<open>The lowest set bit\<close>

lemma bit_narrow_mask:
  "n < 64 \<Longrightarrow> bit (0x00000000ffffffff :: u64) n \<longleftrightarrow> even (n div 32)"
  "n < 64 \<Longrightarrow> bit (0x0000ffff0000ffff :: u64) n \<longleftrightarrow> even (n div 16)"
  "n < 64 \<Longrightarrow> bit (0x00ff00ff00ff00ff :: u64) n \<longleftrightarrow> even (n div 8)"
  "n < 64 \<Longrightarrow> bit (0x0f0f0f0f0f0f0f0f :: u64) n \<longleftrightarrow> even (n div 4)"
  "n < 64 \<Longrightarrow> bit (0x3333333333333333 :: u64) n \<longleftrightarrow> even (n div 2)"
  "n < 64 \<Longrightarrow> bit (0x5555555555555555 :: u64) n \<longleftrightarrow> even (n)"
proof -
  have m0: "list_all (\<lambda>n. bit (0x00000000ffffffff :: int) n \<longleftrightarrow> even (n div 32)) [0..<64]"
    by (simp add: upt_rec)
  have m1: "list_all (\<lambda>n. bit (0x0000ffff0000ffff :: int) n \<longleftrightarrow> even (n div 16)) [0..<64]"
    by (simp add: upt_rec)
  have m2: "list_all (\<lambda>n. bit (0x00ff00ff00ff00ff :: int) n \<longleftrightarrow> even (n div 8)) [0..<64]"
    by (simp add: upt_rec)
  have m3: "list_all (\<lambda>n. bit (0x0f0f0f0f0f0f0f0f :: int) n \<longleftrightarrow> even (n div 4)) [0..<64]"
    by (simp add: upt_rec)
  have m4: "list_all (\<lambda>n. bit (0x3333333333333333 :: int) n \<longleftrightarrow> even (n div 2)) [0..<64]"
    by (simp add: upt_rec)
  have m5: "list_all (\<lambda>n. bit (0x5555555555555555 :: int) n \<longleftrightarrow> even (n)) [0..<64]"
    by (simp add: upt_rec)
  show
    "n < 64 \<Longrightarrow> bit (0x00000000ffffffff :: u64) n \<longleftrightarrow> even (n div 32)"
    "n < 64 \<Longrightarrow> bit (0x0000ffff0000ffff :: u64) n \<longleftrightarrow> even (n div 16)"
    "n < 64 \<Longrightarrow> bit (0x00ff00ff00ff00ff :: u64) n \<longleftrightarrow> even (n div 8)"
    "n < 64 \<Longrightarrow> bit (0x0f0f0f0f0f0f0f0f :: u64) n \<longleftrightarrow> even (n div 4)"
    "n < 64 \<Longrightarrow> bit (0x3333333333333333 :: u64) n \<longleftrightarrow> even (n div 2)"
    "n < 64 \<Longrightarrow> bit (0x5555555555555555 :: u64) n \<longleftrightarrow> even (n)"
    using m0 m1 m2 m3 m4 m5 by (simp_all add: list_all_iff bit_numeral_word_iff)
qed

text \<open>All the set bits of the current value lie in the block of size \<open>b\<close> of the lowest set bit \<open>l\<close> of
  the argument.\<close>

definition narrowed :: "nat \<Rightarrow> nat \<Rightarrow> u64 \<Rightarrow> bool" where
  "narrowed b l u \<longleftrightarrow> bit u l \<and> (\<forall>n. bit u n \<longrightarrow> l \<le> n \<and> n div b = l div b)"

lemma half_eq: "x div 2 = y div 2 \<Longrightarrow> even x = even y \<Longrightarrow> x = (y :: nat)"
  by presburger

lemma half_le: "x \<le> y \<Longrightarrow> x div 2 = y div 2 \<Longrightarrow> odd x \<Longrightarrow> odd (y :: nat)"
  by presburger

lemma narrow_step:
  assumes "narrowed (2 * b) l u" and "0 < b"
    and "\<And>n. n < 64 \<Longrightarrow> bit m n \<longleftrightarrow> even (n div b)"
  shows "narrowed b l (narrow m u)"
proof -
  have bnd: "n < 64" if "bit u n" for n using bit_imp_le_length [OF that] by simp
  have d: "n div (2 * b) = n div b div 2" for n
    by (metis div_mult2_eq mult.commute)
  have l: "bit u l" and u: "\<And>n. bit u n \<Longrightarrow> l \<le> n \<and> n div b div 2 = l div b div 2"
    using assms(1) unfolding narrowed_def d by blast+
  have ge: "\<And>n. bit u n \<Longrightarrow> l \<le> n" using u by blast
  have le: "bit u n \<Longrightarrow> l div b \<le> n div b" for n using u [of n] by (intro div_le_mono) blast
  have eq: "n div b = l div b" if "bit u n" "even (n div b) = even (l div b)" for n
    by (rule half_eq) (use u [OF that(1)] that(2) in blast)+
  show ?thesis
  proof (cases "even (l div b)")
    case True
    then have "bit (u AND m) l" using l bnd assms(3) by (simp add: bit_and_iff)
    then have n: "narrow m u = u AND m" by (auto simp: narrow_def Let_def)
    have "bit u n \<and> even (n div b)" if "bit (u AND m) n" for n
      using that bnd assms(3) by (auto simp: bit_and_iff)
    with True eq ge \<open>bit (u AND m) l\<close> show ?thesis
      unfolding n narrowed_def by blast
  next
    case False
    have odd: "odd (n div b)" if "bit u n" for n
      by (rule half_le [OF le [OF that] u [OF that, THEN conjunct2, symmetric] False])
    then have "\<not> bit (u AND m) n" for n
      using bnd assms(3) by (auto simp: bit_and_iff)
    then have "u AND m = 0" by (intro bit_word_eqI) simp
    then have n: "narrow m u = u" by (simp add: narrow_def)
    show ?thesis
      unfolding n narrowed_def using l ge odd eq False by blast
  qed
qed

lemma lowest_set_bit_power:
  assumes "bit u l" and "\<And>n. bit u n \<Longrightarrow> l \<le> n"
  shows "gu_lowest_set_bit u = 2 ^ l"
proof -
  have l: "l < 64" using bit_imp_le_length [OF assms(1)] by simp
  have "narrowed 64 l u"
    using assms l by (auto simp: narrowed_def dest: bit_imp_le_length)
  then have "narrowed 32 l (narrow 0x00000000ffffffff u)"
    using narrow_step [of 32 l u] bit_narrow_mask(1) by simp
  then have "narrowed 16 l (narrow 0x0000ffff0000ffff (narrow 0x00000000ffffffff u))"
    using narrow_step [of 16 l] bit_narrow_mask(2) by simp
  then have "narrowed 8 l (narrow 0x00ff00ff00ff00ff (narrow 0x0000ffff0000ffff (narrow 0x00000000ffffffff u)))"
    using narrow_step [of 8 l] bit_narrow_mask(3) by simp
  then have "narrowed 4 l (narrow 0x0f0f0f0f0f0f0f0f (narrow 0x00ff00ff00ff00ff
      (narrow 0x0000ffff0000ffff (narrow 0x00000000ffffffff u))))"
    using narrow_step [of 4 l] bit_narrow_mask(4) by simp
  then have "narrowed 2 l (narrow 0x3333333333333333 (narrow 0x0f0f0f0f0f0f0f0f (narrow 0x00ff00ff00ff00ff
      (narrow 0x0000ffff0000ffff (narrow 0x00000000ffffffff u)))))"
    using narrow_step [of 2 l] bit_narrow_mask(5) by simp
  then have "narrowed 1 l (gu_lowest_set_bit u)"
    unfolding gu_lowest_set_bit_def using narrow_step [of 1 l] bit_narrow_mask(6) by simp
  then show ?thesis
    using l by (intro bit_word_eqI) (auto simp: narrowed_def bit_simps)
qed

subsection \<open>Two's complement\<close>

lemma sint_uint:
  fixes u :: "'a::len word"
  shows "sint u = (if uint u < 2 ^ (LENGTH('a) - 1) then uint u else uint u - 2 ^ LENGTH('a))"
proof -
  have l: "(2 :: int) ^ LENGTH('a) = 2 * 2 ^ (LENGTH('a) - 1)"
    by (metis One_nat_def Suc_pred len_gt_0 power_Suc)
  have b: "0 \<le> uint u" "uint u < 2 ^ LENGTH('a)" by simp_all
  have s: "sint u = signed_take_bit (LENGTH('a) - 1) (uint u)"
    by (simp add: sint_uint)
  show ?thesis
  proof (cases "uint u < 2 ^ (LENGTH('a) - 1)")
    case True
    then have "signed_take_bit (LENGTH('a) - 1) (uint u) = uint u"
      using b(1) by (intro signed_take_bit_int_eq_self) (simp_all add: order_trans [of _ 0])
    with True s show ?thesis by simp
  next
    case False
    have "signed_take_bit (LENGTH('a) - 1) (uint u) = signed_take_bit (LENGTH('a) - 1) (uint u - 2 ^ LENGTH('a))"
      by (rule signed_take_bit_eq_iff_take_bit_eq [THEN iffD2])
        (simp add: take_bit_eq_mod mod_diff_eq [symmetric])
    also have "\<dots> = uint u - 2 ^ LENGTH('a)"
      using False b l by (intro signed_take_bit_int_eq_self) simp_all
    finally show ?thesis using False s by simp
  qed
qed

lemma decode_2c:
  assumes "0 \<le> u" and "u < 2 * h"
  shows "GU_DECODE_2C u (2 * h - 1) (h - 1) (- h) = Some (if u < h then u else u - 2 * h)"
  using assms by (auto simp: GU_DECODE_2C_def)

subsection \<open>Properties\<close>

text \<open>Decoding two's complement: at each of the four widths the decoder returns the signed
  value of the word and never raises an exception, not even for the most negative number.\<close>

theorem decode_2c_signed:
  "gu_decode_2c8 a = Some (sint a) \<and> gu_decode_2c16 b = Some (sint b) \<and>
   gu_decode_2c32 c = Some (sint c) \<and> gu_decode_2c64 d = Some (sint d)"
proof (intro conjI)
  show "gu_decode_2c8 a = Some (sint a)"
    using decode_2c [of "uint a" "0x80"] uint_lt2p [of a] by (simp add: gu_decode_2c8_def sint_uint)
  show "gu_decode_2c16 b = Some (sint b)"
    using decode_2c [of "uint b" "0x8000"] uint_lt2p [of b] by (simp add: gu_decode_2c16_def sint_uint)
  show "gu_decode_2c32 c = Some (sint c)"
    using decode_2c [of "uint c" "0x80000000"] uint_lt2p [of c]
    by (simp add: gu_decode_2c32_def sint_uint)
  show "gu_decode_2c64 d = Some (sint d)"
    using decode_2c [of "uint d" "0x8000000000000000"] uint_lt2p [of d]
    by (simp add: gu_decode_2c64_def sint_uint)
qed

text \<open>Aligning forward: for every power of two below \<open>2 ^ 32\<close> the precondition of
  \<open>gu_align_forward\<close> holds and, away from the end of the address space, the result is the least
  multiple of the alignment that is not below the address.\<close>

theorem align_forward_least:
  assumes "k < 32" and "uint addr + 2 ^ k \<le> 2 ^ 64"
  shows "\<exists>r. gu_align_forward addr (2 ^ k) = Done r \<and> 2 ^ k dvd uint r \<and> uint addr \<le> uint r \<and>
    (\<forall>m. 2 ^ k dvd m \<and> uint addr \<le> m \<longrightarrow> uint r \<le> m)"
proof -
  let ?p = "2 ^ k :: int" and ?a = "uint addr"
  obtain r where r: "gu_align_forward addr (2 ^ k) = Done r" "uint r = (?a + ?p - 1) div ?p * ?p"
    using align_forward_uint [OF assms] by blast
  have p: "0 < ?p" by simp
  have "(?a + ?p - 1) div ?p * ?p + (?a + ?p - 1) mod ?p = ?a + ?p - 1"
    by (rule div_mult_mod_eq)
  moreover have "(?a + ?p - 1) mod ?p < ?p" by simp
  ultimately have ge: "?a \<le> uint r" and lt: "uint r \<le> ?a + ?p - 1"
    using r(2) pos_mod_sign [OF p, of "?a + ?p - 1"] by linarith+
  have "uint r \<le> m" if "?p dvd m" "?a \<le> m" for m
  proof -
    obtain q where q: "m = ?p * q" by (rule dvdE [OF \<open>?p dvd m\<close>])
    have "(?a + ?p - 1) div ?p \<le> (m + ?p - 1) div ?p"
      using that(2) p by (intro zdiv_mono1) simp_all
    also have "\<dots> = q"
      using p by (simp add: q add_diff_eq [symmetric] div_pos_pos_trivial)
    finally show ?thesis using r(2) q p by (simp add: mult.commute)
  qed
  with r ge show ?thesis by auto
qed

theorem align_forward_least_witness:
  "\<exists>r. gu_align_forward 13 8 = Done r \<and> 8 dvd uint r \<and> 13 \<le> uint r \<and>
    (\<forall>m. 8 dvd m \<and> 13 \<le> m \<longrightarrow> uint r \<le> m)"
  using align_forward_least [of 3 13] by simp

lemma tagged_parts:
  assumes "p AND 7 = 0" and "tag < 8"
  shows "gu_tagged p tag = Done (p OR tag)" and "gu_tagged_tag (p OR tag) = tag" and "gu_tagged_ptr (p OR tag) = Done p"
proof -
  have m: "(7 :: u64) = mask 3" by (simp add: mask_eq_exp_minus_1)
  have b: "gu_align_backward a 8 = Done (a AND NOT (mask 3))" for a
    using align_backward_power [of 3] by simp
  have pb: "\<not> bit p n" if "n < 3" for n
  proof
    assume "bit p n"
    with that have "bit (p AND mask 3) n" by (simp add: bit_simps)
    with assms(1) show False by (simp add: m)
  qed
  have tb: "\<not> bit tag n" if "3 \<le> n" for n
  proof -
    have "uint tag < 8" using assms(2) by (simp add: word_less_alt)
    then have "uint tag = take_bit 3 (uint tag)" by (simp add: take_bit_int_eq_self)
    then have "\<not> bit (uint tag) n" using that by (metis bit_take_bit_iff not_le)
    then show ?thesis by (auto simp: bit_uint_iff dest: bit_imp_le_length)
  qed
  have pl: "3 \<le> n" if "bit p n" for n using pb that by (meson not_le)
  have tl: "n < 3" if "bit tag n" for n using tb that by (meson not_le)
  have "p AND NOT (mask 3) = p"
    by (rule bit_word_eqI) (use pl in \<open>auto simp: bit_simps not_less\<close>)
  then show "gu_tagged p tag = Done (p OR tag)"
    using assms(2) by (simp add: gu_tagged_def b)
  have "(p OR tag) AND mask 3 = tag"
    by (rule bit_word_eqI) (auto simp: bit_simps not_less dest: pl tl)
  then show "gu_tagged_tag (p OR tag) = tag" by (simp add: gu_tagged_tag_def m)
  have "(p OR tag) AND NOT (mask 3) = p"
    by (rule bit_word_eqI) (auto simp: bit_simps not_less dest: pl tl)
  then show "gu_tagged_ptr (p OR tag) = Done p" by (simp add: gu_tagged_ptr_def b)
qed

text \<open>A tagged pointer gives back its parts: for a word-aligned address and a tag below 8,
  building it does not fail and both the tag and the address are recovered.\<close>

theorem tagged_roundtrip:
  assumes "p AND 7 = 0" and "tag < 8"
  shows "\<exists>t. gu_tagged p tag = Done t \<and> gu_tagged_tag t = tag \<and> gu_tagged_ptr t = Done p"
  using tagged_parts [OF assms] by blast

theorem tagged_roundtrip_witness:
  "\<exists>t. gu_tagged 48 5 = Done t \<and> gu_tagged_tag t = 5 \<and> gu_tagged_ptr t = Done 48"
  by (rule tagged_roundtrip) simp_all

end
