(* ===== verification/Pool.thy ===== *)
theory Pool
  imports Mem Bits
begin

text \<open>
  \<open>gu/mem.c\<close>: memory pools. A pool hands out memory from its current buffer, aligned requests from the
  left and byte requests from the right, and gets a new buffer when the current one is
  exhausted; a large request gets a block of its own. Everything is released at once with the pool.

  The heap below the pools is a set of live blocks with their sizes: \<open>malloc\<close> returns a block
  that was never live before, \<open>free\<close> ends the life of a block, and freeing anything else is a fault.
  An address is a block and an offset. Blocks start at addresses aligned for every type, as
  \<open>malloc\<close> guarantees, so that the alignment of an offset is the alignment of the address. Running out
  of memory ends the program and is not modelled. Sizes are \<open>size_t\<close> values (integers modulo
  \<open>2 ^ 64\<close>), the edges of a pool are \<open>uint16_t\<close> values.
\<close>

subsection \<open>State\<close>

type_synonym block = nat
type_synonym addr = "block \<times> int"

record heap =
  blocks :: "block \<rightharpoonup> int"
  next_block :: block

text \<open>\<open>pool_block\<close> is the block that the pool itself and its initial buffer are in; the flag
  \<open>GU_POOL_LOCAL\<close> is \<open>pool_local\<close>; finalizers are known by a number.\<close>

record GuPool =
  pool_block :: block
  curr_buf :: block
  chunks :: "block list"
  finalizers :: "nat list"
  pool_local :: bool
  left_edge :: int
  right_edge :: int
  curr_size :: int

text \<open>\<open>sizeof(GuPool)\<close> and the offset of its buffer, the same for \<open>GuMemChunk\<close>, and the alignment of
  \<open>GuMaxAlign\<close>.\<close>

definition sizeof_GuPool :: int where "sizeof_GuPool = 32"
definition sizeof_GuMemChunk :: int where "sizeof_GuMemChunk = 8"
definition alignof_GuMaxAlign :: int where "alignof_GuMaxAlign = 16"

subsection \<open>Operations\<close>

definition new_block :: "int \<Rightarrow> heap \<Rightarrow> block \<times> heap" where
  "new_block sz h =
     (next_block h, h\<lparr>blocks := (blocks h)(next_block h \<mapsto> sz), next_block := next_block h + 1\<rparr>)"

definition gu_mem_free :: "block \<Rightarrow> heap \<Rightarrow> heap run" where
  "gu_mem_free b h =
     (if blocks h b = None then Fault Bad_Free else Done (h\<lparr>blocks := (blocks h)(b := None)\<rparr>))"

definition gu_init_pool :: "block \<Rightarrow> int \<Rightarrow> GuPool run" where
  "gu_init_pool b sz =
     gu_require (sz \<ge> sizeof_GuPool)
      (Done \<lparr>pool_block = b, curr_buf = b, chunks = [], finalizers = [], pool_local = False,
             left_edge = sizeof_GuPool, right_edge = sz mod 2 ^ 16, curr_size = sz mod 2 ^ 16\<rparr>)"

definition gu_local_pool :: "block \<Rightarrow> int \<Rightarrow> GuPool run" where
  "gu_local_pool b sz = bindR (gu_init_pool b sz) (\<lambda>p. Done (p\<lparr>pool_local := True\<rparr>))"

definition gu_new_pool :: "heap \<Rightarrow> (GuPool \<times> heap) run" where
  "gu_new_pool h =
     (let sz = max sizeof_GuPool (sizeof_GuPool + gu_mem_pool_initial_size)
      in bindR (gu_mem_buf_alloc sz) (\<lambda>n.
         let (b, h') = new_block n h in bindR (gu_init_pool b n) (\<lambda>p. Done (p, h'))))"

definition gu_pool_expand :: "GuPool \<Rightarrow> int \<Rightarrow> heap \<Rightarrow> (GuPool \<times> heap) run" where
  "gu_pool_expand p req h =
     (let real_req = max req (min (curr_size p + 1) gu_mem_chunk_max_size)
      in gu_assert (real_req \<ge> sizeof_GuMemChunk)
         (bindR (gu_mem_buf_alloc real_req) (\<lambda>n.
            let (b, h') = new_block n h;
                p' = p\<lparr>chunks := b # chunks p, curr_buf := b, left_edge := sizeof_GuMemChunk,
                       right_edge := n mod 2 ^ 16, curr_size := n mod 2 ^ 16\<rparr>
            in gu_assert (right_edge p' = n) (Done (p', h')))))"

definition align_forward :: "int \<Rightarrow> int \<Rightarrow> int run" where
  "align_forward pos a = bindR (gu_align_forward (word_of_int pos) (word_of_int a)) (\<lambda>r. Done (uint r))"

definition gu_mem_advance :: "int \<Rightarrow> int \<Rightarrow> int \<Rightarrow> int \<Rightarrow> int \<Rightarrow> int run" where
  "gu_mem_advance old_pos pre_align pre_size al sz =
     bindR (align_forward old_pos pre_align) (\<lambda>p.
     bindR (align_forward ((p + pre_size) mod 2 ^ 64) al) (\<lambda>q. Done ((q + sz) mod 2 ^ 64)))"

definition gu_pool_malloc_aligned ::
  "GuPool \<Rightarrow> int \<Rightarrow> int \<Rightarrow> int \<Rightarrow> int \<Rightarrow> heap \<Rightarrow> (addr \<times> GuPool \<times> heap) run" where
  "gu_pool_malloc_aligned p pre_align pre_size al sz h =
     gu_require (sz \<le> gu_mem_max_shared_alloc)
      (bindR (gu_mem_advance (left_edge p) pre_align pre_size al sz) (\<lambda>pos.
       bindR
         (if pos > right_edge p then
            bindR (gu_mem_advance sizeof_GuMemChunk pre_align pre_size al sz) (\<lambda>pos.
            bindR (gu_pool_expand p pos h) (\<lambda>(p, h).
            gu_assert (pos \<le> right_edge p) (Done (pos, p, h))))
          else Done (pos, p, h))
         (\<lambda>(pos, p, h).
            Done ((curr_buf p, pos - sz), p\<lparr>left_edge := pos mod 2 ^ 16\<rparr>, h))))"

definition gu_pool_avail :: "GuPool \<Rightarrow> int" where
  "gu_pool_avail p = (right_edge p - left_edge p) mod 2 ^ 64"

definition gu_pool_malloc_unaligned :: "GuPool \<Rightarrow> int \<Rightarrow> heap \<Rightarrow> (addr \<times> GuPool \<times> heap) run" where
  "gu_pool_malloc_unaligned p sz h =
     bindR
       (if sz > gu_pool_avail p then
          bindR (gu_pool_expand p ((sizeof_GuMemChunk + sz) mod 2 ^ 64) h) (\<lambda>(p, h).
            gu_assert (sz \<le> gu_pool_avail p) (Done (p, h)))
        else Done (p, h))
       (\<lambda>(p, h).
          let p' = p\<lparr>right_edge := (right_edge p - sz) mod 2 ^ 16\<rparr>
          in Done ((curr_buf p', right_edge p'), p', h))"

definition gu_malloc_prefixed ::
  "GuPool \<Rightarrow> int \<Rightarrow> int \<Rightarrow> int \<Rightarrow> int \<Rightarrow> heap \<Rightarrow> (addr \<times> GuPool \<times> heap) run" where
  "gu_malloc_prefixed p pre_align0 pre_size al0 sz h =
     (let pre_align = (if pre_align0 = 0 then alignof_GuMaxAlign else pre_align0);
          al = (if al0 = 0 then alignof_GuMaxAlign else al0)
      in bindR (gu_mem_advance sizeof_GuMemChunk pre_align pre_size al sz) (\<lambda>full_size.
           if full_size > gu_mem_max_shared_alloc then
             let (b, h') = new_block full_size h
             in Done ((b, full_size - sz), p\<lparr>chunks := b # chunks p\<rparr>, h')
           else if pre_align = 1 \<and> al = 1 then
             bindR (gu_pool_malloc_unaligned p ((pre_size + sz) mod 2 ^ 64) h) (\<lambda>((b, off), p', h').
               Done ((b, off + pre_size), p', h'))
           else gu_pool_malloc_aligned p pre_align pre_size al sz h))"

definition gu_malloc_aligned :: "GuPool \<Rightarrow> int \<Rightarrow> int \<Rightarrow> heap \<Rightarrow> (addr \<times> GuPool \<times> heap) run" where
  "gu_malloc_aligned p sz al h =
     gu_malloc_prefixed p 1 0
       (if al = 0 then min (uint (gu_lowest_set_bit (word_of_int sz))) alignof_GuMaxAlign else al) sz h"

definition gu_malloc :: "GuPool \<Rightarrow> int \<Rightarrow> heap \<Rightarrow> (addr \<times> GuPool \<times> heap) run" where
  "gu_malloc p sz h = gu_malloc_aligned p sz 0 h"

definition gu_malloc_slice :: "GuPool \<Rightarrow> int \<Rightarrow> heap \<Rightarrow> ((addr \<times> int) \<times> GuPool \<times> heap) run" where
  "gu_malloc_slice p sz h = bindR (gu_malloc p sz h) (\<lambda>(a, p', h'). Done ((a, sz), p', h'))"

text \<open>A \<open>GuFinalizerNode\<close> has 16 bytes with alignment 8.\<close>

definition gu_pool_finally :: "GuPool \<Rightarrow> nat \<Rightarrow> heap \<Rightarrow> (GuPool \<times> heap) run" where
  "gu_pool_finally p fin h =
     bindR (gu_malloc_aligned p 16 8 h) (\<lambda>(node, p', h').
       Done (p'\<lparr>finalizers := fin # finalizers p'\<rparr>, h'))"

text \<open>The finalizers that are called, in their order, and the heap afterwards.\<close>

definition gu_pool_free :: "GuPool \<Rightarrow> heap \<Rightarrow> (nat list \<times> heap) run" where
  "gu_pool_free p h =
     bindR (foldR gu_mem_free (chunks p) h) (\<lambda>h1.
     bindR (if \<not> pool_local p then gu_mem_free (pool_block p) h1 else Done h1) (\<lambda>h2.
       Done (finalizers p, h2)))"

subsection \<open>Advancing a position\<close>

text \<open>The alignments that occur: the powers of two up to that of \<open>GuMaxAlign\<close>.\<close>

definition alignment :: "int \<Rightarrow> bool" where
  "alignment a \<longleftrightarrow> a \<in> {1, 2, 4, 8, 16}"

lemma alignmentE:
  assumes "alignment a"
  obtains k where "k < 32" and "a = 2 ^ k" and "0 < a" and "a \<le> 16"
proof -
  from assms have "a = 2 ^ 0 \<or> a = 2 ^ 1 \<or> a = 2 ^ 2 \<or> a = 2 ^ 3 \<or> a = 2 ^ 4"
    by (auto simp: alignment_def)
  with that [of 0] that [of 1] that [of 2] that [of 3] that [of 4] assms show thesis
    by (auto simp: alignment_def)
qed

lemma alignment_dvd: "alignment a \<Longrightarrow> alignment b \<Longrightarrow> a \<le> b \<Longrightarrow> a dvd b"
  by (auto simp: alignment_def)

lemma uint_small: "0 \<le> x \<Longrightarrow> x < 2 ^ 64 \<Longrightarrow> uint (word_of_int x :: u64) = x"
  by (simp add: unsigned_of_int take_bit_int_eq_self)

lemma align_forward_spec:
  assumes "alignment a" and "0 \<le> pos" and "pos < 2 ^ 60"
  shows "\<exists>r. align_forward pos a = Done r \<and> a dvd r \<and> pos \<le> r \<and> r < pos + a \<and> (a dvd pos \<longrightarrow> r = pos)"
proof -
  obtain k where k: "k < 32" "a = 2 ^ k" "0 < a" "a \<le> 16" using alignmentE [OF assms(1)] .
  have u: "uint (word_of_int pos :: u64) = pos" using assms(2,3) by (intro uint_small) simp_all
  obtain w where w: "gu_align_forward (word_of_int pos) (2 ^ k) = Done w"
    "uint w = (pos + a - 1) div a * a"
    using align_forward_uint [OF k(1), of "word_of_int pos"] u k(2,4) assms(3) by auto
  have "(pos + a - 1) div a * a + (pos + a - 1) mod a = pos + a - 1"
    by (rule div_mult_mod_eq)
  moreover have "0 \<le> (pos + a - 1) mod a" "(pos + a - 1) mod a < a"
    using k(3) by simp_all
  ultimately have "pos \<le> uint w" "uint w < pos + a" using w(2) by linarith+
  moreover have "uint w = pos" if "a dvd pos"
  proof -
    from that obtain q where "pos = a * q" by (rule dvdE)
    with w(2) k(3) show ?thesis
      by (simp add: add_diff_eq [symmetric] div_pos_pos_trivial)
  qed
  moreover have "a dvd uint w" using w(2) by simp
  moreover have "align_forward pos a = Done (uint w)"
    using w(1) k(2) by (simp add: align_forward_def)
  ultimately show ?thesis by blast
qed

lemma mem_advance_spec:
  assumes "alignment pa" and "alignment al"
    and "0 \<le> pos" "0 \<le> pre" "0 \<le> sz" "pos + pre + sz < 2 ^ 59"
  shows "\<exists>r. gu_mem_advance pos pa pre al sz = Done r \<and> al dvd (r - sz) \<and> pos + pre + sz \<le> r \<and>
     r \<le> pos + pre + sz + 30 \<and> (pa dvd pre \<longrightarrow> pa dvd (r - sz - pre)) \<and>
     (pa = 1 \<and> al = 1 \<longrightarrow> r = pos + pre + sz)"
proof -
  have a16: "0 < pa" "pa \<le> 16" "0 < al" "al \<le> 16" using assms(1,2) by (auto simp: alignment_def)
  obtain p where p: "align_forward pos pa = Done p" "pa dvd p" "pos \<le> p" "p < pos + pa"
    using align_forward_spec [OF assms(1,3)] assms by auto
  have m1: "(p + pre) mod 2 ^ 64 = p + pre" using p assms a16 by simp
  obtain q where q: "align_forward (p + pre) al = Done q" "al dvd q" "p + pre \<le> q" "q < p + pre + al"
    "al dvd p + pre \<longrightarrow> q = p + pre"
    using align_forward_spec [OF assms(2), of "p + pre"] p assms a16 by auto
  have m2: "(q + sz) mod 2 ^ 64 = q + sz" using p q assms a16 by simp
  have "pa dvd q - pre" if "pa dvd pre"
  proof (cases "pa \<le> al")
    case True
    then have "pa dvd q" using alignment_dvd [OF assms(1,2)] q(2) dvd_trans by blast
    with that show ?thesis by simp
  next
    case False
    then have "al dvd p + pre"
      using alignment_dvd [OF assms(2,1)] p(2) that by (meson dvd_add dvd_trans linear)
    with q(5) p(2) show ?thesis by simp
  qed
  with p q m1 m2 a16 show ?thesis
    by (intro exI [of _ "q + sz"]) (auto simp: gu_mem_advance_def)
qed

subsection \<open>The pool invariant\<close>

type_synonym range = "block \<times> int \<times> int"

definition apart :: "range \<Rightarrow> range \<Rightarrow> bool" where
  "apart r s \<longleftrightarrow>
     (case r of (b, lo, hi) \<Rightarrow> case s of (b', lo', hi') \<Rightarrow> b \<noteq> b' \<or> hi \<le> lo' \<or> hi' \<le> lo)"

definition header :: "GuPool \<Rightarrow> block \<Rightarrow> int" where
  "header p b = (if b = pool_block p then sizeof_GuPool else sizeof_GuMemChunk)"

definition in_pool :: "GuPool \<Rightarrow> heap \<Rightarrow> range \<Rightarrow> bool" where
  "in_pool p h r \<longleftrightarrow>
     (case r of (b, lo, hi) \<Rightarrow>
        b \<in> set (pool_block p # chunks p) \<and> header p b \<le> lo \<and> lo \<le> hi \<and>
        (\<exists>n. blocks h b = Some n \<and> hi \<le> n) \<and>
        (b = curr_buf p \<longrightarrow> hi \<le> left_edge p \<or> right_edge p \<le> lo))"

text \<open>\<open>A\<close> lists the ranges of memory that the pool has handed out: they lie in live blocks of the pool,
  outside the headers and the free part of the current buffer, and no two of them overlap.\<close>

definition pool_wf :: "GuPool \<Rightarrow> heap \<Rightarrow> range list \<Rightarrow> bool" where
  "pool_wf p h A \<longleftrightarrow>
     distinct (pool_block p # chunks p) \<and> set (pool_block p # chunks p) \<subseteq> dom (blocks h) \<and>
     (\<forall>b \<ge> next_block h. blocks h b = None) \<and>
     curr_buf p \<in> set (pool_block p # chunks p) \<and>
     blocks h (curr_buf p) = Some (curr_size p) \<and> curr_size p < 2 ^ 16 \<and>
     header p (curr_buf p) \<le> left_edge p \<and> left_edge p \<le> right_edge p \<and> right_edge p \<le> curr_size p \<and>
     (\<forall>r \<in> set A. in_pool p h r) \<and> sorted_wrt apart A"

lemmas pool_consts = sizeof_GuPool_def sizeof_GuMemChunk_def alignof_GuMaxAlign_def
  gu_mem_chunk_max_size_def gu_mem_max_shared_alloc_def gu_mem_pool_initial_size_def

lemma pool_wf_next: "pool_wf p h A \<Longrightarrow> next_block h \<notin> set (pool_block p # chunks p)"
  unfolding pool_wf_def by (metis domIff le_refl subsetD)

text \<open>Taking from the left or from the right of the current buffer.\<close>

lemma take_left:
  assumes "pool_wf p h A" and "left_edge p \<le> lo" "lo \<le> hi" "hi \<le> right_edge p"
  shows "pool_wf (p\<lparr>left_edge := hi mod 2 ^ 16\<rparr>) h ((curr_buf p, lo, hi) # A)"
proof -
  have "hi mod 2 ^ 16 = hi"
    using assms by (auto simp: pool_wf_def header_def pool_consts split: if_splits)
  moreover have "apart (curr_buf p, lo, hi) r" if "r \<in> set A" for r
    using assms that by (fastforce simp: pool_wf_def in_pool_def apart_def)
  ultimately show ?thesis
    using assms by (fastforce simp: pool_wf_def in_pool_def header_def)
qed

lemma take_right:
  assumes "pool_wf p h A" and "left_edge p \<le> lo" "lo \<le> right_edge p"
  shows "pool_wf (p\<lparr>right_edge := lo mod 2 ^ 16\<rparr>) h ((curr_buf p, lo, right_edge p) # A)"
proof -
  have "lo mod 2 ^ 16 = lo"
    using assms by (auto simp: pool_wf_def header_def pool_consts split: if_splits)
  moreover have "apart (curr_buf p, lo, right_edge p) r" if "r \<in> set A" for r
    using assms that by (fastforce simp: pool_wf_def in_pool_def apart_def)
  ultimately show ?thesis
    using assms by (fastforce simp: pool_wf_def in_pool_def header_def)
qed

text \<open>A new block in the pool.\<close>

lemma new_block_wf:
  assumes "pool_wf p h A" and "new_block n h = (b, h')" and "sizeof_GuMemChunk \<le> n"
  shows "pool_wf (p\<lparr>chunks := b # chunks p\<rparr>) h' A"
    and "n < 2 ^ 16 \<Longrightarrow> pool_wf (p\<lparr>chunks := b # chunks p, curr_buf := b, left_edge := sizeof_GuMemChunk,
        right_edge := n, curr_size := n\<rparr>) h' A"
    and "b \<noteq> pool_block p" and "b \<notin> set (chunks p)" and "blocks h' b = Some n"
    and "\<And>r. r \<in> set A \<Longrightarrow> fst r \<noteq> b" and "curr_buf p \<noteq> b"
proof -
  have b: "b = next_block h" "h' = h\<lparr>blocks := (blocks h)(b \<mapsto> n), next_block := b + 1\<rparr>"
    using assms(2) by (auto simp: new_block_def)
  have nb: "b \<notin> set (pool_block p # chunks p)" using pool_wf_next [OF assms(1)] b(1) by simp
  then show "b \<noteq> pool_block p" "b \<notin> set (chunks p)" by auto
  show "blocks h' b = Some n" by (simp add: b(2))
  have r: "fst r \<in> set (pool_block p # chunks p)" if "r \<in> set A" for r
    using assms(1) that by (auto simp: pool_wf_def in_pool_def)
  then show nbA: "\<And>r. r \<in> set A \<Longrightarrow> fst r \<noteq> b" using nb by blast
  show cb: "curr_buf p \<noteq> b" using assms(1) nb by (auto simp: pool_wf_def)
  have ip: "in_pool p h r" if "r \<in> set A" for r
    using assms(1) that by (simp add: pool_wf_def)
  have fresh: "\<forall>c \<ge> next_block h'. blocks h' c = None"
    using assms(1) b by (simp add: pool_wf_def)
  have sub: "set (pool_block p # b # chunks p) \<subseteq> dom (blocks h')"
    using assms(1) by (auto simp: pool_wf_def b(2))
  have curr: "blocks h' (curr_buf p) = Some (curr_size p)"
    using assms(1) cb by (simp add: pool_wf_def b(2))
  have ap: "sorted_wrt apart A" using assms(1) by (simp add: pool_wf_def)
  have "in_pool (p\<lparr>chunks := b # chunks p\<rparr>) h' r" if "r \<in> set A" for r
    using ip [OF that] nbA [OF that] by (cases r) (simp add: in_pool_def header_def b(2))
  then show "pool_wf (p\<lparr>chunks := b # chunks p\<rparr>) h' A"
    using assms(1) nb fresh sub curr ap by (simp add: pool_wf_def header_def) blast
  have "in_pool (p\<lparr>chunks := b # chunks p, curr_buf := b, left_edge := sizeof_GuMemChunk,
        right_edge := n, curr_size := n\<rparr>) h' r" if "r \<in> set A" for r
    using ip [OF that] nbA [OF that] by (cases r) (simp add: in_pool_def header_def b(2))
  then show "pool_wf (p\<lparr>chunks := b # chunks p, curr_buf := b, left_edge := sizeof_GuMemChunk,
        right_edge := n, curr_size := n\<rparr>) h' A" if "n < 2 ^ 16"
    using assms(1,3) nb fresh sub ap that by (simp add: pool_wf_def header_def b(2))
qed

lemma pool_expand_spec:
  assumes "pool_wf p h A" and "0 \<le> req" and "req \<le> 2 ^ 10"
  shows "\<exists>p' h'. gu_pool_expand p req h = Done (p', h') \<and> pool_wf p' h' A \<and>
    left_edge p' = sizeof_GuMemChunk \<and> req \<le> right_edge p' \<and> curr_buf p' \<noteq> pool_block p'"
proof -
  define rr where "rr = max req (min (curr_size p + 1) gu_mem_chunk_max_size)"
  have "8 \<le> curr_size p" using assms(1) by (auto simp: pool_wf_def header_def pool_consts split: if_splits)
  then have rr: "8 \<le> rr" "req \<le> rr" "rr \<le> 8192"
    using assms(3) by (auto simp: rr_def pool_consts)
  then obtain n where n: "gu_mem_buf_alloc rr = Done n" "rr \<le> n" "n \<le> 2 * rr + 48"
    using buf_alloc_bounds [of rr] by auto
  then have n16: "n mod 65536 = n" "n < 2 ^ 16" using rr by simp_all
  obtain b h' where nb: "new_block n h = (b, h')" by (cases "new_block n h")
  define p' where "p' = p\<lparr>chunks := b # chunks p, curr_buf := b, left_edge := sizeof_GuMemChunk,
    right_edge := n, curr_size := n\<rparr>"
  have "pool_wf p' h' A"
    unfolding p'_def using new_block_wf(2) [OF assms(1) nb _ n16(2)] rr(1) n(2) by (simp add: pool_consts)
  moreover have "b \<noteq> pool_block p"
    using new_block_wf(3) [OF assms(1) nb] rr(1) n(2) by (simp add: pool_consts)
  moreover have "gu_pool_expand p req h = Done (p', h')"
    unfolding gu_pool_expand_def rr_def [symmetric] Let_def
    using rr n n16 nb by (simp add: p'_def pool_consts)
  ultimately show ?thesis using rr(2) n(2) by (simp add: p'_def)
qed

lemma malloc_unaligned_spec:
  assumes "pool_wf p h A" and "0 \<le> sz" and "sz \<le> 512"
  shows "\<exists>off p' h'. gu_pool_malloc_unaligned p sz h = Done ((curr_buf p', off), p', h') \<and>
    pool_wf p' h' ((curr_buf p', off, off + sz) # A)"
proof -
  have avail: "gu_pool_avail q = right_edge q - left_edge q" if "pool_wf q g A" for q g
    using that by (auto simp: pool_wf_def gu_pool_avail_def header_def pool_consts split: if_splits)
  obtain q g where q: "(if sz > gu_pool_avail p then
          bindR (gu_pool_expand p ((sizeof_GuMemChunk + sz) mod 2 ^ 64) h) (\<lambda>(p, h).
            gu_assert (sz \<le> gu_pool_avail p) (Done (p, h)))
        else Done (p, h)) = Done (q, g)" "pool_wf q g A" "sz \<le> right_edge q - left_edge q"
  proof (cases "sz > gu_pool_avail p")
    case False
    with assms(1) avail [OF assms(1)] that show thesis by simp
  next
    case True
    have "(sizeof_GuMemChunk + sz) mod 2 ^ 64 = 8 + sz"
      using assms(2,3) by (simp add: pool_consts)
    with pool_expand_spec [OF assms(1), of "8 + sz"] assms(2,3) obtain q g where
      e: "gu_pool_expand p ((sizeof_GuMemChunk + sz) mod 2 ^ 64) h = Done (q, g)" "pool_wf q g A"
      "left_edge q = 8" "8 + sz \<le> right_edge q"
      by (auto simp: pool_consts)
    with True avail [OF e(2)] that show thesis by simp
  qed
  define off where "off = right_edge q - sz"
  have "pool_wf (q\<lparr>right_edge := off mod 2 ^ 16\<rparr>) g ((curr_buf q, off, right_edge q) # A)"
    using q assms(2) by (intro take_right) (auto simp: off_def)
  moreover have "off mod 2 ^ 16 = off"
    using q(2,3) assms(2) by (auto simp: off_def pool_wf_def header_def pool_consts split: if_splits)
  ultimately show ?thesis
    using q(1) by (simp add: gu_pool_malloc_unaligned_def Let_def off_def)
qed

lemma malloc_aligned_spec:
  assumes "pool_wf p h A" and "alignment pa" and "alignment al" and "0 \<le> pre" and "0 \<le> sz"
    and "pre + sz < 2 ^ 58" and "gu_mem_advance 8 pa pre al sz = Done full" and "full \<le> 512"
  shows "\<exists>off p' h'. gu_pool_malloc_aligned p pa pre al sz h = Done ((curr_buf p', off), p', h') \<and>
    pool_wf p' h' ((curr_buf p', off - pre, off + sz) # A) \<and> al dvd off \<and> (pa dvd pre \<longrightarrow> pa dvd off - pre)"
proof -
  have full: "8 + pre + sz \<le> full"
    using mem_advance_spec [OF assms(2,3) _ assms(4,5), of 8] assms(6,7) by auto
  obtain q g pos where q: "bindR (gu_mem_advance (left_edge p) pa pre al sz) (\<lambda>pos.
       if pos > right_edge p then
            bindR (gu_mem_advance sizeof_GuMemChunk pa pre al sz) (\<lambda>pos.
            bindR (gu_pool_expand p pos h) (\<lambda>(p, h).
            gu_assert (pos \<le> right_edge p) (Done (pos, p, h))))
          else Done (pos, p, h)) = Done (pos, q, g)" "pool_wf q g A" "pos \<le> right_edge q"
    "al dvd pos - sz" "left_edge q \<le> pos - sz - pre" "pa dvd pre \<longrightarrow> pa dvd (pos - sz - pre)"
  proof -
    have "0 \<le> left_edge p" "left_edge p < 2 ^ 16"
      using assms(1) by (auto simp: pool_wf_def header_def pool_consts split: if_splits)
    then obtain pos where pos: "gu_mem_advance (left_edge p) pa pre al sz = Done pos" "al dvd pos - sz"
      "left_edge p + pre + sz \<le> pos" "pa dvd pre \<longrightarrow> pa dvd (pos - sz - pre)"
      using mem_advance_spec [OF assms(2,3) _ assms(4,5), of "left_edge p"] assms(6) by auto
    show thesis
    proof (cases "pos > right_edge p")
      case False
      with pos assms(1) show thesis by (intro that [of pos p h]) auto
    next
      case True
      obtain q g where e: "gu_pool_expand p full h = Done (q, g)" "pool_wf q g A"
        "left_edge q = 8" "full \<le> right_edge q"
        using pool_expand_spec [OF assms(1), of full] full assms(4,5,8) by (auto simp: pool_consts)
      have f: "al dvd full - sz" "pa dvd pre \<longrightarrow> pa dvd (full - sz - pre)"
        using mem_advance_spec [OF assms(2,3) _ assms(4,5), of 8] assms(6,7) by auto
      with True pos e assms(7) full show thesis
        by (intro that [of full q g]) (auto simp: pool_consts)
    qed
  qed
  have "pool_wf (q\<lparr>left_edge := pos mod 2 ^ 16\<rparr>) g ((curr_buf q, pos - sz - pre, pos) # A)"
    using q assms(4,5) by (intro take_left) auto
  moreover have "gu_pool_malloc_aligned p pa pre al sz h =
      Done ((curr_buf q, pos - sz), q\<lparr>left_edge := pos mod 2 ^ 16\<rparr>, g)"
  proof -
    have "sz \<le> gu_mem_max_shared_alloc" using full assms(4,8) by (simp add: pool_consts)
    then show ?thesis
      unfolding gu_pool_malloc_aligned_def gu_require_def bindR_assoc [symmetric]
      by (simp only: q(1) if_True bindR.simps prod.case)
  qed
  ultimately show ?thesis
    using q(4,6) by (intro exI [of _ "pos - sz"] exI [of _ "q\<lparr>left_edge := pos mod 2 ^ 16\<rparr>"] exI [of _ g]) simp
qed

lemma own_block_wf:
  assumes "pool_wf p h A" and "new_block n h = (b, h')" and "8 \<le> lo" and "lo \<le> hi" and "hi \<le> n"
  shows "pool_wf (p\<lparr>chunks := b # chunks p\<rparr>) h' ((b, lo, hi) # A)"
proof -
  have n: "sizeof_GuMemChunk \<le> n" using assms by (simp add: pool_consts)
  note nb = new_block_wf [OF assms(1,2) n]
  have "apart (b, lo, hi) r" if "r \<in> set A" for r
    using nb(6) [OF that] by (cases r) (auto simp: apart_def)
  moreover have "in_pool (p\<lparr>chunks := b # chunks p\<rparr>) h' (b, lo, hi)"
    using nb(3,5,7) assms(3-5) by (simp add: in_pool_def header_def pool_consts)
  ultimately show ?thesis
    using nb(1) by (simp add: pool_wf_def)
qed

definition max_align :: "int \<Rightarrow> int" where
  "max_align a = (if a = 0 then 16 else a)"

lemma malloc_prefixed_spec:
  assumes "pool_wf p h A" and "a0 = 0 \<or> alignment a0" and "b0 = 0 \<or> alignment b0"
    and "0 \<le> pre" and "0 \<le> sz" and "pre + sz < 2 ^ 58"
  shows "\<exists>b off p' h'. gu_malloc_prefixed p a0 pre b0 sz h = Done ((b, off), p', h') \<and>
    pool_wf p' h' ((b, off - pre, off + sz) # A) \<and> max_align b0 dvd off \<and>
    (max_align a0 dvd pre \<longrightarrow> max_align a0 dvd off - pre)"
proof -
  define pa al where "pa = max_align a0" and "al = max_align b0"
  have al: "alignment pa" "alignment al"
    using assms(2,3) by (auto simp: pa_def al_def max_align_def alignment_def)
  have ma: "(if a0 = 0 then alignof_GuMaxAlign else a0) = pa" "(if b0 = 0 then alignof_GuMaxAlign else b0) = al"
    by (simp_all add: pa_def al_def max_align_def pool_consts)
  obtain full where f: "gu_mem_advance 8 pa pre al sz = Done full" "al dvd full - sz"
    "8 + pre + sz \<le> full" "pa dvd pre \<longrightarrow> pa dvd (full - sz - pre)"
    "pa = 1 \<and> al = 1 \<longrightarrow> full = 8 + pre + sz"
    using mem_advance_spec [OF al _ assms(4,5), of 8] assms(6) by auto
  note d = gu_malloc_prefixed_def [of p a0 pre b0 sz h, unfolded ma Let_def]
  consider "full > 512" | "full \<le> 512" "pa = 1" "al = 1" | "full \<le> 512" "\<not> (pa = 1 \<and> al = 1)" by linarith
  then show ?thesis
  proof cases
    case 1
    obtain b h' where nb: "new_block full h = (b, h')" by (cases "new_block full h")
    have "pool_wf (p\<lparr>chunks := b # chunks p\<rparr>) h' ((b, full - sz - pre, full) # A)"
      using own_block_wf [OF assms(1) nb] f(3) assms(4,5) by simp
    with 1 f nb show ?thesis
      by (simp add: d pool_consts pa_def al_def)
  next
    case 2
    have m: "(pre + sz) mod 2 ^ 64 = pre + sz" using assms(4-6) by simp
    obtain off p' h' where u: "gu_pool_malloc_unaligned p (pre + sz) h = Done ((curr_buf p', off), p', h')"
      "pool_wf p' h' ((curr_buf p', off, off + (pre + sz)) # A)"
      using malloc_unaligned_spec [OF assms(1), of "pre + sz"] 2 f(3) assms(4,5) by auto
    have "gu_malloc_prefixed p a0 pre b0 sz h = Done ((curr_buf p', off + pre), p', h')"
      using 2 f(1) u(1) m by (simp add: d pool_consts)
    with u(2) 2(2,3) show ?thesis
      by (simp add: pa_def [symmetric] al_def [symmetric] add.assoc)
  next
    case 3
    obtain off p' h' where u: "gu_pool_malloc_aligned p pa pre al sz h = Done ((curr_buf p', off), p', h')"
      "pool_wf p' h' ((curr_buf p', off - pre, off + sz) # A)" "al dvd off" "pa dvd pre \<longrightarrow> pa dvd off - pre"
      using malloc_aligned_spec [OF assms(1) al assms(4-6) f(1) 3(1)] by blast
    have "gu_malloc_prefixed p a0 pre b0 sz h = Done ((curr_buf p', off), p', h')"
      using 3 f(1) u(1) by (auto simp add: d pool_consts)
    with u show ?thesis
      by (auto simp: pa_def [symmetric] al_def [symmetric])
  qed
qed

subsection \<open>The heap around a pool\<close>

text \<open>The pool lives in blocks that are not live in \<open>h0\<close>, and every other block is as in \<open>h0\<close>.\<close>

definition pool_heap :: "heap \<Rightarrow> GuPool \<Rightarrow> heap \<Rightarrow> bool" where
  "pool_heap h0 p h \<longleftrightarrow>
     next_block h0 \<le> next_block h \<and> (\<forall>c \<in> set (pool_block p # chunks p). next_block h0 \<le> c) \<and>
     (\<forall>c. c \<notin> set (pool_block p # chunks p) \<longrightarrow> blocks h c = blocks h0 c)"

lemma pool_expand_heap:
  "gu_pool_expand p req h = Done (p', h') \<Longrightarrow> pool_heap h0 p h \<Longrightarrow>
     pool_heap h0 p' h' \<and> finalizers p' = finalizers p \<and> pool_local p' = pool_local p"
  by (auto simp: gu_pool_expand_def Let_def run_simps new_block_def pool_heap_def)

lemma pool_heap_edges [simp]:
  "pool_heap h0 (p\<lparr>left_edge := x\<rparr>) h = pool_heap h0 p h"
  "pool_heap h0 (p\<lparr>right_edge := x\<rparr>) h = pool_heap h0 p h"
  "pool_heap h0 (p\<lparr>finalizers := fs\<rparr>) h = pool_heap h0 p h"
  by (simp_all add: pool_heap_def)

lemma malloc_prefixed_heap:
  assumes "gu_malloc_prefixed p a0 pre b0 sz h = Done (a, p', h')" and "pool_heap h0 p h"
  shows "pool_heap h0 p' h' \<and> finalizers p' = finalizers p \<and> pool_local p' = pool_local p"
proof -
  have u: "pool_heap h0 p' h' \<and> finalizers p' = finalizers p \<and> pool_local p' = pool_local p"
    if "gu_pool_malloc_unaligned p n h = Done (a, p', h')" for n a
    using that assms(2) pool_expand_heap
    by (auto simp: gu_pool_malloc_unaligned_def Let_def run_simps split: if_splits)
  have al: "pool_heap h0 p' h' \<and> finalizers p' = finalizers p \<and> pool_local p' = pool_local p"
    if "gu_pool_malloc_aligned p pa pre al sz h = Done (a, p', h')" for pa al
    using that assms(2) pool_expand_heap
    by (auto simp: gu_pool_malloc_aligned_def run_simps split: if_splits)
  obtain pa al where d: "gu_malloc_prefixed p a0 pre b0 sz h =
      bindR (gu_mem_advance sizeof_GuMemChunk pa pre al sz) (\<lambda>full_size.
        if full_size > gu_mem_max_shared_alloc then
          let (b, h') = new_block full_size h
          in Done ((b, full_size - sz), p\<lparr>chunks := b # chunks p\<rparr>, h')
        else if pa = 1 \<and> al = 1 then
          bindR (gu_pool_malloc_unaligned p ((pre + sz) mod 2 ^ 64) h) (\<lambda>((b, off), p', h').
            Done ((b, off + pre), p', h'))
        else gu_pool_malloc_aligned p pa pre al sz h)"
    unfolding gu_malloc_prefixed_def Let_def by blast
  obtain full where r: "(if full > gu_mem_max_shared_alloc then
          let (b, h') = new_block full h
          in Done ((b, full - sz), p\<lparr>chunks := b # chunks p\<rparr>, h')
        else if pa = 1 \<and> al = 1 then
          bindR (gu_pool_malloc_unaligned p ((pre + sz) mod 2 ^ 64) h) (\<lambda>((b, off), p', h').
            Done ((b, off + pre), p', h'))
        else gu_pool_malloc_aligned p pa pre al sz h) = Done (a, p', h')"
    using assms(1) unfolding d by (elim bindR_DoneE)
  consider "full > gu_mem_max_shared_alloc" | "\<not> full > gu_mem_max_shared_alloc" "pa = 1 \<and> al = 1"
    | "\<not> full > gu_mem_max_shared_alloc" "\<not> (pa = 1 \<and> al = 1)" by blast
  then show ?thesis
  proof cases
    case 1
    with r assms(2) show ?thesis by (auto simp: new_block_def pool_heap_def)
  next
    case 2
    with r obtain a' where "gu_pool_malloc_unaligned p ((pre + sz) mod 2 ^ 64) h = Done (a', p', h')"
      by (auto simp: run_simps)
    then show ?thesis by (rule u)
  next
    case 3
    with r show ?thesis by (simp only: if_False) (rule al)
  qed
qed

lemma new_pool_wf:
  assumes "\<forall>b \<ge> next_block h. blocks h b = None"
  shows "\<exists>p h'. gu_new_pool h = Done (p, h') \<and> pool_wf p h' [] \<and> pool_heap h p h' \<and> finalizers p = [] \<and> \<not> pool_local p"
proof -
  have n: "gu_mem_buf_alloc 224 = Done 248" by code_simp
  show ?thesis
    using assms
    by (auto simp: gu_new_pool_def pool_consts n new_block_def gu_init_pool_def pool_wf_def pool_heap_def
        header_def Let_def)
qed

text \<open>Serving a list of requests: prefix alignment, prefix size, alignment and size.\<close>

type_synonym request = "int \<times> int \<times> int \<times> int"

fun pool_serve :: "request list \<Rightarrow> GuPool \<Rightarrow> heap \<Rightarrow> (addr list \<times> GuPool \<times> heap) run" where
  "pool_serve [] p h = Done ([], p, h)"
| "pool_serve ((a, pre, b, sz) # rs) p h =
     bindR (gu_malloc_prefixed p a pre b sz h) (\<lambda>(x, p1, h1).
     bindR (pool_serve rs p1 h1) (\<lambda>(xs, p2, h2). Done (x # xs, p2, h2)))"

definition request_ok :: "request \<Rightarrow> bool" where
  "request_ok r \<longleftrightarrow>
     (case r of (a, pre, b, sz) \<Rightarrow> a \<in> {0, 1, 2, 4, 8, 16} \<and> b \<in> {0, 1, 2, 4, 8, 16} \<and>
        0 \<le> pre \<and> 0 \<le> sz \<and> pre + sz < 2 ^ 58)"

definition served_range :: "request \<Rightarrow> addr \<Rightarrow> range" where
  "served_range r x = (case r of (a, pre, b, sz) \<Rightarrow> case x of (blk, off) \<Rightarrow> (blk, off - pre, off + sz))"

definition served_aligned :: "request \<Rightarrow> addr \<Rightarrow> bool" where
  "served_aligned r x \<longleftrightarrow>
     (case r of (a, pre, b, sz) \<Rightarrow> max_align b dvd snd x \<and>
        (max_align a dvd pre \<longrightarrow> max_align a dvd snd x - pre))"

lemma served_simps [simp]:
  "served_range (a, pre, b, sz) (blk, off) = (blk, off - pre, off + sz)"
  "served_aligned (a, pre, b, sz) (blk, off) \<longleftrightarrow>
     max_align b dvd off \<and> (max_align a dvd pre \<longrightarrow> max_align a dvd off - pre)"
  by (simp_all add: served_range_def served_aligned_def)

lemma pool_serve_spec:
  assumes "pool_wf p h A" and "pool_heap h0 p h" and "list_all request_ok rs"
  shows "\<exists>xs p' h'. pool_serve rs p h = Done (xs, p', h') \<and> list_all2 served_aligned rs xs \<and>
    pool_wf p' h' (rev (map2 served_range rs xs) @ A) \<and> pool_heap h0 p' h' \<and>
    finalizers p' = finalizers p \<and> pool_local p' = pool_local p"
  using assms
proof (induction rs arbitrary: p h A)
  case (Cons r rs)
  obtain a pre b sz where r: "r = (a, pre, b, sz)" by (cases r)
  have ok: "a = 0 \<or> alignment a" "b = 0 \<or> alignment b" "0 \<le> pre" "0 \<le> sz" "pre + sz < 2 ^ 58"
    using Cons.prems(3) by (auto simp: r request_ok_def alignment_def)
  obtain blk off p1 h1 where m: "gu_malloc_prefixed p a pre b sz h = Done ((blk, off), p1, h1)"
    "pool_wf p1 h1 ((blk, off - pre, off + sz) # A)"
    "max_align b dvd off" "max_align a dvd pre \<longrightarrow> max_align a dvd off - pre"
    using malloc_prefixed_spec [OF Cons.prems(1) ok] by blast
  have h1: "pool_heap h0 p1 h1" "finalizers p1 = finalizers p" "pool_local p1 = pool_local p"
    using malloc_prefixed_heap [OF m(1) Cons.prems(2)] by auto
  obtain xs p' h' where s: "pool_serve rs p1 h1 = Done (xs, p', h')" "list_all2 served_aligned rs xs"
    "pool_wf p' h' (rev (map2 served_range rs xs) @ (blk, off - pre, off + sz) # A)"
    "pool_heap h0 p' h'" "finalizers p' = finalizers p" "pool_local p' = pool_local p"
    using Cons.IH [OF m(2) h1(1)] Cons.prems(3) h1(2,3) by auto
  with m show ?case
    by (simp add: r)
qed simp

lemma free_blocks:
  assumes "distinct bs" and "set bs \<subseteq> dom (blocks h)"
  shows "\<exists>h'. foldR gu_mem_free bs h = Done h' \<and> next_block h' = next_block h \<and>
    blocks h' = (blocks h) |` (- set bs)"
  using assms
proof (induction bs arbitrary: h)
  case Nil
  have "blocks h |` UNIV = blocks h" by (rule ext) simp
  then show ?case by simp
next
  case (Cons b bs)
  define h1 where "h1 = h\<lparr>blocks := (blocks h)(b := None)\<rparr>"
  have "gu_mem_free b h = Done h1" using Cons.prems by (auto simp: gu_mem_free_def h1_def)
  moreover obtain h' where "foldR gu_mem_free bs h1 = Done h'" "next_block h' = next_block h"
    "blocks h' = (blocks h1) |` (- set bs)"
    using Cons.IH [of h1] Cons.prems by (fastforce simp: h1_def)
  moreover have "(blocks h1) |` (- set bs) = (blocks h) |` (- set (b # bs))"
    by (rule ext) (simp add: h1_def restrict_map_def)
  ultimately show ?case by simp
qed

lemma pool_free_spec:
  assumes "pool_wf p h A" and "pool_heap h0 p h" and "\<forall>b \<ge> next_block h0. blocks h0 b = None"
    and "\<not> pool_local p"
  shows "\<exists>h'. gu_pool_free p h = Done (finalizers p, h') \<and> blocks h' = blocks h0"
proof -
  have d: "distinct (pool_block p # chunks p)" "set (pool_block p # chunks p) \<subseteq> dom (blocks h)"
    using assms(1) by (auto simp: pool_wf_def)
  obtain h1 where h1: "foldR gu_mem_free (chunks p) h = Done h1" "blocks h1 = blocks h |` (- set (chunks p))"
    using free_blocks [of "chunks p" h] d by auto
  have "blocks h1 (pool_block p) \<noteq> None" using d h1(2) by auto
  then have "gu_pool_free p h = Done (finalizers p, h1\<lparr>blocks := (blocks h1)(pool_block p := None)\<rparr>)"
    using h1(1) assms(4) by (simp add: gu_pool_free_def gu_mem_free_def)
  moreover have "(blocks h1)(pool_block p := None) = blocks h0"
  proof
    fix c
    show "((blocks h1)(pool_block p := None)) c = blocks h0 c"
      using assms(2,3) h1(2) by (cases "c \<in> set (pool_block p # chunks p)") (auto simp: pool_heap_def)
  qed
  ultimately show ?thesis by simp
qed

subsection \<open>Properties\<close>

text \<open>C22. Memory safety of pools: on a new pool any list of requests is served without an abort; every
  address is aligned as asked (the prefix too, when its size is a multiple of its alignment), the
  memory handed out, prefixes included, lies in live blocks of the pool outside the headers, and
  no two pieces overlap. Freeing the pool then frees exactly what it allocated: the heap is
  as it was before the pool.\<close>

theorem pool_memory_safe:
  assumes "\<forall>b \<ge> next_block h0. blocks h0 b = None" and "list_all request_ok rs"
  shows "\<exists>p h1 xs p' h2 h3. gu_new_pool h0 = Done (p, h1) \<and> pool_serve rs p h1 = Done (xs, p', h2) \<and>
    list_all2 served_aligned rs xs \<and>
    (\<forall>r \<in> set (map2 served_range rs xs). in_pool p' h2 r) \<and>
    sorted_wrt apart (rev (map2 served_range rs xs)) \<and>
    gu_pool_free p' h2 = Done ([], h3) \<and> blocks h3 = blocks h0"
proof -
  obtain p h1 where n: "gu_new_pool h0 = Done (p, h1)" "pool_wf p h1 []" "pool_heap h0 p h1"
    "finalizers p = []" "\<not> pool_local p"
    using new_pool_wf [OF assms(1)] by blast
  obtain xs p' h2 where s: "pool_serve rs p h1 = Done (xs, p', h2)" "list_all2 served_aligned rs xs"
    "pool_wf p' h2 (rev (map2 served_range rs xs))" "pool_heap h0 p' h2" "finalizers p' = []" "\<not> pool_local p'"
    using pool_serve_spec [OF n(2,3) assms(2)] n(4,5) by auto
  obtain h3 where "gu_pool_free p' h2 = Done ([], h3)" "blocks h3 = blocks h0"
    using pool_free_spec [OF s(3,4) assms(1) s(6)] s(5) by auto
  with n(1) s show ?thesis by (auto simp: pool_wf_def)
qed

theorem pool_memory_safe_witness:
  "\<exists>p h1 xs p' h2 h3. gu_new_pool \<lparr>blocks = Map.empty, next_block = 0\<rparr> = Done (p, h1) \<and>
    pool_serve [(1, 0, 8, 100), (1, 3, 1, 5), (8, 8, 0, 300), (1, 0, 4, 10000)] p h1 = Done (xs, p', h2) \<and>
    gu_pool_free p' h2 = Done ([], h3) \<and> blocks h3 = Map.empty"
proof -
  have "list_all request_ok [(1, 0, 8, 100), (1, 3, 1, 5), (8, 8, 0, 300), (1, 0, 4, 10000)]"
    by (simp add: request_ok_def)
  with pool_memory_safe [of "\<lparr>blocks = Map.empty, next_block = 0\<rparr>"] show ?thesis
    by fastforce
qed

text \<open>C23. Finalizers: registering one allocates its node in the pool without an abort, and \<open>gu_pool_free\<close> calls
  the finalizers of the pool in the reverse order of their registration.\<close>

theorem finalizers_reversed:
  assumes "pool_wf p h A" and "finalizers p = []" and "\<not> pool_local p"
  shows "\<exists>q g g'. foldR (\<lambda>f (q, g). gu_pool_finally q f g) fs (p, h) = Done (q, g) \<and>
    gu_pool_free q g = Done (rev fs, g')"
proof -
  have "\<exists>q g A'. foldR (\<lambda>f (q, g). gu_pool_finally q f g) fs (p, h) = Done (q, g) \<and> pool_wf q g A' \<and>
      finalizers q = rev fs @ finalizers p \<and> \<not> pool_local q"
    using assms(1,3)
  proof (induction fs arbitrary: p h A)
    case (Cons f fs)
    have al: "(1 :: int) = 0 \<or> alignment 1" "(8 :: int) = 0 \<or> alignment 8" by (simp_all add: alignment_def)
    obtain b off p1 h1 where m: "gu_malloc_prefixed p 1 0 8 16 h = Done ((b, off), p1, h1)"
      "pool_wf p1 h1 ((b, off, off + 16) # A)"
      using malloc_prefixed_spec [OF Cons.prems(1) al, of 0 16] by auto
    have "pool_heap \<lparr>blocks = blocks h |` (- set (pool_block p # chunks p)), next_block = 0\<rparr> p h"
      by (auto simp: pool_heap_def)
    note hp = malloc_prefixed_heap [OF m(1) this]
    define p2 where "p2 = p1\<lparr>finalizers := f # finalizers p1\<rparr>"
    have f: "gu_pool_finally p f h = Done (p2, h1)"
      using m(1) by (simp add: gu_pool_finally_def gu_malloc_aligned_def p2_def)
    have "pool_wf p2 h1 ((b, off, off + 16) # A)"
      using m(2) by (auto simp: pool_wf_def in_pool_def header_def p2_def)
    from Cons.IH [OF this] f hp Cons.prems(2) show ?case by (auto simp: p2_def)
  qed auto
  then obtain q g A' where q: "foldR (\<lambda>f (q, g). gu_pool_finally q f g) fs (p, h) = Done (q, g)" "pool_wf q g A'"
    "finalizers q = rev fs" "\<not> pool_local q"
    using assms(2) by auto
  define g0 where "g0 = \<lparr>blocks = blocks g |` (- set (pool_block q # chunks q)), next_block = 0\<rparr>"
  have d: "distinct (pool_block q # chunks q)" "set (pool_block q # chunks q) \<subseteq> dom (blocks g)"
    using q(2) by (auto simp: pool_wf_def)
  obtain g1 where g1: "foldR gu_mem_free (chunks q) g = Done g1" "blocks g1 = blocks g |` (- set (chunks q))"
    using free_blocks [of "chunks q" g] d by auto
  have "blocks g1 (pool_block q) \<noteq> None" using d g1(2) by auto
  with g1(1) q show ?thesis by (auto simp: gu_pool_free_def gu_mem_free_def)
qed

theorem finalizers_reversed_witness:
  "\<exists>p h q g g'. gu_new_pool \<lparr>blocks = Map.empty, next_block = 0\<rparr> = Done (p, h) \<and>
    foldR (\<lambda>f (q, g). gu_pool_finally q f g) [1, 2, 3] (p, h) = Done (q, g) \<and>
    gu_pool_free q g = Done ([3, 2, 1], g')"
proof -
  obtain p h where "gu_new_pool \<lparr>blocks = Map.empty, next_block = 0\<rparr> = Done (p, h)" "pool_wf p h []"
    "finalizers p = []" "\<not> pool_local p"
    using new_pool_wf [of "\<lparr>blocks = Map.empty, next_block = 0\<rparr>"] by auto
  with finalizers_reversed [of p h "[]" "[1, 2, 3]"] show ?thesis by auto
qed

end
