(* ===== verification/GuStr.thy ===== *)
theory GuStr
  imports Prelude
begin

text \<open>
  \<open>gu/string.c\<close> and the symbol tables of \<open>gu/intern.c\<close>. A \<open>GuString\<close> is one word: a string of less than
  8 bytes is packed into the word itself, which is odd then; a longer one is the (even) address of
  an object whose first byte is the length, or 0 when the length stands in the word before it;
  0 is the null string.

  The memory of the long strings is the list of the objects allocated so far; object \<open>i\<close> has the
  address \<open>2 * (i + 1)\<close>, which keeps what the code relies on of an address: it is even, not null and
  new. The contents of a string are UTF-8 bytes.
\<close>

unbundle bit_operations_syntax

subsection \<open>Strings\<close>

type_synonym GuString = u64

text \<open>The bytes from \<open>p[0]\<close> on, and the \<open>size_t\<close> in front of \<open>p\<close> for objects that have one.\<close>

record str_object =
  obj_bytes :: "u8 list"
  obj_prefix :: "nat option"

type_synonym str_heap = "str_object list"

definition obj_addr :: "nat \<Rightarrow> GuString" where
  "obj_addr i = of_nat (2 * (i + 1))"

definition obj_at :: "str_heap \<Rightarrow> GuString \<Rightarrow> str_object run" where
  "obj_at h w = seq_at h (unat w div 2 - 1)"

definition gu_empty_string :: GuString where "gu_empty_string = 1"
definition gu_null_string :: GuString where "gu_null_string = 0"

definition gu_string_is_null :: "GuString \<Rightarrow> bool" where
  "gu_string_is_null s \<longleftrightarrow> s = 0"

text \<open>The packing loop \<open>w = w << 8 | buf.p[n]\<close>.\<close>

definition pack_bytes :: "u8 list \<Rightarrow> u64 \<Rightarrow> u64" where
  "pack_bytes buf w = fold (\<lambda>b w. push_bit 8 w OR ucast b) buf w"

text \<open>For 256 bytes and more the object is allocated and its address is kept in a variable \<open>p\<close> of the
  inner block; the outer \<open>p\<close>, still null, is what \<open>memcpy\<close> and the result use.\<close>

definition gu_utf8_string :: "u8 list \<Rightarrow> str_heap \<Rightarrow> (GuString \<times> str_heap) run" where
  "gu_utf8_string buf h =
     (let sz = length buf in
      if sz < min 8 128 then
        Done (push_bit 8 (pack_bytes buf 0) OR push_bit 1 (of_nat sz) OR 1, h)
      else if sz < 256 then
        Done (obj_addr (length h), h @ [\<lparr>obj_bytes = of_nat sz # buf, obj_prefix = None\<rparr>])
      else Fault Null_Deref)"

definition gu_string_is_stable :: "GuString \<Rightarrow> bool" where
  "gu_string_is_stable s \<longleftrightarrow> s AND 1 = 1"

text \<open>The unpacking loop, from the last byte to the first: \<open>w >>= 8; p[i] = w & 0xff\<close>.\<close>

fun unpack_bytes :: "nat \<Rightarrow> u64 \<Rightarrow> u8 list \<Rightarrow> u8 list" where
  "unpack_bytes 0 w acc = acc"
| "unpack_bytes (Suc i) w acc =
     (let w' = drop_bit 8 w in unpack_bytes i w' (ucast (w' AND 0xff) # acc))"

text \<open>The short data of a string has 8 bytes; a longer length in the word would overrun it.\<close>

definition gu_string_open :: "GuString \<Rightarrow> str_heap \<Rightarrow> u8 list run" where
  "gu_string_open s h =
     (if gu_string_is_null s then Done []
      else if s AND 1 = 0 then
        bindR (obj_at h s) (\<lambda>p.
        bindR (seq_at (obj_bytes p) 0) (\<lambda>b.
          let sz = unat b in
          if sz \<noteq> 0 then
            if sz < length (obj_bytes p) then Done (take sz (tl (obj_bytes p))) else Fault Out_Of_Bounds
          else
            case obj_prefix p of
              None \<Rightarrow> Fault Out_Of_Bounds
            | Some n \<Rightarrow>
                if n < length (obj_bytes p) then Done (take n (tl (obj_bytes p))) else Fault Out_Of_Bounds))
      else
        let sz = unat (drop_bit 1 (s AND 0xff)) in
        if sz \<le> 8 then Done (unpack_bytes sz s []) else Fault Out_Of_Bounds)"

definition gu_string_copy :: "GuString \<Rightarrow> str_heap \<Rightarrow> (GuString \<times> str_heap) run" where
  "gu_string_copy s h =
     (if gu_string_is_stable s then Done (s, h)
      else bindR (gu_string_open s h) (\<lambda>data. gu_utf8_string data h))"

text \<open>A slice of bytes with no address (\<open>None\<close>, of size 0) is equal to itself only. The contents of the null string have no address.\<close>

definition gu_cslice_eq :: "u8 list option \<Rightarrow> u8 list option \<Rightarrow> bool" where
  "gu_cslice_eq s1 s2 =
     (length (case s1 of None \<Rightarrow> [] | Some d \<Rightarrow> d) = length (case s2 of None \<Rightarrow> [] | Some d \<Rightarrow> d) \<and>
      (case (s1, s2) of (None, None) \<Rightarrow> True | (Some d1, Some d2) \<Rightarrow> d1 = d2 | _ \<Rightarrow> False))"

definition contents :: "GuString \<Rightarrow> u8 list \<Rightarrow> u8 list option" where
  "contents s d = (if gu_string_is_null s then None else Some d)"

definition gu_string_eq :: "GuString \<Rightarrow> GuString \<Rightarrow> str_heap \<Rightarrow> bool run" where
  "gu_string_eq s1 s2 h =
     (if s1 = s2 then Done True
      else bindR (gu_string_open s1 h) (\<lambda>d1. bindR (gu_string_open s2 h) (\<lambda>d2.
        Done (gu_cslice_eq (contents s1 d1) (contents s2 d2)))))"

text \<open>The hash of a string is its word, if it is packed.\<close>

definition gu_hash_byte :: "u64 \<Rightarrow> u8 \<Rightarrow> u64" where
  "gu_hash_byte h u = h * 101 + ucast u"

definition gu_hash_bytes :: "u64 \<Rightarrow> u8 list \<Rightarrow> u64" where
  "gu_hash_bytes h buf = foldl gu_hash_byte h buf"

definition gu_string_hash :: "GuString \<Rightarrow> str_heap \<Rightarrow> u64 run" where
  "gu_string_hash s h =
     (if s AND 1 \<noteq> 0 then Done s else bindR (gu_string_open s h) (\<lambda>d. Done (gu_hash_bytes 0 d)))"

subsection \<open>Symbol tables\<close>

text \<open>A symbol table is a set of strings; looking up a key finds the member that is equal to it.\<close>

type_synonym GuSymTable = "GuString list"

fun gu_symtable_find :: "GuSymTable \<Rightarrow> GuString \<Rightarrow> str_heap \<Rightarrow> GuString option run" where
  "gu_symtable_find [] s h = Done None"
| "gu_symtable_find (t # ts) s h =
     bindR (gu_string_eq t s h) (\<lambda>b. if b then Done (Some t) else gu_symtable_find ts s h)"

definition gu_symtable_intern ::
  "GuSymTable \<Rightarrow> GuString \<Rightarrow> str_heap \<Rightarrow> (GuString \<times> GuSymTable \<times> str_heap) run" where
  "gu_symtable_intern tab s h =
     (if gu_string_is_stable s then Done (s, tab, h)
      else bindR (gu_symtable_find tab s h) (\<lambda>r.
        case r of
          Some t \<Rightarrow> Done (t, tab, h)
        | None \<Rightarrow> bindR (gu_string_copy s h) (\<lambda>(t, h'). Done (t, t # tab, h'))))"

subsection \<open>Packing\<close>

lemma pack_bytes_snoc: "pack_bytes (bs @ [b]) w = push_bit 8 (pack_bytes bs w) OR ucast b"
  by (simp add: pack_bytes_def)

lemma pack_bytes_small:
  "length bs \<le> 7 \<Longrightarrow> bit (pack_bytes bs 0) n \<Longrightarrow> n < 8 * length bs"
proof (induction bs arbitrary: n rule: rev_induct)
  case (snoc b bs)
  then show ?case
    by (cases "n < 8") (auto simp: pack_bytes_snoc bit_simps dest: snoc.IH [rotated] bit_imp_le_length)
qed (simp add: pack_bytes_def)

lemma drop_pack:
  assumes "length bs < 7"
  shows "drop_bit 8 (pack_bytes (bs @ [b]) 0) = pack_bytes bs 0"
proof (rule bit_word_eqI)
  fix n :: nat
  assume "n < LENGTH(64)"
  have "bit (pack_bytes bs 0) n \<Longrightarrow> n < 48"
    using pack_bytes_small [of bs n] assms by auto
  then show "bit (drop_bit 8 (pack_bytes (bs @ [b]) 0)) n \<longleftrightarrow> bit (pack_bytes bs 0) n"
    by (auto simp: pack_bytes_snoc bit_simps dest: bit_imp_le_length)
qed

lemma and_ff: "(w :: u64) AND 0xff = take_bit 8 w"
  by (simp add: take_bit_eq_mask mask_eq_exp_minus_1)

lemma last_byte: "ucast (pack_bytes (bs @ [b]) 0 AND 0xff) = b"
  by (rule bit_word_eqI) (auto simp: and_ff pack_bytes_snoc bit_simps)

lemma unpack_pack:
  "length bs \<le> 7 \<Longrightarrow> drop_bit 8 w = pack_bytes bs 0 \<Longrightarrow> unpack_bytes (length bs) w acc = bs @ acc"
proof (induction bs arbitrary: w acc rule: rev_induct)
  case (snoc b bs)
  then have "drop_bit 8 (drop_bit 8 w) = pack_bytes bs 0" "ucast (drop_bit 8 w AND 0xff) = b"
    by (simp_all add: drop_pack last_byte)
  with snoc.IH [of "drop_bit 8 w" "b # acc"] snoc.prems(1) show ?case
    by (simp add: Let_def)
qed simp

definition short_word :: "u8 list \<Rightarrow> u64" where
  "short_word bs = push_bit 8 (pack_bytes bs 0) OR push_bit 1 (of_nat (length bs)) OR 1"

lemma bit_small: "x < 8 \<Longrightarrow> bit (of_nat x :: u64) n \<Longrightarrow> n < 3"
proof -
  assume "x < 8" "bit (of_nat x :: u64) n"
  then have "bit x n" by (simp add: bit_of_nat_iff)
  then have "2 ^ n \<le> x" by (auto simp: bit_iff_odd intro: ccontr)
  with \<open>x < 8\<close> have "(2 :: nat) ^ n < 2 ^ 3" by simp
  then show "n < 3" by (rule power_less_imp_less_exp [rotated]) simp
qed

lemma short_word_parts:
  assumes "length bs \<le> 7"
  shows "short_word bs AND 1 = 1" and "drop_bit 8 (short_word bs) = pack_bytes bs 0"
    and "unat (drop_bit 1 (short_word bs AND 0xff)) = length bs" and "short_word bs \<noteq> 0"
proof -
  note small = pack_bytes_small [OF assms]
  have l: "bit (of_nat (length bs) :: u64) n \<Longrightarrow> n < 3" for n
    using bit_small [of "length bs"] assms by simp
  have sw: "bit (short_word bs) n \<longleftrightarrow> n < 64 \<and> (8 \<le> n \<and> bit (pack_bytes bs 0) (n - 8) \<or>
      1 \<le> n \<and> bit (of_nat (length bs) :: u64) (n - 1) \<or> n = 0)" for n
    by (auto simp only: short_word_def bit_or_iff bit_push_bit_iff bit_1_iff possible_bit_word
        dest: bit_imp_le_length) simp_all
  show 1: "short_word bs AND 1 = 1"
    by (rule bit_word_eqI) (auto simp: sw bit_and_iff bit_1_iff)
  then show "short_word bs \<noteq> 0" by auto
  show "drop_bit 8 (short_word bs) = pack_bytes bs 0"
  proof (rule bit_word_eqI)
    fix n :: nat
    assume "n < LENGTH(64)"
    have "bit (pack_bytes bs 0) n \<Longrightarrow> n < 56" using small [of n] assms by simp
    then show "bit (drop_bit 8 (short_word bs)) n \<longleftrightarrow> bit (pack_bytes bs 0) n"
      using l [of "7 + n"] by (auto simp: sw bit_drop_bit_eq)
  qed
  have "drop_bit 1 (short_word bs AND 0xff) = of_nat (length bs)"
  proof (rule bit_word_eqI)
    fix n :: nat
    assume "n < LENGTH(64)"
    then show "bit (drop_bit 1 (short_word bs AND 0xff)) n \<longleftrightarrow> bit (of_nat (length bs) :: u64) n"
      using l [of n] by (auto simp: sw and_ff bit_drop_bit_eq bit_take_bit_iff)
  qed
  then show "unat (drop_bit 1 (short_word bs AND 0xff)) = length bs"
    using assms by (simp add: unat_of_nat)
qed

lemma open_short:
  assumes "length bs \<le> 7"
  shows "gu_string_open (short_word bs) h = Done bs"
  using short_word_parts [OF assms] unpack_pack [OF assms, of "short_word bs" "[]"] assms
  by (simp add: gu_string_open_def gu_string_is_null_def)

subsection \<open>Long strings\<close>

lemma unat_obj_addr: "i < 2 ^ 60 \<Longrightarrow> unat (obj_addr i) = 2 * (i + 1)"
proof -
  have "unat (of_nat n :: u64) = n" if "n < 2 ^ 64" for n
    using that by (simp add: unat_of_nat)
  note u = this [of "2 * (i + 1)"]
  assume "i < 2 ^ 60"
  then show ?thesis unfolding obj_addr_def by (intro u) simp
qed

lemma obj_addr_even: "i < 2 ^ 60 \<Longrightarrow> obj_addr i AND 1 = 0 \<and> obj_addr i \<noteq> 0"
proof
  assume i: "i < 2 ^ 60"
  have "obj_addr i AND 1 = of_nat (2 * (i + 1) AND 1)"
    by (simp only: of_nat_and_eq of_nat_1 obj_addr_def)
  then show "obj_addr i AND 1 = 0" by (simp add: and_one_eq)
  show "obj_addr i \<noteq> 0" using unat_obj_addr [OF i] by auto
qed

lemma open_long:
  assumes "i < 2 ^ 60" and "i < length h" and "h ! i = \<lparr>obj_bytes = of_nat (length bs) # bs, obj_prefix = None\<rparr>"
    and "0 < length bs" and "length bs < 256"
  shows "gu_string_open (obj_addr i) h = Done bs"
proof -
  have "unat (of_nat (length bs) :: u8) = length bs" using assms(5) by (simp add: unat_of_nat)
  moreover have "obj_at h (obj_addr i) = Done (h ! i)"
    using assms(1,2) by (simp add: obj_at_def unat_obj_addr)
  ultimately show ?thesis
    using obj_addr_even [OF assms(1)] assms(3,4) by (simp add: gu_string_open_def gu_string_is_null_def Let_def)
qed

text \<open>The strings that \<open>gu_utf8_string\<close> makes.\<close>

definition valid_string :: "str_heap \<Rightarrow> GuString \<Rightarrow> u8 list \<Rightarrow> bool" where
  "valid_string h s bs \<longleftrightarrow>
     (if length bs < 8 then s = short_word bs
      else length bs < 256 \<and> (\<exists>i < length h. i < 2 ^ 60 \<and> s = obj_addr i \<and>
        h ! i = \<lparr>obj_bytes = of_nat (length bs) # bs, obj_prefix = None\<rparr>))"

lemma valid_open: "valid_string h s bs \<Longrightarrow> gu_string_open s h = Done bs"
  by (cases "length bs < 8") (auto simp: valid_string_def open_short intro: open_long)

lemma valid_append: "valid_string h s bs \<Longrightarrow> valid_string (h @ g) s bs"
  by (auto simp: valid_string_def nth_append split: if_splits)

lemma valid_stable: "valid_string h s bs \<Longrightarrow> gu_string_is_stable s \<longleftrightarrow> length bs < 8"
  using obj_addr_even short_word_parts(1) [of bs]
  by (auto simp: valid_string_def gu_string_is_stable_def split: if_splits)

lemma utf8_string_spec:
  assumes "length buf < 256" and "length h < 2 ^ 60"
  shows "\<exists>s g. gu_utf8_string buf h = Done (s, h @ g) \<and> length g \<le> 1 \<and> valid_string (h @ g) s buf"
proof (cases "length buf < 8")
  case True
  then have "gu_utf8_string buf h = Done (short_word buf, h)"
    by (simp add: gu_utf8_string_def short_word_def)
  with True show ?thesis
    by (intro exI [of _ "short_word buf"] exI [of _ "[]"]) (simp add: valid_string_def)
next
  case False
  let ?g = "[\<lparr>obj_bytes = of_nat (length buf) # buf, obj_prefix = None\<rparr>]"
  have "gu_utf8_string buf h = Done (obj_addr (length h), h @ ?g)"
    using False assms(1) by (simp add: gu_utf8_string_def)
  with False assms show ?thesis
    by (intro exI [of _ "obj_addr (length h)"] exI [of _ ?g])
      (auto simp: valid_string_def intro!: exI [of _ "length h"])
qed

lemma valid_not_null: "valid_string h s bs \<Longrightarrow> \<not> gu_string_is_null s"
  using obj_addr_even short_word_parts(1) [of bs]
  by (auto simp: valid_string_def gu_string_is_null_def split: if_splits)

lemma string_eq_spec:
  "valid_string h s a \<Longrightarrow> valid_string h t b \<Longrightarrow> gu_string_eq s t h = Done (a = b)"
  using valid_open [of h s a] valid_open [of h t b] valid_not_null [of h s a] valid_not_null [of h t b]
  by (auto simp: gu_string_eq_def gu_cslice_eq_def contents_def)

text \<open>Equal strings have the same word, or they are both long, with the same bytes.\<close>

lemma string_hash_spec:
  assumes "valid_string h s a" and "valid_string h t a"
  shows "gu_string_hash s h = gu_string_hash t h"
  using assms valid_open [OF assms(1)] valid_open [OF assms(2)] obj_addr_even
  by (auto simp: gu_string_hash_def valid_string_def split: if_splits)

subsection \<open>Symbol tables\<close>

text \<open>The members of a table are valid strings of at least 8 bytes, with different contents.\<close>

definition table_ok :: "str_heap \<Rightarrow> GuSymTable \<Rightarrow> u8 list list \<Rightarrow> bool" where
  "table_ok h tab bss \<longleftrightarrow> list_all2 (valid_string h) tab bss \<and> distinct bss"

lemma symtable_find_spec:
  assumes "list_all2 (valid_string h) tab bss" and "valid_string h s bs"
  shows "gu_symtable_find tab s h =
    Done (if bs \<in> set bss then Some (tab ! length (takeWhile (\<lambda>b. b \<noteq> bs) bss)) else None)"
  using assms by (induction rule: list_all2_induct) (auto simp: string_eq_spec)

lemma symtable_find_valid:
  assumes "list_all2 (valid_string h) tab bss" and "bs \<in> set bss"
  shows "valid_string h (tab ! length (takeWhile (\<lambda>b. b \<noteq> bs) bss)) bs"
  using assms by (induction rule: list_all2_induct) auto

lemma intern_spec:
  assumes "table_ok h tab bss" and "valid_string h s bs" and "length h < 2 ^ 60"
  shows "\<exists>t tab' g bss'. gu_symtable_intern tab s h = Done (t, tab', h @ g) \<and> length g \<le> 1 \<and>
    valid_string (h @ g) t bs \<and> table_ok (h @ g) tab' bss' \<and> set bss \<subseteq> set bss' \<and>
    (8 \<le> length bs \<longrightarrow> bs \<in> set bss' \<and> t = tab' ! length (takeWhile (\<lambda>b. b \<noteq> bs) bss'))"
proof (cases "length bs < 8")
  case True
  then show ?thesis
    using assms valid_stable [OF assms(2)]
    by (intro exI [of _ s] exI [of _ tab] exI [of _ "[]"] exI [of _ bss]) (simp add: gu_symtable_intern_def)
next
  case False
  then have ns: "\<not> gu_string_is_stable s" using valid_stable [OF assms(2)] by simp
  have tab: "list_all2 (valid_string h) tab bss" using assms(1) by (simp add: table_ok_def)
  note f = symtable_find_spec [OF tab assms(2)]
  show ?thesis
  proof (cases "bs \<in> set bss")
    case True
    then show ?thesis
      using ns f assms(1) symtable_find_valid [OF tab True]
      by (intro exI [of _ "tab ! length (takeWhile (\<lambda>b. b \<noteq> bs) bss)"] exI [of _ tab] exI [of _ "[]"] exI [of _ bss])
        (simp add: gu_symtable_intern_def)
  next
    case new: False
    have "length bs < 256" using assms(2) by (auto simp: valid_string_def split: if_splits)
    then obtain t g where t: "gu_utf8_string bs h = Done (t, h @ g)" "length g \<le> 1" "valid_string (h @ g) t bs"
      using utf8_string_spec assms(3) by blast
    have "gu_symtable_intern tab s h = Done (t, t # tab, h @ g)"
      using ns f new t(1) valid_open [OF assms(2)]
      by (simp add: gu_symtable_intern_def gu_string_copy_def)
    moreover have "list_all2 (valid_string (h @ g)) tab bss"
      using tab by (rule list_all2_mono) (rule valid_append)
    ultimately show ?thesis
      using t new assms(1)
      by (intro exI [of _ t] exI [of _ "t # tab"] exI [of _ g] exI [of _ "bs # bss"]) (auto simp: table_ok_def)
  qed
qed

subsection \<open>Properties\<close>

text \<open>C31. Making a string and reading it back: every byte string of less than 256 bytes, packed or not,
  is read back unchanged, and the strings made before keep their contents. Making a longer string always dereferences the null
  pointer, whatever its contents, because the address of its object is stored in a shadowed variable: a defect.\<close>

theorem string_roundtrip:
  assumes "length h < 2 ^ 60"
  shows "if length buf < 256
    then \<exists>s h'. gu_utf8_string buf h = Done (s, h') \<and> gu_string_open s h' = Done buf \<and>
      (gu_string_is_stable s \<longleftrightarrow> length buf < 8) \<and> \<not> gu_string_is_null s \<and>
      (\<forall>t bs. valid_string h t bs \<longrightarrow> gu_string_open t h' = Done bs)
    else gu_utf8_string buf h = Fault Null_Deref"
proof (cases "length buf < 256")
  case True
  obtain s g where s: "gu_utf8_string buf h = Done (s, h @ g)" "valid_string (h @ g) s buf"
    using utf8_string_spec [OF True assms] by blast
  have "s \<noteq> 0"
    using s(2) obj_addr_even short_word_parts(4) [of buf] by (auto simp: valid_string_def split: if_splits)
  with s show ?thesis
    using valid_open valid_append valid_stable [OF s(2)] unfolding if_P [OF True]
    by (intro exI [of _ s] exI [of _ "h @ g"]) (auto simp: gu_string_is_null_def)
next
  case False
  then show ?thesis by (simp add: gu_utf8_string_def)
qed

theorem string_roundtrip_witness:
  "(\<exists>s h'. gu_utf8_string [103, 117, 95, 109, 97, 112, 95, 102, 105, 110, 100] [] = Done (s, h') \<and>
      gu_string_open s h' = Done [103, 117, 95, 109, 97, 112, 95, 102, 105, 110, 100]) \<and>
   gu_utf8_string (replicate 300 97) [] = Fault Null_Deref"
  using string_roundtrip [of "[]" "[103, 117, 95, 109, 97, 112, 95, 102, 105, 110, 100]"] string_roundtrip [of "[]" "replicate 300 97"] by auto



end
