(* ===== verification/Utf8.thy ===== *)
theory Utf8
  imports Prelude
begin

text \<open>
  \<open>gu/ucs.h\<close>, \<open>gu/ucs.c\<close> and \<open>gu/utf8.c\<close>: code points, the basic character set, and UTF-8. A code point is a
  \<open>GuUCS\<close>, a signed 32-bit integer that is far from its limits here and is kept as an \<open>int\<close>; bytes
  are words. Pointers into buffers become the lists of the elements from the pointer on, with the capacity of
  the destination; reading past the end of a list is a fault. The variant of the code for an
  ASCII character set (\<open>GU_CHAR_ASCII\<close>) with a signed \<open>char\<close> is modelled.
\<close>

unbundle bit_operations_syntax

type_synonym GuUCS = int

subsection \<open>Code points and characters\<close>

definition GU_UCS_MAX :: GuUCS where "GU_UCS_MAX = 0x10FFFF"

definition gu_ucs_valid :: "GuUCS \<Rightarrow> bool" where
  "gu_ucs_valid ucs \<longleftrightarrow> ucs \<ge> 0 \<and> ucs \<le> GU_UCS_MAX"

text \<open>A \<open>char\<close> as a number between -128 and 127.\<close>

definition gu_char_is_valid :: "int \<Rightarrow> bool" where
  "gu_char_is_valid c \<longleftrightarrow>
     (if c < 0 then False
      else if c < 64 then (0xffffffef00003f81 AND push_bit (nat c) 1 :: u64) \<noteq> 0
      else (0x7ffffffefffffffe AND push_bit (nat (c - 64)) 1 :: u64) \<noteq> 0)"

definition gu_char_ucs :: "int \<Rightarrow> GuUCS run" where
  "gu_char_ucs c = gu_require (gu_char_is_valid c) (gu_ensure (c < 0x80) (Done c))"

definition gu_ucs_char :: "GuUCS \<Rightarrow> int" where
  "gu_ucs_char uc = (if 0 \<le> uc \<and> uc < 128 \<and> gu_char_is_valid uc then uc else 0)"

text \<open>The conversions return what they have written, and whether they raised \<open>GuUCSExn\<close>.\<close>

fun gu_str_to_ucs :: "int list \<Rightarrow> (GuUCS list \<times> bool) run" where
  "gu_str_to_ucs [] = Done ([], False)"
| "gu_str_to_ucs (c # cs) =
     (if \<not> gu_char_is_valid c then Done ([], True)
      else bindR (gu_char_ucs c) (\<lambda>u. bindR (gu_str_to_ucs cs) (\<lambda>(us, e). Done (u # us, e))))"

fun gu_ucs_to_str :: "GuUCS list \<Rightarrow> int list \<times> bool" where
  "gu_ucs_to_str [] = ([], False)"
| "gu_ucs_to_str (u # us) =
     (let c = gu_ucs_char u in
      if c = 0 \<and> u \<noteq> 0 then ([], True)
      else let (cs, e) = gu_ucs_to_str us in (c # cs, e))"

subsection \<open>Decoding\<close>

text \<open>The number of continuation bytes after a first byte of \<open>0x80\<close> or more, the payload of the first byte, and
  the loop over the continuation bytes.\<close>

definition utf8_more :: "u8 \<Rightarrow> nat" where
  "utf8_more c = (if c < 0xe0 then 1 else if c < 0xf0 then 2 else 3)"

definition utf8_lead :: "u8 \<Rightarrow> GuUCS" where
  "utf8_lead c = uint c AND drop_bit (utf8_more c * 8) 0x070f1f7f"

definition utf8_tail :: "u8 list \<Rightarrow> nat \<Rightarrow> GuUCS \<Rightarrow> GuUCS run" where
  "utf8_tail src len u =
     foldR (\<lambda>i u. bindR (seq_at src i) (\<lambda>c. Done (push_bit 6 u OR (uint c AND 0x3f)))) [1..<len + 1] u"

definition gu_utf8_decode_one_unsafe :: "u8 list \<Rightarrow> (GuUCS \<times> nat) run" where
  "gu_utf8_decode_one_unsafe src =
     bindR (seq_at src 0) (\<lambda>c.
       if c < 0x80 then Done (uint c, 1)
       else bindR (utf8_tail src (utf8_more c) (utf8_lead c)) (\<lambda>u. Done (u, utf8_more c + 1)))"

text \<open>\<open>None\<close>: the exception \<open>GuUCSExn\<close> is raised.\<close>

definition gu_utf8_decode_one :: "u8 list \<Rightarrow> (GuUCS \<times> nat) option run" where
  "gu_utf8_decode_one src =
     bindR (seq_at src 0) (\<lambda>c.
       if c < 0x80 then Done (Some (uint c, 1))
       else if c < 0xc2 \<or> c > 0xf4 then Done None
       else bindR (utf8_tail src (utf8_more c) (utf8_lead c)) (\<lambda>u.
         Done (if \<not> gu_ucs_valid u then None else Some (u, utf8_more c + 1))))"

text \<open>\<open>gu_utf8_decode_unsafe\<close>: \<open>src\<close> is the memory from the source pointer on, \<open>rem\<close> the (signed)
  number of bytes up to the end pointer, \<open>room\<close> the room in the destination. The result is what was
  decoded and the number of bytes left.\<close>

fun decode_batch :: "nat \<Rightarrow> u8 list \<Rightarrow> int \<Rightarrow> (GuUCS list \<times> u8 list \<times> int) run" where
  "decode_batch 0 src rem = Done ([], src, rem)"
| "decode_batch (Suc n) src rem =
     bindR (gu_utf8_decode_one_unsafe src) (\<lambda>(u, len).
     bindR (decode_batch n (drop len src) (rem - int len)) (\<lambda>(us, src', rem').
       Done (u # us, src', rem')))"

definition batch_size :: "int \<Rightarrow> nat \<Rightarrow> nat" where
  "batch_size rem room = min (nat ((rem mod 2 ^ 64 + 3) mod 2 ^ 64) div 4) room"

lemma batch_size_le: "batch_size rem room \<le> room"
  by (simp add: batch_size_def)

function decode_loop :: "u8 list \<Rightarrow> int \<Rightarrow> nat \<Rightarrow> (GuUCS list \<times> int) run" where
  "decode_loop src rem room =
     (let sz = batch_size rem room in
      if sz = 0 then Done ([], rem)
      else bindR (decode_batch sz src rem) (\<lambda>(us, src', rem').
           bindR (decode_loop src' rem' (room - sz)) (\<lambda>(vs, rem''). Done (us @ vs, rem''))))"
  by pat_completeness auto
termination
proof (relation "measure (\<lambda>(src, rem, room). room)")
  fix src us :: "u8 list" and rem :: int and room sz :: nat and x y z
  assume "sz = batch_size rem room" "sz \<noteq> 0"
  with batch_size_le [of rem room] show "((y, z, room - sz), (src, rem, room)) \<in> measure (\<lambda>(src, rem, room). room)"
    by simp
qed simp

declare decode_loop.simps [simp del]

definition gu_utf8_decode_unsafe :: "u8 list \<Rightarrow> nat \<Rightarrow> nat \<Rightarrow> (GuUCS list \<times> int) run" where
  "gu_utf8_decode_unsafe src rem room =
     bindR (decode_loop src (int rem) room) (\<lambda>(us, rem'). gu_assert (rem' \<ge> 0) (Done (us, rem')))"

subsection \<open>Encoding\<close>

definition gu_utf8_encode_length :: "GuUCS \<Rightarrow> nat" where
  "gu_utf8_encode_length ucs =
     (if ucs < 0x80 then 1 else if ucs < 0x800 then 2 else if ucs < 0x10000 then 3 else 4)"

fun encode_tail :: "nat \<Rightarrow> GuUCS \<Rightarrow> u8 list \<Rightarrow> u8 list \<times> GuUCS" where
  "encode_tail 0 ucs buf = (buf, ucs)"
| "encode_tail (Suc i) ucs buf =
     encode_tail i (drop_bit 6 ucs) (word_of_int (0x80 OR (ucs AND 0x3f)) # buf)"

definition gu_utf8_encode_one_unsafe :: "GuUCS \<Rightarrow> u8 list run" where
  "gu_utf8_encode_one_unsafe ucs =
     gu_require (gu_ucs_valid ucs)
      (if ucs < 0x80 then Done [word_of_int ucs]
       else
         let n = (if ucs < 0x800 then 1 else if ucs < 0x10000 then 2 else 3);
             (buf, ucs') = encode_tail n ucs []
         in Done (word_of_int (ucs' OR NOT (drop_bit n 0x7f)) # buf))"

fun encode_all :: "GuUCS list \<Rightarrow> u8 list run" where
  "encode_all [] = Done []"
| "encode_all (u # us) =
     bindR (gu_utf8_encode_one_unsafe u) (\<lambda>b. bindR (encode_all us) (\<lambda>bs. Done (b @ bs)))"

text \<open>The two loops of \<open>gu_utf8_encode\<close>; \<open>room\<close> is the number of bytes left in the destination. The
  result is the bytes written and the code points left.\<close>

function encode_fast :: "GuUCS list \<Rightarrow> nat \<Rightarrow> (u8 list \<times> GuUCS list \<times> nat) run" where
  "encode_fast src room =
     (let n = min (length src) (room div 4) in
      if n = 0 then Done ([], src, room)
      else bindR (encode_all (take n src)) (\<lambda>bs.
           bindR (encode_fast (drop n src) (room - length bs)) (\<lambda>(bs', src', room').
             Done (bs @ bs', src', room'))))"
  by pat_completeness auto
termination
  by (relation "measure (\<lambda>(src, room). length src)") auto

declare encode_fast.simps [simp del]

fun encode_slow :: "GuUCS list \<Rightarrow> nat \<Rightarrow> (u8 list \<times> GuUCS list) run" where
  "encode_slow [] room = Done ([], [])"
| "encode_slow (u # src) room =
     (if room = 0 then Done ([], u # src)
      else if gu_utf8_encode_length u > room then Done ([], u # src)
      else bindR (gu_utf8_encode_one_unsafe u) (\<lambda>b.
           bindR (encode_slow src (room - gu_utf8_encode_length u)) (\<lambda>(bs, src').
             Done (b @ bs, src'))))"

definition gu_utf8_encode :: "GuUCS list \<Rightarrow> nat \<Rightarrow> (u8 list \<times> GuUCS list) run" where
  "gu_utf8_encode src room =
     bindR (encode_fast src room) (\<lambda>(bs, src', room').
     bindR (encode_slow src' room') (\<lambda>(bs', src''). Done (bs @ bs', src'')))"

subsection \<open>One code point\<close>

lemma and_63: "u AND 0x3f = u mod (64 :: int)"
  using take_bit_eq_mask [of 6 u] by (simp add: take_bit_eq_mod mask_eq_exp_minus_1)

lemma cont_byte: "0x80 OR (u AND 0x3f) = 128 + u mod (64 :: int)"
  using or_shift [of "u mod 64" 7 1] by (simp add: and_63 push_bit_eq_mult order_less_trans [OF pos_mod_bound])

lemma uint_byte: "0 \<le> x \<Longrightarrow> x < 256 \<Longrightarrow> uint (word_of_int x :: u8) = x"
  by (simp add: unsigned_of_int take_bit_int_eq_self)

lemma decode_cont: "push_bit 6 u OR (uint (word_of_int (128 + v mod 64) :: u8) AND 0x3f) = u * 64 + v mod 64"
proof -
  have "uint (word_of_int (128 + v mod 64) :: u8) = 128 + v mod 64"
    using pos_mod_bound [of 64 v] pos_mod_sign [of 64 v] by (intro uint_byte) linarith+
  moreover have "(128 + v mod 64) mod 64 = v mod 64"
    using mod_add_left_eq [of 128 64 "v mod 64"] by simp
  ultimately show ?thesis
    using or_shift [of "v mod 64" 6 u] by (simp add: and_63)
qed

lemma and_byte: "0 \<le> c \<Longrightarrow> c < 256 \<Longrightarrow> c AND m = c AND (m AND 255)" for c m :: int
proof -
  assume "0 \<le> c" "c < 256"
  then have "c = take_bit 8 c" by (simp add: take_bit_int_eq_self)
  then have "c = c AND 255" by (simp add: take_bit_eq_mask mask_eq_exp_minus_1)
  then show ?thesis by (metis and.assoc and.commute)
qed

lemma lead_payload:
  assumes "uint c < 256"
  shows "utf8_more c = 1 \<Longrightarrow> utf8_lead c = uint c mod 32"
    and "utf8_more c = 2 \<Longrightarrow> utf8_lead c = uint c mod 16"
    and "utf8_more c = 3 \<Longrightarrow> utf8_lead c = uint c mod 8"
proof -
  have m: "x AND 31 = x mod 32" "x AND 15 = x mod 16" "x AND 7 = x mod 8" for x :: int
    using take_bit_eq_mask [of 5 x] take_bit_eq_mask [of 4 x] take_bit_eq_mask [of 3 x]
    by (simp_all add: take_bit_eq_mod mask_eq_exp_minus_1)
  note b = and_byte [OF _ assms]
  show "utf8_more c = 1 \<Longrightarrow> utf8_lead c = uint c mod 32"
    by (simp add: utf8_lead_def b [of "0x70f1f"] m drop_bit_eq_div)
  show "utf8_more c = 2 \<Longrightarrow> utf8_lead c = uint c mod 16"
    by (simp add: utf8_lead_def b [of "0x70f"] m drop_bit_eq_div)
  show "utf8_more c = 3 \<Longrightarrow> utf8_lead c = uint c mod 8"
    by (simp add: utf8_lead_def b [of "7"] m drop_bit_eq_div)
qed

lemma lead_mod:
  "0 \<le> x \<Longrightarrow> x < 32 \<Longrightarrow> (192 + x) mod 32 = (x :: int)"
  "0 \<le> x \<Longrightarrow> x < 16 \<Longrightarrow> (224 + x) mod 16 = x"
  "0 \<le> x \<Longrightarrow> x < 8 \<Longrightarrow> (240 + x) mod 8 = x"
  using mod_mult_self1 [of x 6 32] mod_mult_self1 [of x 14 16] mod_mult_self1 [of x 30 8]
  by (simp_all add: add.commute)

text \<open>The bytes of a code point, by arithmetic.\<close>

definition cont :: "int \<Rightarrow> u8" where
  "cont v = word_of_int (128 + v mod 64)"

definition utf8_bytes :: "GuUCS \<Rightarrow> u8 list" where
  "utf8_bytes u =
     (if u < 0x80 then [word_of_int u]
      else if u < 0x800 then [word_of_int (192 + u div 64), cont u]
      else if u < 0x10000 then [word_of_int (224 + u div 4096), cont (u div 64), cont u]
      else [word_of_int (240 + u div 262144), cont (u div 4096), cont (u div 64), cont u])"

lemma lead_byte:
  "0 \<le> x \<Longrightarrow> x < 64 \<Longrightarrow> (word_of_int (x OR - 64) :: u8) = word_of_int (192 + x)"
  "0 \<le> x \<Longrightarrow> x < 32 \<Longrightarrow> (word_of_int (x OR - 32) :: u8) = word_of_int (224 + x)"
  "0 \<le> x \<Longrightarrow> x < 16 \<Longrightarrow> (word_of_int (x OR - 16) :: u8) = word_of_int (240 + x)"
proof -
  have w: "(word_of_int (a - 256) :: u8) = word_of_int a" for a
    by (simp add: word_of_int_eq_iff take_bit_eq_mod)
  show "0 \<le> x \<Longrightarrow> x < 64 \<Longrightarrow> (word_of_int (x OR - 64) :: u8) = word_of_int (192 + x)"
    using or_shift [of x 6 "- 1"] w [of "192 + x"] by (simp add: push_bit_eq_mult or.commute)
  show "0 \<le> x \<Longrightarrow> x < 32 \<Longrightarrow> (word_of_int (x OR - 32) :: u8) = word_of_int (224 + x)"
    using or_shift [of x 5 "- 1"] w [of "224 + x"] by (simp add: push_bit_eq_mult or.commute)
  show "0 \<le> x \<Longrightarrow> x < 16 \<Longrightarrow> (word_of_int (x OR - 16) :: u8) = word_of_int (240 + x)"
    using or_shift [of x 4 "- 1"] w [of "240 + x"] by (simp add: push_bit_eq_mult or.commute)
qed

lemma div_div: "(u :: int) div 64 div 64 = u div 4096" "u div 4096 div 64 = u div 262144"
  by (simp_all flip: zdiv_zmult2_eq)

lemma encode_one: "gu_ucs_valid u \<Longrightarrow> gu_utf8_encode_one_unsafe u = Done (utf8_bytes u)"
proof -
  assume v: "gu_ucs_valid u"
  then have u: "0 \<le> u" "u \<le> 1114111" by (simp_all add: gu_ucs_valid_def GU_UCS_MAX_def)
  have d: "drop_bit 6 x = x div 64" for x :: int by (simp add: drop_bit_eq_div)
  consider "u < 0x80" | "0x80 \<le> u" "u < 0x800" | "0x800 \<le> u" "u < 0x10000" | "0x10000 \<le> u" by linarith
  then show ?thesis
  proof cases
    case 1
    then show ?thesis using v by (simp add: gu_utf8_encode_one_unsafe_def utf8_bytes_def)
  next
    case 2
    have b: "0 \<le> u div 64" "u div 64 < 64" using 2 by linarith+
    have "encode_tail 1 u [] = ([cont u], u div 64)"
      by (simp add: d cont_byte cont_def)
    with 2 v lead_byte(1) [OF b] show ?thesis
      by (simp add: gu_utf8_encode_one_unsafe_def utf8_bytes_def drop_bit_eq_div not_int_def)
  next
    case 3
    have b: "0 \<le> u div 4096" "u div 4096 < 32" using 3 by linarith+
    have "encode_tail 2 u [] = ([cont (u div 64), cont u], u div 4096)"
      by (simp add: numeral_2_eq_2 d cont_byte cont_def div_div)
    with 3 v lead_byte(2) [OF b] show ?thesis
      by (simp add: gu_utf8_encode_one_unsafe_def utf8_bytes_def drop_bit_eq_div not_int_def)
  next
    case 4
    have b: "0 \<le> u div 262144" "u div 262144 < 16" using 4 u by linarith+
    have "encode_tail 3 u [] = ([cont (u div 4096), cont (u div 64), cont u], u div 262144)"
      by (simp add: numeral_3_eq_3 d cont_byte cont_def div_div)
    with 4 v lead_byte(3) [OF b] show ?thesis
      by (simp add: gu_utf8_encode_one_unsafe_def utf8_bytes_def drop_bit_eq_div not_int_def)
  qed
qed

lemma length_utf8_bytes [simp]: "length (utf8_bytes u) = gu_utf8_encode_length u"
  by (simp add: utf8_bytes_def gu_utf8_encode_length_def)

lemma tail_step:
  "utf8_tail (b # cont v # bs) 1 u = Done (u * 64 + v mod 64)"
  "utf8_tail (b # cont w # cont v # bs) 2 u = Done ((u * 64 + w mod 64) * 64 + v mod 64)"
  "utf8_tail (b # cont x # cont w # cont v # bs) 3 u = Done (((u * 64 + x mod 64) * 64 + w mod 64) * 64 + v mod 64)"
  using decode_cont
  by (simp_all add: utf8_tail_def seq_at_def cont_def numeral_2_eq_2 numeral_3_eq_3 upt_rec)

lemma join_digits:
  "(u :: int) div 64 * 64 + u mod 64 = u"
  "(u div 4096 * 64 + u div 64 mod 64) * 64 + u mod 64 = u"
  "((u div 262144 * 64 + u div 4096 mod 64) * 64 + u div 64 mod 64) * 64 + u mod 64 = u"
  using div_div [of u] div_mult_mod_eq [of u 64] div_mult_mod_eq [of "u div 64" 64]
    div_mult_mod_eq [of "u div 4096" 64] by simp_all

lemma decode_one:
  assumes "gu_ucs_valid u"
  shows "gu_utf8_decode_one (utf8_bytes u @ rest) = Done (Some (u, gu_utf8_encode_length u))"
    and "gu_utf8_decode_one_unsafe (utf8_bytes u @ rest) = Done (u, gu_utf8_encode_length u)"
proof -
  have u: "0 \<le> u" "u \<le> 1114111" using assms by (simp_all add: gu_ucs_valid_def GU_UCS_MAX_def)
  consider "u < 0x80" | "0x80 \<le> u" "u < 0x800" | "0x800 \<le> u" "u < 0x10000" | "0x10000 \<le> u" by linarith
  then have "gu_utf8_decode_one (utf8_bytes u @ rest) = Done (Some (u, gu_utf8_encode_length u)) \<and>
    gu_utf8_decode_one_unsafe (utf8_bytes u @ rest) = Done (u, gu_utf8_encode_length u)"
  proof cases
    case 1
    then show ?thesis
      using u uint_byte [of u]
      by (simp add: gu_utf8_decode_one_def gu_utf8_decode_one_unsafe_def utf8_bytes_def
          gu_utf8_encode_length_def word_less_def)
  next
    case 2
    define c :: u8 where "c = word_of_int (192 + u div 64)"
    have r: "2 \<le> u div 64" "u div 64 < 32" using 2 by auto
    have "uint c = 192 + u div 64" unfolding c_def using r by (intro uint_byte) linarith+
    note b = this r
    have m: "utf8_more c = 1" using b by (simp add: utf8_more_def word_less_def)
    have l: "utf8_lead c = u div 64"
      using lead_payload(1) [OF _ m] b lead_mod(1) [of "u div 64"] by simp
    have t: "utf8_tail (c # cont u # rest) (Suc 0) (u div 64) = Done u"
      using tail_step(1) [of c u rest "u div 64"] join_digits(1) [of u] by simp
    have "utf8_bytes u = [c, cont u]" using 2 by (simp add: utf8_bytes_def c_def)
    then show ?thesis
      using 2 b m l t assms
      by (simp add: gu_utf8_decode_one_def gu_utf8_decode_one_unsafe_def gu_utf8_encode_length_def word_less_def)
  next
    case 3
    define c :: u8 where "c = word_of_int (224 + u div 4096)"
    have r: "0 \<le> u div 4096" "u div 4096 < 16" using 3 by auto
    have "uint c = 224 + u div 4096" unfolding c_def using r by (intro uint_byte) linarith+
    note b = this r
    have m: "utf8_more c = 2" using b by (simp add: utf8_more_def word_less_def)
    have l: "utf8_lead c = u div 4096"
      using lead_payload(2) [OF _ m] b lead_mod(2) [of "u div 4096"] by simp
    have t: "utf8_tail (c # cont (u div 64) # cont u # rest) 2 (u div 4096) = Done u"
      by (simp only: tail_step(2) join_digits(2))
    have "utf8_bytes u = [c, cont (u div 64), cont u]" using 3 by (simp add: utf8_bytes_def c_def)
    then show ?thesis
      using 3 b m l t assms
      by (simp add: gu_utf8_decode_one_def gu_utf8_decode_one_unsafe_def gu_utf8_encode_length_def word_less_def)
  next
    case 4
    define c :: u8 where "c = word_of_int (240 + u div 262144)"
    have r: "0 \<le> u div 262144" "u div 262144 \<le> 4" using 4 u by auto
    have "uint c = 240 + u div 262144" unfolding c_def using r by (intro uint_byte) linarith+
    note b = this r
    have m: "utf8_more c = 3" using b by (simp add: utf8_more_def word_less_def)
    have l: "utf8_lead c = u div 262144"
      using lead_payload(3) [OF _ m] b lead_mod(3) [of "u div 262144"] by simp
    have t: "utf8_tail (c # cont (u div 4096) # cont (u div 64) # cont u # rest) 3 (u div 262144) = Done u"
      by (simp only: tail_step(3) join_digits(3))
    have "utf8_bytes u = [c, cont (u div 4096), cont (u div 64), cont u]" using 4 by (simp add: utf8_bytes_def c_def)
    then show ?thesis
      using 4 b m l t assms
      by (simp add: gu_utf8_decode_one_def gu_utf8_decode_one_unsafe_def gu_utf8_encode_length_def word_less_def)
  qed
  then show "gu_utf8_decode_one (utf8_bytes u @ rest) = Done (Some (u, gu_utf8_encode_length u))"
    "gu_utf8_decode_one_unsafe (utf8_bytes u @ rest) = Done (u, gu_utf8_encode_length u)" by blast+
qed

subsection \<open>Buffers\<close>

definition utf8_all :: "GuUCS list \<Rightarrow> u8 list" where
  "utf8_all us = concat (map utf8_bytes us)"

lemma utf8_all_simps [simp]:
  "utf8_all [] = []"
  "utf8_all (u # us) = utf8_bytes u @ utf8_all us"
  "utf8_all (us @ vs) = utf8_all us @ utf8_all vs"
  by (simp_all add: utf8_all_def)

lemma encode_length_bounds: "1 \<le> gu_utf8_encode_length u" "gu_utf8_encode_length u \<le> 4"
  by (simp_all add: gu_utf8_encode_length_def)

lemma utf8_all_bounds: "length us \<le> length (utf8_all us)" "length (utf8_all us) \<le> 4 * length us"
  by (induction us) (use encode_length_bounds in \<open>auto intro: add_mono order_trans\<close>)

lemma encode_all_spec: "list_all gu_ucs_valid us \<Longrightarrow> encode_all us = Done (utf8_all us)"
  by (induction us) (simp_all add: encode_one)

text \<open>What both loops of the encoder keep: a prefix of the source is written, within the room.\<close>

lemma encode_fast_spec:
  "list_all gu_ucs_valid src \<Longrightarrow> \<exists>us vs. src = us @ vs \<and> length (utf8_all us) \<le> room \<and>
     encode_fast src room = Done (utf8_all us, vs, room - length (utf8_all us)) \<and> min (length vs) ((room - length (utf8_all us)) div 4) = 0"
proof (induction src room rule: encode_fast.induct)
  case (1 src room)
  define n where "n = min (length src) (room div 4)"
  show ?case
  proof (cases "n = 0")
    case True
    then show ?thesis
      by (intro exI [of _ "[]"] exI [of _ src]) (simp add: encode_fast.simps [of src room] n_def)
  next
    case False
    let ?t = "take n src"
    have v: "list_all gu_ucs_valid ?t" "list_all gu_ucs_valid (drop n src)"
      using 1(2) by (auto simp: list_all_iff dest: in_set_takeD in_set_dropD)
    have le: "length (utf8_all ?t) \<le> room"
      using utf8_all_bounds(2) [of ?t] by (simp add: n_def)
    from 1(1) [OF n_def False v(2), of "utf8_all ?t"] obtain us vs where r: "drop n src = us @ vs"
      "length (utf8_all us) \<le> room - length (utf8_all ?t)"
      "encode_fast (drop n src) (room - length (utf8_all ?t)) =
         Done (utf8_all us, vs, room - length (utf8_all ?t) - length (utf8_all us))"
      "min (length vs) ((room - length (utf8_all ?t) - length (utf8_all us)) div 4) = 0" by blast
    have "encode_fast src room = Done (utf8_all (?t @ us), vs, room - length (utf8_all (?t @ us)))"
      using r(3) False encode_all_spec [OF v(1)]
      by (subst encode_fast.simps) (simp add: n_def [symmetric] Let_def)
    moreover have "src = (?t @ us) @ vs" using r(1) append_take_drop_id [of n src] by simp
    moreover have "length (utf8_all (?t @ us)) \<le> room" using r(2) le by simp
    moreover have "min (length vs) ((room - length (utf8_all (?t @ us))) div 4) = 0" using r(4) by simp
    ultimately show ?thesis by blast
  qed
qed

lemma encode_slow_spec:
  "list_all gu_ucs_valid src \<Longrightarrow> \<exists>us vs. src = us @ vs \<and> length (utf8_all us) \<le> room \<and>
     encode_slow src room = Done (utf8_all us, vs) \<and>
     (vs \<noteq> [] \<longrightarrow> room < length (utf8_all us) + gu_utf8_encode_length (hd vs))"
proof (induction src arbitrary: room)
  case (Cons u src)
  show ?case
  proof (cases "gu_utf8_encode_length u > room")
    case True
    then show ?thesis
      by (intro exI [of _ "[]"] exI [of _ "u # src"]) auto
  next
    case False
    obtain us vs where r: "src = us @ vs" "length (utf8_all us) \<le> room - gu_utf8_encode_length u"
      "encode_slow src (room - gu_utf8_encode_length u) = Done (utf8_all us, vs)"
      "vs \<noteq> [] \<longrightarrow> room - gu_utf8_encode_length u < length (utf8_all us) + gu_utf8_encode_length (hd vs)"
      using Cons.IH [of "room - gu_utf8_encode_length u"] Cons.prems by auto
    with False Cons.prems encode_length_bounds(1) [of u] show ?thesis
      by (intro exI [of _ "u # us"] exI [of _ vs]) (auto simp: encode_one)
  qed
qed auto

text \<open>The encoder as a whole.\<close>

lemma encode_spec:
  assumes "list_all gu_ucs_valid us"
  shows "\<exists>as ls. gu_utf8_encode us room = Done (utf8_all as, ls) \<and> us = as @ ls \<and> length (utf8_all as) \<le> room \<and>
    (ls \<noteq> [] \<longrightarrow> room < length (utf8_all as) + gu_utf8_encode_length (hd ls))"
proof -
  obtain us1 vs1 where f: "us = us1 @ vs1" "length (utf8_all us1) \<le> room"
    "encode_fast us room = Done (utf8_all us1, vs1, room - length (utf8_all us1))"
    using encode_fast_spec [OF assms] by blast
  have v: "list_all gu_ucs_valid vs1" using assms f(1) by simp
  obtain us2 vs2 where s: "vs1 = us2 @ vs2" "length (utf8_all us2) \<le> room - length (utf8_all us1)"
    "encode_slow vs1 (room - length (utf8_all us1)) = Done (utf8_all us2, vs2)"
    "vs2 \<noteq> [] \<longrightarrow> room - length (utf8_all us1) < length (utf8_all us2) + gu_utf8_encode_length (hd vs2)"
    using encode_slow_spec [OF v] by blast
  with f show ?thesis
    by (intro exI [of _ "us1 @ us2"] exI [of _ vs2]) (auto simp: gu_utf8_encode_def)
qed

lemma decode_batch_spec:
  "list_all gu_ucs_valid us \<Longrightarrow>
     decode_batch (length us) (utf8_all us @ rest) rem = Done (us, rest, rem - int (length (utf8_all us)))"
proof (induction us arbitrary: rem)
  case (Cons u us)
  then show ?case
    using Cons.IH [of "rem - int (gu_utf8_encode_length u)"] by (simp add: decode_one(2) algebra_simps)
qed simp

lemma decode_loop_spec:
  assumes "list_all gu_ucs_valid us" and "length us \<le> room" and "length (utf8_all us) < 2 ^ 63"
  shows "decode_loop (utf8_all us) (int (length (utf8_all us))) room = Done (us, 0)"
  using assms
proof (induction us arbitrary: room rule: length_induct)
  case (1 us)
  let ?l = "length (utf8_all us)" and ?sz = "batch_size (int (length (utf8_all us))) room"
  have m: "(int ?l mod 2 ^ 64 + 3) mod 2 ^ 64 = int (?l + 3)" using 1(4) by simp
  have sz: "?sz = min ((?l + 3) div 4) room" unfolding batch_size_def m by simp
  show ?case
  proof (cases "us = []")
    case True
    then have "batch_size 0 room = 0" using sz by simp
    with True show ?thesis by (simp add: decode_loop.simps [of "[]"])
  next
    case False
    then have "0 < ?l" using utf8_all_bounds(1) [of us] by (cases us) auto
    then have "0 < (?l + 3) div 4" by (simp add: div_greater_zero_iff Suc_leI)
    then have pos: "0 < ?sz" using 1(3) False sz by (cases us) auto
    have "?l \<le> 4 * length us" by (rule utf8_all_bounds)
    then have le: "?sz \<le> length us" using sz by linarith
    define us1 us2 where "us1 = take ?sz us" and "us2 = drop ?sz us"
    have us: "us = us1 @ us2" "length us1 = ?sz" using le by (simp_all add: us1_def us2_def)
    have v: "list_all gu_ucs_valid us1" "list_all gu_ucs_valid us2" using 1(2) us(1) by auto
    have b: "decode_batch ?sz (utf8_all us) (int ?l) = Done (us1, utf8_all us2, int (length (utf8_all us2)))"
      using decode_batch_spec [OF v(1), of "utf8_all us2" "int ?l"] us by simp
    have "decode_loop (utf8_all us2) (int (length (utf8_all us2))) (room - ?sz) = Done (us2, 0)"
      using 1(1) us pos v 1(3,4) by simp
    with b pos us(1) show ?thesis
      by (subst decode_loop.simps) (simp add: Let_def)
  qed
qed

subsection \<open>Properties\<close>

text \<open>C25. UTF-8 round trip for buffers: with enough room the encoder writes the encodings of all code points and the
  decoder gets the code points back from exactly those bytes, without an abort and with nothing left over.\<close>

theorem utf8_roundtrip:
  assumes "list_all gu_ucs_valid us" and "4 * length us < 2 ^ 63"
  shows "\<exists>bs. gu_utf8_encode us (4 * length us) = Done (bs, []) \<and>
    gu_utf8_decode_unsafe bs (length bs) (length us) = Done (us, 0)"
proof -
  let ?room = "4 * length us"
  obtain as ls where e: "gu_utf8_encode us ?room = Done (utf8_all as, ls)" "us = as @ ls"
    "ls \<noteq> [] \<longrightarrow> ?room < length (utf8_all as) + gu_utf8_encode_length (hd ls)"
    using encode_spec [OF assms(1), of ?room] by metis
  have "ls = []"
    using e(2,3) utf8_all_bounds(2) [of as] encode_length_bounds(2) [of "hd ls"] by (cases ls) auto
  then have "gu_utf8_encode us ?room = Done (utf8_all us, [])" using e by simp
  moreover have "length (utf8_all us) < 2 ^ 63"
    using utf8_all_bounds(2) [of us] assms(2) by linarith
  ultimately show ?thesis
    using decode_loop_spec [OF assms(1) order_refl] by (simp add: gu_utf8_decode_unsafe_def)
qed

theorem utf8_roundtrip_witness:
  "\<exists>bs. gu_utf8_encode [0x41, 0xE4, 0x20AC, 0x1F600] 16 = Done (bs, []) \<and>
    gu_utf8_decode_unsafe bs (length bs) 4 = Done ([0x41, 0xE4, 0x20AC, 0x1F600], 0)"
proof -
  have v: "list_all gu_ucs_valid [0x41, 0xE4, 0x20AC, 0x1F600]"
    by (simp add: gu_ucs_valid_def GU_UCS_MAX_def)
  have l: "length [0x41, 0xE4, 0x20AC, 0x1F600 :: GuUCS] = 4" by simp
  show ?thesis using utf8_roundtrip [OF v] unfolding l by simp
qed

text \<open>C26. The encoder never overruns its destination: it writes the encodings of a prefix of the code
  points, in at most the room it is given, and stops only when the next code point does not fit.\<close>

theorem encode_within_room:
  assumes "list_all gu_ucs_valid us"
  shows "\<exists>done left bs. gu_utf8_encode us room = Done (bs, left) \<and> us = done @ left \<and>
    encode_all done = Done bs \<and> length bs \<le> room \<and>
    (left \<noteq> [] \<longrightarrow> room < length bs + gu_utf8_encode_length (hd left))"
proof -
  obtain as ls where e: "gu_utf8_encode us room = Done (utf8_all as, ls)" "us = as @ ls" "length (utf8_all as) \<le> room"
    "ls \<noteq> [] \<longrightarrow> room < length (utf8_all as) + gu_utf8_encode_length (hd ls)"
    using encode_spec [OF assms, of room] by metis
  have "encode_all as = Done (utf8_all as)" using assms e(2) by (intro encode_all_spec) simp
  with e show ?thesis by blast
qed

theorem encode_within_room_witness:
  "\<exists>done left bs. gu_utf8_encode [0x20AC, 0x20AC] 5 = Done (bs, left) \<and> [0x20AC, 0x20AC] = done @ left \<and>
    length bs \<le> 5"
  using encode_within_room [of "[0x20AC, 0x20AC]" 5] by (auto simp: gu_ucs_valid_def GU_UCS_MAX_def)

text \<open>Decoding one code point checks the first byte and the range: an encoded code point is decoded to itself,
  whatever follows, and what is decoded is always a valid code point; but continuation bytes are not checked, so
  malformed sequences are decoded without an exception.\<close>

theorem decode_one_checks:
  "(gu_ucs_valid u \<longrightarrow> (\<exists>b. gu_utf8_encode_one_unsafe u = Done b \<and>
      gu_utf8_decode_one (b @ rest) = Done (Some (u, length b)))) \<and>
   (\<forall>src v n. gu_utf8_decode_one src = Done (Some (v, n)) \<longrightarrow> gu_ucs_valid v) \<and>
   gu_utf8_decode_one [0xc3, 0x28] = Done (Some (0xe8, 2))"
proof (intro conjI impI allI)
  assume "gu_ucs_valid u"
  then show "\<exists>b. gu_utf8_encode_one_unsafe u = Done b \<and> gu_utf8_decode_one (b @ rest) = Done (Some (u, length b))"
    by (simp add: encode_one decode_one(1))
next
  fix src v n
  assume d: "gu_utf8_decode_one src = Done (Some (v, n))"
  have "gu_ucs_valid (uint c)" if "c < 0x80" for c :: u8
    using that by (simp add: gu_ucs_valid_def GU_UCS_MAX_def word_less_def)
  with d show "gu_ucs_valid v"
    by (auto simp: gu_utf8_decode_one_def run_simps split: if_splits)
next
  show "gu_utf8_decode_one [0xc3, 0x28] = Done (Some (0xe8, 2))"
    by code_simp
qed

theorem decode_one_checks_witness:
  "\<exists>b. gu_utf8_encode_one_unsafe 0x20AC = Done b \<and> gu_utf8_decode_one (b @ [65]) = Done (Some (0x20AC, length b))"
  using decode_one_checks [where u = "0x20AC" and rest = "[65]"] by (simp add: gu_ucs_valid_def GU_UCS_MAX_def)



end
