(* ===== verification/Kinds.thy ===== *)
theory Kinds
  imports Prelude
begin

text \<open>
  Run-time kinds and type maps, \<open>gu/type.c\<close>.

  A \<open>GuKind\<close> is a node with a pointer to its super kind, and every \<open>GuType\<close> is itself such a node, so
  that the super chain of a type leads from the type over its kinds to the kind \<open>type\<close>. Kinds are
  static objects compared by address; the model names them by the identifier of their C object. A type
  map is a table from kinds to values in which a lookup climbs the super chain of a type.
\<close>

datatype GuKind = GuKindNull | GuKind (ident: string) (super: GuKind)

type_synonym GuType = GuKind

fun gu_type_has_kind :: "GuType \<Rightarrow> GuKind \<Rightarrow> bool" where
  "gu_type_has_kind GuKindNull kind = False"
| "gu_type_has_kind (GuKind n s) kind = (GuKind n s = kind \<or> gu_type_has_kind s kind)"

text \<open>A type table: parent tables and entries. Later entries overwrite earlier ones in the map.\<close>

datatype 'v GuTypeTable = GuTypeTable (parents: "'v GuTypeTable list") (entries: "(GuKind \<times> 'v) list")

type_synonym 'v GuTypeMap = "GuKind \<rightharpoonup> 'v"

fun gu_type_map_init :: "'v GuTypeMap \<Rightarrow> 'v GuTypeTable \<Rightarrow> 'v GuTypeMap" where
  "gu_type_map_init m (GuTypeTable ps es) =
     foldl (\<lambda>m (k, v). m(k \<mapsto> v)) (foldl gu_type_map_init m ps) es"

definition gu_new_type_map :: "'v GuTypeTable \<Rightarrow> 'v GuTypeMap" where
  "gu_new_type_map table = gu_type_map_init Map.empty table"

fun gu_type_map_get :: "'v GuTypeMap \<Rightarrow> GuType \<Rightarrow> 'v option" where
  "gu_type_map_get m GuKindNull = None"
| "gu_type_map_get m (GuKind n s) =
     (case m (GuKind n s) of Some v \<Rightarrow> Some v | None \<Rightarrow> gu_type_map_get m s)"

definition gu_type_dyn_cast :: "GuType \<Rightarrow> GuKind \<Rightarrow> GuType option" where
  "gu_type_dyn_cast type kind = (if gu_type_has_kind type kind then Some type else None)"

subsection \<open>Lemmas\<close>

lemma has_kind_NullD [simp]: "\<not> gu_type_has_kind t GuKindNull"
  by (induction t) auto

lemma has_kind_refl: "t \<noteq> GuKindNull \<Longrightarrow> gu_type_has_kind t t"
  by (cases t) auto

lemma has_kind_trans: "gu_type_has_kind t k \<Longrightarrow> gu_type_has_kind k l \<Longrightarrow> gu_type_has_kind t l"
  by (induction t) auto

text \<open>A lookup finds the entry of the nearest kind of the type that has one.\<close>

lemma type_map_get_Some:
  "gu_type_map_get m t = Some v \<Longrightarrow> \<exists>k. gu_type_has_kind t k \<and> m k = Some v"
  by (induction t) (auto split: option.splits)

lemma type_map_get_None: "gu_type_map_get m t = None \<longleftrightarrow> (\<forall>k. gu_type_has_kind t k \<longrightarrow> m k = None)"
  by (induction t) (auto split: option.splits)

lemma type_map_get_nearest:
  assumes "gu_type_map_get m t = Some v"
  shows "\<exists>k. gu_type_has_kind t k \<and> m k = Some v \<and>
    (\<forall>l. gu_type_has_kind t l \<and> \<not> gu_type_has_kind k l \<longrightarrow> m l = None)"
  using assms
proof (induction t)
  case (GuKind n s)
  show ?case
  proof (cases "m (GuKind n s)")
    case None
    with GuKind obtain k where k: "gu_type_has_kind s k" "m k = Some v"
      "\<forall>l. gu_type_has_kind s l \<and> \<not> gu_type_has_kind k l \<longrightarrow> m l = None" by auto
    with None show ?thesis by (intro exI [of _ k]) auto
  next
    case (Some w)
    with GuKind(2) show ?thesis by (intro exI [of _ "GuKind n s"]) auto
  qed
qed simp

end
