(* ===== verification/Exn.thy ===== *)
theory Exn
  imports Kinds
begin

text \<open>
  Exception frames, \<open>gu/exn.c\<close> and \<open>gu/exn.h\<close>.

  A frame has a state, a parent frame, the kind of exceptions it catches and the exception it caught. The
  chain of frames from a frame over its parents is a list, the frame at hand first; a null frame
  pointer is the empty list, a null kind or type is \<open>GuKindNull\<close>. Pools and exception data are addresses.
\<close>

datatype GuExnState = GU_EXN_RAISED | GU_EXN_OK | GU_EXN_BLOCKED

record GuExn =
  exn_state :: GuExnState
  catch :: GuKind
  caught :: GuType
  exn_pool :: "nat option"
  exn_data :: "nat option"

type_synonym frames = "GuExn list"

definition gu_new_exn :: "frames \<Rightarrow> GuKind \<Rightarrow> nat option \<Rightarrow> frames" where
  "gu_new_exn parent k p = \<lparr> exn_state = GU_EXN_OK, catch = k, caught = GuKindNull, exn_pool = p, exn_data = None \<rparr> # parent"

definition gu_null_exn :: frames where
  "gu_null_exn = gu_new_exn [] GuKindNull None"

definition gu_exn_is_raised :: "GuExn \<Rightarrow> bool" where
  "gu_exn_is_raised err = (exn_state err = GU_EXN_RAISED)"

definition gu_ok :: "GuExn \<Rightarrow> bool" where
  "gu_ok err = (\<not> gu_exn_is_raised err)"

fun gu_exn_block :: "frames \<Rightarrow> frames" where
  "gu_exn_block [] = []"
| "gu_exn_block (err # ps) =
     (if exn_state err = GU_EXN_RAISED then err\<lparr>exn_state := GU_EXN_BLOCKED\<rparr> else err) # ps"

fun gu_exn_unblock :: "frames \<Rightarrow> frames" where
  "gu_exn_unblock [] = []"
| "gu_exn_unblock (err # ps) =
     (if exn_state err = GU_EXN_BLOCKED then err\<lparr>exn_state := GU_EXN_RAISED\<rparr> else err) # ps"

definition gu_exn_clear :: "GuExn \<Rightarrow> GuExn" where
  "gu_exn_clear err = err\<lparr>caught := GuKindNull, exn_state := GU_EXN_OK\<rparr>"

text \<open>Whether a frame handles exceptions of a type, and the walk to the handler. The result is the frames and
  the place of the exception data, as the position of its frame.\<close>

definition catches :: "GuType \<Rightarrow> GuExn \<Rightarrow> bool" where
  "catches type err = (catch err \<noteq> GuKindNull \<and> gu_type_has_kind type (catch err))"

fun raise_walk :: "GuType \<Rightarrow> frames \<Rightarrow> (frames \<times> nat option) run" where
  "raise_walk type [] = Fault (Abort GU_ASSERT_ASSERTION)"
| "raise_walk type (err # ps) =
     (if catches type err then
        (let err' = err\<lparr>exn_state := GU_EXN_RAISED\<rparr> in
         if exn_state err = GU_EXN_OK then
           Done (err'\<lparr>caught := type\<rparr> # ps, if exn_pool err \<noteq> None then Some 0 else None)
         else Done (err' # ps, None))
      else bindR (raise_walk type ps) (\<lambda>(ps', d).
        Done (err\<lparr>exn_state := GU_EXN_RAISED\<rparr> # ps', map_option Suc d)))"

definition gu_exn_raise :: "frames \<Rightarrow> GuType \<Rightarrow> (frames \<times> nat option) run" where
  "gu_exn_raise base type = gu_require (type \<noteq> GuKindNull) (raise_walk type base)"

text \<open>The macro \<open>gu_raise_new\<close> stores data with the exception when it gets a place for it.\<close>

definition gu_raise_new :: "frames \<Rightarrow> GuType \<Rightarrow> nat \<Rightarrow> frames run" where
  "gu_raise_new base type expr =
     bindR (gu_exn_raise base type) (\<lambda>(fs, d).
       Done (case d of None \<Rightarrow> fs | Some i \<Rightarrow> fs[i := (fs ! i)\<lparr>exn_data := Some expr\<rparr>]))"

definition gu_exn_caught :: "GuExn \<Rightarrow> GuType" where
  "gu_exn_caught err = caught err"

definition gu_exn_caught_data :: "GuExn \<Rightarrow> nat option" where
  "gu_exn_caught_data err = exn_data err"

text \<open>What the code that passes a frame along sees of it: the exception that a frame holds which handles
  everything, as the frames made by \<open>gu_top_exn\<close> do. The models of the operations that take a
  frame pass this value along; the first exception raised is the one that stays.\<close>

type_synonym GuErr = "GuType option"

definition gu_raise :: "GuType \<Rightarrow> GuErr \<Rightarrow> GuErr" where
  "gu_raise type err = (case err of None \<Rightarrow> Some type | Some t \<Rightarrow> Some t)"

definition err_view :: "GuExn \<Rightarrow> GuErr" where
  "err_view e = (if gu_ok e then None else Some (gu_exn_caught e))"

lemma gu_raise_simps [simp]:
  "gu_raise t None = Some t" "gu_raise t (Some u) = Some u" "gu_raise t err \<noteq> None"
  by (auto simp: gu_raise_def split: option.splits)

lemma gu_raise_view:
  assumes "t \<noteq> GuKindNull" and "catches t e" and "exn_state e \<noteq> GU_EXN_BLOCKED"
  shows "\<exists>e' d. gu_exn_raise (e # ps) t = Done (e' # ps, d) \<and> err_view e' = gu_raise t (err_view e)"
  using assms
  by (cases "exn_state e")
    (auto simp: gu_exn_raise_def Let_def err_view_def gu_ok_def gu_exn_is_raised_def gu_exn_caught_def)

subsection \<open>The operations as steps\<close>

text \<open>One step of client code that works with the frame at the head of a chain: it creates an inner
  frame or leaves one, raises, blocks, unblocks or clears.\<close>

inductive exn_step :: "frames \<Rightarrow> frames \<Rightarrow> bool" where
  enter: "exn_step fs (gu_new_exn fs k p)"
| leave: "exn_step (e # fs) fs"
| raise_plain: "gu_exn_raise fs t = Done (fs', d) \<Longrightarrow> exn_step fs fs'"
| raise_data: "gu_raise_new fs t v = Done fs' \<Longrightarrow> exn_step fs fs'"
| block: "exn_step fs (gu_exn_block fs)"
| unblock: "exn_step fs (gu_exn_unblock fs)"
| clear: "exn_step (e # fs) (gu_exn_clear e # fs)"

text \<open>What a frame guarantees to its handler: an exception it holds is of a kind it catches, and a frame in
  the state \<open>OK\<close> holds none.\<close>

definition frame_ok :: "GuExn \<Rightarrow> bool" where
  "frame_ok e \<longleftrightarrow> (caught e \<noteq> GuKindNull \<longrightarrow> catches (caught e) e \<and> exn_state e \<noteq> GU_EXN_OK)"

lemma frame_ok_simps [simp]:
  "frame_ok (e\<lparr>exn_state := GU_EXN_RAISED\<rparr>) \<longleftrightarrow> (caught e \<noteq> GuKindNull \<longrightarrow> catches (caught e) e)"
  "frame_ok (e\<lparr>exn_state := GU_EXN_RAISED, caught := t\<rparr>) \<longleftrightarrow> (t \<noteq> GuKindNull \<longrightarrow> catches t e)"
  "frame_ok (e\<lparr>exn_data := x\<rparr>) \<longleftrightarrow> frame_ok e"
  "frame_ok (gu_exn_clear e)"
  by (auto simp: frame_ok_def catches_def gu_exn_clear_def)

lemma raise_walk_ok:
  "raise_walk t fs = Done (fs', d) \<Longrightarrow> list_all frame_ok fs \<Longrightarrow> list_all frame_ok fs'"
proof (induction fs arbitrary: fs' d)
  case (Cons e fs)
  then show ?case
    by (auto simp: run_simps Let_def frame_ok_def catches_def split: if_splits)
qed simp

lemma raise_walk_length: "raise_walk t fs = Done (fs', d) \<Longrightarrow> length fs' = length fs \<and> (\<forall>i. d = Some i \<longrightarrow> i < length fs)"
proof (induction fs arbitrary: fs' d)
  case (Cons e fs)
  then show ?case by (fastforce simp: run_simps Let_def split: if_splits)
qed simp

lemma exn_step_ok: "exn_step fs fs' \<Longrightarrow> list_all frame_ok fs \<Longrightarrow> list_all frame_ok fs'"
proof (induction rule: exn_step.induct)
  case (raise_plain fs t fs' d)
  then show ?case by (auto simp: gu_exn_raise_def run_simps dest: raise_walk_ok)
next
  case (raise_data fs t v fs')
  then obtain gs d where g: "raise_walk t fs = Done (gs, d)"
    and fs': "fs' = (case d of None \<Rightarrow> gs | Some i \<Rightarrow> gs[i := (gs ! i)\<lparr>exn_data := Some v\<rparr>])"
    by (auto simp: gu_raise_new_def gu_exn_raise_def run_simps)
  have "list_all frame_ok gs" using raise_walk_ok [OF g] raise_data by blast
  with raise_walk_length [OF g] show ?case
    by (cases d) (auto simp: fs' list_all_length nth_list_update)
next
  case (block fs)
  then show ?case by (cases fs) (auto simp: frame_ok_def catches_def)
next
  case (unblock fs)
  then show ?case by (cases fs) (auto simp: frame_ok_def catches_def)
qed (auto simp: gu_new_exn_def frame_ok_def gu_exn_clear_def)

text \<open>What a raise does to a chain of frames, by the first frame that catches.\<close>

lemma raise_walk_found:
  assumes "list_all (\<lambda>e. \<not> catches t e) pre" and "catches t h"
  shows "raise_walk t (pre @ h # post) =
    Done (map (exn_state_update (\<lambda>_. GU_EXN_RAISED)) pre @
      h\<lparr>exn_state := GU_EXN_RAISED, caught := if exn_state h = GU_EXN_OK then t else caught h\<rparr> # post,
      if exn_state h = GU_EXN_OK \<and> exn_pool h \<noteq> None then Some (length pre) else None)"
  using assms
proof (induction pre)
  case Nil
  then show ?case by (cases h) (auto simp: Let_def)
qed auto

lemma raise_walk_lost: "list_all (\<lambda>e. \<not> catches t e) fs \<longleftrightarrow> raise_walk t fs = Fault (Abort GU_ASSERT_ASSERTION)"
proof (induction fs)
  case (Cons e fs)
  then show ?case by (cases "raise_walk t fs") (auto simp: Let_def)
qed simp

subsection \<open>Properties\<close>

text \<open>C39. Raising marks every frame up to the nearest one that catches the exception as raised, leaves the frames
  above it alone, and delivers the exception to that frame unless it holds an earlier one, which it
  keeps; when no frame catches the exception the program is aborted.\<close>

theorem raise_delivers:
  assumes "t \<noteq> GuKindNull"
  shows "(\<forall>pre h post. list_all (\<lambda>e. \<not> catches t e) pre \<and> catches t h \<longrightarrow>
      (\<exists>pre' h' d. gu_exn_raise (pre @ h # post) t = Done (pre' @ h' # post, d) \<and>
         length pre' = length pre \<and> list_all (\<lambda>e. \<not> gu_ok e) pre' \<and> \<not> gu_ok h' \<and>
         gu_exn_caught h' = (if exn_state h = GU_EXN_OK then t else gu_exn_caught h))) \<and>
    (gu_exn_raise fs t = Fault (Abort GU_ASSERT_ASSERTION) \<longleftrightarrow> (\<forall>e\<in>set fs. \<not> catches t e))"
proof (intro conjI allI impI)
  fix pre h post
  assume "list_all (\<lambda>e. \<not> catches t e) pre \<and> catches t h"
  then have "gu_exn_raise (pre @ h # post) t =
    Done (map (exn_state_update (\<lambda>_. GU_EXN_RAISED)) pre @
      h\<lparr>exn_state := GU_EXN_RAISED, caught := if exn_state h = GU_EXN_OK then t else caught h\<rparr> # post,
      if exn_state h = GU_EXN_OK \<and> exn_pool h \<noteq> None then Some (length pre) else None)"
    using raise_walk_found assms by (simp add: gu_exn_raise_def)
  then show "\<exists>pre' h' d. gu_exn_raise (pre @ h # post) t = Done (pre' @ h' # post, d) \<and>
         length pre' = length pre \<and> list_all (\<lambda>e. \<not> gu_ok e) pre' \<and> \<not> gu_ok h' \<and>
         gu_exn_caught h' = (if exn_state h = GU_EXN_OK then t else gu_exn_caught h)"
    by (fastforce simp: gu_ok_def gu_exn_is_raised_def gu_exn_caught_def list_all_iff)
next
  show "gu_exn_raise fs t = Fault (Abort GU_ASSERT_ASSERTION) \<longleftrightarrow> (\<forall>e\<in>set fs. \<not> catches t e)"
    using assms raise_walk_lost [of t fs] by (simp add: gu_exn_raise_def list_all_iff)
qed

theorem raise_delivers_witness:
  "gu_exn_raise gu_null_exn (GuKind ''GuEOF'' GuKindNull) = Fault (Abort GU_ASSERT_ASSERTION)"
  using raise_delivers [of "GuKind ''GuEOF'' GuKindNull" gu_null_exn]
  by (simp add: gu_null_exn_def gu_new_exn_def catches_def)

text \<open>C40. Whatever client code does with a chain of frames, an exception that a frame has caught is of a kind the
  frame catches, and a frame that is in the state \<open>OK\<close> has caught none.\<close>

theorem caught_is_of_kind:
  assumes "exn_step\<^sup>*\<^sup>* gu_null_exn fs" and "e \<in> set fs" and "gu_exn_caught e \<noteq> GuKindNull"
  shows "gu_type_has_kind (gu_exn_caught e) (catch e) \<and> exn_state e \<noteq> GU_EXN_OK"
proof -
  have "list_all frame_ok fs"
    using assms(1)
  proof (induction rule: rtranclp_induct)
    case base
    then show ?case by (simp add: gu_null_exn_def gu_new_exn_def frame_ok_def)
  next
    case (step y z)
    then show ?case by (blast intro: exn_step_ok)
  qed
  with assms(2,3) show ?thesis by (auto simp: list_all_iff frame_ok_def catches_def gu_exn_caught_def)
qed

theorem caught_is_of_kind_witness:
  "\<exists>e fs. exn_step\<^sup>*\<^sup>* gu_null_exn (e # fs) \<and> gu_type_has_kind (gu_exn_caught e) (catch e) \<and>
    gu_exn_caught e = GuKind ''GuEOF'' (GuKind ''type'' GuKindNull) \<and> exn_state e \<noteq> GU_EXN_OK"
proof -
  let ?T = "GuKind ''type'' GuKindNull" and ?E = "GuKind ''GuEOF'' (GuKind ''type'' GuKindNull)"
  let ?f = "gu_new_exn gu_null_exn ?T None"
  let ?e = "(hd ?f)\<lparr>exn_state := GU_EXN_RAISED, caught := ?E\<rparr>"
  have "gu_exn_raise ?f ?E = Done (?e # gu_null_exn, None)"
    by (simp add: gu_exn_raise_def gu_new_exn_def catches_def Let_def)
  then have "exn_step ?f (?e # gu_null_exn)" by (rule exn_step.raise_plain)
  then have r: "exn_step\<^sup>*\<^sup>* gu_null_exn (?e # gu_null_exn)"
    by (rule rtranclp.rtrancl_into_rtrancl [OF r_into_rtranclp [of exn_step, OF exn_step.enter]])
  show ?thesis
    using caught_is_of_kind [OF r, of ?e] r
    by (intro exI [of _ ?e] exI [of _ gu_null_exn]) (simp add: gu_exn_caught_def)
qed

text \<open>Clearing a frame leaves the data of the old exception behind: an exception that is raised afterwards
  without data is reported with the data of the earlier one.\<close>

theorem cleared_data_is_stale:
  "\<exists>fs. gu_raise_new (gu_new_exn [] (GuKind ''type'' GuKindNull) (Some 0))
       (GuKind ''GuErrno'' (GuKind ''type'' GuKindNull)) 42 = Done fs \<and>
     (\<exists>e. gu_exn_raise (gu_exn_clear (hd fs) # tl fs) (GuKind ''GuEOF'' (GuKind ''type'' GuKindNull)) = Done ([e], Some 0) \<and>
        gu_exn_caught e = GuKind ''GuEOF'' (GuKind ''type'' GuKindNull) \<and> gu_exn_caught_data e = Some 42)"
  by (simp add: gu_raise_new_def gu_exn_raise_def gu_new_exn_def catches_def Let_def gu_exn_clear_def
      gu_exn_caught_def gu_exn_caught_data_def)

end
