(* ===== verification/In.thy ===== *)
theory In
  imports Bits Exn
begin

unbundle bit_operations_syntax

text \<open>
  Input streams, \<open>gu/in.c\<close> and \<open>gu/in.h\<close>.

  A \<open>GuInStream\<close> is an object with up to three functions: it can lend out a buffer of its bytes, take
  a lent buffer back together with the number of bytes that were consumed, and copy bytes out.
  The record \<open>GuInStreamFuns\<close> holds these functions over a type \<open>'s\<close> of stream states, with a null function
  pointer as \<open>None\<close>. A \<open>GuIn\<close> reads from a stream through the lent buffer: \<open>buf_end\<close> points to the end of the buffer
  and \<open>buf_curr\<close> counts up from minus its size to 0. The model keeps with \<open>buf_end\<close> the
  bytes that the pointer range covers, so an access outside them is a fault.

  The locale \<open>in_stream\<close> states the contract between a stream and its reader. It is proved once
  that a reader of a stream with this contract delivers its bytes in order; proxy streams and buffered
  streams over such a reader satisfy the contract again, and so does a stream over a block of data.
\<close>

subsection \<open>Streams and readers\<close>

record 's GuInStreamFuns =
  begin_buffer :: "('s \<Rightarrow> GuErr \<Rightarrow> (u8 list \<times> 's \<times> GuErr) run) option"
  end_buffer :: "('s \<Rightarrow> nat \<Rightarrow> GuErr \<Rightarrow> ('s \<times> GuErr) run) option"
  input :: "('s \<Rightarrow> nat \<Rightarrow> GuErr \<Rightarrow> (u8 list \<times> 's \<times> GuErr) run) option"

record 's GuIn =
  buf_end :: "u8 list option"
  buf_curr :: int
  buf_size :: nat
  stream :: 's
  stream_pos :: nat

definition kind_type :: GuKind where "kind_type = GuKind ''type'' GuKindNull"
definition kind_abstract :: GuKind where "kind_abstract = GuKind ''abstract'' kind_type"
definition GuEOF :: GuType where "GuEOF = GuKind ''GuEOF'' kind_abstract"
definition GuIntDecodeExn :: GuType where "GuIntDecodeExn = GuKind ''GuIntDecodeExn'' kind_abstract"

definition PTRDIFF_MAX :: nat where "PTRDIFF_MAX = 2 ^ 63 - 1"

text \<open>Reading the byte at \<open>buf_end[i]\<close>, and copying \<open>n\<close> bytes from \<open>buf_end[buf_curr]\<close> on.\<close>

definition buf_byte :: "'s GuIn \<Rightarrow> int \<Rightarrow> u8 run" where
  "buf_byte i k =
     (case buf_end i of
        None \<Rightarrow> Fault Null_Deref
      | Some bs \<Rightarrow> (let j = int (length bs) + k in
          if 0 \<le> j \<and> j < int (length bs) then Done (bs ! nat j) else Fault Out_Of_Bounds))"

definition buf_copy :: "'s GuIn \<Rightarrow> nat \<Rightarrow> u8 list run" where
  "buf_copy i n =
     (if n = 0 then Done []
      else case buf_end i of
        None \<Rightarrow> Fault Null_Deref
      | Some bs \<Rightarrow> (let j = int (length bs) + buf_curr i in
          if 0 \<le> j \<and> j + int n \<le> int (length bs) then Done (take n (drop (nat j) bs))
          else Fault Out_Of_Bounds))"

definition gu_in_is_buffering :: "'s GuIn \<Rightarrow> bool" where
  "gu_in_is_buffering i \<longleftrightarrow> buf_end i \<noteq> None"

definition gu_in_end_buffering :: "'s GuInStreamFuns \<Rightarrow> 's GuIn \<Rightarrow> GuErr \<Rightarrow> ('s GuIn \<times> GuErr) run" where
  "gu_in_end_buffering F i err =
     (if \<not> gu_in_is_buffering i then Done (i, err)
      else
        let len = nat (int (buf_size i) + buf_curr i)
        in bindR (case end_buffer F of None \<Rightarrow> Done (stream i, err) | Some f \<Rightarrow> f (stream i) len err)
             (\<lambda>(s, err). Done (i\<lparr>stream := s, stream_pos := stream_pos i + len,
                buf_curr := 0, buf_size := 0, buf_end := None\<rparr>, err)))"

text \<open>The part of \<open>gu_in_begin_buffering\<close> that asks the stream for a buffer.\<close>

definition ask_buffer :: "'s GuInStreamFuns \<Rightarrow> 's GuIn \<Rightarrow> GuErr \<Rightarrow> (bool \<times> 's GuIn \<times> GuErr) run" where
  "ask_buffer F i err =
     (case begin_buffer F of
        None \<Rightarrow> Done (False, i, err)
      | Some f \<Rightarrow> bindR (f (stream i) err) (\<lambda>(bs, s, err).
          let i1 = i\<lparr>stream := s\<rparr> in
          if err = None \<and> bs \<noteq> [] then
            Done (True, i1\<lparr>buf_end := Some bs, buf_curr := - int (length bs), buf_size := length bs\<rparr>, err)
          else Done (False, i1, err)))"

definition gu_in_begin_buffering :: "'s GuInStreamFuns \<Rightarrow> 's GuIn \<Rightarrow> GuErr \<Rightarrow> (bool \<times> 's GuIn \<times> GuErr) run" where
  "gu_in_begin_buffering F i err =
     (if gu_in_is_buffering i then
        (if buf_curr i < 0 then Done (True, i, err)
         else bindR (gu_in_end_buffering F i err) (\<lambda>(i1, err1).
           if err1 \<noteq> None then Done (False, i1, err1) else ask_buffer F i1 err1))
      else ask_buffer F i err)"

text \<open>The bytes that are written to the destination, of which there are never more than it has room for.\<close>

definition gu_in_input :: "'s GuInStreamFuns \<Rightarrow> 's GuIn \<Rightarrow> nat \<Rightarrow> GuErr \<Rightarrow> (u8 list \<times> 's GuIn \<times> GuErr) run" where
  "gu_in_input F i n err =
     (if n = 0 then Done ([], i, err)
      else bindR (gu_in_end_buffering F i err) (\<lambda>(i1, err1).
        if err1 \<noteq> None then Done ([], i1, err1)
        else case input F of
          None \<Rightarrow> Done ([], i1, err1)
        | Some f \<Rightarrow> bindR (f (stream i1) n err1) (\<lambda>(bs, s, err2).
            if length bs \<le> n
            then Done (bs, i1\<lparr>stream := s, stream_pos := stream_pos i1 + length bs\<rparr>, err2)
            else Fault Out_Of_Bounds)))"

declare bindR_cong [fundef_cong]

text \<open>The loop of \<open>gu_in_some\<close>; \<open>got\<close> holds the bytes copied so far.\<close>

function some_loop ::
  "'s GuInStreamFuns \<Rightarrow> 's GuIn \<Rightarrow> u8 list \<Rightarrow> nat \<Rightarrow> nat \<Rightarrow> GuErr \<Rightarrow> (u8 list \<times> 's GuIn \<times> GuErr) run" where
  "some_loop F i got n min_sz err =
     (if length got < min_sz then
        bindR (gu_in_input F i (n - length got) err) (\<lambda>(bs, i1, err1).
          if bs = [] then Done (got, i1, err1) else some_loop F i1 (got @ bs) n min_sz err1)
      else Done (got, i, err))"
  by pat_completeness auto
termination
  by (relation "measure (\<lambda>(F, i, got, n, min_sz, err). min_sz - length got)") (auto simp: neq_Nil_conv)

declare some_loop.simps [simp del]

definition gu_in_some ::
  "'s GuInStreamFuns \<Rightarrow> 's GuIn \<Rightarrow> nat \<Rightarrow> nat \<Rightarrow> GuErr \<Rightarrow> (u8 list \<times> 's GuIn \<times> GuErr) run" where
  "gu_in_some F i n min_sz err =
     gu_require (min_sz \<le> n) (gu_require (n \<le> PTRDIFF_MAX)
       (bindR (gu_in_begin_buffering F i err) (\<lambda>(b, i1, err1).
          if b then
            let got = min n (nat (- buf_curr i1)) in
            bindR (buf_copy i1 got) (\<lambda>bs.
              some_loop F (i1\<lparr>buf_curr := buf_curr i1 + int got\<rparr>) bs n min_sz err1)
          else if err1 \<noteq> None then Done ([], i1, err1)
          else some_loop F i1 [] n min_sz err1)))"

definition gu_in_bytes_slow ::
  "'s GuInStreamFuns \<Rightarrow> 's GuIn \<Rightarrow> nat \<Rightarrow> GuErr \<Rightarrow> (u8 list \<times> 's GuIn \<times> GuErr) run" where
  "gu_in_bytes_slow F i n err =
     bindR (gu_in_some F i n n err) (\<lambda>(bs, i1, err1).
       if err1 \<noteq> None then Done (bs, i1, err1)
       else if length bs < n then Done (bs, i1, gu_raise GuEOF err1)
       else Done (bs, i1, err1))"

definition gu_in_bytes ::
  "'s GuInStreamFuns \<Rightarrow> 's GuIn \<Rightarrow> nat \<Rightarrow> GuErr \<Rightarrow> (u8 list \<times> 's GuIn \<times> GuErr) run" where
  "gu_in_bytes F i n err =
     gu_require (n < PTRDIFF_MAX)
       (let new_curr = buf_curr i + int n in
        if new_curr > 0 then gu_in_bytes_slow F i n err
        else bindR (buf_copy i n) (\<lambda>bs. Done (bs, i\<lparr>buf_curr := new_curr\<rparr>, err)))"

text \<open>A span: the rest of the lent buffer, or bytes copied to the fallback buffer of \<open>n\<close> bytes.\<close>

definition gu_in_begin_span ::
  "'s GuInStreamFuns \<Rightarrow> 's GuIn \<Rightarrow> nat \<Rightarrow> GuErr \<Rightarrow> (u8 list \<times> 's GuIn \<times> GuErr) run" where
  "gu_in_begin_span F i n err =
     bindR (gu_in_begin_buffering F i err) (\<lambda>(b, i1, err1).
       if \<not> b then gu_in_input F i1 n err1
       else bindR (buf_copy i1 (nat (- buf_curr i1))) (\<lambda>bs. Done (bs, i1, err1)))"

definition gu_in_end_span :: "'s GuIn \<Rightarrow> nat \<Rightarrow> 's GuIn run" where
  "gu_in_end_span i consumed =
     (if \<not> gu_in_is_buffering i then Done i
      else gu_require (int consumed \<le> (- buf_curr i) mod 2 ^ 64)
             (Done (i\<lparr>buf_curr := buf_curr i + int consumed\<rparr>)))"

definition gu_in_peek_u8 :: "'s GuIn \<Rightarrow> int run" where
  "gu_in_peek_u8 i =
     (if buf_curr i = 0 then Done (- 1) else bindR (buf_byte i (buf_curr i)) (\<lambda>b. Done (uint b)))"

definition gu_in_consume :: "'s GuIn \<Rightarrow> nat \<Rightarrow> 's GuIn run" where
  "gu_in_consume i sz =
     gu_require (int sz + buf_curr i \<le> 0) (Done (i\<lparr>buf_curr := buf_curr i + int sz\<rparr>))"

definition gu_in_u8_slow :: "'s GuInStreamFuns \<Rightarrow> 's GuIn \<Rightarrow> GuErr \<Rightarrow> (u8 \<times> 's GuIn \<times> GuErr) run" where
  "gu_in_u8_slow F i err =
     bindR (gu_in_begin_buffering F i err) (\<lambda>(b, i1, err1).
       if b \<and> buf_curr i1 < 0 then
         bindR (buf_byte i1 (buf_curr i1)) (\<lambda>u. Done (u, i1\<lparr>buf_curr := buf_curr i1 + 1\<rparr>, err1))
       else bindR (gu_in_input F i1 1 err1) (\<lambda>(bs, i2, err2).
         case bs of
           [] \<Rightarrow> Done (0, i2, if err2 = None then gu_raise GuEOF err2 else err2)
         | u # us \<Rightarrow> Done (u, i2, err2)))"

definition gu_in_u8 :: "'s GuInStreamFuns \<Rightarrow> 's GuIn \<Rightarrow> GuErr \<Rightarrow> (u8 \<times> 's GuIn \<times> GuErr) run" where
  "gu_in_u8 F i err =
     (if buf_curr i = 0 then gu_in_u8_slow F i err
      else bindR (buf_byte i (buf_curr i)) (\<lambda>u. Done (u, i\<lparr>buf_curr := buf_curr i + 1\<rparr>, err)))"

text \<open>Fixed-width integers. The buffer the bytes are read into is not initialised; \<open>junk\<close> is what it
  holds before, and what remains of it when the input ends early.\<close>

definition bytes_value :: "u8 list \<Rightarrow> u64" where
  "bytes_value bs = foldl (\<lambda>u b. push_bit 8 u OR ucast b) 0 bs"

definition gu_in_be ::
  "'s GuInStreamFuns \<Rightarrow> u8 list \<Rightarrow> 's GuIn \<Rightarrow> GuErr \<Rightarrow> nat \<Rightarrow> (u64 \<times> 's GuIn \<times> GuErr) run" where
  "gu_in_be F junk i err n =
     bindR (gu_in_bytes F i n err) (\<lambda>(bs, i1, err1).
       Done (bytes_value (take n (bs @ drop (length bs) junk)), i1, err1))"

definition gu_in_le ::
  "'s GuInStreamFuns \<Rightarrow> u8 list \<Rightarrow> 's GuIn \<Rightarrow> GuErr \<Rightarrow> nat \<Rightarrow> (u64 \<times> 's GuIn \<times> GuErr) run" where
  "gu_in_le F junk i err n =
     bindR (gu_in_bytes F i n err) (\<lambda>(bs, i1, err1).
       Done (bytes_value (take n (bs @ drop (length bs) junk)), i1, err1))"

text \<open>A value read is narrowed, and a signed one decoded, where the decoder may raise.\<close>

definition map_read :: "('a \<Rightarrow> 'b) \<Rightarrow> ('a \<times> 's GuIn \<times> GuErr) run \<Rightarrow> ('b \<times> 's GuIn \<times> GuErr) run" where
  "map_read f m = bindR m (\<lambda>(u, i, err). Done (f u, i, err))"

definition decode_read :: "('a \<Rightarrow> int option) \<Rightarrow> ('a \<times> 's GuIn \<times> GuErr) run \<Rightarrow> (int \<times> 's GuIn \<times> GuErr) run" where
  "decode_read f m = bindR m (\<lambda>(u, i, err).
     case f u of Some v \<Rightarrow> Done (v, i, err) | None \<Rightarrow> Done (- 1, i, gu_raise GuIntDecodeExn err))"

definition gu_in_s8 :: "'s GuInStreamFuns \<Rightarrow> 's GuIn \<Rightarrow> GuErr \<Rightarrow> (int \<times> 's GuIn \<times> GuErr) run" where
  "gu_in_s8 F i err = decode_read gu_decode_2c8 (gu_in_u8 F i err)"

definition gu_in_u16le :: "'s GuInStreamFuns \<Rightarrow> u8 list \<Rightarrow> 's GuIn \<Rightarrow> GuErr \<Rightarrow> (u16 \<times> 's GuIn \<times> GuErr) run" where
  "gu_in_u16le F junk i err = map_read ucast (gu_in_le F junk i err 2)"

definition gu_in_s16le :: "'s GuInStreamFuns \<Rightarrow> u8 list \<Rightarrow> 's GuIn \<Rightarrow> GuErr \<Rightarrow> (int \<times> 's GuIn \<times> GuErr) run" where
  "gu_in_s16le F junk i err = decode_read gu_decode_2c16 (gu_in_u16le F junk i err)"

definition gu_in_u16be :: "'s GuInStreamFuns \<Rightarrow> u8 list \<Rightarrow> 's GuIn \<Rightarrow> GuErr \<Rightarrow> (u16 \<times> 's GuIn \<times> GuErr) run" where
  "gu_in_u16be F junk i err = map_read ucast (gu_in_be F junk i err 2)"

definition gu_in_s16be :: "'s GuInStreamFuns \<Rightarrow> u8 list \<Rightarrow> 's GuIn \<Rightarrow> GuErr \<Rightarrow> (int \<times> 's GuIn \<times> GuErr) run" where
  "gu_in_s16be F junk i err = decode_read gu_decode_2c16 (gu_in_u16be F junk i err)"

definition gu_in_u32le :: "'s GuInStreamFuns \<Rightarrow> u8 list \<Rightarrow> 's GuIn \<Rightarrow> GuErr \<Rightarrow> (u32 \<times> 's GuIn \<times> GuErr) run" where
  "gu_in_u32le F junk i err = map_read ucast (gu_in_le F junk i err 4)"

definition gu_in_s32le :: "'s GuInStreamFuns \<Rightarrow> u8 list \<Rightarrow> 's GuIn \<Rightarrow> GuErr \<Rightarrow> (int \<times> 's GuIn \<times> GuErr) run" where
  "gu_in_s32le F junk i err = decode_read gu_decode_2c32 (gu_in_u32le F junk i err)"

definition gu_in_u32be :: "'s GuInStreamFuns \<Rightarrow> u8 list \<Rightarrow> 's GuIn \<Rightarrow> GuErr \<Rightarrow> (u32 \<times> 's GuIn \<times> GuErr) run" where
  "gu_in_u32be F junk i err = map_read ucast (gu_in_be F junk i err 4)"

definition gu_in_s32be :: "'s GuInStreamFuns \<Rightarrow> u8 list \<Rightarrow> 's GuIn \<Rightarrow> GuErr \<Rightarrow> (int \<times> 's GuIn \<times> GuErr) run" where
  "gu_in_s32be F junk i err = decode_read gu_decode_2c32 (gu_in_u32be F junk i err)"

definition gu_in_u64le :: "'s GuInStreamFuns \<Rightarrow> u8 list \<Rightarrow> 's GuIn \<Rightarrow> GuErr \<Rightarrow> (u64 \<times> 's GuIn \<times> GuErr) run" where
  "gu_in_u64le F junk i err = gu_in_le F junk i err 8"

definition gu_in_s64le :: "'s GuInStreamFuns \<Rightarrow> u8 list \<Rightarrow> 's GuIn \<Rightarrow> GuErr \<Rightarrow> (int \<times> 's GuIn \<times> GuErr) run" where
  "gu_in_s64le F junk i err = decode_read gu_decode_2c64 (gu_in_u64le F junk i err)"

definition gu_in_u64be :: "'s GuInStreamFuns \<Rightarrow> u8 list \<Rightarrow> 's GuIn \<Rightarrow> GuErr \<Rightarrow> (u64 \<times> 's GuIn \<times> GuErr) run" where
  "gu_in_u64be F junk i err = gu_in_be F junk i err 8"

definition gu_in_s64be :: "'s GuInStreamFuns \<Rightarrow> u8 list \<Rightarrow> 's GuIn \<Rightarrow> GuErr \<Rightarrow> (int \<times> 's GuIn \<times> GuErr) run" where
  "gu_in_s64be F junk i err = decode_read gu_decode_2c64 (gu_in_u64be F junk i err)"

text \<open>Doubles, for a given decoder of their IEEE bit patterns. Both byte orders read with \<open>gu_in_u64le\<close>.\<close>

definition gu_in_f64le :: "(u64 \<Rightarrow> 'd) \<Rightarrow> 's GuInStreamFuns \<Rightarrow> u8 list \<Rightarrow> 's GuIn \<Rightarrow> GuErr \<Rightarrow> ('d \<times> 's GuIn \<times> GuErr) run" where
  "gu_in_f64le gu_decode_double F junk i err = map_read gu_decode_double (gu_in_u64le F junk i err)"

definition gu_in_f64be :: "(u64 \<Rightarrow> 'd) \<Rightarrow> 's GuInStreamFuns \<Rightarrow> u8 list \<Rightarrow> 's GuIn \<Rightarrow> GuErr \<Rightarrow> ('d \<times> 's GuIn \<times> GuErr) run" where
  "gu_in_f64be gu_decode_double F junk i err = map_read gu_decode_double (gu_in_u64le F junk i err)"

definition gu_init_in :: "'s \<Rightarrow> 's GuIn" where
  "gu_init_in s = \<lparr>buf_end = None, buf_curr = 0, buf_size = 0, stream = s, stream_pos = 0\<rparr>"

definition gu_new_in :: "'s \<Rightarrow> 's GuIn" where
  "gu_new_in s = gu_init_in s"

text \<open>The finalizer of a reader gives the lent buffer back, with a fresh exception frame.\<close>

definition gu_in_fini :: "'s GuInStreamFuns \<Rightarrow> 's GuIn \<Rightarrow> 's GuIn run" where
  "gu_in_fini F i = bindR (gu_in_end_buffering F i None) (\<lambda>(i1, err). Done i1)"

definition gu_in_tell :: "'s GuIn \<Rightarrow> int" where
  "gu_in_tell i = int (stream_pos i) + int (buf_size i) + buf_curr i"

subsection \<open>Streams over readers, and over data\<close>

definition gu_proxy_in_begin_buffer ::
  "'s GuInStreamFuns \<Rightarrow> 's GuIn \<Rightarrow> GuErr \<Rightarrow> (u8 list \<times> 's GuIn \<times> GuErr) run" where
  "gu_proxy_in_begin_buffer F self err = gu_in_begin_span F self 0 err"

definition gu_proxy_in_end_buffer :: "'s GuIn \<Rightarrow> nat \<Rightarrow> GuErr \<Rightarrow> ('s GuIn \<times> GuErr) run" where
  "gu_proxy_in_end_buffer self sz err = bindR (gu_in_end_span self sz) (\<lambda>self. Done (self, err))"

definition gu_proxy_in_input ::
  "'s GuInStreamFuns \<Rightarrow> 's GuIn \<Rightarrow> nat \<Rightarrow> GuErr \<Rightarrow> (u8 list \<times> 's GuIn \<times> GuErr) run" where
  "gu_proxy_in_input F self n err = gu_in_some F self n 1 err"

definition gu_proxy_in_funs :: "'s GuInStreamFuns \<Rightarrow> 's GuIn GuInStreamFuns" where
  "gu_proxy_in_funs F =
     \<lparr>begin_buffer = Some (gu_proxy_in_begin_buffer F),
      end_buffer = Some gu_proxy_in_end_buffer,
      input = Some (gu_proxy_in_input F)\<rparr>"

record 's GuBufferedInStream =
  alloc :: nat
  have_len :: nat
  curr :: nat
  bis_in :: "'s GuIn"
  bis_buf :: "u8 list"

definition gu_buffered_in_begin_buffer ::
  "'s GuInStreamFuns \<Rightarrow> 's GuBufferedInStream \<Rightarrow> GuErr \<Rightarrow> (u8 list \<times> 's GuBufferedInStream \<times> GuErr) run" where
  "gu_buffered_in_begin_buffer F bis err =
     (let give = (\<lambda>b err. Done (take (have_len b - curr b) (drop (curr b) (bis_buf b)), b, err))
      in if curr bis = have_len bis then
           bindR (gu_in_some F (bis_in bis) (alloc bis) 1 err) (\<lambda>(bs, i1, err1).
             let b1 = bis\<lparr>curr := 0, bis_in := i1, have_len := length bs,
                          bis_buf := bs @ drop (length bs) (bis_buf bis)\<rparr>
             in if err1 \<noteq> None then Done ([], b1, err1) else give b1 err1)
         else give bis err)"

definition gu_buffered_in_end_buffer ::
  "'s GuBufferedInStream \<Rightarrow> nat \<Rightarrow> GuErr \<Rightarrow> ('s GuBufferedInStream \<times> GuErr) run" where
  "gu_buffered_in_end_buffer bis consumed err =
     gu_require (int consumed \<le> (int (have_len bis) - int (curr bis)) mod 2 ^ 64)
       (Done (bis\<lparr>curr := curr bis + consumed\<rparr>, err))"

definition gu_buffered_in_input ::
  "'s GuInStreamFuns \<Rightarrow> 's GuBufferedInStream \<Rightarrow> nat \<Rightarrow> GuErr \<Rightarrow> (u8 list \<times> 's GuBufferedInStream \<times> GuErr) run" where
  "gu_buffered_in_input F bis n err =
     bindR (gu_in_some F (bis_in bis) n 1 err) (\<lambda>(bs, i1, err1). Done (bs, bis\<lparr>bis_in := i1\<rparr>, err1))"

definition gu_buffered_in_funs :: "'s GuInStreamFuns \<Rightarrow> 's GuBufferedInStream GuInStreamFuns" where
  "gu_buffered_in_funs F =
     \<lparr>begin_buffer = Some (gu_buffered_in_begin_buffer F),
      end_buffer = Some gu_buffered_in_end_buffer,
      input = Some (gu_buffered_in_input F)\<rparr>"

text \<open>\<open>junk\<close> is what the new buffer holds.\<close>

definition gu_new_buffered_in :: "u8 list \<Rightarrow> 's GuIn \<Rightarrow> 's GuBufferedInStream GuIn" where
  "gu_new_buffered_in junk i =
     gu_new_in \<lparr>alloc = length junk, have_len = 0, curr = 0, bis_in = i, bis_buf = junk\<rparr>"

text \<open>The stream over a block of bytes: the state is the bytes that are left.\<close>

definition gu_data_in_begin_buffer :: "u8 list \<Rightarrow> GuErr \<Rightarrow> (u8 list \<times> u8 list \<times> GuErr) run" where
  "gu_data_in_begin_buffer di err = Done (di, di, err)"

definition gu_data_in_end_buffer :: "u8 list \<Rightarrow> nat \<Rightarrow> GuErr \<Rightarrow> (u8 list \<times> GuErr) run" where
  "gu_data_in_end_buffer di consumed err =
     (if consumed \<le> length di then Done (drop consumed di, err) else Fault Out_Of_Bounds)"

definition gu_data_in_funs :: "u8 list GuInStreamFuns" where
  "gu_data_in_funs =
     \<lparr>begin_buffer = Some gu_data_in_begin_buffer, end_buffer = Some gu_data_in_end_buffer, input = None\<rparr>"

definition gu_data_in :: "u8 list \<Rightarrow> u8 list GuIn" where
  "gu_data_in bs = gu_new_in bs"

text \<open>A client that reads blocks of given sizes until one fails.\<close>

fun read_blocks ::
  "'s GuInStreamFuns \<Rightarrow> 's GuIn \<Rightarrow> GuErr \<Rightarrow> nat list \<Rightarrow> (u8 list list \<times> 's GuIn \<times> GuErr) run" where
  "read_blocks F i err [] = Done ([], i, err)"
| "read_blocks F i err (n # ns) =
     bindR (gu_in_bytes F i n err) (\<lambda>(bs, i1, err1).
       if err1 \<noteq> None then Done ([bs], i1, err1)
       else bindR (read_blocks F i1 err1 ns) (\<lambda>(bss, i2, err2). Done (bs # bss, i2, err2)))"

subsection \<open>The contract of a stream\<close>

text \<open>\<open>contents\<close> is what is still to come, \<open>lent\<close> the buffer that is lent out or would be, and
  \<open>drained\<close> the states in which bytes may be copied out, because none are left in the buffer. The contract is that of streams without I/O errors:
  no operation raises.\<close>

locale in_stream =
  fixes F :: "'s GuInStreamFuns"
    and contents :: "'s \<Rightarrow> u8 list"
    and lent :: "'s \<Rightarrow> u8 list"
    and inv :: "'s \<Rightarrow> bool"
    and drained :: "'s \<Rightarrow> bool"
  assumes begin_law: "begin_buffer F = Some f \<Longrightarrow> inv s \<Longrightarrow>
      \<exists>s'. f s None = Done (lent s', s', None) \<and> inv s' \<and> contents s' = contents s \<and>
        prefix (lent s') (contents s') \<and> length (lent s') < 2 ^ 63 \<and> (lent s' = [] \<longrightarrow> drained s') \<and>
        (input F = None \<longrightarrow> lent s' = contents s')"
    and end_law: "end_buffer F = Some g \<Longrightarrow> inv s \<Longrightarrow> n \<le> length (lent s) \<Longrightarrow>
      \<exists>s'. g s n None = Done (s', None) \<and> inv s' \<and> contents s' = drop n (contents s) \<and>
        (n = length (lent s) \<longrightarrow> drained s')"
    and input_law: "input F = Some h \<Longrightarrow> inv s \<Longrightarrow> drained s \<Longrightarrow> 0 < n \<Longrightarrow> n \<le> PTRDIFF_MAX \<Longrightarrow>
      \<exists>bs s'. h s n None = Done (bs, s', None) \<and> inv s' \<and> drained s' \<and> contents s = bs @ contents s' \<and>
        length bs \<le> n \<and> (bs = [] \<longrightarrow> contents s = [])"
    and buffer_both: "begin_buffer F \<noteq> None \<Longrightarrow> end_buffer F \<noteq> None"
    and no_buffer: "begin_buffer F = None \<Longrightarrow> inv s \<Longrightarrow> drained s"
    and no_input: "input F = None \<Longrightarrow> inv s \<Longrightarrow> drained s \<Longrightarrow> contents s = []"
begin

text \<open>The invariant of a reader, and the bytes it still has to deliver.\<close>

definition in_ok :: "'s GuIn \<Rightarrow> bool" where
  "in_ok i \<longleftrightarrow> inv (stream i) \<and>
     (case buf_end i of
        None \<Rightarrow> buf_curr i = 0 \<and> buf_size i = 0
      | Some bs \<Rightarrow> bs \<noteq> [] \<and> lent (stream i) = bs \<and> buf_size i = length bs \<and> length bs < 2 ^ 63 \<and>
          - int (length bs) \<le> buf_curr i \<and> buf_curr i \<le> 0 \<and> prefix bs (contents (stream i)) \<and>
          end_buffer F \<noteq> None \<and> (input F = None \<longrightarrow> bs = contents (stream i)))"

definition in_contents :: "'s GuIn \<Rightarrow> u8 list" where
  "in_contents i = drop (nat (int (buf_size i) + buf_curr i)) (contents (stream i))"

definition in_lent :: "'s GuIn \<Rightarrow> u8 list" where
  "in_lent i = (case buf_end i of None \<Rightarrow> [] | Some bs \<Rightarrow> drop (nat (int (buf_size i) + buf_curr i)) bs)"

text \<open>Bytes are copied out of the stream only when the buffer is used up.\<close>

definition ready :: "'s GuIn \<Rightarrow> bool" where
  "ready i \<longleftrightarrow> (if buf_end i = None then drained (stream i) else buf_curr i = 0)"

lemma in_ok_new: "inv s \<Longrightarrow> in_ok (gu_new_in s)"
  by (simp add: in_ok_def gu_new_in_def gu_init_in_def)

lemma in_contents_new: "in_contents (gu_new_in s) = contents s"
  by (simp add: in_contents_def gu_new_in_def gu_init_in_def)

lemma end_buffering:
  assumes "in_ok i"
  shows "\<exists>i'. gu_in_end_buffering F i None = Done (i', None) \<and> in_ok i' \<and> buf_end i' = None \<and>
    in_contents i' = in_contents i \<and> gu_in_tell i' = gu_in_tell i \<and> (ready i \<longrightarrow> ready i')"
proof (cases "buf_end i")
  case None
  with assms show ?thesis
    by (simp add: gu_in_end_buffering_def gu_in_is_buffering_def)
next
  case (Some bs)
  let ?n = "nat (int (buf_size i) + buf_curr i)"
  from assms Some obtain g where g: "end_buffer F = Some g" and ok: "inv (stream i)" "?n \<le> length (lent (stream i))"
    "int ?n = int (buf_size i) + buf_curr i" "buf_curr i = 0 \<longrightarrow> ?n = length (lent (stream i))"
    by (auto simp: in_ok_def)
  from end_law [OF g ok(1,2)] obtain s' where s': "g (stream i) ?n None = Done (s', None)" "inv s'"
    "contents s' = drop ?n (contents (stream i))" "?n = length (lent (stream i)) \<longrightarrow> drained s'" by blast
  then show ?thesis
    using Some g ok(3,4)
    by (auto simp: gu_in_end_buffering_def gu_in_is_buffering_def in_ok_def in_contents_def gu_in_tell_def ready_def)
qed

lemma ask_buffer:
  assumes "in_ok i" and "buf_end i = None"
  shows "\<exists>b i'. ask_buffer F i None = Done (b, i', None) \<and> in_ok i' \<and> in_contents i' = in_contents i \<and>
    gu_in_tell i' = gu_in_tell i \<and> (b \<longrightarrow> buf_curr i' < 0) \<and> (\<not> b \<longrightarrow> buf_end i' = None \<and> ready i')"
proof (cases "begin_buffer F")
  case None
  with assms no_buffer show ?thesis by (auto simp: ask_buffer_def in_ok_def ready_def)
next
  case (Some f)
  from assms(1) have "inv (stream i)" by (simp add: in_ok_def)
  from begin_law [OF Some this] obtain s' where s': "f (stream i) None = Done (lent s', s', None)" "inv s'"
    "contents s' = contents (stream i)" "prefix (lent s') (contents s')" "length (lent s') < 2 ^ 63"
    "lent s' = [] \<longrightarrow> drained s'"
    "input F = None \<longrightarrow> lent s' = contents s'" by (metis (no_types, lifting))
  have e: "buf_curr i = 0" "buf_size i = 0" "end_buffer F \<noteq> None"
    using assms Some buffer_both by (auto simp: in_ok_def)
  show ?thesis
  proof (cases "lent s' = []")
    case True
    then show ?thesis using s' e assms(2) Some
      by (intro exI [of _ False] exI [of _ "i\<lparr>stream := s'\<rparr>"])
        (simp add: ask_buffer_def in_ok_def in_contents_def gu_in_tell_def ready_def)
  next
    case False
    let ?i = "i\<lparr>stream := s', buf_end := Some (lent s'), buf_curr := - int (length (lent s')), buf_size := length (lent s')\<rparr>"
    have "in_ok ?i" using s' e False by (simp add: in_ok_def)
    then show ?thesis using s' e assms(2) Some False
      by (intro exI [of _ True] exI [of _ ?i])
        (simp add: ask_buffer_def in_contents_def gu_in_tell_def ready_def)
  qed
qed

lemma begin_buffering:
  assumes "in_ok i"
  shows "\<exists>b i'. gu_in_begin_buffering F i None = Done (b, i', None) \<and> in_ok i' \<and>
    in_contents i' = in_contents i \<and> gu_in_tell i' = gu_in_tell i \<and> (b \<longrightarrow> buf_curr i' < 0) \<and>
    (\<not> b \<longrightarrow> buf_end i' = None \<and> ready i')"
proof (cases "gu_in_is_buffering i")
  case False
  with ask_buffer [OF assms] show ?thesis
    by (simp add: gu_in_begin_buffering_def gu_in_is_buffering_def)
next
  case True
  show ?thesis
  proof (cases "buf_curr i < 0")
    case False
    from end_buffering [OF assms] obtain i1 where "gu_in_end_buffering F i None = Done (i1, None)" "in_ok i1"
      "buf_end i1 = None" "in_contents i1 = in_contents i" "gu_in_tell i1 = gu_in_tell i" by blast
    with ask_buffer [of i1] True False show ?thesis
      by (simp add: gu_in_begin_buffering_def)
  next
    case True
    with \<open>gu_in_is_buffering i\<close> assms show ?thesis
      by (intro exI [of _ True] exI [of _ i]) (simp add: gu_in_begin_buffering_def)
  qed
qed

lemma input:
  assumes "in_ok i" and "ready i" and "0 < n" and "n \<le> PTRDIFF_MAX"
  shows "\<exists>bs i'. gu_in_input F i n None = Done (bs, i', None) \<and> in_ok i' \<and> ready i' \<and>
    in_contents i = bs @ in_contents i' \<and> gu_in_tell i' = gu_in_tell i + int (length bs) \<and> length bs \<le> n \<and>
    (bs = [] \<longrightarrow> in_contents i = [])"
proof -
  from end_buffering [OF assms(1)] assms(2) obtain i1 where i1: "gu_in_end_buffering F i None = Done (i1, None)"
    "in_ok i1" "buf_end i1 = None" "in_contents i1 = in_contents i" "gu_in_tell i1 = gu_in_tell i" "ready i1" by blast
  have c: "in_contents i = contents (stream i1)" "inv (stream i1)" "drained (stream i1)" "buf_curr i1 = 0" "buf_size i1 = 0"
    using i1 by (auto simp: in_contents_def in_ok_def ready_def)
  show ?thesis
  proof (cases "input F")
    case None
    then have "in_contents i = []" using no_input c by simp
    with None i1 assms(3) c show ?thesis by (auto simp: gu_in_input_def)
  next
    case (Some h)
    from input_law [OF Some c(2,3) assms(3,4)] obtain bs s' where s': "h (stream i1) n None = Done (bs, s', None)"
      "inv s'" "drained s'" "contents (stream i1) = bs @ contents s'" "length bs \<le> n"
      "bs = [] \<longrightarrow> contents (stream i1) = []" by blast
    then show ?thesis
      using Some i1 c assms(3)
      by (intro exI [of _ bs] exI [of _ "i1\<lparr>stream := s', stream_pos := stream_pos i1 + length bs\<rparr>"])
        (auto simp: gu_in_input_def in_ok_def ready_def in_contents_def gu_in_tell_def)
  qed
qed

lemma some_loop:
  assumes "in_ok i" and "ready i" and "length got \<le> n" and "m \<le> n" and "n \<le> PTRDIFF_MAX"
  shows "\<exists>bs i'. some_loop F i got n m None = Done (got @ bs, i', None) \<and> in_ok i' \<and>
    in_contents i = bs @ in_contents i' \<and> gu_in_tell i' = gu_in_tell i + int (length bs) \<and>
    length got + length bs \<le> n \<and> min m (length got + length (in_contents i)) \<le> length got + length bs"
  using assms
proof (induction "m - length got" arbitrary: i got rule: less_induct)
  case less
  show ?case
  proof (cases "length got < m")
    case False
    then have "some_loop F i got n m None = Done (got, i, None)" by (simp add: some_loop.simps [of F i got])
    with False less(2,4) show ?thesis by (intro exI [of _ "[]"] exI [of _ i]) simp
  next
    case more: True
    then have "0 < n - length got" "n - length got \<le> PTRDIFF_MAX" using less(5,6) by auto
    from input [OF less(2,3) this] obtain bs i1 where r: "gu_in_input F i (n - length got) None = Done (bs, i1, None)"
      "in_ok i1" "ready i1" "in_contents i = bs @ in_contents i1" "gu_in_tell i1 = gu_in_tell i + int (length bs)"
      "length bs \<le> n - length got" "bs = [] \<longrightarrow> in_contents i = []" by blast
    have step: "some_loop F i got n m None =
        (if bs = [] then Done (got, i1, None) else some_loop F i1 (got @ bs) n m None)"
      using more r(1) by (subst some_loop.simps) simp
    show ?thesis
    proof (cases "bs = []")
      case True
      with step r(2,4,5,7) less(4) show ?thesis by (intro exI [of _ "[]"] exI [of _ i1]) simp
    next
      case False
      then have d: "m - length (got @ bs) < m - length got" using more by (cases bs) auto
      have l: "length (got @ bs) \<le> n" using r(6) less(4) by simp
      from less(1) [OF d r(2,3) l less(5,6)] obtain bs' i2 where s:
        "some_loop F i1 (got @ bs) n m None = Done ((got @ bs) @ bs', i2, None)" "in_ok i2"
        "in_contents i1 = bs' @ in_contents i2" "gu_in_tell i2 = gu_in_tell i1 + int (length bs')"
        "length (got @ bs) + length bs' \<le> n"
        "min m (length (got @ bs) + length (in_contents i1)) \<le> length (got @ bs) + length bs'" by blast
      have "some_loop F i got n m None = Done (got @ (bs @ bs'), i2, None)" using step s(1) False by simp
      with s(2-6) r(4,5) show ?thesis by (intro exI [of _ "bs @ bs'"] exI [of _ i2]) simp
    qed
  qed
qed

text \<open>The lent bytes: what can be taken from the buffer.\<close>

lemma lent_prefix: "in_ok i \<Longrightarrow> prefix (in_lent i) (in_contents i)"
proof (cases "buf_end i")
  case (Some bs)
  assume "in_ok i"
  then obtain cs where "contents (stream i) = bs @ cs" "buf_size i = length bs" "buf_curr i \<le> 0"
    using Some by (auto simp: in_ok_def prefix_def)
  with Some show ?thesis by (simp add: in_lent_def in_contents_def)
qed (simp add: in_lent_def)

lemma lent_length:
  assumes "in_ok i"
  shows "int (length (in_lent i)) = - buf_curr i"
  using assms by (cases "buf_end i") (auto simp: in_ok_def in_lent_def)

lemma lent_take:
  assumes "in_ok i" and "n \<le> length (in_lent i)"
  shows "buf_copy i n = Done (take n (in_lent i))"
    and "in_ok (i\<lparr>buf_curr := buf_curr i + int n\<rparr>)"
    and "in_contents (i\<lparr>buf_curr := buf_curr i + int n\<rparr>) = drop n (in_contents i)"
    and "in_lent (i\<lparr>buf_curr := buf_curr i + int n\<rparr>) = drop n (in_lent i)"
    and "gu_in_tell (i\<lparr>buf_curr := buf_curr i + int n\<rparr>) = gu_in_tell i + int n"
proof -
  have l: "int n \<le> - buf_curr i" using assms lent_length by fastforce
  show "buf_copy i n = Done (take n (in_lent i))"
    using assms l by (auto simp: buf_copy_def in_ok_def in_lent_def split: option.splits)
  show "in_ok (i\<lparr>buf_curr := buf_curr i + int n\<rparr>)"
    using assms l by (auto simp: in_ok_def in_lent_def split: option.splits)
  have "buf_end i = None \<Longrightarrow> n = 0" using assms by (simp add: in_lent_def)
  moreover have "buf_end i \<noteq> None \<Longrightarrow> nat (int (buf_size i) + (buf_curr i + int n)) = nat (int (buf_size i) + buf_curr i) + n"
    using assms(1) by (auto simp: in_ok_def)
  ultimately have c: "nat (int (buf_size i) + (buf_curr i + int n)) = n + nat (int (buf_size i) + buf_curr i)"
    by (cases "buf_end i") auto
  show "in_contents (i\<lparr>buf_curr := buf_curr i + int n\<rparr>) = drop n (in_contents i)"
    by (simp add: in_contents_def c)
  show "in_lent (i\<lparr>buf_curr := buf_curr i + int n\<rparr>) = drop n (in_lent i)"
    by (cases "buf_end i") (simp_all add: in_lent_def c)
qed (simp add: gu_in_tell_def)

text \<open>The two reading operations: \<open>gu_in_some\<close> delivers some bytes, no less than the minimum unless the stream ends.\<close>

lemma some:
  assumes "in_ok i" and "m \<le> n" and "n \<le> PTRDIFF_MAX"
  shows "\<exists>bs i'. gu_in_some F i n m None = Done (bs, i', None) \<and> in_ok i' \<and>
    in_contents i = bs @ in_contents i' \<and> gu_in_tell i' = gu_in_tell i + int (length bs) \<and>
    length bs \<le> n \<and> min m (length (in_contents i)) \<le> length bs"
proof -
  obtain b i1 where r: "gu_in_begin_buffering F i None = Done (b, i1, None)" "in_ok i1" "in_contents i1 = in_contents i"
    "gu_in_tell i1 = gu_in_tell i" "b \<longrightarrow> buf_curr i1 < 0" "\<not> b \<longrightarrow> buf_end i1 = None \<and> ready i1"
    using begin_buffering [OF assms(1)] by blast
  show ?thesis
  proof (cases b)
    case False
    with r some_loop [of i1 "[]" n m] assms show ?thesis by (simp add: gu_in_some_def)
  next
    case True
    define k where "k = min n (nat (- buf_curr i1))"
    let ?i = "i1\<lparr>buf_curr := buf_curr i1 + int k\<rparr>" and ?got = "take k (in_lent i1)"
    have k: "k \<le> length (in_lent i1)" using lent_length [OF r(2)] by (simp add: k_def)
    note t = lent_take [OF r(2) k]
    have pre: "in_contents i = ?got @ in_contents ?i"
      using t(3) r(3) lent_prefix [OF r(2)] k by (auto simp: prefix_def)
    have s: "gu_in_some F i n m None = some_loop F ?i ?got n m None"
      using r True assms t(1) by (simp add: gu_in_some_def k_def [symmetric] Let_def)
    have lg: "length ?got = k" using k by simp
    have kn: "k \<le> n" by (simp add: k_def)
    show ?thesis
    proof (cases "k < m")
      case False
      then have "some_loop F ?i ?got n m None = Done (?got, ?i, None)"
        using lg by (simp add: some_loop.simps [of F ?i ?got])
      with s t(2,5) pre lg False r(4) show ?thesis
        by (intro exI [of _ ?got] exI [of _ ?i]) (simp add: kn)
    next
      case True
      then have "ready ?i" using r(2) assms(2) \<open>b\<close> r(5)
        by (auto simp: k_def ready_def in_ok_def split: option.splits)
      from some_loop [OF t(2) this _ assms(2,3), of ?got] lg kn obtain bs i2 where
        "some_loop F ?i ?got n m None = Done (?got @ bs, i2, None)" "in_ok i2"
        "in_contents ?i = bs @ in_contents i2" "gu_in_tell i2 = gu_in_tell ?i + int (length bs)"
        "length ?got + length bs \<le> n" "min m (length ?got + length (in_contents ?i)) \<le> length ?got + length bs"
        by auto
      with s pre t(5) r(4) lg show ?thesis
        by (intro exI [of _ "?got @ bs"] exI [of _ i2]) simp
    qed
  qed
qed

lemma bytes_slow:
  assumes "in_ok i" and "n \<le> PTRDIFF_MAX"
  shows "\<exists>i'. gu_in_bytes_slow F i n None =
      Done (take n (in_contents i), i', if n \<le> length (in_contents i) then None else Some GuEOF) \<and>
    in_ok i' \<and> in_contents i' = drop n (in_contents i) \<and>
    gu_in_tell i' = gu_in_tell i + int (min n (length (in_contents i)))"
proof -
  from some [OF assms(1) order_refl assms(2)] obtain bs i' where r: "gu_in_some F i n n None = Done (bs, i', None)"
    "in_ok i'" "in_contents i = bs @ in_contents i'" "gu_in_tell i' = gu_in_tell i + int (length bs)"
    "length bs \<le> n" "min n (length (in_contents i)) \<le> length bs" by blast
  have "length bs = min n (length (in_contents i))" using r(3,5,6) by simp
  then have t: "bs = take n (in_contents i)" "in_contents i' = drop n (in_contents i)"
    "length bs = min n (length (in_contents i))"
    using r(3) by (simp_all add: min_def split: if_splits)
  have "length bs < n \<longleftrightarrow> \<not> n \<le> length (in_contents i)" using t(3) by linarith
  with r(1) have "gu_in_bytes_slow F i n None =
      Done (bs, i', if n \<le> length (in_contents i) then None else Some GuEOF)"
    by (simp add: gu_in_bytes_slow_def)
  with r(2,4) t show ?thesis by (intro exI [of _ i']) simp
qed

lemma bytes:
  assumes "in_ok i" and "n < PTRDIFF_MAX"
  shows "\<exists>i'. gu_in_bytes F i n None =
      Done (take n (in_contents i), i', if n \<le> length (in_contents i) then None else Some GuEOF) \<and>
    in_ok i' \<and> in_contents i' = drop n (in_contents i) \<and>
    gu_in_tell i' = gu_in_tell i + int (min n (length (in_contents i)))"
proof (cases "buf_curr i + int n > 0")
  case True
  with bytes_slow [OF assms(1), of n] assms(2) show ?thesis by (simp add: gu_in_bytes_def)
next
  case False
  then have n: "n \<le> length (in_lent i)" using lent_length [OF assms(1)] by linarith
  obtain r where r: "in_contents i = in_lent i @ r" using lent_prefix [OF assms(1)] by (auto simp: prefix_def)
  with n False assms(2) lent_take [OF assms(1) n] show ?thesis
    by (intro exI [of _ "i\<lparr>buf_curr := buf_curr i + int n\<rparr>"]) (simp add: gu_in_bytes_def Let_def)
qed

lemma byte:
  assumes "in_ok i" and "buf_curr i < 0"
  shows "buf_byte i (buf_curr i) = Done (hd (in_contents i))" and "in_contents i \<noteq> []"
    and "1 \<le> length (in_lent i)"
proof -
  show l: "1 \<le> length (in_lent i)" using lent_length [OF assms(1)] assms(2) by linarith
  obtain r where r: "in_contents i = in_lent i @ r" using lent_prefix [OF assms(1)] by (auto simp: prefix_def)
  with l show "in_contents i \<noteq> []" by auto
  have h: "hd (in_contents i) = hd (in_lent i)" using r l by (cases "in_lent i") auto
  obtain bs where bs: "buf_end i = Some bs" using l by (cases "buf_end i") (auto simp: in_lent_def)
  with assms have b: "buf_size i = length bs" "- int (length bs) \<le> buf_curr i" by (auto simp: in_ok_def)
  then have "hd (in_lent i) = bs ! nat (int (length bs) + buf_curr i)"
    using bs assms(2) by (simp add: in_lent_def hd_drop_conv_nth)
  with bs b assms(2) h show "buf_byte i (buf_curr i) = Done (hd (in_contents i))"
    by (simp add: buf_byte_def Let_def)
qed

lemma u8:
  assumes "in_ok i"
  shows "\<exists>i'. gu_in_u8 F i None =
      Done (case in_contents i of [] \<Rightarrow> 0 | b # _ \<Rightarrow> b, i', if in_contents i = [] then Some GuEOF else None) \<and>
    in_ok i' \<and> in_contents i' = tl (in_contents i)"
proof (cases "buf_curr i = 0")
  case False
  then have c: "buf_curr i < 0" using assms by (auto simp: in_ok_def split: option.splits)
  note b = byte [OF assms c] and t = lent_take [OF assms, of 1]
  show ?thesis using False b t
    by (intro exI [of _ "i\<lparr>buf_curr := buf_curr i + 1\<rparr>"])
      (cases "in_contents i", simp_all add: gu_in_u8_def drop_Suc)
next
  case True
  obtain b i1 where r: "gu_in_begin_buffering F i None = Done (b, i1, None)" "in_ok i1" "in_contents i1 = in_contents i"
    "b \<longrightarrow> buf_curr i1 < 0" "\<not> b \<longrightarrow> buf_end i1 = None \<and> ready i1"
    using begin_buffering [OF assms(1)] by blast
  show ?thesis
  proof (cases b)
    case True
    note b = byte [OF r(2)] and t = lent_take [OF r(2), of 1]
    show ?thesis using \<open>buf_curr i = 0\<close> True r b t
      by (intro exI [of _ "i1\<lparr>buf_curr := buf_curr i1 + 1\<rparr>"])
        (cases "in_contents i", simp_all add: gu_in_u8_def gu_in_u8_slow_def drop_Suc)
  next
    case False
    have one: "0 < (1 :: nat)" "1 \<le> PTRDIFF_MAX" by (simp_all add: PTRDIFF_MAX_def)
    obtain bs i2 where q: "gu_in_input F i1 1 None = Done (bs, i2, None)" "in_ok i2" "in_contents i1 = bs @ in_contents i2"
      "length bs \<le> 1" "bs = [] \<longrightarrow> in_contents i1 = []"
      using input [OF r(2) _ one] r(5) False by blast
    show ?thesis
    proof (cases bs)
      case Nil
      with q r False \<open>buf_curr i = 0\<close> show ?thesis
        by (intro exI [of _ i2]) (simp add: gu_in_u8_def gu_in_u8_slow_def)
    next
      case (Cons u us)
      with q(4) have "us = []" by simp
      with Cons q r False \<open>buf_curr i = 0\<close> show ?thesis
        by (intro exI [of _ i2]) (simp add: gu_in_u8_def gu_in_u8_slow_def)
    qed
  qed
qed

lemma begin_span:
  assumes "in_ok i"
  shows "\<exists>i'. gu_in_begin_span F i 0 None = Done (in_lent i', i', None) \<and> in_ok i' \<and>
    in_contents i' = in_contents i \<and> gu_in_tell i' = gu_in_tell i"
proof -
  obtain b i1 where r: "gu_in_begin_buffering F i None = Done (b, i1, None)" "in_ok i1" "in_contents i1 = in_contents i"
    "gu_in_tell i1 = gu_in_tell i" "\<not> b \<longrightarrow> buf_end i1 = None"
    using begin_buffering [OF assms(1)] by blast
  have l: "nat (- buf_curr i1) = length (in_lent i1)" using lent_length [OF r(2)] by simp
  show ?thesis
    using r lent_take(1) [OF r(2), of "length (in_lent i1)"] l
    by (intro exI [of _ i1]) (cases b, simp_all add: gu_in_begin_span_def gu_in_input_def in_lent_def)
qed

lemma end_span:
  assumes "in_ok i" and "n \<le> length (in_lent i)"
  shows "gu_in_end_span i n = Done (i\<lparr>buf_curr := buf_curr i + int n\<rparr>)"
proof (cases "buf_end i")
  case None
  with assms show ?thesis
    by (simp add: gu_in_end_span_def gu_in_is_buffering_def in_lent_def)
next
  case (Some bs)
  have "int n \<le> - buf_curr i" "- buf_curr i < 2 ^ 63"
    using assms Some lent_length [OF assms(1)] by (auto simp: in_ok_def)
  then show ?thesis using Some by (simp add: gu_in_end_span_def gu_in_is_buffering_def)
qed

subsection \<open>Proxy and buffered streams keep the contract\<close>

lemma proxy_stream: "in_stream (gu_proxy_in_funs F) in_contents in_lent in_ok (\<lambda>_. True)"
proof
  fix f and s :: "'s GuIn"
  assume f: "begin_buffer (gu_proxy_in_funs F) = Some f" and ok: "in_ok s"
  then have fe: "f = gu_proxy_in_begin_buffer F" by (simp add: gu_proxy_in_funs_def)
  obtain i' where i': "gu_in_begin_span F s 0 None = Done (in_lent i', i', None)" "in_ok i'"
    "in_contents i' = in_contents s" using begin_span [OF ok] by blast
  moreover have "length (in_lent i') < 2 ^ 63"
    using i'(2) lent_length [OF i'(2)] by (cases "buf_end i'") (auto simp: in_ok_def in_lent_def)
  ultimately show "\<exists>s'. f s None = Done (in_lent s', s', None) \<and> in_ok s' \<and> in_contents s' = in_contents s \<and>
      prefix (in_lent s') (in_contents s') \<and> length (in_lent s') < 2 ^ 63 \<and> (in_lent s' = [] \<longrightarrow> True) \<and>
      (input (gu_proxy_in_funs F) = None \<longrightarrow> in_lent s' = in_contents s')"
    using lent_prefix [OF i'(2)] unfolding fe
    by (intro exI [of _ i']) (simp add: gu_proxy_in_funs_def gu_proxy_in_begin_buffer_def)
next
  fix g n and s :: "'s GuIn"
  assume g: "end_buffer (gu_proxy_in_funs F) = Some g" and ok: "in_ok s" and n: "n \<le> length (in_lent s)"
  then show "\<exists>s'. g s n None = Done (s', None) \<and> in_ok s' \<and> in_contents s' = drop n (in_contents s) \<and>
      (n = length (in_lent s) \<longrightarrow> True)"
    using end_span [OF ok n] lent_take [OF ok n]
    by (auto simp: gu_proxy_in_funs_def gu_proxy_in_end_buffer_def)
next
  fix h n and s :: "'s GuIn"
  assume h: "input (gu_proxy_in_funs F) = Some h" and ok: "in_ok s" and n: "0 < n" "n \<le> PTRDIFF_MAX"
  then obtain bs i' where "gu_in_some F s n 1 None = Done (bs, i', None)" "in_ok i'"
    "in_contents s = bs @ in_contents i'" "length bs \<le> n" "min 1 (length (in_contents s)) \<le> length bs"
    using some [OF ok, of 1 n] by (auto simp: Suc_le_eq)
  moreover from this(5) have "bs = [] \<longrightarrow> in_contents s = []" by (cases "in_contents s") auto
  ultimately show "\<exists>bs s'. h s n None = Done (bs, s', None) \<and> in_ok s' \<and> True \<and> in_contents s = bs @ in_contents s' \<and>
      length bs \<le> n \<and> (bs = [] \<longrightarrow> in_contents s = [])"
    using h by (intro exI [of _ bs] exI [of _ i']) (auto simp: gu_proxy_in_funs_def gu_proxy_in_input_def)
qed (simp_all add: gu_proxy_in_funs_def)

definition bis_lent :: "'s GuBufferedInStream \<Rightarrow> u8 list" where
  "bis_lent b = take (have_len b - curr b) (drop (curr b) (bis_buf b))"

definition bis_contents :: "'s GuBufferedInStream \<Rightarrow> u8 list" where
  "bis_contents b = bis_lent b @ in_contents (bis_in b)"

definition bis_ok :: "'s GuBufferedInStream \<Rightarrow> bool" where
  "bis_ok b \<longleftrightarrow> in_ok (bis_in b) \<and> curr b \<le> have_len b \<and> have_len b \<le> alloc b \<and> length (bis_buf b) = alloc b \<and>
     0 < alloc b \<and> alloc b \<le> PTRDIFF_MAX"

definition bis_drained :: "'s GuBufferedInStream \<Rightarrow> bool" where
  "bis_drained b \<longleftrightarrow> curr b = have_len b"

lemma bis_lent_length: "bis_ok b \<Longrightarrow> length (bis_lent b) = have_len b - curr b \<and> length (bis_lent b) < 2 ^ 63"
  by (auto simp: bis_ok_def bis_lent_def PTRDIFF_MAX_def)

lemma bis_begin:
  assumes "bis_ok b"
  shows "\<exists>b'. gu_buffered_in_begin_buffer F b None = Done (bis_lent b', b', None) \<and> bis_ok b' \<and>
    bis_contents b' = bis_contents b"
proof (cases "curr b = have_len b")
  case False
  then show ?thesis using assms
    by (intro exI [of _ b]) (simp add: gu_buffered_in_begin_buffer_def bis_lent_def Let_def)
next
  case True
  from assms have a: "in_ok (bis_in b)" "1 \<le> alloc b" "alloc b \<le> PTRDIFF_MAX" "length (bis_buf b) = alloc b"
    by (auto simp: bis_ok_def)
  from some [OF a(1-3)] obtain bs i1 where r: "gu_in_some F (bis_in b) (alloc b) 1 None = Done (bs, i1, None)" "in_ok i1"
    "in_contents (bis_in b) = bs @ in_contents i1" "length bs \<le> alloc b" by blast
  let ?b = "b\<lparr>curr := 0, bis_in := i1, have_len := length bs, bis_buf := bs @ drop (length bs) (bis_buf b)\<rparr>"
  have "bis_ok ?b" using assms r a by (simp add: bis_ok_def)
  moreover have l: "bis_lent ?b = bs" "bis_lent b = []" using True by (simp_all add: bis_lent_def)
  ultimately show ?thesis using r True
    by (intro exI [of _ ?b])
      (simp add: gu_buffered_in_begin_buffer_def bis_contents_def Let_def bis_lent_def [symmetric] del: bis_lent_def)
qed

lemma buffered_stream: "in_stream (gu_buffered_in_funs F) bis_contents bis_lent bis_ok bis_drained"
proof
  fix f and s :: "'s GuBufferedInStream"
  assume f: "begin_buffer (gu_buffered_in_funs F) = Some f" and ok: "bis_ok s"
  obtain b' where b': "gu_buffered_in_begin_buffer F s None = Done (bis_lent b', b', None)" "bis_ok b'"
    "bis_contents b' = bis_contents s" using bis_begin [OF ok] by blast
  have "bis_lent b' = [] \<longrightarrow> bis_drained b'"
    using bis_lent_length [OF b'(2)] b'(2) by (auto simp: bis_drained_def bis_ok_def)
  moreover have "prefix (bis_lent b') (bis_contents b')" by (simp add: bis_contents_def)
  ultimately show "\<exists>s'. f s None = Done (bis_lent s', s', None) \<and> bis_ok s' \<and>
      bis_contents s' = bis_contents s \<and> prefix (bis_lent s') (bis_contents s') \<and> length (bis_lent s') < 2 ^ 63 \<and>
      (bis_lent s' = [] \<longrightarrow> bis_drained s') \<and>
      (input (gu_buffered_in_funs F) = None \<longrightarrow> bis_lent s' = bis_contents s')"
    using f b' bis_lent_length [OF b'(2)]
    by (intro exI [of _ b']) (simp add: gu_buffered_in_funs_def)
next
  fix g n and s :: "'s GuBufferedInStream"
  assume g: "end_buffer (gu_buffered_in_funs F) = Some g" and ok: "bis_ok s" and n: "n \<le> length (bis_lent s)"
  let ?s = "s\<lparr>curr := curr s + n\<rparr>"
  have l: "n \<le> have_len s - curr s" "have_len s - curr s < 2 ^ 63" "curr s \<le> have_len s"
    using bis_lent_length [OF ok] n ok by (auto simp: bis_ok_def)
  then have "int n \<le> (int (have_len s) - int (curr s)) mod 2 ^ 64" by simp
  then have "gu_buffered_in_end_buffer s n None = Done (?s, None)"
    by (simp add: gu_buffered_in_end_buffer_def)
  moreover have "bis_ok ?s" using ok l by (simp add: bis_ok_def)
  moreover have "bis_lent ?s = drop n (bis_lent s)"
    by (simp add: bis_lent_def drop_take add.commute)
  moreover have "n = length (bis_lent s) \<longrightarrow> bis_drained ?s"
    using bis_lent_length [OF ok] l by (auto simp: bis_drained_def)
  ultimately show "\<exists>s'. g s n None = Done (s', None) \<and> bis_ok s' \<and> bis_contents s' = drop n (bis_contents s) \<and>
      (n = length (bis_lent s) \<longrightarrow> bis_drained s')"
    using g n by (intro exI [of _ ?s]) (simp add: gu_buffered_in_funs_def bis_contents_def)
next
  fix h n and s :: "'s GuBufferedInStream"
  assume h: "input (gu_buffered_in_funs F) = Some h" and ok: "bis_ok s" and d: "bis_drained s"
    and n: "0 < n" "n \<le> PTRDIFF_MAX"
  have "in_ok (bis_in s)" using ok by (simp add: bis_ok_def)
  from some [OF this, of 1 n] n obtain bs i' where r: "gu_in_some F (bis_in s) n 1 None = Done (bs, i', None)" "in_ok i'"
    "in_contents (bis_in s) = bs @ in_contents i'" "length bs \<le> n" "min 1 (length (in_contents (bis_in s))) \<le> length bs"
    by (auto simp: Suc_le_eq)
  have e: "bs = [] \<longrightarrow> in_contents (bis_in s) = []" using r(5) by (cases "in_contents (bis_in s)") auto
  have "bis_lent s = []" "bis_lent (s\<lparr>bis_in := i'\<rparr>) = []" using d by (simp_all add: bis_lent_def bis_drained_def)
  with h r(1-4) e ok d show "\<exists>bs s'. h s n None = Done (bs, s', None) \<and> bis_ok s' \<and> bis_drained s' \<and>
      bis_contents s = bs @ bis_contents s' \<and> length bs \<le> n \<and> (bs = [] \<longrightarrow> bis_contents s = [])"
    by (intro exI [of _ bs] exI [of _ "s\<lparr>bis_in := i'\<rparr>"])
      (auto simp: gu_buffered_in_funs_def gu_buffered_in_input_def bis_ok_def bis_drained_def bis_contents_def)
qed (simp_all add: gu_buffered_in_funs_def)

lemma bis_ok_new:
  assumes "in_ok i" and "junk \<noteq> []" and "length junk \<le> PTRDIFF_MAX"
  shows "bis_ok (stream (gu_new_buffered_in junk i))" and "bis_contents (stream (gu_new_buffered_in junk i)) = in_contents i"
  using assms by (simp_all add: bis_ok_def bis_contents_def bis_lent_def gu_new_buffered_in_def gu_new_in_def gu_init_in_def)

lemma read_blocks:
  assumes "in_ok i" and "sum_list ns \<le> length (in_contents i)" and "length (in_contents i) < PTRDIFF_MAX"
  shows "\<exists>bss i'. read_blocks F i None ns = Done (bss, i', None) \<and> in_ok i' \<and> map length bss = ns \<and>
    concat bss = take (sum_list ns) (in_contents i) \<and> gu_in_tell i' = gu_in_tell i + int (sum_list ns)"
  using assms
proof (induction ns arbitrary: i)
  case (Cons n ns)
  then have n: "n \<le> length (in_contents i)" "n < PTRDIFF_MAX" by auto
  from bytes [OF Cons(2) n(2)] n obtain i1 where r: "gu_in_bytes F i n None = Done (take n (in_contents i), i1, None)"
    "in_ok i1" "in_contents i1 = drop n (in_contents i)" "gu_in_tell i1 = gu_in_tell i + int n"
    by (auto simp: min_def)
  have c: "sum_list ns \<le> length (in_contents i1)" "length (in_contents i1) < PTRDIFF_MAX"
    using Cons(3,4) r(3) by auto
  obtain bss i2 where q: "read_blocks F i1 None ns = Done (bss, i2, None)" "in_ok i2" "map length bss = ns"
    "concat bss = take (sum_list ns) (in_contents i1)" "gu_in_tell i2 = gu_in_tell i1 + int (sum_list ns)"
    using Cons.IH [OF r(2) c] by blast
  have "take (n + sum_list ns) (in_contents i) = take n (in_contents i) @ concat bss"
    using q(4) r(3) by (simp add: take_add)
  with r q n show ?case
    by (intro exI [of _ "take n (in_contents i) # bss"] exI [of _ i2]) simp
qed simp

lemma be:
  assumes "in_ok i" and "n \<le> length (in_contents i)" and "n < PTRDIFF_MAX"
  shows "\<exists>i'. gu_in_be F junk i None n = Done (bytes_value (take n (in_contents i)), i', None) \<and> in_ok i' \<and>
    in_contents i' = drop n (in_contents i)"
  using bytes [OF assms(1,3)] assms(2) by (auto simp: gu_in_be_def)

end

subsection \<open>The streams of the library\<close>

interpretation data: in_stream gu_data_in_funs "\<lambda>d. d" "\<lambda>d. d" "\<lambda>d. length d < 2 ^ 63" "\<lambda>d. d = []"
  by unfold_locales (auto simp: gu_data_in_funs_def gu_data_in_begin_buffer_def gu_data_in_end_buffer_def)

interpretation proxied: in_stream "gu_proxy_in_funs gu_data_in_funs" data.in_contents data.in_lent data.in_ok "\<lambda>_. True"
  by (rule data.proxy_stream)

interpretation buffered: in_stream "gu_buffered_in_funs gu_data_in_funs"
    data.bis_contents data.bis_lent data.bis_ok data.bis_drained
  by (rule data.buffered_stream)

text \<open>Readers of these streams at their creation.\<close>

lemma data_in_ok:
  assumes "length d < 2 ^ 63"
  shows "data.in_ok (gu_data_in d)" and "data.in_contents (gu_data_in d) = d"
  using assms data.in_ok_new data.in_contents_new by (simp_all add: gu_data_in_def)

lemma buffered_in_ok:
  assumes "length d < 2 ^ 63" and "junk \<noteq> []" and "length junk \<le> PTRDIFF_MAX"
  shows "buffered.in_ok (gu_new_buffered_in junk (gu_data_in d))"
    and "buffered.in_contents (gu_new_buffered_in junk (gu_data_in d)) = d"
proof -
  note d = data_in_ok [OF assms(1)]
  note b = data.bis_ok_new [OF d(1) assms(2,3)]
  have n: "gu_new_buffered_in junk (gu_data_in d) = gu_new_in (stream (gu_new_buffered_in junk (gu_data_in d)))"
    by (simp add: gu_new_buffered_in_def gu_new_in_def gu_init_in_def)
  show "buffered.in_ok (gu_new_buffered_in junk (gu_data_in d))"
    by (subst n, rule buffered.in_ok_new, rule b(1))
  show "buffered.in_contents (gu_new_buffered_in junk (gu_data_in d)) = d"
    by (subst n, subst buffered.in_contents_new) (simp add: b(2) d(2))
qed

text \<open>The value of a block of bytes, most significant first.\<close>

lemma append_byte:
  assumes "uint (x :: u64) < 2 ^ 56"
  shows "uint (push_bit 8 x OR ucast (b :: u8)) = uint x * 256 + uint b"
proof -
  have "uint (push_bit 8 x) = push_bit 8 (uint x)"
    unfolding unsigned_push_bit_eq using assms by (simp add: take_bit_int_eq_self_iff push_bit_eq_mult)
  moreover have "uint (ucast b :: u64) = uint b" by (simp add: unsigned_ucast_eq take_bit_int_eq_self_iff order_less_trans [OF uint_lt2p])
  ultimately have "uint (push_bit 8 x OR ucast b) = push_bit 8 (uint x) OR uint b" by (simp add: unsigned_or_eq)
  also have "\<dots> = uint x * 2 ^ 8 + uint b" using or_shift [of "uint b" 8 "uint x"] uint_lt2p [of b] by simp
  finally show ?thesis by simp
qed

definition be_value :: "u8 list \<Rightarrow> int" where
  "be_value bs = foldl (\<lambda>n b. n * 256 + uint b) 0 bs"

lemma bytes_value:
  "length bs \<le> 8 \<Longrightarrow> uint (bytes_value bs) = be_value bs \<and> be_value bs < 2 ^ (8 * length bs)"
proof (induction bs rule: rev_induct)
  case (snoc b bs)
  then have ih: "uint (bytes_value bs) = be_value bs" "be_value bs < 2 ^ (8 * length bs)" by auto
  have "(2 :: int) ^ (8 * length bs) \<le> 2 ^ 56" using snoc.prems by (intro power_increasing) auto
  with ih have "uint (bytes_value bs) < 2 ^ 56" by linarith
  from append_byte [OF this, of b] have e: "uint (bytes_value (bs @ [b])) = be_value (bs @ [b])"
    using ih by (simp add: bytes_value_def be_value_def)
  have "be_value (bs @ [b]) \<le> (2 ^ (8 * length bs) - 1) * 256 + uint b" using ih by (simp add: be_value_def)
  also have "\<dots> < 2 ^ (8 * length bs) * 256" using uint_lt2p [of b] by (simp add: left_diff_distrib)
  finally show ?case using e by (simp add: power_add mult.commute)
qed (simp add: bytes_value_def be_value_def)

lemma blocks_unique: "map length xs = map length ys \<Longrightarrow> concat xs = concat ys \<Longrightarrow> xs = ys"
proof (induction xs arbitrary: ys)
  case (Cons x xs)
  then show ?case by (cases ys) auto
qed simp

subsection \<open>Properties\<close>

text \<open>C34. Buffering is transparent: a client that reads blocks through a buffer of any size gets exactly the blocks
  it gets from the data directly, which are the consecutive pieces of the data, and the position
  told at the end is the number of bytes read.\<close>

theorem buffered_reads_data:
  assumes "length d < PTRDIFF_MAX" and "junk \<noteq> []" and "length junk \<le> PTRDIFF_MAX" and "sum_list ns \<le> length d"
  shows "\<exists>bss i j. read_blocks gu_data_in_funs (gu_data_in d) None ns = Done (bss, i, None) \<and>
    read_blocks (gu_buffered_in_funs gu_data_in_funs) (gu_new_buffered_in junk (gu_data_in d)) None ns = Done (bss, j, None) \<and>
    map length bss = ns \<and> concat bss = take (sum_list ns) d \<and>
    gu_in_tell i = int (sum_list ns) \<and> gu_in_tell j = int (sum_list ns)"
proof -
  have d: "length d < 2 ^ 63" using assms(1) by (simp add: PTRDIFF_MAX_def)
  note di = data_in_ok [OF d] and bi = buffered_in_ok [OF d assms(2,3)]
  have t: "gu_in_tell (gu_data_in d) = 0" "gu_in_tell (gu_new_buffered_in junk (gu_data_in d)) = 0"
    by (simp_all add: gu_in_tell_def gu_data_in_def gu_new_buffered_in_def gu_new_in_def gu_init_in_def)
  obtain bss i where x: "read_blocks gu_data_in_funs (gu_data_in d) None ns = Done (bss, i, None)" "map length bss = ns"
    "concat bss = take (sum_list ns) d" "gu_in_tell i = int (sum_list ns)"
    using data.read_blocks [OF di(1), of ns] di(2) t assms by auto
  obtain css j where y: "read_blocks (gu_buffered_in_funs gu_data_in_funs) (gu_new_buffered_in junk (gu_data_in d)) None ns =
      Done (css, j, None)" "map length css = ns"
    "concat css = take (sum_list ns) d" "gu_in_tell j = int (sum_list ns)"
    using buffered.read_blocks [OF bi(1), of ns] bi(2) t assms by auto
  have "bss = css" using x(2,3) y(2,3) by (intro blocks_unique) simp_all
  with x y show ?thesis by blast
qed

theorem buffered_reads_data_witness:
  "\<exists>bss i j. read_blocks gu_data_in_funs (gu_data_in [1, 2, 3, 4, 5]) None [2, 3] = Done (bss, i, None) \<and>
    read_blocks (gu_buffered_in_funs gu_data_in_funs) (gu_new_buffered_in [0, 0] (gu_data_in [1, 2, 3, 4, 5])) None [2, 3] = Done (bss, j, None) \<and>
    concat bss = [1, 2, 3, 4, 5]"
  using buffered_reads_data [of "[1, 2, 3, 4, 5]" "[0, 0]" "[2, 3]"] by (fastforce simp: PTRDIFF_MAX_def)



text \<open>The fixed-width readers of both byte orders take the first byte as the most significant one; so the
  readers that are called little-endian read big-endian numbers.\<close>

theorem le_reads_big_endian:
  assumes "n \<le> length d" and "n \<le> 8" and "length d < PTRDIFF_MAX"
  shows "\<exists>i v. gu_in_be gu_data_in_funs junk (gu_data_in d) None n = Done (v, i, None) \<and>
    gu_in_le gu_data_in_funs junk (gu_data_in d) None n = Done (v, i, None) \<and> uint v = be_value (take n d)"
proof -
  have d: "length d < 2 ^ 63" "n < PTRDIFF_MAX" using assms by (simp_all add: PTRDIFF_MAX_def)
  note di = data_in_ok [OF d(1)]
  obtain i where "gu_in_be gu_data_in_funs junk (gu_data_in d) None n = Done (bytes_value (take n d), i, None)"
    using data.be [OF di(1) _ d(2)] di(2) assms(1) by auto
  with bytes_value [of "take n d"] assms(2) show ?thesis
    by (auto simp: gu_in_be_def gu_in_le_def)
qed

theorem le_reads_big_endian_witness:
  "\<exists>i v. gu_in_le gu_data_in_funs [] (gu_data_in [1, 0]) None 2 = Done (v, i, None) \<and> uint v = 256"
  using le_reads_big_endian [of 2 "[1, 0]" "[]"] by (auto simp: PTRDIFF_MAX_def be_value_def)

end
