(* ===== verification/Seq.thy ===== *)
theory Seq
  imports Mem Bits
begin

text \<open>
  Sequences and buffers, \<open>gu/seq.c\<close> and \<open>gu/seq.h\<close>.

  A \<open>GuSeq\<close> is a tagged word: the address of the elements with their number as the tag when there are
  1 to 7 of them, an untagged address with the length in the word before the elements otherwise. A \<open>GuBuf\<close> has an odd
  length word before its structure, which tells it from a sequence, and data that is
  reallocated as it grows. The words and bytes that these objects occupy are kept in a small store
  from addresses to objects; elements are blocks of \<open>elem_size\<close> bytes, which the model keeps
  as values of a type \<open>'e\<close>.
\<close>

unbundle bit_operations_syntax

subsection \<open>Objects\<close>

text \<open>What an address leads to: the plain elements of a short sequence, a length word followed by elements, or
  a buffer. The buffer's data are its elements up to its length; \<open>avail_len\<close> is how many the allocation has room for.\<close>

record 'e GuBuf =
  elems :: "'e list"
  elem_size :: int
  avail_len :: int

datatype 'e seq_object =
    Plain "'e list"
  | Prefixed "'e list"
  | Buf "'e GuBuf"

type_synonym 'e seq_store = "u64 \<rightharpoonup> 'e seq_object"

type_synonym GuSeq = u64

text \<open>The word before the object: \<open>((GuWord*) p)[-1]\<close>.\<close>

fun length_word :: "'e seq_object \<Rightarrow> u64 run" where
  "length_word (Plain xs) = Fault Out_Of_Bounds"
| "length_word (Prefixed xs) = Done (push_bit 1 (word_of_nat (length xs)))"
| "length_word (Buf b) = Done (push_bit 1 (word_of_nat (length (elems b))) OR 1)"

definition deref :: "'e seq_store \<Rightarrow> u64 \<Rightarrow> 'e seq_object run" where
  "deref st p = (if p = 0 then Fault Null_Deref else case st p of None \<Rightarrow> Fault Out_Of_Bounds | Some ob \<Rightarrow> Done ob)"

definition gu_null_seq :: GuSeq where "gu_null_seq = 0"

definition gu_seq_is_null :: "GuSeq \<Rightarrow> bool run" where
  "gu_seq_is_null s = bindR (gu_tagged_ptr s) (\<lambda>p. Done (p = 0))"

definition gu_seq_length :: "'e seq_store \<Rightarrow> GuSeq \<Rightarrow> u64 run" where
  "gu_seq_length st s =
     (let tag = gu_tagged_tag s in
      if tag = 0 then
        bindR (gu_tagged_ptr s) (\<lambda>p. bindR (deref st p) (\<lambda>ob. bindR (length_word ob) (\<lambda>w. Done (drop_bit 1 w))))
      else Done tag)"

definition gu_seq_is_empty :: "'e seq_store \<Rightarrow> GuSeq \<Rightarrow> bool run" where
  "gu_seq_is_empty st s = bindR (gu_seq_length st s) (\<lambda>n. Done (n = 0))"

text \<open>The elements that \<open>gu_seq_data\<close> points to: those of the buffer when the length word is odd.\<close>

fun object_elems :: "'e seq_object \<Rightarrow> 'e list" where
  "object_elems (Plain xs) = xs"
| "object_elems (Prefixed xs) = xs"
| "object_elems (Buf b) = elems b"

definition gu_seq_data :: "'e seq_store \<Rightarrow> GuSeq \<Rightarrow> 'e list run" where
  "gu_seq_data st s =
     bindR (gu_tagged_ptr s) (\<lambda>p. bindR (deref st p) (\<lambda>ob.
       if gu_tagged_tag s = 0 then
         bindR (length_word ob) (\<lambda>w.
           if w AND 1 \<noteq> 0 then (case ob of Buf b \<Rightarrow> Done (elems b) | _ \<Rightarrow> Fault Out_Of_Bounds)
           else Done (object_elems ob))
       else (case ob of Plain xs \<Rightarrow> Done xs | _ \<Rightarrow> Fault Out_Of_Bounds)))"

text \<open>\<open>gu_seq_get(SEQ, T, I)\<close>\<close>

definition gu_seq_get :: "'e seq_store \<Rightarrow> GuSeq \<Rightarrow> nat \<Rightarrow> 'e run" where
  "gu_seq_get st s i = bindR (gu_seq_data st s) (\<lambda>xs. seq_at xs i)"

definition gu_seq_is_buf :: "'e seq_store \<Rightarrow> GuSeq \<Rightarrow> bool run" where
  "gu_seq_is_buf st s =
     (if gu_tagged_tag s \<noteq> 0 then Done False
      else bindR (deref st s) (\<lambda>ob. bindR (length_word ob) (\<lambda>w. Done (w AND 1 = 1))))"

definition gu_seq_buf :: "'e seq_store \<Rightarrow> GuSeq \<Rightarrow> u64 run" where
  "gu_seq_buf st s = bindR (gu_seq_is_buf st s) (\<lambda>b. gu_require b (Done s))"

definition gu_buf_seq :: "u64 \<Rightarrow> GuSeq" where
  "gu_buf_seq p = p"

text \<open>A new sequence of elements \<open>xs\<close>, to be placed at the address \<open>p\<close> that the allocation returns; \<open>e0\<close> is the
  address of the static empty sequence.\<close>

definition gu_make_seq :: "u64 \<Rightarrow> int \<Rightarrow> 'e list \<Rightarrow> u64 \<Rightarrow> 'e seq_store \<Rightarrow> (GuSeq \<times> 'e seq_store) run" where
  "gu_make_seq e0 esz xs p st =
     (let n = word_of_nat (length xs) :: u64; size = (esz * int (length xs)) mod 2 ^ 64 in
      if 0 < n \<and> n \<le> 7 then bindR (gu_tagged p n) (\<lambda>s. Done (s, st(p \<mapsto> Plain xs)))
      else if size = 0 then bindR (gu_tagged e0 0) (\<lambda>s. Done (s, st))
      else bindR (gu_tagged p 0) (\<lambda>s. Done (s, st(p \<mapsto> Prefixed xs))))"

definition gu_seq_copy :: "u64 \<Rightarrow> int \<Rightarrow> GuSeq \<Rightarrow> u64 \<Rightarrow> 'e seq_store \<Rightarrow> (GuSeq \<times> 'e seq_store) run" where
  "gu_seq_copy e0 esz s p st =
     bindR (gu_seq_length st s) (\<lambda>n. bindR (gu_seq_data st s) (\<lambda>xs.
       if unat n \<le> length xs then gu_make_seq e0 esz (take (unat n) xs) p st else Fault Out_Of_Bounds))"

subsection \<open>Buffers\<close>

definition gu_make_buf :: "int \<Rightarrow> 'e GuBuf" where
  "gu_make_buf esz = \<lparr>elems = [], elem_size = esz, avail_len = 0\<rparr>"

definition gu_buf_length :: "'e GuBuf \<Rightarrow> int" where
  "gu_buf_length b = int (length (elems b))"

definition gu_buf_avail :: "'e GuBuf \<Rightarrow> int" where
  "gu_buf_avail b = avail_len b"

definition gu_buf_require :: "'e GuBuf \<Rightarrow> int \<Rightarrow> 'e GuBuf run" where
  "gu_buf_require b req_len =
     (if req_len \<le> avail_len b then Done b
      else bindR (gu_mem_buf_realloc ((elem_size b * req_len) mod 2 ^ 64)) (\<lambda>sz.
        Done (b\<lparr>avail_len := sz div elem_size b\<rparr>)))"

text \<open>Extending a buffer and writing the new elements; a write beyond the allocation is a fault.\<close>

definition gu_buf_push_n :: "'e GuBuf \<Rightarrow> 'e list \<Rightarrow> 'e GuBuf run" where
  "gu_buf_push_n b xs =
     bindR (gu_buf_require b ((gu_buf_length b + int (length xs)) mod 2 ^ 64)) (\<lambda>b1.
       if gu_buf_length b1 + int (length xs) \<le> avail_len b1
       then Done (b1\<lparr>elems := elems b1 @ xs\<rparr>) else Fault Out_Of_Bounds)"

definition gu_buf_push :: "'e GuBuf \<Rightarrow> 'e \<Rightarrow> 'e GuBuf run" where
  "gu_buf_push b x = gu_buf_push_n b [x]"

text \<open>The trimmed elements are still in place after the call.\<close>

definition gu_buf_trim_n :: "'e GuBuf \<Rightarrow> nat \<Rightarrow> ('e list \<times> 'e GuBuf) run" where
  "gu_buf_trim_n b n =
     gu_require (int n \<le> gu_buf_length b)
       (let k = length (elems b) - n in Done (drop k (elems b), b\<lparr>elems := take k (elems b)\<rparr>))"

definition gu_buf_trim :: "'e GuBuf \<Rightarrow> ('e list \<times> 'e GuBuf) run" where
  "gu_buf_trim b = gu_buf_trim_n b 1"

definition gu_buf_pop_n :: "'e GuBuf \<Rightarrow> nat \<Rightarrow> ('e list \<times> 'e GuBuf) run" where
  "gu_buf_pop_n b n = gu_buf_trim_n b n"

definition gu_buf_freeze :: "u64 \<Rightarrow> 'e GuBuf \<Rightarrow> u64 \<Rightarrow> 'e seq_store \<Rightarrow> (GuSeq \<times> 'e seq_store) run" where
  "gu_buf_freeze e0 b p st = gu_make_seq e0 (elem_size b) (elems b) p st"

subsection \<open>Sequences hold their elements\<close>

lemma length_word_simps:
  assumes "length xs < 2 ^ 62"
  shows "drop_bit 1 (push_bit 1 (word_of_nat (length xs)) :: u64) = word_of_nat (length xs)"
    and "push_bit 1 (word_of_nat (length xs) :: u64) AND 1 = 0"
    and "drop_bit 1 (push_bit 1 (word_of_nat (length xs)) OR 1 :: u64) = word_of_nat (length xs)"
    and "(push_bit 1 (word_of_nat (length xs)) OR 1 :: u64) AND 1 = 1"
proof -
  have b: "n < 62" if "bit (length xs) n" for n
  proof (rule ccontr)
    assume "\<not> n < 62"
    then have "length xs < 2 ^ n" using assms power_increasing [of 62 n "2 :: nat"] by linarith
    with that show False by (simp add: bit_iff_odd)
  qed
  let ?w = "word_of_nat (length xs) :: u64"
  have g: "drop_bit k (push_bit k ?w) = ?w" "push_bit k ?w AND 1 = 0"
    "drop_bit k (push_bit k ?w OR 1) = ?w" "(push_bit k ?w OR 1) AND 1 = 1" if k: "0 < k" "k < 2" for k
  proof -
    show "drop_bit k (push_bit k ?w) = ?w"
      by (rule bit_word_eqI) (use k in \<open>auto simp: bit_simps dest: b\<close>)
    show "push_bit k ?w AND 1 = 0"
      by (rule bit_word_eqI) (use k in \<open>auto simp: bit_and_iff bit_push_bit_iff bit_1_iff\<close>)
    show "drop_bit k (push_bit k ?w OR 1) = ?w"
      by (rule bit_word_eqI) (use k in \<open>auto simp: bit_simps bit_1_iff dest: b\<close>)
    show "(push_bit k ?w OR 1) AND 1 = 1"
      by (rule bit_word_eqI) (use k in \<open>auto simp: bit_and_iff bit_or_iff bit_push_bit_iff bit_1_iff\<close>)
  qed
  show "drop_bit 1 (push_bit 1 ?w) = ?w" "push_bit 1 ?w AND 1 = 0"
    "drop_bit 1 (push_bit 1 ?w OR 1) = ?w" "(push_bit 1 ?w OR 1) AND 1 = 1"
    using g [of 1] by simp_all
qed

text \<open>A word that stands for the elements \<open>xs\<close> in a store.\<close>

definition seq_holds :: "'e seq_store \<Rightarrow> GuSeq \<Rightarrow> 'e list \<Rightarrow> bool" where
  "seq_holds st s xs \<longleftrightarrow> gu_seq_length st s = Done (word_of_nat (length xs)) \<and> gu_seq_data st s = Done xs \<and>
     gu_seq_is_buf st s = Done False"

definition address :: "u64 \<Rightarrow> bool" where
  "address p \<longleftrightarrow> p \<noteq> 0 \<and> p AND 7 = 0"

lemma prefixed_holds:
  assumes "address p" and "st p = Some (Prefixed xs)" and "length xs < 2 ^ 62"
  shows "seq_holds st p xs"
proof -
  have t: "gu_tagged_tag p = 0" "gu_tagged_ptr p = Done p"
    using tagged_parts(2,3) [of p 0] assms(1) by (simp_all add: address_def)
  have d: "deref st p = Done (Prefixed xs)" using assms(1,2) by (simp add: deref_def address_def)
  note w = length_word_simps(1,2) [OF assms(3)]
  show ?thesis
    using t d w by (simp add: seq_holds_def gu_seq_length_def gu_seq_data_def gu_seq_is_buf_def Let_def)
qed

lemma make_seq_holds:
  assumes "address p" and "address e0" and "st e0 = Some (Prefixed [])" and "e0 \<noteq> p" and "0 < esz"
    and "esz * int (length xs) < 2 ^ 62"
  shows "\<exists>s st'. gu_make_seq e0 esz xs p st = Done (s, st') \<and> seq_holds st' s xs \<and> (\<forall>a. a \<noteq> p \<longrightarrow> st' a = st a)"
proof -
  have "int (length xs) \<le> esz * int (length xs)" using assms(5) by (simp add: mult_le_cancel_right1)
  then have "int (length xs) < 2 ^ 62" using assms(6) by linarith
  then have l: "length xs < 2 ^ 62" by simp
  let ?n = "word_of_nat (length xs) :: u64"
  have un: "unat ?n = length xs" using l by (simp add: unat_of_nat take_bit_nat_eq_self_iff)
  consider "xs = []" | "0 < length xs" "length xs \<le> 7" | "7 < length xs" by fastforce
  then show ?thesis
  proof cases
    case 1
    then have "gu_make_seq e0 esz xs p st = Done (e0, st)"
      using tagged_parts(1) [of e0 0] assms(2) by (simp add: gu_make_seq_def address_def)
    with prefixed_holds [where xs = "[]" and st = st, OF assms(2,3)] 1 show ?thesis by auto
  next
    case 2
    then have n: "0 < ?n" "?n \<le> 7" "?n < 8" "?n \<noteq> 0"
      using un by (auto simp: word_less_nat_alt word_le_nat_alt unat_eq_0 [symmetric])
    note t = tagged_parts [OF _ n(3), of p]
    let ?s = "p OR ?n" and ?st = "st(p \<mapsto> Plain xs)"
    have m: "gu_make_seq e0 esz xs p st = Done (?s, ?st)"
      using t(1) n(1,2) assms(1) by (simp add: gu_make_seq_def Let_def address_def)
    have "seq_holds ?st ?s xs"
      using t(2,3) n(4) assms(1)
      by (simp add: seq_holds_def gu_seq_length_def gu_seq_data_def gu_seq_is_buf_def Let_def deref_def address_def)
    with m show ?thesis by auto
  next
    case 3
    then have n: "\<not> ?n \<le> 7" using un by (simp add: word_le_nat_alt)
    have "0 < esz * int (length xs)" using assms(5) 3 by (intro mult_pos_pos) auto
    then have sz: "(esz * int (length xs)) mod 2 ^ 64 \<noteq> 0" using assms(6) by (subst mod_pos_pos_trivial) auto
    let ?st = "st(p \<mapsto> Prefixed xs)"
    have m: "gu_make_seq e0 esz xs p st = Done (p, ?st)"
      using tagged_parts(1) [of p 0] n sz assms(1) by (simp add: gu_make_seq_def Let_def address_def)
    moreover have "seq_holds ?st p xs" using assms(1) l by (intro prefixed_holds) simp_all
    ultimately show ?thesis by auto
  qed
qed

subsection \<open>Buffers keep their elements within the allocation\<close>

definition buf_ok :: "'e GuBuf \<Rightarrow> bool" where
  "buf_ok b \<longleftrightarrow> 0 < elem_size b \<and> gu_buf_length b \<le> avail_len b \<and> elem_size b * avail_len b < 2 ^ 62"

lemma make_buf_ok: "0 < esz \<Longrightarrow> buf_ok (gu_make_buf esz)"
  by (simp add: buf_ok_def gu_make_buf_def gu_buf_length_def)

lemma buf_require_ok:
  assumes "buf_ok b" and "0 \<le> n" and "elem_size b * n < 2 ^ 60"
  shows "\<exists>b1. gu_buf_require b n = Done b1 \<and> buf_ok b1 \<and> elems b1 = elems b \<and> elem_size b1 = elem_size b \<and>
    n \<le> avail_len b1 \<and> avail_len b \<le> avail_len b1"
proof (cases "n \<le> avail_len b")
  case False
  have e: "0 < elem_size b" using assms(1) by (simp add: buf_ok_def)
  then have z: "0 \<le> elem_size b * n" using assms(2) by simp
  obtain s where s: "gu_mem_buf_alloc (elem_size b * n) = Done s" "elem_size b * n \<le> s" "s < 2 ^ 62"
    using buf_alloc_bounds [OF z assms(3)] by blast
  have "n = elem_size b * n div elem_size b" using e by simp
  also have "\<dots> \<le> s div elem_size b" using s(2) e by (intro zdiv_mono1)
  finally have a: "n \<le> s div elem_size b" .
  have "elem_size b * (s div elem_size b) \<le> s"
    using mult_div_mod_eq [of "elem_size b" s] pos_mod_sign [OF e, of s] by linarith
  with a False s e assms z show ?thesis
    by (auto simp: gu_buf_require_def gu_mem_buf_alloc_def buf_ok_def gu_buf_length_def)
qed (use assms in \<open>simp add: gu_buf_require_def\<close>)

lemma buf_push_ok:
  assumes "buf_ok b" and "elem_size b * (gu_buf_length b + int (length xs)) < 2 ^ 60"
  shows "\<exists>b1. gu_buf_push_n b xs = Done b1 \<and> buf_ok b1 \<and> elems b1 = elems b @ xs \<and> elem_size b1 = elem_size b"
proof -
  let ?n = "gu_buf_length b + int (length xs)"
  have e: "0 < elem_size b" using assms(1) by (simp add: buf_ok_def)
  then have "1 * ?n \<le> elem_size b * ?n" by (intro mult_right_mono) (auto simp: gu_buf_length_def)
  then have m: "?n mod 2 ^ 64 = ?n" using assms(2) by (simp add: gu_buf_length_def)
  obtain b1 where "gu_buf_require b ?n = Done b1" "buf_ok b1" "elems b1 = elems b" "elem_size b1 = elem_size b"
    "?n \<le> avail_len b1"
    using buf_require_ok [OF assms(1) _ assms(2)] by (auto simp: gu_buf_length_def)
  then show ?thesis
    unfolding gu_buf_push_n_def m by (auto simp: buf_ok_def gu_buf_length_def)
qed

lemma buf_pushes_ok:
  assumes "buf_ok b" and "elem_size b * (gu_buf_length b + int (length (concat xss))) < 2 ^ 60"
  shows "\<exists>b1. foldR (\<lambda>xs b. gu_buf_push_n b xs) xss b = Done b1 \<and> buf_ok b1 \<and> elems b1 = elems b @ concat xss \<and>
    elem_size b1 = elem_size b"
  using assms
proof (induction xss arbitrary: b)
  case (Cons xs xss)
  have e: "0 < elem_size b" using Cons.prems(1) by (simp add: buf_ok_def)
  have "elem_size b * (gu_buf_length b + int (length xs)) \<le>
      elem_size b * (gu_buf_length b + int (length (concat (xs # xss))))"
    using e by (intro mult_left_mono) auto
  then have "elem_size b * (gu_buf_length b + int (length xs)) < 2 ^ 60" using Cons.prems(2) by linarith
  from buf_push_ok [OF Cons.prems(1) this] obtain b1 where b1: "gu_buf_push_n b xs = Done b1" "buf_ok b1"
    "elems b1 = elems b @ xs" "elem_size b1 = elem_size b" by blast
  have "elem_size b1 * (gu_buf_length b1 + int (length (concat xss))) < 2 ^ 60"
    using Cons.prems(2) b1(3,4) by (simp add: gu_buf_length_def add.assoc)
  from Cons.IH [OF b1(2) this] b1 show ?case by auto
qed simp

subsection \<open>Properties\<close>



end
