(* ===== verification/Out.thy ===== *)
theory Out
  imports Seq Exn
begin

text \<open>
  Output streams, \<open>gu/out.c\<close> and \<open>gu/out.h\<close>, and the output stream onto a byte buffer of \<open>gu/seq.c\<close>.

  A \<open>GuOutStream\<close> has functions to lend out a buffer to write into, to take back the buffer with the
  number of bytes written, to output a block of bytes, and to flush. A \<open>GuOut\<close> writes into the lent buffer while there is
  room. The memory of the lent buffer is shared between stream and writer in the code; since the
  stream looks at it only when it takes the buffer back, the model lets the writer keep the bytes and hands them
  over then. The locale \<open>out_stream\<close> states the contract of a stream; the proxy, buffered and byte buffer
  streams satisfy it.
\<close>

subsection \<open>Streams and writers\<close>

record 's GuOutStreamFuns =
  begin_buf :: "('s \<Rightarrow> nat \<Rightarrow> GuErr \<Rightarrow> (nat \<times> 's \<times> GuErr) run) option"
  end_buf :: "('s \<Rightarrow> u8 list \<Rightarrow> GuErr \<Rightarrow> ('s \<times> GuErr) run) option"
  output_fn :: "('s \<Rightarrow> u8 list \<Rightarrow> GuErr \<Rightarrow> (nat \<times> 's \<times> GuErr) run) option"
  flush :: "('s \<Rightarrow> GuErr \<Rightarrow> ('s \<times> GuErr) run) option"

text \<open>\<open>obuf_end\<close> is the pointer to the end of the lent buffer, with the bytes written into the buffer so far;
  \<open>obuf_curr\<close> is minus the number of bytes that are free.\<close>

record 's GuOut =
  obuf_end :: "u8 list option"
  obuf_curr :: int
  obuf_size :: nat
  ostream :: 's

definition OUT_MAX :: nat where "OUT_MAX = 2 ^ 63 - 1"

definition gu_init_out :: "'s \<Rightarrow> 's GuOut" where
  "gu_init_out s = \<lparr>obuf_end = None, obuf_curr = 0, obuf_size = 0, ostream = s\<rparr>"

definition gu_new_out :: "'s \<Rightarrow> 's GuOut" where
  "gu_new_out s = gu_init_out s"

definition gu_out_is_buffering :: "'s GuOut \<Rightarrow> bool" where
  "gu_out_is_buffering o1 \<longleftrightarrow> obuf_end o1 \<noteq> None"

definition gu_out_is_buffered :: "'s GuOutStreamFuns \<Rightarrow> bool" where
  "gu_out_is_buffered G \<longleftrightarrow> begin_buf G \<noteq> None"

definition gu_out_end_buf :: "'s GuOutStreamFuns \<Rightarrow> 's GuOut \<Rightarrow> GuErr \<Rightarrow> ('s GuOut \<times> GuErr) run" where
  "gu_out_end_buf G out err =
     (case obuf_end out of
        None \<Rightarrow> Done (out, err)
      | Some w \<Rightarrow>
          (let curr_len = nat (int (obuf_size out) + obuf_curr out) in
           case end_buf G of
             None \<Rightarrow> Fault Null_Deref
           | Some g \<Rightarrow> bindR (g (ostream out) (take curr_len w) err) (\<lambda>(s, err).
               Done (out\<lparr>ostream := s, obuf_end := None, obuf_size := 0, obuf_curr := 0\<rparr>, err))))"

text \<open>The part of \<open>gu_out_begin_buf\<close> that asks the stream for a buffer.\<close>

definition ask_buf :: "'s GuOutStreamFuns \<Rightarrow> 's GuOut \<Rightarrow> nat \<Rightarrow> GuErr \<Rightarrow> (bool \<times> 's GuOut \<times> GuErr) run" where
  "ask_buf G out req err =
     (case begin_buf G of
        None \<Rightarrow> Done (False, out, err)
      | Some f \<Rightarrow> bindR (f (ostream out) req err) (\<lambda>(sz, s, err).
          gu_assert (sz \<le> OUT_MAX)
            (if sz \<noteq> 0 then
               Done (True, out\<lparr>ostream := s, obuf_end := Some [], obuf_curr := - int sz, obuf_size := sz\<rparr>, err)
             else Done (False, out\<lparr>ostream := s\<rparr>, err))))"

definition gu_out_begin_buf :: "'s GuOutStreamFuns \<Rightarrow> 's GuOut \<Rightarrow> nat \<Rightarrow> GuErr \<Rightarrow> (bool \<times> 's GuOut \<times> GuErr) run" where
  "gu_out_begin_buf G out req err =
     (if gu_out_is_buffering out then
        (if obuf_curr out < 0 then Done (True, out, err)
         else bindR (gu_out_end_buf G out err) (\<lambda>(o1, err1).
           if err1 \<noteq> None then Done (False, o1, err1) else ask_buf G o1 req err1))
      else ask_buf G out req err)"

text \<open>The finalizer of a writer hands over what it has, with a fresh exception frame.\<close>

definition gu_out_fini :: "'s GuOutStreamFuns \<Rightarrow> 's GuOut \<Rightarrow> 's GuOut run" where
  "gu_out_fini G out =
     (if gu_out_is_buffering out then bindR (gu_out_end_buf G out None) (\<lambda>(o1, err). Done o1) else Done out)"

text \<open>Writing \<open>src\<close> at \<open>buf_end[buf_curr]\<close>.\<close>

definition buf_write :: "'s GuOut \<Rightarrow> u8 list \<Rightarrow> 's GuOut run" where
  "buf_write out src =
     (if src = [] then Done out
      else case obuf_end out of
        None \<Rightarrow> Fault Null_Deref
      | Some w \<Rightarrow>
          (let j = nat (int (obuf_size out) + obuf_curr out) in
           if j \<le> length w \<and> obuf_curr out + int (length src) \<le> 0
           then Done (out\<lparr>obuf_end := Some (take j w @ src), obuf_curr := obuf_curr out + int (length src)\<rparr>)
           else Fault Out_Of_Bounds))"

definition gu_out_try_buf :: "'s GuOut \<Rightarrow> u8 list \<Rightarrow> (bool \<times> 's GuOut) run" where
  "gu_out_try_buf out src =
     gu_require (length src \<le> OUT_MAX)
       (if obuf_curr out + int (length src) > 0 then Done (False, out)
        else bindR (buf_write out src) (\<lambda>o1. Done (True, o1)))"

definition gu_out_output :: "'s GuOutStreamFuns \<Rightarrow> 's GuOut \<Rightarrow> u8 list \<Rightarrow> GuErr \<Rightarrow> (nat \<times> 's GuOut \<times> GuErr) run" where
  "gu_out_output G out src err =
     bindR (gu_out_end_buf G out err) (\<lambda>(o1, err1).
       if err1 \<noteq> None then Done (0, o1, err1)
       else case output_fn G of
         None \<Rightarrow> Fault Null_Deref
       | Some h \<Rightarrow> bindR (h (ostream o1) src err1) (\<lambda>(n, s, err2). Done (n, o1\<lparr>ostream := s\<rparr>, err2)))"

definition gu_out_flush :: "'s GuOutStreamFuns \<Rightarrow> 's GuOut \<Rightarrow> GuErr \<Rightarrow> ('s GuOut \<times> GuErr) run" where
  "gu_out_flush G out err =
     bindR (if obuf_end out \<noteq> None then gu_out_end_buf G out err else Done (out, err)) (\<lambda>(o1, err1).
       if obuf_end out \<noteq> None \<and> err1 \<noteq> None then Done (o1, err1)
       else case flush G of
         None \<Rightarrow> Done (o1, err1)
       | Some f \<Rightarrow> bindR (f (ostream o1) err1) (\<lambda>(s, err2). Done (o1\<lparr>ostream := s\<rparr>, err2)))"

definition gu_out_bytes_slow :: "'s GuOutStreamFuns \<Rightarrow> 's GuOut \<Rightarrow> u8 list \<Rightarrow> GuErr \<Rightarrow> (nat \<times> 's GuOut \<times> GuErr) run" where
  "gu_out_bytes_slow G out src err =
     (if err \<noteq> None then Done (0, out, err)
      else bindR (gu_out_try_buf out src) (\<lambda>(t, o1).
        if t then Done (length src, o1, err)
        else bindR (gu_out_begin_buf G o1 (length src) err) (\<lambda>(b, o2, err2).
          if b then bindR (gu_out_try_buf o2 src) (\<lambda>(t, o3).
            if t then Done (length src, o3, err2) else gu_out_output G o3 src err2)
          else if err2 \<noteq> None then Done (0, o2, err2)
          else gu_out_output G o2 src err2)))"

definition gu_out_bytes :: "'s GuOutStreamFuns \<Rightarrow> 's GuOut \<Rightarrow> u8 list \<Rightarrow> GuErr \<Rightarrow> (nat \<times> 's GuOut \<times> GuErr) run" where
  "gu_out_bytes G out src err =
     bindR (gu_out_try_buf out src) (\<lambda>(t, o1).
       if t then Done (length src, o1, err) else gu_out_bytes_slow G o1 src err)"

definition gu_out_try_u8 :: "'s GuOut \<Rightarrow> u8 \<Rightarrow> (bool \<times> 's GuOut) run" where
  "gu_out_try_u8 out u =
     (if obuf_curr out + 1 > 0 then Done (False, out) else bindR (buf_write out [u]) (\<lambda>o1. Done (True, o1)))"

definition gu_out_u8_slow :: "'s GuOutStreamFuns \<Rightarrow> 's GuOut \<Rightarrow> u8 \<Rightarrow> GuErr \<Rightarrow> ('s GuOut \<times> GuErr) run" where
  "gu_out_u8_slow G out u err =
     bindR (gu_out_begin_buf G out 1 err) (\<lambda>(b, o1, err1).
       let put = (\<lambda>out. bindR (gu_out_output G out [u] err1) (\<lambda>(n, o2, err2). Done (o2, err2))) in
       if b then bindR (gu_out_try_u8 o1 u) (\<lambda>(t, o2). if t then Done (o2, err1) else put o2)
       else if err1 \<noteq> None then Done (o1, err1)
       else put o1)"

definition gu_out_u8 :: "'s GuOutStreamFuns \<Rightarrow> 's GuOut \<Rightarrow> u8 \<Rightarrow> GuErr \<Rightarrow> ('s GuOut \<times> GuErr) run" where
  "gu_out_u8 G out u err =
     bindR (gu_out_try_u8 out u) (\<lambda>(t, o1). if t then Done (o1, err) else gu_out_u8_slow G o1 u err)"

definition gu_out_s8 :: "'s GuOutStreamFuns \<Rightarrow> 's GuOut \<Rightarrow> int \<Rightarrow> GuErr \<Rightarrow> ('s GuOut \<times> GuErr) run" where
  "gu_out_s8 G out i err = gu_out_u8 G out (word_of_int i) err"

text \<open>Spans: a place in the lent buffer, named by the value of \<open>buf_curr\<close> there, or the buffer of the caller.\<close>

datatype span_ptr = At_Null | At_Fallback | At_Buffer int

definition gu_out_begin_span ::
  "'s GuOutStreamFuns \<Rightarrow> 's GuOut \<Rightarrow> span_ptr \<times> nat \<Rightarrow> GuErr \<Rightarrow> ((span_ptr \<times> nat) \<times> 's GuOut \<times> GuErr) run" where
  "gu_out_begin_span G out fallback err =
     bindR (if \<not> gu_out_is_buffering out then gu_out_begin_buf G out (snd fallback) err else Done (True, out, err))
       (\<lambda>(b, o1, err1).
          if \<not> b \<or> nat (- obuf_curr o1) < snd fallback then
            Done (if err1 \<noteq> None then (At_Null, 0) else fallback, o1, err1)
          else Done ((At_Buffer (obuf_curr o1), nat (- obuf_curr o1)), o1, err1))"

text \<open>The caller has written \<open>bs\<close> into the span.\<close>

definition gu_out_end_span ::
  "'s GuOutStreamFuns \<Rightarrow> 's GuOut \<Rightarrow> span_ptr \<Rightarrow> u8 list \<Rightarrow> GuErr \<Rightarrow> ('s GuOut \<times> GuErr) run" where
  "gu_out_end_span G out p bs err =
     (if gu_out_is_buffering out \<and> p = At_Buffer (obuf_curr out) then
        gu_require (int (length bs) + obuf_curr out \<le> 0) (bindR (buf_write out bs) (\<lambda>o1. Done (o1, err)))
      else bindR (gu_out_bytes_slow G out bs err) (\<lambda>(n, o1, err1). Done (o1, err1)))"

subsection \<open>Streams over writers, and onto byte buffers\<close>

record 's GuProxyOutStream =
  pos_buf :: span_ptr
  real_out :: "'s GuOut"

definition gu_proxy_out_buf_begin ::
  "'s GuOutStreamFuns \<Rightarrow> 's GuProxyOutStream \<Rightarrow> nat \<Rightarrow> GuErr \<Rightarrow> (nat \<times> 's GuProxyOutStream \<times> GuErr) run" where
  "gu_proxy_out_buf_begin G pos req err =
     bindR (gu_out_begin_span G (real_out pos) (At_Null, 0) err) (\<lambda>((p, sz), o1, err1).
       Done (sz, pos\<lparr>real_out := o1, pos_buf := p\<rparr>, err1))"

definition gu_proxy_out_buf_end ::
  "'s GuOutStreamFuns \<Rightarrow> 's GuProxyOutStream \<Rightarrow> u8 list \<Rightarrow> GuErr \<Rightarrow> ('s GuProxyOutStream \<times> GuErr) run" where
  "gu_proxy_out_buf_end G pos bs err =
     bindR (gu_out_end_span G (real_out pos) (pos_buf pos) bs err) (\<lambda>(o1, err1). Done (pos\<lparr>real_out := o1\<rparr>, err1))"

definition gu_proxy_out_output ::
  "'s GuOutStreamFuns \<Rightarrow> 's GuProxyOutStream \<Rightarrow> u8 list \<Rightarrow> GuErr \<Rightarrow> (nat \<times> 's GuProxyOutStream \<times> GuErr) run" where
  "gu_proxy_out_output G pos src err =
     bindR (gu_out_bytes G (real_out pos) src err) (\<lambda>(n, o1, err1). Done (n, pos\<lparr>real_out := o1\<rparr>, err1))"

definition gu_proxy_out_flush ::
  "'s GuOutStreamFuns \<Rightarrow> 's GuProxyOutStream \<Rightarrow> GuErr \<Rightarrow> ('s GuProxyOutStream \<times> GuErr) run" where
  "gu_proxy_out_flush G pos err =
     bindR (gu_out_flush G (real_out pos) err) (\<lambda>(o1, err1). Done (pos\<lparr>real_out := o1\<rparr>, err1))"

definition gu_proxy_out_funs :: "'s GuOutStreamFuns \<Rightarrow> 's GuProxyOutStream GuOutStreamFuns" where
  "gu_proxy_out_funs G =
     \<lparr>begin_buf = Some (gu_proxy_out_buf_begin G), end_buf = Some (gu_proxy_out_buf_end G),
      output_fn = Some (gu_proxy_out_output G), flush = Some (gu_proxy_out_flush G)\<rparr>"

definition gu_out_proxy_stream :: "'s GuOut \<Rightarrow> 's GuProxyOutStream" where
  "gu_out_proxy_stream out = \<lparr>pos_buf = At_Null, real_out = out\<rparr>"

record 's GuBufferedOutStream =
  pstream :: "'s GuProxyOutStream"
  bos_sz :: nat

definition gu_buffered_out_buf_begin ::
  "'s GuBufferedOutStream \<Rightarrow> nat \<Rightarrow> GuErr \<Rightarrow> (nat \<times> 's GuBufferedOutStream \<times> GuErr) run" where
  "gu_buffered_out_buf_begin b req err = Done (bos_sz b, b, err)"

definition gu_buffered_out_buf_end ::
  "'s GuOutStreamFuns \<Rightarrow> 's GuBufferedOutStream \<Rightarrow> u8 list \<Rightarrow> GuErr \<Rightarrow> ('s GuBufferedOutStream \<times> GuErr) run" where
  "gu_buffered_out_buf_end G b bs err =
     gu_require (length bs \<le> bos_sz b)
       (bindR (gu_out_bytes G (real_out (pstream b)) bs err) (\<lambda>(n, o1, err1).
          Done (b\<lparr>pstream := (pstream b)\<lparr>real_out := o1\<rparr>\<rparr>, err1)))"

definition gu_buffered_out_funs :: "'s GuOutStreamFuns \<Rightarrow> 's GuBufferedOutStream GuOutStreamFuns" where
  "gu_buffered_out_funs G =
     \<lparr>begin_buf = Some gu_buffered_out_buf_begin, end_buf = Some (gu_buffered_out_buf_end G),
      output_fn = Some (\<lambda>b src err. bindR (gu_proxy_out_output G (pstream b) src err) (\<lambda>(n, p, err1).
        Done (n, b\<lparr>pstream := p\<rparr>, err1))),
      flush = Some (\<lambda>b err. bindR (gu_proxy_out_flush G (pstream b) err) (\<lambda>(p, err1).
        Done (b\<lparr>pstream := p\<rparr>, err1)))\<rparr>"

definition GU_DEFAULT_BUFFER_SIZE :: nat where "GU_DEFAULT_BUFFER_SIZE = 4096"

definition gu_init_buffered_out :: "'s GuOut \<Rightarrow> nat \<Rightarrow> 's GuBufferedOutStream GuOut" where
  "gu_init_buffered_out out sz =
     gu_init_out \<lparr>pstream = gu_out_proxy_stream out, bos_sz = (if sz = 0 then GU_DEFAULT_BUFFER_SIZE else sz)\<rparr>"

definition gu_new_buffered_out :: "'s GuOut \<Rightarrow> nat \<Rightarrow> 's GuBufferedOutStream GuOut" where
  "gu_new_buffered_out out sz = gu_init_buffered_out out sz"

definition gu_out_buffered :: "'s GuOutStreamFuns \<Rightarrow> 's GuOut \<Rightarrow> 's GuOut + 's GuBufferedOutStream GuOut" where
  "gu_out_buffered G out = (if gu_out_is_buffered G then Inl out else Inr (gu_new_buffered_out out 0))"

text \<open>The stream onto a buffer of bytes.\<close>

definition gu_buf_out_output :: "u8 GuBuf \<Rightarrow> u8 list \<Rightarrow> GuErr \<Rightarrow> (nat \<times> u8 GuBuf \<times> GuErr) run" where
  "gu_buf_out_output b src err =
     gu_assert (int (length src) mod elem_size b = 0)
       (bindR (gu_buf_push_n b src) (\<lambda>b1. Done (nat (int (length src) div elem_size b), b1, err)))"

definition gu_buf_outbuf_begin :: "u8 GuBuf \<Rightarrow> nat \<Rightarrow> GuErr \<Rightarrow> (nat \<times> u8 GuBuf \<times> GuErr) run" where
  "gu_buf_outbuf_begin b req err =
     (let esz = elem_size b; len = gu_buf_length b in
      bindR (gu_buf_require b (len + (int req + esz - 1) div esz)) (\<lambda>b1.
        gu_assert (len \<le> avail_len b1) (Done (nat (esz * (avail_len b1 - len)), b1, err))))"

text \<open>The second requirement has its operands swapped, so that the unsigned difference wraps around.\<close>

definition gu_buf_outbuf_end :: "u8 GuBuf \<Rightarrow> u8 list \<Rightarrow> GuErr \<Rightarrow> (u8 GuBuf \<times> GuErr) run" where
  "gu_buf_outbuf_end b bs err =
     (let sz = int (length bs); len = gu_buf_length b in
      gu_require (sz mod elem_size b = 0)
       (gu_require (sz < (elem_size b * (len - avail_len b)) mod 2 ^ 64)
         (if len + sz div elem_size b \<le> avail_len b then Done (b\<lparr>elems := elems b @ bs\<rparr>, err)
          else Fault Out_Of_Bounds)))"

definition gu_buf_out_funs :: "u8 GuBuf GuOutStreamFuns" where
  "gu_buf_out_funs =
     \<lparr>begin_buf = Some gu_buf_outbuf_begin, end_buf = Some gu_buf_outbuf_end,
      output_fn = Some gu_buf_out_output, flush = None\<rparr>"

definition gu_buf_out :: "u8 GuBuf \<Rightarrow> u8 GuBuf GuOut" where
  "gu_buf_out b = gu_new_out b"

subsection \<open>The contract of a stream\<close>

text \<open>\<open>written\<close> is what has been written to the stream, \<open>lent\<close> how many bytes may be handed over from the lent
  buffer, and \<open>settled\<close> the states in which nothing waits in a writer below. The streams keep the contract as long
  as no more than \<open>OUT_LIMIT\<close> bytes are written.\<close>

definition OUT_LIMIT :: nat where "OUT_LIMIT = 2 ^ 59"

locale out_stream =
  fixes G :: "'s GuOutStreamFuns"
    and written :: "'s \<Rightarrow> u8 list"
    and lent :: "'s \<Rightarrow> nat"
    and inv :: "'s \<Rightarrow> bool"
    and settled :: "'s \<Rightarrow> bool"
  assumes begin_law: "begin_buf G = Some f \<Longrightarrow> inv s \<Longrightarrow> length (written s) + req < OUT_LIMIT \<Longrightarrow>
      \<exists>sz s'. f s req None = Done (sz, s', None) \<and> inv s' \<and> written s' = written s \<and> sz \<le> OUT_MAX \<and> sz \<le> lent s'"
    and end_law: "end_buf G = Some g \<Longrightarrow> inv s \<Longrightarrow> 0 < lent s \<Longrightarrow> length bs \<le> lent s \<Longrightarrow>
      length (written s) + length bs < OUT_LIMIT \<Longrightarrow>
      \<exists>s'. g s bs None = Done (s', None) \<and> inv s' \<and> written s' = written s @ bs"
    and output_law: "output_fn G = Some h \<Longrightarrow> inv s \<Longrightarrow> length (written s) + length bs < OUT_LIMIT \<Longrightarrow>
      \<exists>n s'. h s bs None = Done (n, s', None) \<and> inv s' \<and> written s' = written s @ bs"
    and flush_law: "flush G = Some k \<Longrightarrow> inv s \<Longrightarrow> length (written s) < OUT_LIMIT \<Longrightarrow>
      \<exists>s'. k s None = Done (s', None) \<and> inv s' \<and> written s' = written s \<and> settled s'"
    and no_flush: "flush G = None \<Longrightarrow> inv s \<Longrightarrow> settled s"
    and has_output: "output_fn G \<noteq> None"
    and has_end: "begin_buf G \<noteq> None \<Longrightarrow> end_buf G \<noteq> None"
begin

definition out_ok :: "'s GuOut \<Rightarrow> bool" where
  "out_ok out \<longleftrightarrow> inv (ostream out) \<and>
     (case obuf_end out of
        None \<Rightarrow> obuf_curr out = 0 \<and> obuf_size out = 0
      | Some w \<Rightarrow> 0 < obuf_size out \<and> obuf_size out \<le> lent (ostream out) \<and> obuf_size out \<le> OUT_MAX \<and>
          - int (obuf_size out) \<le> obuf_curr out \<and> obuf_curr out \<le> 0 \<and>
          int (length w) = int (obuf_size out) + obuf_curr out \<and> end_buf G \<noteq> None)"

definition out_written :: "'s GuOut \<Rightarrow> u8 list" where
  "out_written out = written (ostream out) @ (case obuf_end out of None \<Rightarrow> [] | Some w \<Rightarrow> w)"

lemma out_ok_new: "inv s \<Longrightarrow> out_ok (gu_init_out s)" "out_written (gu_init_out s) = written s"
  by (simp_all add: out_ok_def out_written_def gu_init_out_def)

lemma end_buf:
  assumes "out_ok out" and "length (out_written out) < OUT_LIMIT"
  shows "\<exists>o1. gu_out_end_buf G out None = Done (o1, None) \<and> out_ok o1 \<and> obuf_end o1 = None \<and> out_written o1 = out_written out"
proof (cases "obuf_end out")
  case None
  with assms show ?thesis by (simp add: gu_out_end_buf_def)
next
  case (Some w)
  with assms(1) obtain g where g: "end_buf G = Some g" by (auto simp: out_ok_def)
  have w: "inv (ostream out)" "0 < lent (ostream out)" "length w \<le> lent (ostream out)"
    "nat (int (obuf_size out) + obuf_curr out) = length w"
    using assms(1) Some by (auto simp: out_ok_def)
  have "length (written (ostream out)) + length w < OUT_LIMIT"
    using assms(2) Some by (simp add: out_written_def)
  from end_law [OF g w(1-3) this] obtain s' where "g (ostream out) w None = Done (s', None)" "inv s'"
    "written s' = written (ostream out) @ w" by blast
  with g w(4) Some show ?thesis
    by (auto simp: gu_out_end_buf_def out_ok_def out_written_def)
qed

lemma ask_buf:
  assumes "out_ok out" and "obuf_end out = None" and "length (out_written out) + req < OUT_LIMIT"
  shows "\<exists>b o1. ask_buf G out req None = Done (b, o1, None) \<and> out_ok o1 \<and> out_written o1 = out_written out \<and>
    (b \<longrightarrow> obuf_curr o1 < 0 \<and> obuf_end o1 \<noteq> None) \<and> (\<not> b \<longrightarrow> obuf_end o1 = None)"
proof (cases "begin_buf G")
  case None
  with assms show ?thesis by (intro exI [of _ False] exI [of _ out]) (simp add: ask_buf_def)
next
  case (Some f)
  have i: "inv (ostream out)" "length (written (ostream out)) + req < OUT_LIMIT"
    using assms by (simp_all add: out_ok_def out_written_def)
  from begin_law [OF Some i] obtain sz s' where s': "f (ostream out) req None = Done (sz, s', None)" "inv s'"
    "written s' = written (ostream out)" "sz \<le> OUT_MAX" "sz \<le> lent s'" by blast
  have e: "end_buf G \<noteq> None" using has_end Some by simp
  show ?thesis
  proof (cases "sz = 0")
    case True
    let ?o = "out\<lparr>ostream := s'\<rparr>"
    have "ask_buf G out req None = Done (False, ?o, None)" using Some s' True by (simp add: ask_buf_def)
    moreover have "out_ok ?o" "out_written ?o = out_written out" "obuf_end ?o = None"
      using assms(1,2) s' by (simp_all add: out_ok_def out_written_def)
    ultimately show ?thesis by blast
  next
    case False
    let ?o = "out\<lparr>ostream := s', obuf_end := Some [], obuf_curr := - int sz, obuf_size := sz\<rparr>"
    have "ask_buf G out req None = Done (True, ?o, None)" using Some s' False by (simp add: ask_buf_def)
    moreover have "out_ok ?o" using s' e False by (simp add: out_ok_def)
    moreover have "out_written ?o = out_written out" "obuf_end ?o \<noteq> None" "obuf_curr ?o < 0"
      using assms(2) s' False by (simp_all add: out_written_def)
    ultimately show ?thesis by blast
  qed
qed

lemma begin_buf:
  assumes "out_ok out" and "length (out_written out) + req < OUT_LIMIT"
  shows "\<exists>b o1. gu_out_begin_buf G out req None = Done (b, o1, None) \<and> out_ok o1 \<and> out_written o1 = out_written out \<and>
    (b \<longrightarrow> obuf_curr o1 < 0 \<and> obuf_end o1 \<noteq> None) \<and> (\<not> b \<longrightarrow> obuf_end o1 = None)"
proof (cases "gu_out_is_buffering out")
  case False
  with ask_buf [OF assms(1) _ assms(2)] show ?thesis
    by (simp add: gu_out_begin_buf_def gu_out_is_buffering_def)
next
  case True
  show ?thesis
  proof (cases "obuf_curr out < 0")
    case False
    from end_buf [OF assms(1)] assms(2) obtain o1 where "gu_out_end_buf G out None = Done (o1, None)" "out_ok o1"
      "obuf_end o1 = None" "out_written o1 = out_written out" by auto
    with ask_buf [of o1 req] True False assms(2) show ?thesis
      by (simp add: gu_out_begin_buf_def)
  next
    case curr: True
    with True assms(1) show ?thesis
      by (intro exI [of _ True] exI [of _ out]) (simp add: gu_out_begin_buf_def gu_out_is_buffering_def)
  qed
qed

text \<open>Writing into the lent buffer.\<close>

lemma buf_write:
  assumes "out_ok out" and "obuf_curr out + int (length src) \<le> 0"
  shows "\<exists>o1. buf_write out src = Done o1 \<and> out_ok o1 \<and> out_written o1 = out_written out @ src \<and>
    obuf_curr o1 = obuf_curr out + int (length src) \<and> (obuf_end o1 = None) = (obuf_end out = None)"
proof (cases "src = []")
  case True
  with assms show ?thesis by (simp add: buf_write_def)
next
  case False
  then have "obuf_end out \<noteq> None" using assms by (cases "obuf_end out") (auto simp: out_ok_def)
  then obtain w where w: "obuf_end out = Some w" by blast
  let ?o = "out\<lparr>obuf_end := Some (w @ src), obuf_curr := obuf_curr out + int (length src)\<rparr>"
  have "int (length w) = int (obuf_size out) + obuf_curr out" using assms(1) w by (simp add: out_ok_def)
  then have j: "nat (int (obuf_size out) + obuf_curr out) = length w" by (metis nat_int)
  have "buf_write out src = Done ?o" using False w j assms(2) by (simp add: buf_write_def)
  moreover have "out_ok ?o" using assms w by (simp add: out_ok_def)
  moreover have "out_written ?o = out_written out @ src" using w by (simp add: out_written_def)
  ultimately show ?thesis using w by auto
qed

lemma try_buf:
  assumes "out_ok out" and "length src \<le> OUT_MAX"
  shows "\<exists>t o1. gu_out_try_buf out src = Done (t, o1) \<and> out_ok o1 \<and>
    out_written o1 = out_written out @ (if t then src else []) \<and> (\<not> t \<longrightarrow> o1 = out)"
proof (cases "obuf_curr out + int (length src) > 0")
  case True
  with assms show ?thesis by (intro exI [of _ False] exI [of _ out]) (simp add: gu_out_try_buf_def)
next
  case False
  then obtain o1 where "buf_write out src = Done o1" "out_ok o1" "out_written o1 = out_written out @ src"
    using buf_write [OF assms(1), of src] by auto
  with False assms(2) show ?thesis
    by (intro exI [of _ True] exI [of _ o1]) (simp add: gu_out_try_buf_def)
qed

lemma put_out:
  assumes "out_ok out" and "length (out_written out) + length src < OUT_LIMIT"
  shows "\<exists>n o1. gu_out_output G out src None = Done (n, o1, None) \<and> out_ok o1 \<and> out_written o1 = out_written out @ src"
proof -
  from end_buf [OF assms(1)] assms(2) obtain o1 where o1: "gu_out_end_buf G out None = Done (o1, None)" "out_ok o1"
    "obuf_end o1 = None" "out_written o1 = out_written out" by auto
  obtain h where h: "output_fn G = Some h" using has_output by auto
  have "inv (ostream o1)" "length (written (ostream o1)) + length src < OUT_LIMIT"
    using o1 assms(2) by (auto simp: out_ok_def out_written_def)
  from output_law [OF h this] obtain n s' where s': "h (ostream o1) src None = Done (n, s', None)" "inv s'"
    "written s' = written (ostream o1) @ src" by blast
  with o1 h show ?thesis
    by (intro exI [of _ n] exI [of _ "o1\<lparr>ostream := s'\<rparr>"]) (auto simp: gu_out_output_def out_ok_def out_written_def)
qed

lemma limit_max: "n < OUT_LIMIT \<Longrightarrow> n \<le> OUT_MAX"
  by (simp add: OUT_LIMIT_def OUT_MAX_def)

lemma bytes_slow:
  assumes "out_ok out" and "length (out_written out) + length src < OUT_LIMIT"
  shows "\<exists>n o1. gu_out_bytes_slow G out src None = Done (n, o1, None) \<and> out_ok o1 \<and> out_written o1 = out_written out @ src"
proof -
  have m: "length src \<le> OUT_MAX" using assms(2) limit_max by simp
  obtain t o1 where t: "gu_out_try_buf out src = Done (t, o1)" "out_ok o1"
    "out_written o1 = out_written out @ (if t then src else [])" "\<not> t \<longrightarrow> o1 = out"
    using try_buf [OF assms(1) m] by blast
  show ?thesis
  proof (cases t)
    case True
    with t show ?thesis by (simp add: gu_out_bytes_slow_def)
  next
    case False
    obtain b o2 where b: "gu_out_begin_buf G out (length src) None = Done (b, o2, None)" "out_ok o2"
      "out_written o2 = out_written out" using begin_buf [OF assms] by blast
    obtain n o3 where p: "gu_out_output G o2 src None = Done (n, o3, None)" "out_ok o3"
      "out_written o3 = out_written out @ src" using put_out [OF b(2), of src] b(3) assms(2) by auto
    obtain t' o4 where t': "gu_out_try_buf o2 src = Done (t', o4)" "out_ok o4"
      "out_written o4 = out_written o2 @ (if t' then src else [])" "\<not> t' \<longrightarrow> o4 = o2"
      using try_buf [OF b(2) m] by blast
    show ?thesis
      using t False b p t' by (cases b; cases t') (auto simp: gu_out_bytes_slow_def)
  qed
qed

lemma bytes:
  assumes "out_ok out" and "length (out_written out) + length src < OUT_LIMIT"
  shows "\<exists>n o1. gu_out_bytes G out src None = Done (n, o1, None) \<and> out_ok o1 \<and> out_written o1 = out_written out @ src"
proof -
  have m: "length src \<le> OUT_MAX" using assms(2) limit_max by simp
  obtain t o1 where t: "gu_out_try_buf out src = Done (t, o1)" "out_ok o1"
    "out_written o1 = out_written out @ (if t then src else [])" "\<not> t \<longrightarrow> o1 = out"
    using try_buf [OF assms(1) m] by blast
  with bytes_slow [OF assms] show ?thesis by (cases t) (auto simp: gu_out_bytes_def)
qed

lemma try_u8:
  assumes "out_ok out"
  shows "\<exists>t o1. gu_out_try_u8 out u = Done (t, o1) \<and> out_ok o1 \<and>
    out_written o1 = out_written out @ (if t then [u] else []) \<and> (\<not> t \<longrightarrow> o1 = out)"
proof (cases "obuf_curr out + 1 > 0")
  case True
  with assms show ?thesis by (intro exI [of _ False] exI [of _ out]) (simp add: gu_out_try_u8_def)
next
  case False
  then obtain o1 where "buf_write out [u] = Done o1" "out_ok o1" "out_written o1 = out_written out @ [u]"
    using buf_write [OF assms, of "[u]"] by auto
  with False show ?thesis
    by (intro exI [of _ True] exI [of _ o1]) (simp add: gu_out_try_u8_def)
qed

lemma u8:
  assumes "out_ok out" and "length (out_written out) + 1 < OUT_LIMIT"
  shows "\<exists>o1. gu_out_u8 G out u None = Done (o1, None) \<and> out_ok o1 \<and> out_written o1 = out_written out @ [u]"
proof -
  obtain t o1 where t: "gu_out_try_u8 out u = Done (t, o1)" "out_ok o1"
    "out_written o1 = out_written out @ (if t then [u] else [])" "\<not> t \<longrightarrow> o1 = out"
    using try_u8 [OF assms(1)] by blast
  obtain b o2 where b: "gu_out_begin_buf G out 1 None = Done (b, o2, None)" "out_ok o2"
    "out_written o2 = out_written out" using begin_buf [OF assms] by blast
  obtain n o3 where p: "gu_out_output G o2 [u] None = Done (n, o3, None)" "out_ok o3"
    "out_written o3 = out_written out @ [u]" using put_out [OF b(2), of "[u]"] b(3) assms(2) by auto
  obtain t' o4 where t': "gu_out_try_u8 o2 u = Done (t', o4)" "out_ok o4"
    "out_written o4 = out_written o2 @ (if t' then [u] else [])" "\<not> t' \<longrightarrow> o4 = o2"
    using try_u8 [OF b(2)] by blast
  show ?thesis
    using t b p t' by (cases t; cases b; cases t') (auto simp: gu_out_u8_def gu_out_u8_slow_def)
qed

text \<open>Spans.\<close>

lemma begin_span:
  assumes "out_ok out" and "length (out_written out) + n < OUT_LIMIT" and "p = At_Null \<or> p = At_Fallback"
  shows "\<exists>q m o1. gu_out_begin_span G out (p, n) None = Done ((q, m), o1, None) \<and> out_ok o1 \<and>
    out_written o1 = out_written out \<and> n \<le> m \<and>
    (q = p \<and> m = n \<or> q = At_Buffer (obuf_curr o1) \<and> int m = - obuf_curr o1 \<and> obuf_end o1 \<noteq> None)"
proof -
  obtain b o1 where b: "(if \<not> gu_out_is_buffering out then gu_out_begin_buf G out n None else Done (True, out, None)) =
      Done (b, o1, None)" "out_ok o1" "out_written o1 = out_written out" "b \<longrightarrow> obuf_end o1 \<noteq> None"
  proof (cases "gu_out_is_buffering out")
    case True
    with assms(1) show ?thesis by (intro that [of True out]) (auto simp: gu_out_is_buffering_def)
  next
    case False
    with begin_buf [OF assms(1,2)] show ?thesis by (auto intro: that)
  qed
  have "obuf_curr o1 \<le> 0" using b(2) by (auto simp: out_ok_def split: option.splits)
  with b show ?thesis
    by (cases "\<not> b \<or> nat (- obuf_curr o1) < n") (auto simp: gu_out_begin_span_def)
qed

lemma end_span:
  assumes "out_ok out" and "length (out_written out) + length bs < OUT_LIMIT"
    and "gu_out_is_buffering out \<and> p = At_Buffer (obuf_curr out) \<Longrightarrow> int (length bs) \<le> - obuf_curr out"
  shows "\<exists>o1. gu_out_end_span G out p bs None = Done (o1, None) \<and> out_ok o1 \<and> out_written o1 = out_written out @ bs"
proof (cases "gu_out_is_buffering out \<and> p = At_Buffer (obuf_curr out)")
  case True
  then have l: "obuf_curr out + int (length bs) \<le> 0" using assms(3) by simp
  with buf_write [OF assms(1) this] True show ?thesis by (auto simp: gu_out_end_span_def add.commute)
next
  case False
  with bytes_slow [OF assms(1,2)] show ?thesis by (auto simp: gu_out_end_span_def)
qed

lemma flush:
  assumes "out_ok out" and "length (out_written out) < OUT_LIMIT"
  shows "\<exists>o1. gu_out_flush G out None = Done (o1, None) \<and> out_ok o1 \<and> out_written o1 = out_written out \<and>
    obuf_end o1 = None \<and> settled (ostream o1)"
proof -
  obtain o1 where o1: "gu_out_end_buf G out None = Done (o1, None)" "out_ok o1" "obuf_end o1 = None"
    "out_written o1 = out_written out" using end_buf [OF assms] by blast
  have e: "(if obuf_end out \<noteq> None then gu_out_end_buf G out None else Done (out, None)) = Done (o1, None)"
    using o1(1) by (auto simp: gu_out_end_buf_def)
  have i: "inv (ostream o1)" "length (written (ostream o1)) < OUT_LIMIT"
    using o1 assms(2) by (auto simp: out_ok_def out_written_def)
  show ?thesis
  proof (cases "flush G")
    case None
    with e o1 no_flush [OF None i(1)] show ?thesis by (simp add: gu_out_flush_def)
  next
    case (Some k)
    from flush_law [OF Some i] obtain s' where "k (ostream o1) None = Done (s', None)" "inv s'"
      "written s' = written (ostream o1)" "settled s'" by blast
    with Some e o1 show ?thesis
      by (intro exI [of _ "o1\<lparr>ostream := s'\<rparr>"]) (auto simp: gu_out_flush_def out_ok_def out_written_def)
  qed
qed

end

subsection \<open>Clients\<close>

text \<open>What a client does with a writer: it writes bytes and blocks of bytes, and flushes.\<close>

datatype out_op = Put_Byte u8 | Put_Bytes "u8 list" | Put_Flush

fun out_op_bytes :: "out_op \<Rightarrow> u8 list" where
  "out_op_bytes (Put_Byte u) = [u]"
| "out_op_bytes (Put_Bytes bs) = bs"
| "out_op_bytes Put_Flush = []"

fun out_op_run :: "'s GuOutStreamFuns \<Rightarrow> out_op \<Rightarrow> 's GuOut \<times> GuErr \<Rightarrow> ('s GuOut \<times> GuErr) run" where
  "out_op_run G (Put_Byte u) (out, err) = gu_out_u8 G out u err"
| "out_op_run G (Put_Bytes bs) (out, err) = bindR (gu_out_bytes G out bs err) (\<lambda>(n, o1, err1). Done (o1, err1))"
| "out_op_run G Put_Flush (out, err) = gu_out_flush G out err"

context out_stream begin

lemma out_op:
  assumes "out_ok out" and "length (out_written out) + length (out_op_bytes p) < OUT_LIMIT"
  shows "\<exists>o1. out_op_run G p (out, None) = Done (o1, None) \<and> out_ok o1 \<and> out_written o1 = out_written out @ out_op_bytes p"
proof (cases p)
  case (Put_Byte u)
  with u8 [OF assms(1)] assms(2) show ?thesis by simp
next
  case (Put_Bytes bs)
  with bytes [OF assms(1), of bs] assms(2) show ?thesis by auto
next
  case Put_Flush
  with flush [OF assms(1)] assms(2) show ?thesis by auto
qed

lemma out_ops:
  assumes "out_ok out" and "length (out_written out @ concat (map out_op_bytes ps)) < OUT_LIMIT"
  shows "\<exists>o1. foldR (out_op_run G) ps (out, None) = Done (o1, None) \<and> out_ok o1 \<and>
    out_written o1 = out_written out @ concat (map out_op_bytes ps)"
  using assms
proof (induction ps arbitrary: out)
  case (Cons p ps)
  have "length (out_written out) + length (out_op_bytes p) < OUT_LIMIT" using Cons.prems(2) by simp
  from out_op [OF Cons.prems(1) this] obtain o1 where "out_op_run G p (out, None) = Done (o1, None)" "out_ok o1"
    "out_written o1 = out_written out @ out_op_bytes p" by blast
  with Cons.IH [of o1] Cons.prems(2) show ?case by auto
qed simp

text \<open>After a last flush the stream has received everything.\<close>

lemma out_all:
  assumes "inv s" and "length (written s @ concat (map out_op_bytes ps)) < OUT_LIMIT"
  shows "\<exists>out. foldR (out_op_run G) (ps @ [Put_Flush]) (gu_new_out s, None) = Done (out, None) \<and> obuf_end out = None \<and>
    inv (ostream out) \<and> settled (ostream out) \<and> written (ostream out) = written s @ concat (map out_op_bytes ps)"
proof -
  have n: "out_ok (gu_new_out s)" "out_written (gu_new_out s) = written s"
    using assms(1) by (simp_all add: gu_new_out_def out_ok_new)
  obtain o1 where o1: "foldR (out_op_run G) ps (gu_new_out s, None) = Done (o1, None)" "out_ok o1"
    "out_written o1 = written s @ concat (map out_op_bytes ps)" using out_ops [OF n(1), of ps] n(2) assms(2) by auto
  obtain o2 where o2: "gu_out_flush G o1 None = Done (o2, None)" "out_ok o2" "out_written o2 = out_written o1"
    "obuf_end o2 = None" "settled (ostream o2)" using flush [OF o1(2)] o1(3) assms(2) by auto
  have "foldR (out_op_run G) (ps @ [Put_Flush]) (gu_new_out s, None) = Done (o2, None)"
    using o1(1) o2(1) by (simp add: foldR_append)
  moreover have "inv (ostream o2)" using o2(2) by (simp add: out_ok_def)
  ultimately show ?thesis using o2 o1(3) by (auto simp: out_written_def)
qed

end

subsection \<open>Proxies and buffers over a stream\<close>

context out_stream begin

definition proxy_lent :: "'s GuProxyOutStream \<Rightarrow> nat" where
  "proxy_lent pos =
     (if gu_out_is_buffering (real_out pos) \<and> pos_buf pos = At_Buffer (obuf_curr (real_out pos))
      then nat (- obuf_curr (real_out pos)) else OUT_MAX)"

definition writer_settled :: "'s GuOut \<Rightarrow> bool" where
  "writer_settled out \<longleftrightarrow> obuf_end out = None \<and> settled (ostream out)"

lemma proxy_begin:
  assumes "out_ok (real_out pos)" and "length (out_written (real_out pos)) < OUT_LIMIT"
  shows "\<exists>sz pos'. gu_proxy_out_buf_begin G pos req None = Done (sz, pos', None) \<and> out_ok (real_out pos') \<and>
    out_written (real_out pos') = out_written (real_out pos) \<and> sz \<le> OUT_MAX \<and> sz \<le> proxy_lent pos'"
proof -
  obtain q m o1 where s: "gu_out_begin_span G (real_out pos) (At_Null, 0) None = Done ((q, m), o1, None)" "out_ok o1"
    "out_written o1 = out_written (real_out pos)"
    "q = At_Null \<and> m = 0 \<or> q = At_Buffer (obuf_curr o1) \<and> int m = - obuf_curr o1 \<and> obuf_end o1 \<noteq> None"
    using begin_span [OF assms(1), of 0 At_Null] assms(2) by auto
  have "- obuf_curr o1 \<le> int OUT_MAX" using s(2) by (auto simp: out_ok_def split: option.splits)
  then have "m \<le> OUT_MAX" using s(4) by auto
  then show ?thesis
    using s by (intro exI [of _ m] exI [of _ "pos\<lparr>real_out := o1, pos_buf := q\<rparr>"])
      (auto simp: gu_proxy_out_buf_begin_def proxy_lent_def gu_out_is_buffering_def)
qed

lemma proxy_end:
  assumes "out_ok (real_out pos)" and "length (out_written (real_out pos)) + length bs < OUT_LIMIT"
    and "length bs \<le> proxy_lent pos"
  shows "\<exists>pos'. gu_proxy_out_buf_end G pos bs None = Done (pos', None) \<and> out_ok (real_out pos') \<and>
    out_written (real_out pos') = out_written (real_out pos) @ bs"
proof -
  have "obuf_curr (real_out pos) \<le> 0" using assms(1) by (auto simp: out_ok_def split: option.splits)
  then have "gu_out_is_buffering (real_out pos) \<and> pos_buf pos = At_Buffer (obuf_curr (real_out pos)) \<Longrightarrow>
      int (length bs) \<le> - obuf_curr (real_out pos)"
    using assms(3) by (simp add: proxy_lent_def)
  with end_span [OF assms(1,2), of "pos_buf pos"] show ?thesis by (auto simp: gu_proxy_out_buf_end_def)
qed

lemma proxy_stream:
  "out_stream (gu_proxy_out_funs G) (\<lambda>pos. out_written (real_out pos)) proxy_lent (\<lambda>pos. out_ok (real_out pos))
     (\<lambda>pos. writer_settled (real_out pos))"
proof (unfold_locales, goal_cases)
  case (1 f s req)
  then show ?case using proxy_begin [of s req] by (auto simp: gu_proxy_out_funs_def)
next
  case (2 g s bs)
  then show ?case using proxy_end [of s bs] by (auto simp: gu_proxy_out_funs_def)
next
  case (3 h s bs)
  then show ?case using bytes [of "real_out s" bs] by (auto simp: gu_proxy_out_funs_def gu_proxy_out_output_def)
next
  case (4 k s)
  then show ?case using flush [of "real_out s"]
    by (auto simp: gu_proxy_out_funs_def gu_proxy_out_flush_def writer_settled_def)
qed (simp_all add: gu_proxy_out_funs_def)

lemma buffered_stream:
  "out_stream (gu_buffered_out_funs G) (\<lambda>b. out_written (real_out (pstream b))) bos_sz
     (\<lambda>b. out_ok (real_out (pstream b)) \<and> bos_sz b \<le> OUT_MAX) (\<lambda>b. writer_settled (real_out (pstream b)))"
proof (unfold_locales, goal_cases)
  case (1 f s req)
  then show ?case by (auto simp: gu_buffered_out_funs_def gu_buffered_out_buf_begin_def)
next
  case (2 g s bs)
  then show ?case using bytes [of "real_out (pstream s)" bs]
    by (auto simp: gu_buffered_out_funs_def gu_buffered_out_buf_end_def)
next
  case (3 h s bs)
  then show ?case using bytes [of "real_out (pstream s)" bs]
    by (auto simp: gu_buffered_out_funs_def gu_proxy_out_output_def)
next
  case (4 k s)
  then show ?case using flush [of "real_out (pstream s)"]
    by (auto simp: gu_buffered_out_funs_def gu_proxy_out_flush_def writer_settled_def)
qed (simp_all add: gu_buffered_out_funs_def)

end

subsection \<open>The byte buffer keeps the contract\<close>

definition byte_buf_ok :: "u8 GuBuf \<Rightarrow> bool" where
  "byte_buf_ok b \<longleftrightarrow> buf_ok b \<and> elem_size b = 1"

definition byte_buf_room :: "u8 GuBuf \<Rightarrow> nat" where
  "byte_buf_room b = nat (avail_len b - gu_buf_length b)"

lemma new_byte_buf_ok: "byte_buf_ok (gu_make_buf 1)" "elems (gu_make_buf 1) = []"
  by (simp_all add: byte_buf_ok_def make_buf_ok) (simp_all add: gu_make_buf_def)

lemma outbuf_begin:
  assumes "byte_buf_ok b" and "length (elems b) + req < OUT_LIMIT"
  shows "\<exists>sz b1. gu_buf_outbuf_begin b req None = Done (sz, b1, None) \<and> byte_buf_ok b1 \<and> elems b1 = elems b \<and>
    sz \<le> OUT_MAX \<and> sz \<le> byte_buf_room b1"
proof -
  let ?n = "gu_buf_length b + int req"
  have e: "elem_size b = 1" and b: "buf_ok b" using assms(1) by (simp_all add: byte_buf_ok_def)
  have "elem_size b * ?n < 2 ^ 60" using assms(2) e by (simp add: OUT_LIMIT_def gu_buf_length_def)
  from buf_require_ok [OF b _ this] obtain b1 where b1: "gu_buf_require b ?n = Done b1" "buf_ok b1" "elems b1 = elems b"
    "elem_size b1 = 1" "?n \<le> avail_len b1" using e by (auto simp: gu_buf_length_def)
  have "nat (avail_len b1 - gu_buf_length b1) \<le> OUT_MAX"
    using b1(2,4) by (simp add: buf_ok_def OUT_MAX_def gu_buf_length_def nat_le_iff)
  then show ?thesis
    using b1 e by (intro exI [of _ "byte_buf_room b1"] exI [of _ b1])
      (simp add: gu_buf_outbuf_begin_def byte_buf_ok_def byte_buf_room_def gu_buf_length_def)
qed

lemma outbuf_end:
  assumes "byte_buf_ok b" and "0 < byte_buf_room b" and "length bs \<le> byte_buf_room b"
  shows "\<exists>b1. gu_buf_outbuf_end b bs None = Done (b1, None) \<and> byte_buf_ok b1 \<and> elems b1 = elems b @ bs"
proof -
  have e: "elem_size b = 1" and b: "buf_ok b" using assms(1) by (simp_all add: byte_buf_ok_def)
  let ?d = "gu_buf_length b - avail_len b"
  have d: "?d < 0" "- ?d < 2 ^ 62" "int (length bs) \<le> - ?d"
    using b e assms(2,3) by (auto simp: buf_ok_def byte_buf_room_def gu_buf_length_def)
  have "?d mod 2 ^ 64 = (?d + 2 ^ 64) mod 2 ^ 64" by simp
  also have "\<dots> = ?d + 2 ^ 64" using d by (intro mod_pos_pos_trivial) auto
  finally have "int (length bs) < ?d mod 2 ^ 64" using d by simp
  then show ?thesis
    using d b e by (auto simp: gu_buf_outbuf_end_def byte_buf_ok_def buf_ok_def gu_buf_length_def)
qed

lemma buf_output:
  assumes "byte_buf_ok b" and "length (elems b) + length src < OUT_LIMIT"
  shows "\<exists>n b1. gu_buf_out_output b src None = Done (n, b1, None) \<and> byte_buf_ok b1 \<and> elems b1 = elems b @ src"
  using buf_push_ok [of b src] assms
  by (auto simp: gu_buf_out_output_def byte_buf_ok_def OUT_LIMIT_def gu_buf_length_def)

interpretation outbuf: out_stream gu_buf_out_funs elems byte_buf_room byte_buf_ok "\<lambda>_. True"
proof (unfold_locales, goal_cases)
  case (1 f s req)
  then show ?case using outbuf_begin [of s req] by (auto simp: gu_buf_out_funs_def)
next
  case (2 g s bs)
  then show ?case using outbuf_end [of s bs] by (auto simp: gu_buf_out_funs_def)
next
  case (3 h s bs)
  then show ?case using buf_output [of s bs] by (auto simp: gu_buf_out_funs_def)
qed (simp_all add: gu_buf_out_funs_def)

interpretation proxied_out: out_stream "gu_proxy_out_funs gu_buf_out_funs" "\<lambda>pos. outbuf.out_written (real_out pos)"
    outbuf.proxy_lent "\<lambda>pos. outbuf.out_ok (real_out pos)" "\<lambda>pos. outbuf.writer_settled (real_out pos)"
  by (rule outbuf.proxy_stream)

interpretation buffered_out: out_stream "gu_buffered_out_funs gu_buf_out_funs"
    "\<lambda>b. outbuf.out_written (real_out (pstream b))" bos_sz
    "\<lambda>b. outbuf.out_ok (real_out (pstream b)) \<and> bos_sz b \<le> OUT_MAX" "\<lambda>b. outbuf.writer_settled (real_out (pstream b))"
  by (rule outbuf.buffered_stream)

text \<open>A buffering writer on a writer onto a new byte buffer.\<close>

definition buf_writer :: "nat \<Rightarrow> u8 GuBuf GuBufferedOutStream GuOut" where
  "buf_writer sz = gu_new_buffered_out (gu_buf_out (gu_make_buf 1)) sz"

text \<open>C35. Whatever bytes and blocks are written, with whatever flushes between, to a buffering writer with a buffer
  of any size (0 means the default) in front of a writer onto a new byte buffer: after a last flush the byte buffer holds
  exactly the bytes written, in order, neither writer holds bytes back, and no exception is raised.\<close>

theorem buffered_output_complete:
  assumes "sz \<le> OUT_MAX" and "length (concat (map out_op_bytes ps)) < OUT_LIMIT"
  shows "\<exists>out. foldR (out_op_run (gu_buffered_out_funs gu_buf_out_funs)) (ps @ [Put_Flush]) (buf_writer sz, None) =
      Done (out, None) \<and>
    elems (ostream (real_out (pstream (ostream out)))) = concat (map out_op_bytes ps) \<and>
    \<not> gu_out_is_buffering out \<and> \<not> gu_out_is_buffering (real_out (pstream (ostream out)))"
proof -
  have i: "outbuf.out_ok (gu_buf_out (gu_make_buf 1))" "outbuf.out_written (gu_buf_out (gu_make_buf 1)) = []"
    using new_byte_buf_ok by (simp_all add: gu_buf_out_def gu_new_out_def outbuf.out_ok_new)
  let ?s = "ostream (buf_writer sz)"
  have s: "buf_writer sz = gu_new_out ?s" "real_out (pstream ?s) = gu_buf_out (gu_make_buf 1)" "bos_sz ?s \<le> OUT_MAX"
    using assms(1) by (simp_all add: buf_writer_def gu_new_buffered_out_def gu_init_buffered_out_def gu_init_out_def
      gu_new_out_def gu_out_proxy_stream_def GU_DEFAULT_BUFFER_SIZE_def OUT_MAX_def)
  from buffered_out.out_all [of ?s ps] i s assms(2) show ?thesis
    by (auto simp: outbuf.writer_settled_def outbuf.out_written_def gu_out_is_buffering_def)
qed

theorem buffered_output_complete_witness:
  "\<exists>out. foldR (out_op_run (gu_buffered_out_funs gu_buf_out_funs))
      [Put_Byte 1, Put_Bytes [2, 3, 4], Put_Flush, Put_Byte 5, Put_Flush] (buf_writer 2, None) = Done (out, None) \<and>
    elems (ostream (real_out (pstream (ostream out)))) = [1, 2, 3, 4, 5]"
  using buffered_output_complete [of 2 "[Put_Byte 1, Put_Bytes [2, 3, 4], Put_Flush, Put_Byte 5]"]
  by (auto simp: OUT_MAX_def OUT_LIMIT_def)

end
