(* ===== verification/TextIO.thy ===== *)
theory TextIO
  imports Utf8 In Out GuStr
begin

text \<open>
  Text on top of the byte streams: the UTF-8 coders on readers and writers (the end of \<open>gu/utf8.c\<close> and
  \<open>gu/utf8.h\<close>), the readers and writers of text (\<open>gu/read.h\<close>, \<open>gu/write.h\<close>, \<open>gu/write.c\<close>), and string buffers with the
  other conversions between strings and streams (\<open>gu/string.c\<close>). A \<open>GuReader\<close> is a \<open>GuIn\<close> and a \<open>GuWriter\<close> a \<open>GuOut\<close> whose
  bytes are UTF-8. Characters are ASCII (\<open>GU_CHAR_ASCII\<close>). The locale-dependent streams, which call the
  C library to convert, and the \<open>printf\<close> family are not modelled.
\<close>

definition GuUCSExn :: GuType where "GuUCSExn = GuKind ''GuUCSExn'' kind_abstract"

subsection \<open>Reading code points\<close>

definition gu_in_utf8_slow :: "'s GuInStreamFuns \<Rightarrow> 's GuIn \<Rightarrow> GuErr \<Rightarrow> (GuUCS \<times> 's GuIn \<times> GuErr) run" where
  "gu_in_utf8_slow F i err =
     bindR (gu_in_u8 F i err) (\<lambda>(c, i1, err1).
       if err1 \<noteq> None then Done (0, i1, err1)
       else
         let len = (if c < 0xc0 then 0 else if c < 0xe0 then 1 else if c < 0xf0 then 2 else 3) in
         bindR (gu_in_some F i1 len len err1) (\<lambda>(bs, i2, err2).
           if length bs < len then Done (0, i2, gu_raise GuUCSExn err2)
           else bindR (gu_utf8_decode_one (c # bs)) (\<lambda>r.
             case r of
               None \<Rightarrow> Done (0, i2, gu_raise GuUCSExn err2)
             | Some (u, n) \<Rightarrow> Done (u, i2, err2))))"

definition gu_in_utf8 :: "'s GuInStreamFuns \<Rightarrow> 's GuIn \<Rightarrow> GuErr \<Rightarrow> (GuUCS \<times> 's GuIn \<times> GuErr) run" where
  "gu_in_utf8 F i err =
     bindR (gu_in_peek_u8 i) (\<lambda>c.
       if c \<ge> 0 \<and> c < 0x80 then bindR (gu_in_consume i 1) (\<lambda>i1. Done (c, i1, err))
       else gu_in_utf8_slow F i err)"

definition gu_in_utf8_char_slow :: "'s GuInStreamFuns \<Rightarrow> 's GuIn \<Rightarrow> GuErr \<Rightarrow> (int \<times> 's GuIn \<times> GuErr) run" where
  "gu_in_utf8_char_slow F i err =
     bindR (gu_in_utf8 F i err) (\<lambda>(u, i1, err1).
       if err1 \<noteq> None then Done (0, i1, err1)
       else let c = gu_ucs_char u in
         Done (c, i1, if c = 0 \<and> u \<noteq> 0 then gu_raise GuUCSExn err1 else err1))"

definition gu_in_utf8_char :: "'s GuInStreamFuns \<Rightarrow> 's GuIn \<Rightarrow> GuErr \<Rightarrow> (int \<times> 's GuIn \<times> GuErr) run" where
  "gu_in_utf8_char F i err =
     bindR (gu_in_peek_u8 i) (\<lambda>c.
       if c \<ge> 0 \<and> c < 0x80 then bindR (gu_in_consume i 1) (\<lambda>i1. Done (c, i1, err))
       else gu_in_utf8_char_slow F i err)"

type_synonym 's GuReader = "'s GuIn"

definition gu_read_ucs :: "'s GuInStreamFuns \<Rightarrow> 's GuReader \<Rightarrow> GuErr \<Rightarrow> (GuUCS \<times> 's GuReader \<times> GuErr) run" where
  "gu_read_ucs F rdr err = gu_in_utf8 F rdr err"

definition gu_getc :: "'s GuInStreamFuns \<Rightarrow> 's GuReader \<Rightarrow> GuErr \<Rightarrow> (int \<times> 's GuReader \<times> GuErr) run" where
  "gu_getc F rdr err = gu_in_utf8_char F rdr err"

text \<open>A UTF-8 reader reads from the proxy stream of a reader of bytes.\<close>

definition gu_new_utf8_reader :: "'s GuIn \<Rightarrow> 's GuIn GuReader" where
  "gu_new_utf8_reader utf8_in = gu_init_in utf8_in"

subsection \<open>Writing code points\<close>

text \<open>The bytes are written into the span, which must have room for them.\<close>

definition gu_out_utf8_long :: "'s GuOutStreamFuns \<Rightarrow> GuUCS \<Rightarrow> 's GuOut \<Rightarrow> GuErr \<Rightarrow> ('s GuOut \<times> GuErr) run" where
  "gu_out_utf8_long G ucs out err =
     bindR (gu_out_begin_span G out (At_Fallback, 4) err) (\<lambda>((p, room), o1, err1).
       if err1 \<noteq> None then Done (o1, err1)
       else bindR (gu_utf8_encode_one_unsafe ucs) (\<lambda>bs.
         if length bs \<le> room then gu_out_end_span G o1 p bs err1 else Fault Out_Of_Bounds))"

definition gu_out_utf8 :: "'s GuOutStreamFuns \<Rightarrow> GuUCS \<Rightarrow> 's GuOut \<Rightarrow> GuErr \<Rightarrow> ('s GuOut \<times> GuErr) run" where
  "gu_out_utf8 G ucs out err =
     gu_require (gu_ucs_valid ucs)
       (if ucs < 0x80 then gu_out_u8 G out (word_of_int ucs) err else gu_out_utf8_long G ucs out err)"

text \<open>The loop of \<open>gu_utf32_out_utf8\<close> returns what is left of the source.\<close>

fun utf32_loop :: "'s GuOutStreamFuns \<Rightarrow> nat \<Rightarrow> GuUCS list \<Rightarrow> 's GuOut \<Rightarrow> GuErr \<Rightarrow> (GuUCS list \<times> 's GuOut \<times> GuErr) run" where
  "utf32_loop G fuel [] out err = Done ([], out, err)"
| "utf32_loop G 0 (u # us) out err = Out_Of_Fuel"
| "utf32_loop G (Suc fuel) (u # us) out err =
     bindR (gu_out_begin_span G out (At_Fallback, 4) err) (\<lambda>((p, room), o1, err1).
       if err1 \<noteq> None then Done (u # us, o1, err1)
       else bindR (gu_utf8_encode (u # us) room) (\<lambda>(bs, left).
         bindR (gu_out_end_span G o1 p bs err1) (\<lambda>(o2, err2).
           if err2 \<noteq> None then Done (u # us, o2, err2) else utf32_loop G fuel left o2 err2)))"

definition gu_utf32_out_utf8 ::
  "'s GuOutStreamFuns \<Rightarrow> nat \<Rightarrow> GuUCS list \<Rightarrow> 's GuOut \<Rightarrow> GuErr \<Rightarrow> (nat \<times> 's GuOut \<times> GuErr) run" where
  "gu_utf32_out_utf8 G fuel src out err =
     bindR (utf32_loop G fuel src out err) (\<lambda>(left, o1, err1). Done (length src - length left, o1, err1))"

text \<open>A C string is the bytes from its address on.\<close>

definition gu_str_cslice :: "u8 list \<Rightarrow> u8 list run" where
  "gu_str_cslice cstr = (if 0 \<in> set cstr then Done (takeWhile (\<lambda>c. c \<noteq> 0) cstr) else Fault Out_Of_Bounds)"

definition gu_str_out_utf8 :: "'s GuOutStreamFuns \<Rightarrow> u8 list \<Rightarrow> 's GuOut \<Rightarrow> GuErr \<Rightarrow> ('s GuOut \<times> GuErr) run" where
  "gu_str_out_utf8 G str out err =
     bindR (gu_str_cslice str) (\<lambda>bs. bindR (gu_out_bytes G out bs err) (\<lambda>(n, o1, err1). Done (o1, err1)))"

type_synonym 's GuWriter = "'s GuOut"

definition gu_writer_flush :: "'s GuOutStreamFuns \<Rightarrow> 's GuWriter \<Rightarrow> GuErr \<Rightarrow> ('s GuWriter \<times> GuErr) run" where
  "gu_writer_flush G wtr err = gu_out_flush G wtr err"

definition gu_ucs_write :: "'s GuOutStreamFuns \<Rightarrow> GuUCS \<Rightarrow> 's GuWriter \<Rightarrow> GuErr \<Rightarrow> ('s GuWriter \<times> GuErr) run" where
  "gu_ucs_write G ucs wtr err = gu_out_utf8 G ucs wtr err"

definition gu_utf32_write ::
  "'s GuOutStreamFuns \<Rightarrow> nat \<Rightarrow> GuUCS list \<Rightarrow> 's GuWriter \<Rightarrow> GuErr \<Rightarrow> (nat \<times> 's GuWriter \<times> GuErr) run" where
  "gu_utf32_write G fuel src wtr err = gu_utf32_out_utf8 G fuel src wtr err"

definition gu_putc :: "'s GuOutStreamFuns \<Rightarrow> int \<Rightarrow> 's GuWriter \<Rightarrow> GuErr \<Rightarrow> ('s GuWriter \<times> GuErr) run" where
  "gu_putc G c wtr err = bindR (gu_char_ucs c) (\<lambda>ucs. gu_out_u8 G wtr (word_of_int ucs) err)"

definition gu_puts :: "'s GuOutStreamFuns \<Rightarrow> u8 list \<Rightarrow> 's GuWriter \<Rightarrow> GuErr \<Rightarrow> ('s GuWriter \<times> GuErr) run" where
  "gu_puts G str wtr err = gu_str_out_utf8 G str wtr err"

definition gu_utf8_write :: "'s GuOutStreamFuns \<Rightarrow> u8 list \<Rightarrow> 's GuWriter \<Rightarrow> GuErr \<Rightarrow> (nat \<times> 's GuWriter \<times> GuErr) run" where
  "gu_utf8_write G src wtr err = gu_out_bytes G wtr src err"

text \<open>The finalizer of a writer flushes it, with a fresh exception frame.\<close>

definition gu_writer_finalize :: "'s GuOutStreamFuns \<Rightarrow> 's GuWriter \<Rightarrow> 's GuWriter run" where
  "gu_writer_finalize G wtr = bindR (gu_writer_flush G wtr None) (\<lambda>(w, err). Done w)"

definition gu_new_writer :: "'s \<Rightarrow> 's GuWriter" where
  "gu_new_writer utf8_stream = gu_init_out utf8_stream"

definition gu_new_utf8_writer :: "'s GuOut \<Rightarrow> 's GuProxyOutStream GuWriter" where
  "gu_new_utf8_writer utf8_out = gu_new_writer (gu_out_proxy_stream utf8_out)"

definition gu_writer_buffered :: "'s GuOutStreamFuns \<Rightarrow> 's GuWriter \<Rightarrow> 's GuWriter + 's GuBufferedOutStream GuWriter" where
  "gu_writer_buffered G wtr = (if gu_out_is_buffered G then Inl wtr else Inr (gu_init_buffered_out wtr 0))"

subsection \<open>Strings and streams\<close>

text \<open>A string buffer points to a byte buffer and to a writer whose stream ends at that buffer; the model reaches the byte
  buffer through the writer.\<close>

record GuStringBuf =
  sb_wtr :: "u8 GuBuf GuProxyOutStream GuWriter"

definition bbuf :: "GuStringBuf \<Rightarrow> u8 GuBuf" where
  "bbuf sb = ostream (real_out (ostream (sb_wtr sb)))"

abbreviation sb_funs :: "u8 GuBuf GuProxyOutStream GuOutStreamFuns" where
  "sb_funs \<equiv> gu_proxy_out_funs gu_buf_out_funs"

definition gu_string_buf :: GuStringBuf where
  "gu_string_buf = \<lparr>sb_wtr = gu_new_utf8_writer (gu_buf_out (gu_make_buf 1))\<rparr>"

definition gu_string_buf_writer :: "GuStringBuf \<Rightarrow> u8 GuBuf GuProxyOutStream GuWriter" where
  "gu_string_buf_writer sb = sb_wtr sb"

definition gu_string_buf_freeze :: "GuStringBuf \<Rightarrow> str_heap \<Rightarrow> (GuString \<times> GuStringBuf \<times> str_heap) run" where
  "gu_string_buf_freeze sb h =
     bindR (gu_writer_flush sb_funs (sb_wtr sb) None) (\<lambda>(w, err).
       let sb1 = sb\<lparr>sb_wtr := w\<rparr> in
       bindR (gu_utf8_string (elems (bbuf sb1)) h) (\<lambda>(s, h1). Done (s, sb1, h1)))"

definition gu_string_utf8 :: "GuString \<Rightarrow> str_heap \<Rightarrow> u8 list run" where
  "gu_string_utf8 s h = gu_string_open s h"

definition gu_string_write ::
  "'s GuOutStreamFuns \<Rightarrow> GuString \<Rightarrow> str_heap \<Rightarrow> 's GuWriter \<Rightarrow> GuErr \<Rightarrow> ('s GuWriter \<times> GuErr) run" where
  "gu_string_write G s h wtr err =
     bindR (gu_string_open s h) (\<lambda>data. bindR (gu_utf8_write G data wtr err) (\<lambda>(n, w, err1). Done (w, err1)))"

definition gu_string_reader :: "GuString \<Rightarrow> str_heap \<Rightarrow> u8 list GuIn GuReader run" where
  "gu_string_reader s h = bindR (gu_string_open s h) (\<lambda>buf. Done (gu_new_utf8_reader (gu_data_in buf)))"

definition gu_str_string :: "u8 list \<Rightarrow> str_heap \<Rightarrow> (GuString \<times> str_heap) run" where
  "gu_str_string str h = bindR (gu_str_cslice str) (\<lambda>bs. gu_utf8_string bs h)"

text \<open>A client that reads up to \<open>n\<close> code points.\<close>

fun read_codes :: "'s GuInStreamFuns \<Rightarrow> nat \<Rightarrow> 's GuReader \<Rightarrow> GuErr \<Rightarrow> (GuUCS list \<times> 's GuReader \<times> GuErr) run" where
  "read_codes F 0 rdr err = Done ([], rdr, err)"
| "read_codes F (Suc n) rdr err =
     bindR (gu_read_ucs F rdr err) (\<lambda>(u, r1, err1).
       if err1 \<noteq> None then Done ([], r1, err1)
       else bindR (read_codes F n r1 err1) (\<lambda>(us, r2, err2). Done (u # us, r2, err2)))"

subsection \<open>What the coders do on a stream\<close>

text \<open>The first byte of an encoding tells how many follow.\<close>

lemma utf8_lead:
  assumes "gu_ucs_valid u"
  shows "\<exists>c cs. utf8_bytes u = c # cs \<and>
    length cs = (if c < 0xc0 then 0 else if c < 0xe0 then 1 else if c < 0xf0 then 2 else 3) \<and>
    (uint c < 0x80 \<longleftrightarrow> u < 0x80)"
proof -
  have u: "0 \<le> u" "u \<le> 1114111" using assms by (simp_all add: gu_ucs_valid_def GU_UCS_MAX_def)
  consider "u < 0x80" | "0x80 \<le> u" "u < 0x800" | "0x800 \<le> u" "u < 0x10000" | "0x10000 \<le> u" by linarith
  then show ?thesis
  proof cases
    case 1
    then have "uint (word_of_int u :: u8) = u" using u by (intro uint_byte) auto
    with 1 show ?thesis by (auto simp: utf8_bytes_def word_less_def)
  next
    case 2
    then have "2 \<le> u div 64" "u div 64 < 32" by auto
    moreover from this have "uint (word_of_int (192 + u div 64) :: u8) = 192 + u div 64" by (intro uint_byte) linarith+
    ultimately show ?thesis using 2 by (auto simp: utf8_bytes_def word_less_def)
  next
    case 3
    then have "0 \<le> u div 4096" "u div 4096 < 16" by auto
    moreover from this have "uint (word_of_int (224 + u div 4096) :: u8) = 224 + u div 4096" by (intro uint_byte) linarith+
    ultimately show ?thesis using 3 by (auto simp: utf8_bytes_def word_less_def)
  next
    case 4
    then have "0 \<le> u div 262144" "u div 262144 < 5" using u by auto
    moreover from this have "uint (word_of_int (240 + u div 262144) :: u8) = 240 + u div 262144" by (intro uint_byte) linarith+
    ultimately show ?thesis using 4 by (auto simp: utf8_bytes_def word_less_def)
  qed
qed

context in_stream begin

text \<open>The reader at the encoding of a valid code point.\<close>

lemma peek:
  assumes "in_ok i"
  shows "gu_in_peek_u8 i = Done (if buf_curr i = 0 then - 1 else uint (hd (in_contents i)))"
proof (cases "buf_curr i = 0")
  case False
  then have "buf_curr i < 0" using assms by (auto simp: in_ok_def split: option.splits)
  from byte(1) [OF assms this] False show ?thesis by (simp add: gu_in_peek_u8_def)
qed (simp add: gu_in_peek_u8_def)

lemma consume_one:
  assumes "in_ok i" and "buf_curr i \<noteq> 0"
  shows "\<exists>i'. gu_in_consume i 1 = Done i' \<and> in_ok i' \<and> in_contents i' = tl (in_contents i)"
proof -
  have c: "buf_curr i < 0" using assms by (auto simp: in_ok_def split: option.splits)
  from lent_take [OF assms(1), of 1] byte(3) [OF assms(1) c] c show ?thesis
    by (auto simp: gu_in_consume_def drop_Suc)
qed

lemma some_exact:
  assumes "in_ok i" and "n \<le> length (in_contents i)" and "n \<le> PTRDIFF_MAX"
  shows "\<exists>i'. gu_in_some F i n n None = Done (take n (in_contents i), i', None) \<and> in_ok i' \<and>
    in_contents i' = drop n (in_contents i)"
proof -
  obtain bs i' where s: "gu_in_some F i n n None = Done (bs, i', None)" "in_ok i'" "in_contents i = bs @ in_contents i'"
    "length bs \<le> n" "min n (length (in_contents i)) \<le> length bs" using some [OF assms(1) order_refl assms(3)] by blast
  then have "length bs = n" using assms(2) by simp
  with s show ?thesis by auto
qed

lemma utf8_slow:
  assumes "in_ok i" and "gu_ucs_valid u" and "in_contents i = utf8_bytes u @ rest"
  shows "\<exists>i'. gu_in_utf8_slow F i None = Done (u, i', None) \<and> in_ok i' \<and> in_contents i' = rest"
proof -
  obtain c cs where c: "utf8_bytes u = c # cs" "uint c < 0x80 \<longleftrightarrow> u < 0x80"
    "length cs = (if c < 0xc0 then 0 else if c < 0xe0 then 1 else if c < 0xf0 then 2 else 3)"
    using utf8_lead [OF assms(2)] by blast
  obtain i1 where i1: "gu_in_u8 F i None = Done (c, i1, None)" "in_ok i1" "in_contents i1 = cs @ rest"
    using u8 [OF assms(1)] assms(3) c(1) by auto
  have l: "length cs \<le> PTRDIFF_MAX" using c(3) by (simp add: PTRDIFF_MAX_def)
  obtain i2 where i2: "gu_in_some F i1 (length cs) (length cs) None = Done (cs, i2, None)" "in_ok i2" "in_contents i2 = rest"
    using some_exact [OF i1(2) _ l] i1(3) by auto
  have "gu_utf8_decode_one (c # cs) = Done (Some (u, gu_utf8_encode_length u))"
    using decode_one(1) [OF assms(2), of "[]"] c(1) by simp
  with i1(1) i2 c(3) show ?thesis by (auto simp: gu_in_utf8_slow_def Let_def)
qed

lemma utf8:
  assumes "in_ok i" and "gu_ucs_valid u" and "in_contents i = utf8_bytes u @ rest"
  shows "\<exists>i'. gu_in_utf8 F i None = Done (u, i', None) \<and> in_ok i' \<and> in_contents i' = rest"
proof (cases "buf_curr i \<noteq> 0 \<and> uint (hd (in_contents i)) < 0x80")
  case True
  then have "u < 0x80" "hd (in_contents i) = word_of_int u" "in_contents i = word_of_int u # rest"
    using utf8_lead [OF assms(2)] assms(3) by (auto simp: utf8_bytes_def)
  then show ?thesis
    using consume_one [OF assms(1)] peek [OF assms(1)] True assms(2) by (auto simp: gu_in_utf8_def gu_ucs_valid_def uint_byte)
next
  case False
  with utf8_slow [OF assms] peek [OF assms(1)] show ?thesis by (auto simp: gu_in_utf8_def)
qed

lemma utf8_end:
  assumes "in_ok i" and "in_contents i = []"
  shows "\<exists>i'. gu_in_utf8 F i None = Done (0, i', Some GuEOF) \<and> in_ok i' \<and> in_contents i' = []"
proof -
  have "buf_curr i = 0"
  proof (rule ccontr)
    assume "buf_curr i \<noteq> 0"
    then have "buf_curr i < 0" using assms(1) by (auto simp: in_ok_def split: option.splits)
    from byte(2) [OF assms(1) this] assms(2) show False by simp
  qed
  with peek [OF assms(1)] u8 [OF assms(1)] assms(2) show ?thesis by (auto simp: gu_in_utf8_def gu_in_utf8_slow_def)
qed

lemma read_codes:
  assumes "in_ok i" and "list_all gu_ucs_valid us" and "in_contents i = utf8_all us"
  shows "\<exists>i'. read_codes F (Suc (length us)) i None = Done (us, i', Some GuEOF)"
  using assms
proof (induction us arbitrary: i)
  case Nil
  with utf8_end [of i] show ?case by (auto simp: gu_read_ucs_def)
next
  case (Cons u us)
  then obtain i1 where "gu_in_utf8 F i None = Done (u, i1, None)" "in_ok i1" "in_contents i1 = utf8_all us"
    using utf8 [of i u "utf8_all us"] by auto
  with Cons show ?case by (fastforce simp: gu_read_ucs_def)
qed

end

context out_stream begin

lemma utf8_long:
  assumes "out_ok out" and "gu_ucs_valid u" and "length (out_written out) + 4 < OUT_LIMIT"
  shows "\<exists>o1. gu_out_utf8_long G u out None = Done (o1, None) \<and> out_ok o1 \<and> out_written o1 = out_written out @ utf8_bytes u"
proof -
  obtain q m o1 where s: "gu_out_begin_span G out (At_Fallback, 4) None = Done ((q, m), o1, None)" "out_ok o1"
    "out_written o1 = out_written out" "4 \<le> m"
    "q = At_Fallback \<and> m = 4 \<or> q = At_Buffer (obuf_curr o1) \<and> int m = - obuf_curr o1 \<and> obuf_end o1 \<noteq> None"
    using begin_span [OF assms(1,3), of At_Fallback] by blast
  have l: "length (utf8_bytes u) \<le> 4" using encode_length_bounds by simp
  have "\<exists>o2. gu_out_end_span G o1 q (utf8_bytes u) None = Done (o2, None) \<and> out_ok o2 \<and>
      out_written o2 = out_written o1 @ utf8_bytes u"
    using s l assms(3) by (intro end_span) auto
  with s l encode_one [OF assms(2)] show ?thesis by (auto simp: gu_out_utf8_long_def)
qed

lemma out_utf8:
  assumes "out_ok out" and "gu_ucs_valid u" and "length (out_written out) + 4 < OUT_LIMIT"
  shows "\<exists>o1. gu_out_utf8 G u out None = Done (o1, None) \<and> out_ok o1 \<and> out_written o1 = out_written out @ utf8_bytes u"
  using u8 [OF assms(1), of "word_of_int u"] utf8_long [OF assms] assms(2,3)
  by (cases "u < 0x80") (auto simp: gu_out_utf8_def utf8_bytes_def)

lemma out_utf8_all:
  assumes "out_ok out" and "list_all gu_ucs_valid us" and "length (out_written out) + 4 * length us < OUT_LIMIT"
  shows "\<exists>o1. foldR (\<lambda>u (o1, err). gu_ucs_write G u o1 err) us (out, None) = Done (o1, None) \<and> out_ok o1 \<and>
    out_written o1 = out_written out @ utf8_all us"
  using assms
proof (induction us arbitrary: out)
  case (Cons u us)
  have u: "gu_ucs_valid u" "length (out_written out) + 4 < OUT_LIMIT" using Cons.prems(2,3) by auto
  obtain o1 where o1: "gu_out_utf8 G u out None = Done (o1, None)" "out_ok o1" "out_written o1 = out_written out @ utf8_bytes u"
    using out_utf8 [OF Cons.prems(1) u] by blast
  have "gu_utf8_encode_length u \<le> 4" by (rule encode_length_bounds)
  then have "length (out_written o1) + 4 * length us < OUT_LIMIT" using o1(3) Cons.prems(3) by simp
  from Cons.IH [OF o1(2) _ this] Cons.prems(2) o1(1,3) show ?case by (auto simp: gu_ucs_write_def)
qed simp

text \<open>Each round of \<open>gu_utf32_out_utf8\<close> has room for a code point at least.\<close>

lemma utf32:
  assumes "out_ok out" and "list_all gu_ucs_valid us" and "length us \<le> fuel"
    and "length (out_written out) + 4 * length us + 4 < OUT_LIMIT"
  shows "\<exists>o1. utf32_loop G fuel us out None = Done ([], o1, None) \<and> out_ok o1 \<and> out_written o1 = out_written out @ utf8_all us"
  using assms
proof (induction fuel arbitrary: us out)
  case (Suc fuel)
  show ?case
  proof (cases us)
    case (Cons v vs)
    obtain q m o1 where s: "gu_out_begin_span G out (At_Fallback, 4) None = Done ((q, m), o1, None)" "out_ok o1"
      "out_written o1 = out_written out" "4 \<le> m"
      "q = At_Fallback \<and> m = 4 \<or> q = At_Buffer (obuf_curr o1) \<and> int m = - obuf_curr o1 \<and> obuf_end o1 \<noteq> None"
      using begin_span [OF Suc.prems(1), of 4 At_Fallback] Suc.prems(4) by auto
    obtain as ls where e: "gu_utf8_encode us m = Done (utf8_all as, ls)" "us = as @ ls" "length (utf8_all as) \<le> m"
      "ls \<noteq> [] \<longrightarrow> m < length (utf8_all as) + gu_utf8_encode_length (hd ls)"
      using encode_spec [OF Suc.prems(2)] by blast
    have ne: "as \<noteq> []"
      using e(2,4) s(4) Cons encode_length_bounds(2) [of v] by (cases as) auto
    have b: "length (utf8_all as) \<le> 4 * length as" by (rule utf8_all_bounds)
    have "\<exists>o2. gu_out_end_span G o1 q (utf8_all as) None = Done (o2, None) \<and> out_ok o2 \<and>
        out_written o2 = out_written o1 @ utf8_all as"
      using s e(2,3) b Suc.prems(4) by (intro end_span) auto
    then obtain o2 where o2: "gu_out_end_span G o1 q (utf8_all as) None = Done (o2, None)" "out_ok o2"
      "out_written o2 = out_written out @ utf8_all as" using s(3) by auto
    have v: "list_all gu_ucs_valid ls" "length ls \<le> fuel" "length (out_written o2) + 4 * length ls + 4 < OUT_LIMIT"
      using Suc.prems(2-4) e(2) ne b o2(3) by (auto simp: Suc_le_eq neq_Nil_conv)
    have "utf32_loop G (Suc fuel) us out None = utf32_loop G fuel ls o2 None"
      using o2(1) s(1) e(1) Cons by simp
    with Suc.IH [OF o2(2) v] o2(3) e(2) show ?thesis by auto
  qed (use Suc.prems in simp)
qed simp

end

subsection \<open>String buffers\<close>

lemma string_buf_ok:
  "proxied_out.out_ok (gu_string_buf_writer gu_string_buf)"
  "proxied_out.out_written (gu_string_buf_writer gu_string_buf) = []"
proof -
  have "outbuf.out_ok (gu_buf_out (gu_make_buf 1))" "outbuf.out_written (gu_buf_out (gu_make_buf 1)) = []"
    using new_byte_buf_ok by (simp_all add: gu_buf_out_def gu_new_out_def outbuf.out_ok_new)
  then show "proxied_out.out_ok (gu_string_buf_writer gu_string_buf)"
    "proxied_out.out_written (gu_string_buf_writer gu_string_buf) = []"
    by (simp_all add: gu_string_buf_writer_def gu_string_buf_def gu_new_utf8_writer_def gu_new_writer_def
      proxied_out.out_ok_new gu_out_proxy_stream_def)
qed

text \<open>Freezing flushes the bytes through both writers into the byte buffer.\<close>

lemma freeze_flush:
  assumes "proxied_out.out_ok (sb_wtr sb)" and "proxied_out.out_written (sb_wtr sb) = bs" and "length bs < OUT_LIMIT"
  shows "\<exists>w. gu_writer_flush sb_funs (sb_wtr sb) None = Done (w, None) \<and> elems (bbuf (sb\<lparr>sb_wtr := w\<rparr>)) = bs"
proof -
  from proxied_out.flush [OF assms(1)] assms(2,3) obtain w where w: "gu_out_flush sb_funs (sb_wtr sb) None = Done (w, None)"
    "proxied_out.out_written w = bs" "obuf_end w = None" "outbuf.writer_settled (real_out (ostream w))" by auto
  then have "outbuf.out_written (real_out (ostream w)) = bs" by (simp add: proxied_out.out_written_def)
  with w(4) have "elems (bbuf (sb\<lparr>sb_wtr := w\<rparr>)) = bs"
    by (simp add: outbuf.writer_settled_def outbuf.out_written_def bbuf_def)
  with w(1) show ?thesis by (auto simp: gu_writer_flush_def)
qed

lemma freeze_contents:
  assumes "proxied_out.out_ok (sb_wtr sb)" and "proxied_out.out_written (sb_wtr sb) = bs" and "length bs < 256" and "length h < 2 ^ 60"
  shows "\<exists>s sb' g. gu_string_buf_freeze sb h = Done (s, sb', h @ g) \<and> length g \<le> 1 \<and> valid_string (h @ g) s bs"
proof -
  have "length bs < OUT_LIMIT" using assms(3) by (simp add: OUT_LIMIT_def)
  with freeze_flush [OF assms(1,2)] utf8_string_spec [OF assms(3,4)] show ?thesis
    by (fastforce simp: gu_string_buf_freeze_def Let_def)
qed

lemma freeze_long:
  assumes "proxied_out.out_ok (sb_wtr sb)" and "proxied_out.out_written (sb_wtr sb) = bs" and "256 \<le> length bs" and "length bs < OUT_LIMIT"
  shows "gu_string_buf_freeze sb h = Fault Null_Deref"
  using freeze_flush [OF assms(1,2,4)] assms(3) by (auto simp: gu_string_buf_freeze_def Let_def gu_utf8_string_def)

text \<open>C36. Text goes through a string and back: code points written one by one to a new string buffer, whose
  contents are then frozen to a string, are what a reader of the string delivers, in order and followed by the
  end of the input. The UTF-8 form must have less than 256 bytes, because longer strings crash.\<close>

theorem string_buf_roundtrip:
  assumes "list_all gu_ucs_valid us" and "sum_list (map gu_utf8_encode_length us) < 256" and "length h < 2 ^ 60"
  shows "\<exists>w s sb h' rdr rdr'.
    foldR (\<lambda>u (w, err). gu_ucs_write sb_funs u w err) us (gu_string_buf_writer gu_string_buf, None) = Done (w, None) \<and>
    gu_string_buf_freeze \<lparr>sb_wtr = w\<rparr> h = Done (s, sb, h') \<and>
    gu_string_reader s h' = Done rdr \<and>
    read_codes (gu_proxy_in_funs gu_data_in_funs) (Suc (length us)) rdr None = Done (us, rdr', Some GuEOF)"
proof -
  have l: "length (utf8_all vs) = sum_list (map gu_utf8_encode_length vs)" for vs by (induction vs) auto
  have n: "length us < 256" using utf8_all_bounds(1) [of us] l [of us] assms(2) by linarith
  obtain w where w: "foldR (\<lambda>u (w, err). gu_ucs_write sb_funs u w err) us (gu_string_buf_writer gu_string_buf, None) =
      Done (w, None)" "proxied_out.out_ok w" "proxied_out.out_written w = utf8_all us"
    using proxied_out.out_utf8_all [OF string_buf_ok(1) assms(1)] string_buf_ok(2) n by (auto simp: OUT_LIMIT_def)
  obtain s sb h' where s: "gu_string_buf_freeze \<lparr>sb_wtr = w\<rparr> h = Done (s, sb, h')" "gu_string_open s h' = Done (utf8_all us)"
    using freeze_contents [of "\<lparr>sb_wtr = w\<rparr>" "utf8_all us" h] w(2,3) l [of us] assms(2,3) valid_open by fastforce
  let ?rdr = "gu_new_utf8_reader (gu_data_in (utf8_all us))"
  have "length (utf8_all us) < 2 ^ 63" using l [of us] assms(2) by simp
  note d = data_in_ok [OF this]
  have "proxied.in_ok ?rdr" "proxied.in_contents ?rdr = utf8_all us"
    using proxied.in_ok_new [OF d(1)] proxied.in_contents_new d(2) by (simp_all add: gu_new_utf8_reader_def gu_new_in_def)
  from proxied.read_codes [OF this(1) assms(1) this(2)] w(1) s show ?thesis
    by (auto simp: gu_string_reader_def)
qed

theorem string_buf_roundtrip_witness:
  "\<exists>w s sb h' rdr rdr'.
    foldR (\<lambda>u (w, err). gu_ucs_write sb_funs u w err) [0x48, 0xE4, 0x20AC, 0x1F600] (gu_string_buf_writer gu_string_buf, None) =
      Done (w, None) \<and>
    gu_string_buf_freeze \<lparr>sb_wtr = w\<rparr> [] = Done (s, sb, h') \<and> gu_string_reader s h' = Done rdr \<and>
    read_codes (gu_proxy_in_funs gu_data_in_funs) 5 rdr None = Done ([0x48, 0xE4, 0x20AC, 0x1F600], rdr', Some GuEOF)"
proof -
  have "list_all gu_ucs_valid [0x48, 0xE4, 0x20AC, 0x1F600]" by (simp add: gu_ucs_valid_def GU_UCS_MAX_def)
  moreover have "sum_list (map gu_utf8_encode_length [0x48, 0xE4, 0x20AC, 0x1F600]) < 256" "length ([] :: str_heap) < 2 ^ 60"
    by (simp_all add: gu_utf8_encode_length_def)
  moreover have "Suc (length [0x48, 0xE4, 0x20AC, 0x1F600 :: int]) = 5" by simp
  ultimately show ?thesis using string_buf_roundtrip [of "[0x48, 0xE4, 0x20AC, 0x1F600]" "[]"] by metis
qed

end
