(* ===== verification/PgfTypes.thy ===== *)
theory PgfTypes
  imports Kinds In
begin

text \<open>
  The run-time descriptions of the C types of grammars, which drive the grammar reader: the kinds of
  \<open>gu/type.c\<close>, \<open>gu/seq.c\<close>, \<open>gu/map.c\<close> and \<open>gu/string.c\<close>, and the types that \<open>pgf/expr.c\<close> and \<open>pgf/data.c\<close> define with
  \<open>GU_DEFINE_TYPE\<close>. A type is a \<open>GuKind\<close> node; what its C object holds besides the super pointer is
  its \<open>type_desc\<close>, which the function \<open>describe\<close> finds by the identifier of the type. Types written in place
  with \<open>GU_TYPE_LIT\<close> are named by their C type. The names, offsets and sizes of members play no role for the reader; the members are in
  the order in which they are listed, which is the order of the file format.
\<close>

subsection \<open>Kinds\<close>

definition kind_alias :: GuKind where "kind_alias = GuKind ''alias'' kind_type"
definition kind_typedef :: GuKind where "kind_typedef = GuKind ''typedef'' kind_alias"
definition kind_referenced :: GuKind where "kind_referenced = GuKind ''referenced'' kind_alias"
definition kind_repr :: GuKind where "kind_repr = GuKind ''repr'' kind_type"
definition kind_GuOpaque :: GuKind where "kind_GuOpaque = GuKind ''GuOpaque'' kind_repr"
definition kind_struct :: GuKind where "kind_struct = GuKind ''struct'' kind_repr"
definition kind_pointer :: GuKind where "kind_pointer = GuKind ''pointer'' kind_repr"
definition kind_reference :: GuKind where "kind_reference = GuKind ''reference'' kind_pointer"
definition kind_shared :: GuKind where "kind_shared = GuKind ''shared'' kind_pointer"
definition kind_primitive :: GuKind where "kind_primitive = GuKind ''primitive'' kind_repr"
definition kind_integer :: GuKind where "kind_integer = GuKind ''integer'' kind_primitive"
definition kind_signed :: GuKind where "kind_signed = GuKind ''signed'' kind_integer"
definition kind_unsigned :: GuKind where "kind_unsigned = GuKind ''unsigned'' kind_integer"
definition kind_GuFloating :: GuKind where "kind_GuFloating = GuKind ''GuFloating'' kind_primitive"
definition kind_enum :: GuKind where "kind_enum = GuKind ''enum'' kind_repr"
definition kind_GuVariant :: GuKind where "kind_GuVariant = GuKind ''GuVariant'' kind_repr"
definition kind_GuSeq :: GuKind where "kind_GuSeq = GuKind ''GuSeq'' kind_GuOpaque"
definition kind_GuMap :: GuKind where "kind_GuMap = GuKind ''GuMap'' kind_abstract"
definition kind_GuAddrMap :: GuKind where "kind_GuAddrMap = GuKind ''GuAddrMap'' kind_GuMap"
definition kind_GuStringMap :: GuKind where "kind_GuStringMap = GuKind ''GuStringMap'' kind_GuMap"
definition kind_PgfContext :: GuKind where "kind_PgfContext = GuKind ''PgfContext'' kind_reference"
definition kind_PgfKey :: GuKind where "kind_PgfKey = GuKind ''PgfKey'' kind_alias"

lemmas kind_defs = kind_type_def kind_abstract_def kind_alias_def kind_typedef_def kind_referenced_def kind_repr_def
  kind_GuOpaque_def kind_struct_def kind_pointer_def kind_reference_def kind_shared_def kind_primitive_def kind_integer_def
  kind_signed_def kind_unsigned_def kind_GuFloating_def kind_enum_def kind_GuVariant_def kind_GuSeq_def kind_GuMap_def
  kind_GuAddrMap_def kind_GuStringMap_def kind_PgfContext_def kind_PgfKey_def

subsection \<open>Types\<close>

definition ty_void :: GuType where "ty_void = GuKind ''void'' kind_primitive"
definition ty_int :: GuType where "ty_int = GuKind ''int'' kind_signed"
definition ty_int32_t :: GuType where "ty_int32_t = GuKind ''int32_t'' kind_signed"
definition ty_uint16_t :: GuType where "ty_uint16_t = GuKind ''uint16_t'' kind_unsigned"
definition ty_size_t :: GuType where "ty_size_t = GuKind ''size_t'' kind_unsigned"
definition ty_GuLength :: GuType where "ty_GuLength = GuKind ''GuLength'' kind_unsigned"
definition ty_double :: GuType where "ty_double = GuKind ''double'' kind_GuFloating"
definition ty_GuString :: GuType where "ty_GuString = GuKind ''GuString'' kind_GuOpaque"
definition ty_PgfCId :: GuType where "ty_PgfCId = GuKind ''PgfCId'' kind_typedef"

lemmas prim_type_defs = ty_void_def ty_int_def ty_int32_t_def ty_uint16_t_def ty_size_t_def ty_GuLength_def ty_double_def
  ty_GuString_def ty_PgfCId_def

abbreviation ty_seq :: "string \<Rightarrow> GuType" where "ty_seq n \<equiv> GuKind n kind_GuSeq"
abbreviation ty_struct :: "string \<Rightarrow> GuType" where "ty_struct n \<equiv> GuKind n kind_struct"
abbreviation ty_variant :: "string \<Rightarrow> GuType" where "ty_variant n \<equiv> GuKind n kind_GuVariant"
abbreviation ty_ptr :: "string \<Rightarrow> GuType" where "ty_ptr n \<equiv> GuKind n kind_pointer"
abbreviation ty_shared :: "string \<Rightarrow> GuType" where "ty_shared n \<equiv> GuKind n kind_shared"
abbreviation ty_string_map :: "string \<Rightarrow> GuType" where "ty_string_map n \<equiv> GuKind n kind_GuStringMap"

definition ty_PgfProductions :: GuType where "ty_PgfProductions = ty_seq ''PgfProductions''"
definition ty_PgfSequences :: GuType where "ty_PgfSequences = ty_seq ''PgfSequences''"
definition ty_PgfCncFuns :: GuType where "ty_PgfCncFuns = ty_seq ''PgfCncFuns''"
definition ty_GuStrings :: GuType where "ty_GuStrings = ty_seq ''GuStrings''"
definition ty_PgfFlags :: GuType where "ty_PgfFlags = ty_string_map ''PgfFlags''"
definition ty_PgfPrintNames :: GuType where "ty_PgfPrintNames = ty_string_map ''PgfPrintNames''"
definition ty_PgfCncCatMap :: GuType where "ty_PgfCncCatMap = GuKind ''PgfCncCatMap'' kind_GuAddrMap"
definition ty_PgfLinDefs :: GuType where "ty_PgfLinDefs = GuKind ''PgfLinDefs'' kind_GuMap"
definition ty_PgfCCatMap :: GuType where "ty_PgfCCatMap = GuKind ''PgfCCatMap'' kind_GuMap"
definition ty_PgfPGF :: GuType where "ty_PgfPGF = GuKind ''PgfPGF'' kind_referenced"
definition ty_PgfCat :: GuType where "ty_PgfCat = ty_struct ''PgfCat''"
definition ty_PgfCatId :: GuType where "ty_PgfCatId = GuKind ''PgfCatId'' kind_alias"
definition ty_PgfCCat :: GuType where "ty_PgfCCat = ty_struct ''PgfCCat''"
definition ty_PgfCCatId :: GuType where "ty_PgfCCatId = ty_shared ''PgfCCatId''"
definition ty_PgfFunId :: GuType where "ty_PgfFunId = ty_shared ''PgfFunId''"
definition ty_PgfSeqId :: GuType where "ty_PgfSeqId = GuKind ''PgfSeqId'' kind_typedef"
definition ty_PgfPGFCtx :: GuType where "ty_PgfPGFCtx = GuKind ''PgfPGFCtx'' kind_PgfContext"
definition ty_PgfCIdKey :: GuType where "ty_PgfCIdKey = GuKind ''PgfCIdKey'' kind_PgfKey"
definition ty_PgfEquationsM :: GuType where "ty_PgfEquationsM = ty_seq ''PgfEquationsM''"
definition ty_PgfBindType :: GuType where "ty_PgfBindType = GuKind ''PgfBindType'' kind_enum"
definition ty_PgfConcr :: GuType where "ty_PgfConcr = ty_struct ''PgfConcr''"
definition ty_PgfCncCat :: GuType where "ty_PgfCncCat = ty_struct ''PgfCncCat''"

lemmas named_type_defs = ty_PgfProductions_def ty_PgfSequences_def ty_PgfCncFuns_def ty_GuStrings_def ty_PgfFlags_def
  ty_PgfPrintNames_def ty_PgfCncCatMap_def ty_PgfLinDefs_def ty_PgfCCatMap_def ty_PgfPGF_def ty_PgfCat_def ty_PgfCatId_def
  ty_PgfCCat_def ty_PgfCCatId_def ty_PgfFunId_def ty_PgfSeqId_def ty_PgfPGFCtx_def ty_PgfCIdKey_def ty_PgfEquationsM_def
  ty_PgfBindType_def ty_PgfConcr_def ty_PgfCncCat_def

subsection \<open>Descriptions\<close>

datatype type_desc =
    D_Prim
  | D_Struct "GuType list"
  | D_Variant "GuType list"
  | D_Enum nat "int list"
  | D_Pointer GuType
  | D_Alias GuType
  | D_Seq GuType
  | D_Map bool GuType GuType

type_synonym type_table = "(string \<times> type_desc) list"

definition gu_types :: type_table where
  "gu_types =
     [(''void'', D_Prim), (''int'', D_Prim), (''int32_t'', D_Prim), (''uint16_t'', D_Prim), (''size_t'', D_Prim),
      (''GuLength'', D_Prim), (''double'', D_Prim), (''GuString'', D_Prim),
      (''GuStrings'', D_Seq ty_GuString)]"

definition expr_types :: type_table where
  "expr_types =
     [(''PgfBindType'', D_Enum 4 [0, 1]),
      (''PgfLiteral'', D_Variant [ty_struct ''PgfLiteralStr'', ty_struct ''PgfLiteralInt'', ty_struct ''PgfLiteralFlt'']),
      (''PgfLiteralStr'', D_Struct [ty_GuString]),
      (''PgfLiteralInt'', D_Struct [ty_int]),
      (''PgfLiteralFlt'', D_Struct [ty_double]),
      (''PgfHypo'', D_Struct [ty_PgfBindType, ty_PgfCId, ty_ptr ''PgfType*'']),
      (''PgfHypos'', D_Seq (ty_struct ''PgfHypo'')),
      (''PgfExprs'', D_Seq (ty_variant ''PgfExpr'')),
      (''PgfType'', D_Struct [ty_seq ''PgfHypos'', ty_PgfCId, ty_seq ''PgfExprs'']),
      (''PgfType*'', D_Pointer (ty_struct ''PgfType'')),
      (''PgfExpr'', D_Variant
         [ty_struct ''PgfExprAbs'', ty_struct ''PgfExprApp'', ty_struct ''PgfExprLit'', ty_struct ''PgfExprMeta'',
          ty_struct ''PgfExprFun'', ty_struct ''PgfExprVar'', ty_struct ''PgfExprTyped'', ty_struct ''PgfExprImplArg'']),
      (''PgfExprAbs'', D_Struct [ty_PgfBindType, ty_PgfCId, ty_variant ''PgfExpr'']),
      (''PgfExprApp'', D_Struct [ty_variant ''PgfExpr'', ty_variant ''PgfExpr'']),
      (''PgfExprLit'', D_Struct [ty_variant ''PgfLiteral'']),
      (''PgfExprMeta'', D_Struct [ty_int]),
      (''PgfExprFun'', D_Struct [ty_PgfCId]),
      (''PgfExprVar'', D_Struct [ty_int]),
      (''PgfExprTyped'', D_Struct [ty_variant ''PgfExpr'', ty_ptr ''PgfType*'']),
      (''PgfExprImplArg'', D_Struct [ty_variant ''PgfExpr''])]"

definition concrete_types :: type_table where
  "concrete_types =
     [(''PgfTokens'', D_Seq ty_GuString),
      (''PgfCCat'', D_Struct [ty_shared ''PgfCncCat*'', ty_PgfProductions]),
      (''PgfCncCat*'', D_Pointer ty_PgfCncCat),
      (''PgfCCatId'', D_Pointer ty_PgfCCat),
      (''PgfCCatIds'', D_Seq ty_PgfCCatId),
      (''PgfCCats'', D_Seq ty_PgfCCatId),
      (''PgfAlternative'', D_Struct [ty_seq ''PgfTokens'', ty_GuStrings]),
      (''PgfAlternatives'', D_Seq (ty_struct ''PgfAlternative'')),
      (''PgfSymbolIdx'', D_Struct [ty_int32_t, ty_int32_t]),
      (''PgfSymbol'', D_Variant
         [ty_struct ''PgfSymbolIdx'', ty_struct ''PgfSymbolIdx'', ty_struct ''PgfSymbolIdx'', ty_struct ''PgfSymbolKS'',
          ty_struct ''PgfSymbolKP'']),
      (''PgfSymbolKS'', D_Struct [ty_seq ''PgfTokens'']),
      (''PgfSymbolKP'', D_Struct [ty_seq ''PgfTokens'', ty_seq ''PgfAlternatives'']),
      (''PgfCncCat'', D_Struct [ty_PgfCId, ty_seq ''PgfCCatIds'', ty_size_t, ty_seq ''PgfFunIds'', ty_GuStrings]),
      (''PgfSequence'', D_Seq (ty_variant ''PgfSymbol'')),
      (''PgfSequences'', D_Seq (ty_seq ''PgfSequence'')),
      (''PgfSeqId'', D_Alias (ty_seq ''PgfSequence'')),
      (''PgfSeqIds'', D_Seq ty_PgfSeqId),
      (''PgfCncFun'', D_Struct [ty_PgfCId, ty_seq ''PgfSeqIds'']),
      (''PgfCncFun*'', D_Pointer (ty_struct ''PgfCncFun'')),
      (''_'', D_Alias (ty_ptr ''PgfCncFun*'')),
      (''PgfCncFuns'', D_Seq (GuKind ''_'' kind_referenced)),
      (''PgfFunId'', D_Pointer (ty_struct ''PgfCncFun'')),
      (''PgfFunIds'', D_Seq ty_PgfFunId),
      (''PgfPArg'', D_Struct [ty_seq ''PgfCCatIds'', ty_PgfCCatId]),
      (''PgfPArgs'', D_Seq (ty_struct ''PgfPArg'')),
      (''PgfProduction'', D_Variant [ty_struct ''PgfProductionApply'', ty_struct ''PgfProductionCoerce'']),
      (''PgfProductionApply'', D_Struct [ty_PgfFunId, ty_seq ''PgfPArgs'']),
      (''PgfProductionCoerce'', D_Struct [ty_PgfCCatId]),
      (''PgfProductions'', D_Seq (ty_variant ''PgfProduction''))]"

definition abstract_types :: type_table where
  "abstract_types =
     [(''PgfPGFCtx'', D_Pointer ty_PgfPGF),
      (''PgfCIdKey'', D_Alias ty_PgfCId),
      (''PgfCId'', D_Alias ty_GuString),
      (''PgfFlags'', D_Map True ty_GuString (ty_variant ''PgfLiteral'')),
      (''PgfFlagsP'', D_Pointer ty_PgfFlags),
      (''PgfPatts'', D_Seq (ty_variant ''PgfPatt'')),
      (''PgfPatt'', D_Variant
         [ty_struct ''PgfPattApp'', ty_struct ''PgfPattVar'', ty_struct ''PgfPattAs'', ty_void, ty_struct ''PgfPattLit'',
          ty_struct ''PgfPattImplArg'', ty_struct ''PgfPattTilde'']),
      (''PgfPattApp'', D_Struct [ty_PgfCId, ty_seq ''PgfPatts'']),
      (''PgfPattVar'', D_Struct [ty_PgfCId]),
      (''PgfPattAs'', D_Struct [ty_PgfCId, ty_variant ''PgfPatt'']),
      (''PgfPattLit'', D_Struct [ty_variant ''PgfLiteral'']),
      (''PgfPattImplArg'', D_Struct [ty_variant ''PgfPatt'']),
      (''PgfPattTilde'', D_Struct [ty_variant ''PgfExpr'']),
      (''PgfEquation'', D_Struct [ty_seq ''PgfPatts'', ty_variant ''PgfExpr'']),
      (''PgfEquationsM'', D_Seq (ty_struct ''PgfEquation'')),
      (''PgfFunDecl'', D_Struct [ty_ptr ''PgfType*'', ty_int32_t, ty_PgfEquationsM, ty_double]),
      (''PgfFunDecl*'', D_Pointer (ty_struct ''PgfFunDecl'')),
      (''PgfCatFun'', D_Struct [ty_double, ty_PgfCId]),
      (''PgfCatFuns'', D_Seq (ty_struct ''PgfCatFun'')),
      (''PgfCat'', D_Struct [ty_PgfPGFCtx, ty_PgfCIdKey, ty_seq ''PgfHypos'', ty_seq ''PgfCatFuns'']),
      (''PgfCat*'', D_Pointer ty_PgfCat),
      (''PgfCIdMap(PgfFunDecl*)'', D_Map True ty_GuString (ty_ptr ''PgfFunDecl*'')),
      (''PgfCIdMap(PgfFunDecl*)*'', D_Pointer (ty_string_map ''PgfCIdMap(PgfFunDecl*)'')),
      (''PgfCIdMap(PgfCat*)'', D_Map True ty_GuString (ty_ptr ''PgfCat*'')),
      (''PgfCIdMap(PgfCat*)*'', D_Pointer (ty_string_map ''PgfCIdMap(PgfCat*)'')),
      (''PgfAbstr'', D_Struct [ty_PgfCId, ty_ptr ''PgfFlagsP'', ty_ptr ''PgfCIdMap(PgfFunDecl*)*'', ty_ptr ''PgfCIdMap(PgfCat*)*''])]"

definition pgf_types :: type_table where
  "pgf_types =
     [(''PgfPrintNames'', D_Map True ty_GuString ty_GuString),
      (''PgfCatId'', D_Alias ty_PgfCat),
      (''PgfCncCat**'', D_Pointer ty_PgfCncCat),
      (''PgfCncCatMap'', D_Map False ty_PgfCatId (ty_ptr ''PgfCncCat**'')),
      (''PgfConcr'', D_Struct [ty_ptr ''PgfFlagsP'', ty_ptr ''PgfPrintNames*'', ty_ptr ''PgfCncCatMap*'']),
      (''PgfPrintNames*'', D_Pointer ty_PgfPrintNames),
      (''PgfCncCatMap*'', D_Pointer ty_PgfCncCatMap),
      (''PgfConcr*'', D_Pointer ty_PgfConcr),
      (''PgfCIdMap(PgfConcr*)'', D_Map True ty_GuString (ty_ptr ''PgfConcr*'')),
      (''PgfCIdMap(PgfConcr*)*'', D_Pointer (ty_string_map ''PgfCIdMap(PgfConcr*)'')),
      (''PgfPGF'', D_Alias (ty_struct ''struct PgfPGF'')),
      (''struct PgfPGF'', D_Struct [ty_uint16_t, ty_uint16_t, ty_ptr ''PgfFlagsP'', ty_struct ''PgfAbstr'',
         ty_ptr ''PgfCIdMap(PgfConcr*)*''])]"

text \<open>The maps that the reader itself defines.\<close>

definition reader_types :: type_table where
  "reader_types =
     [(''PgfLinDefs'', D_Map True ty_int32_t (ty_seq ''PgfFunIds'')),
      (''PgfCCatMap'', D_Map True ty_int32_t (ty_ptr ''PgfCCat*'')),
      (''PgfCCat*'', D_Pointer ty_PgfCCat)]"

definition type_descs :: type_table where
  "type_descs = gu_types @ expr_types @ concrete_types @ abstract_types @ pgf_types @ reader_types"

fun describe :: "GuType \<Rightarrow> type_desc option" where
  "describe GuKindNull = None"
| "describe (GuKind n s) = map_of type_descs n"

text \<open>Following aliases to the representation; \<open>None\<close> stands for a type without one. An alias is never longer than
  a few steps.\<close>

fun gu_type_repr :: "nat \<Rightarrow> GuType \<Rightarrow> GuType option" where
  "gu_type_repr 0 type = None"
| "gu_type_repr (Suc n) type =
     (case gu_type_dyn_cast type kind_alias of
        Some t \<Rightarrow> (case describe t of Some (D_Alias u) \<Rightarrow> gu_type_repr n u | _ \<Rightarrow> None)
      | None \<Rightarrow> gu_type_dyn_cast type kind_repr)"

end
