(* ===== verification/Raising.thy ===== *)
theory Raising
  imports TextIO
begin

text \<open>
  Readers and writers after an exception. The contracts of \<open>In\<close> and \<open>Out\<close> are on operations that start without a raised
  exception; some loops of the library go on after one. Here it is shown of the operations that, started with an exception
  raised, they leave it raised if they return. The locale \<open>raising_in\<close> asks this of the functions of a stream.
\<close>

definition raised :: "GuErr \<Rightarrow> bool" where
  "raised err \<longleftrightarrow> err \<noteq> None"

lemma raised_simps [simp]: "raised (Some t)" "raised (gu_raise t err)" "\<not> raised None"
  by (simp_all add: raised_def)

lemma raisedD [simp]: "raised err \<Longrightarrow> (err = None) = False" "raised err \<Longrightarrow> gu_raise t err = err"
  by (auto simp: raised_def)

text \<open>The end of an operation that delivers an exception.\<close>

abbreviation raised2 :: "('a \<times> GuErr) run \<Rightarrow> bool" where
  "raised2 m \<equiv> ends m (\<lambda>(x, err). raised err)"

abbreviation raised3 :: "('a \<times> 'b \<times> GuErr) run \<Rightarrow> bool" where
  "raised3 m \<equiv> ends m (\<lambda>(x, y, err). raised err)"

lemma raised2_bind: "raised2 m \<Longrightarrow> (\<And>x err. raised err \<Longrightarrow> ends (f (x, err)) P) \<Longrightarrow> ends (bindR m f) P"
  by (auto elim!: ends_mono)

lemma raised3_bind: "raised3 m \<Longrightarrow> (\<And>x y err. raised err \<Longrightarrow> ends (f (x, y, err)) P) \<Longrightarrow> ends (bindR m f) P"
  by (auto elim!: ends_mono)

lemma ends_bind_any: "ends m (\<lambda>_. True) \<Longrightarrow> (\<And>x. ends (f x) P) \<Longrightarrow> ends (bindR m f) P"
  by (auto elim!: ends_mono)

lemmas raised_rules = raised2_bind raised3_bind

lemma ends_any: "ends m (\<lambda>_. True) \<longleftrightarrow> m \<noteq> Out_Of_Fuel"
  by (cases m) auto

subsection \<open>Readers\<close>

lemma buf_access: "ends (buf_byte i k) (\<lambda>_. True)" "ends (buf_copy i n) (\<lambda>_. True)"
  by (simp_all add: buf_byte_def buf_copy_def Let_def split: option.splits)

lemmas buf_access_bind = buf_access [THEN ends_bind_any]

locale raising_in =
  fixes F :: "'s GuInStreamFuns"
  assumes begin_raised: "begin_buffer F = Some f \<Longrightarrow> raised err \<Longrightarrow> raised3 (f s err)"
    and end_raised: "end_buffer F = Some g \<Longrightarrow> raised err \<Longrightarrow> raised2 (g s n err)"
    and input_raised: "input F = Some h \<Longrightarrow> raised err \<Longrightarrow> raised3 (h s n err)"
begin

lemma end_buffering: "raised err \<Longrightarrow> raised2 (gu_in_end_buffering F i err)"
  unfolding gu_in_end_buffering_def Let_def
  by (cases "end_buffer F") (auto simp del: ends_bindR intro!: raised2_bind end_raised)

lemma ask_buffer: "raised err \<Longrightarrow> raised3 (ask_buffer F i err)"
  unfolding ask_buffer_def Let_def
  by (cases "begin_buffer F") (auto simp del: ends_bindR intro!: raised3_bind begin_raised)

lemma begin_buffering: "raised err \<Longrightarrow> raised3 (gu_in_begin_buffering F i err)"
  unfolding gu_in_begin_buffering_def
  by (auto simp del: ends_bindR intro!: raised2_bind end_buffering ask_buffer)

lemma input: "raised err \<Longrightarrow> raised3 (gu_in_input F i n err)"
  unfolding gu_in_input_def
  by (auto simp del: ends_bindR intro!: raised2_bind end_buffering)

lemma some_loop: "raised err \<Longrightarrow> raised3 (some_loop F i got n m err)"
proof (induction "m - length got" arbitrary: i got err rule: less_induct)
  case less
  show ?case
  proof (cases "length got < m")
    case True
    then show ?thesis
      by (subst some_loop.simps)
        (auto simp del: ends_bindR simp: neq_Nil_conv intro!: raised3_bind input less.prems less.hyps)
  qed (use less.prems in \<open>simp add: some_loop.simps\<close>)
qed

lemma some: "raised err \<Longrightarrow> raised3 (gu_in_some F i n m err)"
  unfolding gu_in_some_def Let_def
  by (auto simp del: ends_bindR intro!: raised3_bind begin_buffering some_loop buf_access_bind)

lemma u8: "raised err \<Longrightarrow> raised3 (gu_in_u8 F i err)"
  unfolding gu_in_u8_def gu_in_u8_slow_def
  by (auto simp del: ends_bindR intro!: raised3_bind begin_buffering input buf_access_bind split: list.splits)

lemma utf8:
  assumes "raised err"
  shows "ends (gu_in_utf8 F i err) (\<lambda>(u, i', err'). raised err' \<and> gu_ucs_valid u)"
proof -
  have "ends (gu_in_utf8_slow F i err) (\<lambda>(u, i', err'). raised err' \<and> gu_ucs_valid u)"
    unfolding gu_in_utf8_slow_def
    by (rule raised3_bind [OF u8 [OF assms]]) (auto simp: gu_ucs_valid_def GU_UCS_MAX_def)
  moreover have "ends (gu_in_peek_u8 i) (\<lambda>_. True)"
    by (auto simp: gu_in_peek_u8_def buf_access)
  ultimately show ?thesis
    unfolding gu_in_utf8_def using assms
    by (intro ends_bind_any) (auto simp: gu_in_consume_def gu_ucs_valid_def GU_UCS_MAX_def)
qed

end

interpretation data_raising: raising_in gu_data_in_funs
  by unfold_locales (auto simp: gu_data_in_funs_def gu_data_in_begin_buffer_def gu_data_in_end_buffer_def)

subsection \<open>Writers\<close>

lemma buf_write_ends: "ends (buf_write out bs) (\<lambda>_. True)"
  by (auto simp: buf_write_def Let_def split: option.splits)

lemmas buf_write_bind = buf_write_ends [THEN ends_bind_any]

locale raising_out =
  fixes G :: "'s GuOutStreamFuns"
  assumes begin_raised: "begin_buf G = Some f \<Longrightarrow> raised err \<Longrightarrow> raised3 (f s n err)"
    and end_raised: "end_buf G = Some g \<Longrightarrow> raised err \<Longrightarrow> raised2 (g s bs err)"
    and output_raised: "output_fn G = Some h \<Longrightarrow> raised err \<Longrightarrow> raised3 (h s bs err)"
begin

lemma end_buf: "raised err \<Longrightarrow> raised2 (gu_out_end_buf G out err)"
  unfolding gu_out_end_buf_def Let_def
  by (auto simp del: ends_bindR intro!: raised2_bind end_raised split: option.splits)

lemma begin_buf: "raised err \<Longrightarrow> raised3 (gu_out_begin_buf G out n err)"
  unfolding gu_out_begin_buf_def ask_buf_def
  by (auto simp del: ends_bindR intro!: raised2_bind raised3_bind end_buf begin_raised split: option.splits)

lemma put_out: "raised err \<Longrightarrow> raised3 (gu_out_output G out bs err)"
  unfolding gu_out_output_def
  by (auto simp del: ends_bindR intro!: raised2_bind end_buf split: option.splits)

lemma try_buf: "ends (gu_out_try_buf out bs) (\<lambda>_. True)"
  by (auto simp: gu_out_try_buf_def buf_write_ends)

lemma bytes_slow: "raised err \<Longrightarrow> raised3 (gu_out_bytes_slow G out bs err)"
  by (simp add: gu_out_bytes_slow_def)

lemma bytes: "raised err \<Longrightarrow> raised3 (gu_out_bytes G out bs err)"
  unfolding gu_out_bytes_def
  by (auto simp del: ends_bindR intro!: try_buf [THEN ends_bind_any] bytes_slow)

lemma try_u8: "ends (gu_out_try_u8 out u) (\<lambda>_. True)"
  by (auto simp: gu_out_try_u8_def buf_write_ends)

lemma u8: "raised err \<Longrightarrow> raised2 (gu_out_u8 G out u err)"
  unfolding gu_out_u8_def gu_out_u8_slow_def Let_def
  by (auto simp del: ends_bindR intro!: try_u8 [THEN ends_bind_any] raised3_bind begin_buf put_out)

lemma begin_span: "raised err \<Longrightarrow> raised3 (gu_out_begin_span G out p err)"
  unfolding gu_out_begin_span_def
  by (auto simp del: ends_bindR intro!: raised3_bind begin_buf)

lemma end_span: "raised err \<Longrightarrow> raised2 (gu_out_end_span G out p bs err)"
  unfolding gu_out_end_span_def
  by (auto simp del: ends_bindR intro!: raised3_bind bytes_slow buf_write_bind)

lemma out_utf8: "raised err \<Longrightarrow> raised2 (gu_out_utf8 G u out err)"
  unfolding gu_out_utf8_def gu_out_utf8_long_def
  by (auto simp del: ends_bindR intro!: u8 raised3_bind begin_span)

lemma proxy: "raising_out (gu_proxy_out_funs G)"
  by unfold_locales
    (auto simp del: ends_bindR simp: gu_proxy_out_funs_def gu_proxy_out_buf_begin_def gu_proxy_out_buf_end_def
      gu_proxy_out_output_def intro!: raised2_bind raised3_bind begin_span end_span bytes)

end

lemma realloc_ends: "ends (gu_mem_buf_realloc n) (\<lambda>_. True)"
proof -
  define mb where "mb = ((n + gu_malloc_overhead - 1) mod 2 ^ 64) div gu_mem_unit_size + 1"
  have "(n + gu_malloc_overhead - 1) mod 2 ^ 64 < 2 ^ 64" "0 \<le> (n + gu_malloc_overhead - 1) mod 2 ^ 64" by auto
  then have "0 \<le> mb" "mb \<le> 2 ^ 60" by (simp_all add: mb_def gu_mem_unit_size_def)
  from padovan_bounds [OF this] have "ends (gu_mem_padovan mb) (\<lambda>_. True)" by auto
  then show ?thesis by (simp add: gu_mem_buf_realloc_def mb_def)
qed

lemma buf_require_ends: "ends (gu_buf_require b n) (\<lambda>_. True)"
  by (simp add: gu_buf_require_def realloc_ends)

interpretation outbuf_raising: raising_out gu_buf_out_funs
  by unfold_locales
    (auto simp del: ends_bindR simp: gu_buf_out_funs_def gu_buf_outbuf_begin_def gu_buf_outbuf_end_def gu_buf_out_output_def
      gu_buf_push_n_def Let_def bindR_assoc intro!: buf_require_ends [THEN ends_bind_any])

interpretation proxied_raising: raising_out sb_funs
  by (rule outbuf_raising.proxy)

end
