(* ===== verification/Reader.thy ===== *)
theory Reader
  imports PgfTypes Raising
begin

unbundle bit_operations_syntax

text \<open>
  The grammar reader, \<open>pgf/reader.c\<close>. The file format is described by the run-time types of the grammar
  structures: the reader finds the function for a type in a type map, by the nearest kind of the type that has an entry.

  Memory. A value read is a tree \<open>gval\<close>: structs, variants and sequences contain their parts. What is reached through a
  pointer is an object of the store \<open>heap\<close>, and a map an object of the store \<open>maps\<close>, so that objects can be shared and changed
  after they have been read; strings live in the store of \<open>GuStr\<close>. A \<open>read_to\<close> function returns the value that the code writes to
  its destination \<open>to\<close>. Since the reader looks at the \<open>PgfPGF\<close> object before it is complete, the members of a
  struct are written into the object as soon as they have been read.

  A map object lists its entries in the order of their insertion. This stands for the hash tables of \<open>GuMap\<close>, which
  implement finite maps; the order in which a table enumerates its entries is the parameter \<open>ord\<close> of the functions that need it.

  Integers that are shifted by the width of their type or more are counted as an access out of bounds.
\<close>

subsection \<open>State\<close>

datatype gval =
    V_Uninit
  | V_Null
  | V_Int int
  | V_Double u64
  | V_Str GuString
  | V_Struct "gval list"
  | V_Variant nat gval
  | V_NullSeq
  | V_Seq "gval list"
  | V_Ptr nat
  | V_Map nat

text \<open>A destination: a place in an object of the store, given by the numbers of the members that lead to it, or memory that
  nobody looks at before it has been filled.\<close>

datatype loc = Loc nat "nat list" | Elsewhere

record 's PgfReader =
  rin :: "'s GuIn"
  rerr :: GuErr
  heap :: "gval list"
  maps :: "(gval \<times> gval) list list"
  strings :: str_heap
  symtab :: GuSymTable
  curr_sequences :: gval
  curr_cncfuns :: gval
  curr_ccats :: "nat option"
  curr_lindefs :: "nat option"
  curr_key :: gval
  ctx :: "(GuType \<times> loc) list"

type_synonym ('a, 's) reading = "'s PgfReader \<Rightarrow> ('a \<times> 's PgfReader) run"

definition PgfReadTagExn :: GuType where "PgfReadTagExn = GuKind ''PgfReadTagExn'' kind_abstract"
definition PgfReadExn :: GuType where "PgfReadExn = GuKind ''PgfReadExn'' kind_abstract"

definition raise_in :: "GuType \<Rightarrow> 's PgfReader \<Rightarrow> 's PgfReader" where
  "raise_in t rdr = rdr\<lparr>rerr := gu_raise t (rerr rdr)\<rparr>"

text \<open>Allocating an object, and writing into one.\<close>

definition new_object :: "gval \<Rightarrow> 's PgfReader \<Rightarrow> nat \<times> 's PgfReader" where
  "new_object v rdr = (length (heap rdr), rdr\<lparr>heap := heap rdr @ [v]\<rparr>)"

fun put_member :: "nat list \<Rightarrow> gval \<Rightarrow> gval \<Rightarrow> gval" where
  "put_member [] v old = v"
| "put_member (i # p) v old =
     (let vs = (case old of V_Struct vs \<Rightarrow> vs | _ \<Rightarrow> []);
          ws = vs @ replicate (Suc i - length vs) V_Uninit
      in V_Struct (ws[i := put_member p v (ws ! i)]))"

fun store :: "loc \<Rightarrow> gval \<Rightarrow> 's PgfReader \<Rightarrow> 's PgfReader" where
  "store Elsewhere v rdr = rdr"
| "store (Loc a p) v rdr = rdr\<lparr>heap := (heap rdr)[a := put_member p v (heap rdr ! a)]\<rparr>"

fun member_loc :: "loc \<Rightarrow> nat \<Rightarrow> loc" where
  "member_loc Elsewhere i = Elsewhere"
| "member_loc (Loc a p) i = Loc a (p @ [i])"

text \<open>Reading member \<open>i\<close> of the struct that a pointer points to.\<close>

fun struct_member :: "gval \<Rightarrow> nat \<Rightarrow> gval run" where
  "struct_member (V_Struct vs) i = seq_at vs i"
| "struct_member v i = Fault Out_Of_Bounds"

fun deref_object :: "gval \<Rightarrow> 's PgfReader \<Rightarrow> gval run" where
  "deref_object (V_Ptr a) rdr = seq_at (heap rdr) a"
| "deref_object V_Null rdr = Fault Null_Deref"
| "deref_object v rdr = Fault Out_Of_Bounds"

definition get_member :: "gval \<Rightarrow> nat \<Rightarrow> 's PgfReader \<Rightarrow> gval run" where
  "get_member p i rdr = bindR (deref_object p rdr) (\<lambda>v. struct_member v i)"

fun set_member :: "gval \<Rightarrow> nat \<Rightarrow> gval \<Rightarrow> 's PgfReader \<Rightarrow> 's PgfReader run" where
  "set_member (V_Ptr a) i v rdr =
     bindR (seq_at (heap rdr) a) (\<lambda>old. Done (rdr\<lparr>heap := (heap rdr)[a := put_member [i] v old]\<rparr>))"
| "set_member V_Null i v rdr = Fault Null_Deref"
| "set_member w i v rdr = Fault Out_Of_Bounds"

text \<open>Maps.\<close>

definition new_map :: "'s PgfReader \<Rightarrow> nat \<times> 's PgfReader" where
  "new_map rdr = (length (maps rdr), rdr\<lparr>maps := maps rdr @ [[]]\<rparr>)"

fun map_put_entry :: "gval \<Rightarrow> gval \<Rightarrow> (gval \<times> gval) list \<Rightarrow> (gval \<times> gval) list" where
  "map_put_entry k v [] = [(k, v)]"
| "map_put_entry k v ((k', v') # es) = (if k' = k then (k, v) # es else (k', v') # map_put_entry k v es)"

definition map_put :: "nat \<Rightarrow> gval \<Rightarrow> gval \<Rightarrow> 's PgfReader \<Rightarrow> 's PgfReader run" where
  "map_put m k v rdr =
     bindR (seq_at (maps rdr) m) (\<lambda>es. Done (rdr\<lparr>maps := (maps rdr)[m := map_put_entry k v es]\<rparr>))"

definition map_get :: "nat \<Rightarrow> gval \<Rightarrow> gval \<Rightarrow> 's PgfReader \<Rightarrow> gval run" where
  "map_get m k dflt rdr =
     bindR (seq_at (maps rdr) m) (\<lambda>es. Done (case map_of es k of Some v \<Rightarrow> v | None \<Rightarrow> dflt))"

subsection \<open>Numbers\<close>

text \<open>The functions below read from a stream with the functions \<open>F\<close>.\<close>

definition pgf_read_u8 :: "'s GuInStreamFuns \<Rightarrow> (u8, 's) reading" where
  "pgf_read_u8 F rdr =
     bindR (gu_in_u8 F (rin rdr) (rerr rdr)) (\<lambda>(u, i, err). Done (u, rdr\<lparr>rin := i, rerr := err\<rparr>))"

text \<open>The loop of \<open>pgf_read_uint\<close>.\<close>

function uint_loop :: "'s GuInStreamFuns \<Rightarrow> u32 \<Rightarrow> nat \<Rightarrow> (u32, 's) reading" where
  "uint_loop F u shift rdr =
     bindR (pgf_read_u8 F rdr) (\<lambda>(b, rdr1).
       if rerr rdr1 \<noteq> None then Done (0, rdr1)
       else if shift \<ge> 32 then Fault Out_Of_Bounds
       else
         let u1 = u OR push_bit shift (ucast (b AND NOT 0x80)) in
         if b AND 0x80 \<noteq> 0 then uint_loop F u1 (shift + 7) rdr1 else Done (u1, rdr1))"
  by pat_completeness auto
termination by (relation "measure (\<lambda>(F, u, shift, rdr). 39 - shift)") auto

declare uint_loop.simps [simp del]

definition pgf_read_uint :: "'s GuInStreamFuns \<Rightarrow> (u32, 's) reading" where
  "pgf_read_uint F rdr = uint_loop F 0 0 rdr"

definition pgf_read_int :: "'s GuInStreamFuns \<Rightarrow> (int, 's) reading" where
  "pgf_read_int F rdr =
     bindR (pgf_read_uint F rdr) (\<lambda>(u, rdr1).
       case gu_decode_2c32 u of
         Some i \<Rightarrow> Done (i, rdr1)
       | None \<Rightarrow> Done (- 1, raise_in GuIntDecodeExn rdr1))"

definition pgf_read_len :: "'s GuInStreamFuns \<Rightarrow> (nat, 's) reading" where
  "pgf_read_len F rdr =
     bindR (pgf_read_int F rdr) (\<lambda>(len, rdr1).
       if rerr rdr1 \<noteq> None then Done (0, rdr1)
       else if len < 0 then Done (0, raise_in PgfReadTagExn rdr1)
       else Done (nat len, rdr1))"

subsection \<open>Strings\<close>

text \<open>Code points are copied to a string buffer, which is frozen and interned.\<close>

fun copy_ucs :: "'s GuInStreamFuns \<Rightarrow> nat \<Rightarrow> u8 GuBuf GuProxyOutStream GuWriter \<Rightarrow> (u8 GuBuf GuProxyOutStream GuWriter, 's) reading" where
  "copy_ucs F 0 wtr rdr = Done (wtr, rdr)"
| "copy_ucs F (Suc n) wtr rdr =
     bindR (gu_in_utf8 F (rin rdr) (rerr rdr)) (\<lambda>(ucs, i, err).
     bindR (gu_ucs_write sb_funs ucs wtr err) (\<lambda>(w, err1).
       copy_ucs F n w (rdr\<lparr>rin := i, rerr := err1\<rparr>)))"

fun copy_latin1 :: "'s GuInStreamFuns \<Rightarrow> nat \<Rightarrow> u8 GuBuf GuProxyOutStream GuWriter \<Rightarrow> (u8 GuBuf GuProxyOutStream GuWriter, 's) reading" where
  "copy_latin1 F 0 wtr rdr = Done (wtr, rdr)"
| "copy_latin1 F (Suc n) wtr rdr =
     bindR (gu_in_u8 F (rin rdr) (rerr rdr)) (\<lambda>(c, i, err).
     bindR (gu_ucs_write sb_funs (uint c) wtr err) (\<lambda>(w, err1).
       copy_latin1 F n w (rdr\<lparr>rin := i, rerr := err1\<rparr>)))"

definition intern_buf :: "u8 GuBuf GuProxyOutStream GuWriter \<Rightarrow> (gval, 's) reading" where
  "intern_buf wtr rdr =
     bindR (gu_string_buf_freeze \<lparr>sb_wtr = wtr\<rparr> (strings rdr)) (\<lambda>(str, sb, h).
     bindR (gu_symtable_intern (symtab rdr) str h) (\<lambda>(sym, tab, h1).
       Done (V_Str sym, rdr\<lparr>symtab := tab, strings := h1\<rparr>)))"

definition pgf_read_to_GuString :: "'s GuInStreamFuns \<Rightarrow> (gval, 's) reading" where
  "pgf_read_to_GuString F rdr =
     bindR (pgf_read_len F rdr) (\<lambda>(len, rdr1).
     bindR (copy_ucs F len (gu_string_buf_writer gu_string_buf) rdr1) (\<lambda>(wtr, rdr2). intern_buf wtr rdr2))"

definition pgf_read_to_PgfCId :: "'s GuInStreamFuns \<Rightarrow> (gval, 's) reading" where
  "pgf_read_to_PgfCId F rdr =
     bindR (pgf_read_len F rdr) (\<lambda>(len, rdr1).
     bindR (copy_latin1 F len (gu_string_buf_writer gu_string_buf) rdr1) (\<lambda>(wtr, rdr2). intern_buf wtr rdr2))"

subsection \<open>The generic readers\<close>

text \<open>What a run of the reader depends on: the functions of its stream, the order in which a hash table
  with the given entries enumerates them, and what the stack holds where a buffer is not initialised.\<close>

record 's ReaderEnv =
  efuns :: "'s GuInStreamFuns"
  eorder :: "(gval \<times> gval) list \<Rightarrow> (gval \<times> gval) list"
  ejunk :: "u8 list"

text \<open>The functions of the two type tables.\<close>

datatype PgfReadToFn =
    R_struct | R_GuVariant | R_enum | R_void | R_int32_t | R_uint16_t | R_GuLength | R_PgfCId | R_GuString | R_double
  | R_pointer | R_maybe_seq | R_GuSeq | R_PgfCCatId | R_PgfSeqId | R_PgfFunId | R_PgfContext | R_PgfKey | R_alias
  | R_referenced | R_idarray

datatype PgfReadNewFn = N_type | N_GuMap | N_PgfCatId | N_PgfCCat | N_PgfCncCat | N_PgfConcr

definition pgf_read_to_table :: "PgfReadToFn GuTypeTable" where
  "pgf_read_to_table = GuTypeTable []
     [(kind_struct, R_struct), (kind_GuVariant, R_GuVariant), (kind_enum, R_enum), (ty_void, R_void),
      (ty_int32_t, R_int32_t), (ty_uint16_t, R_uint16_t), (ty_GuLength, R_GuLength), (ty_PgfCId, R_PgfCId),
      (ty_GuString, R_GuString), (ty_double, R_double), (kind_pointer, R_pointer), (ty_PgfEquationsM, R_maybe_seq),
      (kind_GuSeq, R_GuSeq), (ty_PgfCCatId, R_PgfCCatId), (ty_PgfSeqId, R_PgfSeqId), (ty_PgfFunId, R_PgfFunId),
      (kind_PgfContext, R_PgfContext), (kind_PgfKey, R_PgfKey), (kind_alias, R_alias), (kind_referenced, R_referenced),
      (ty_PgfSequences, R_idarray), (ty_PgfCncFuns, R_idarray)]"

definition pgf_read_new_table :: "PgfReadNewFn GuTypeTable" where
  "pgf_read_new_table = GuTypeTable []
     [(kind_type, N_type), (kind_GuMap, N_GuMap), (ty_PgfCatId, N_PgfCatId), (ty_PgfCCat, N_PgfCCat),
      (ty_PgfCncCat, N_PgfCncCat), (ty_PgfConcr, N_PgfConcr)]"

type_synonym 's read_to = "GuType \<Rightarrow> loc \<Rightarrow> (gval, 's) reading"
type_synonym 's read_new = "GuType \<Rightarrow> (gval, 's) reading"

text \<open>The size of a type is taken from its representation, whose absence is a null pointer.\<close>

definition with_repr :: "GuType \<Rightarrow> 'a run \<Rightarrow> 'a run" where
  "with_repr type k = (if gu_type_repr 4 type = None then Fault Null_Deref else k)"

fun read_members :: "'s read_to \<Rightarrow> loc \<Rightarrow> nat \<Rightarrow> GuType list \<Rightarrow> (gval list, 's) reading" where
  "read_members rd to i [] rdr = Done ([], rdr)"
| "read_members rd to i (m # ms) rdr =
     bindR (rd m (member_loc to i) rdr) (\<lambda>(v, rdr1).
       let rdr2 = store (member_loc to i) v rdr1 in
       if rerr rdr2 \<noteq> None then Done ([v], rdr2)
       else bindR (read_members rd to (Suc i) ms rdr2) (\<lambda>(vs, rdr3). Done (v # vs, rdr3)))"

definition pgf_read_to_struct :: "'s read_to \<Rightarrow> GuType \<Rightarrow> loc \<Rightarrow> (gval, 's) reading" where
  "pgf_read_to_struct rd type to rdr =
     (case describe type of
        Some (D_Struct ms) \<Rightarrow> bindR (read_members rd to 0 ms rdr) (\<lambda>(vs, rdr1). Done (V_Struct vs, rdr1))
      | _ \<Rightarrow> Fault (Abort GU_ASSERT_ASSERTION))"

definition pgf_read_to_pointer :: "'s read_new \<Rightarrow> GuType \<Rightarrow> (gval, 's) reading" where
  "pgf_read_to_pointer rn type rdr =
     (case describe type of
        Some (D_Pointer pointed) \<Rightarrow>
          gu_require (gu_type_has_kind pointed kind_struct \<or> gu_type_has_kind pointed kind_abstract) (rn pointed rdr)
      | _ \<Rightarrow> Fault Out_Of_Bounds)"

definition pgf_read_to_GuVariant :: "'s GuInStreamFuns \<Rightarrow> 's read_to \<Rightarrow> GuType \<Rightarrow> (gval, 's) reading" where
  "pgf_read_to_GuVariant F rd type rdr =
     (case describe type of
        Some (D_Variant ctors) \<Rightarrow>
          bindR (pgf_read_u8 F rdr) (\<lambda>(btag, rdr1).
            if rerr rdr1 \<noteq> None then Done (V_Uninit, rdr1)
            else if unat btag \<ge> length ctors then Done (V_Uninit, raise_in PgfReadTagExn rdr1)
            else
              let ctor = ctors ! unat btag in
              with_repr ctor (bindR (rd ctor Elsewhere rdr1) (\<lambda>(v, rdr2). Done (V_Variant (unat btag) v, rdr2))))
      | _ \<Rightarrow> Fault Out_Of_Bounds)"

definition to_signed :: "nat \<Rightarrow> int \<Rightarrow> int" where
  "to_signed bits i = (i + 2 ^ (bits - 1)) mod 2 ^ bits - 2 ^ (bits - 1)"

definition pgf_read_to_enum :: "'s GuInStreamFuns \<Rightarrow> GuType \<Rightarrow> (gval, 's) reading" where
  "pgf_read_to_enum F type rdr =
     (case describe type of
        Some (D_Enum sz consts) \<Rightarrow>
          bindR (pgf_read_u8 F rdr) (\<lambda>(tag, rdr1).
            if rerr rdr1 \<noteq> None then Done (V_Uninit, rdr1)
            else if unat tag \<ge> length consts then Done (V_Uninit, raise_in PgfReadTagExn rdr1)
            else if sz \<in> {1, 2, 4, 8} then Done (V_Int (to_signed (8 * sz) (consts ! unat tag)), rdr1)
            else gu_impossible)
      | _ \<Rightarrow> Fault Out_Of_Bounds)"

definition pgf_read_to_void :: "(gval, 's) reading" where
  "pgf_read_to_void rdr = Done (V_Uninit, rdr)"

definition pgf_read_to_int32_t :: "'s GuInStreamFuns \<Rightarrow> (gval, 's) reading" where
  "pgf_read_to_int32_t F rdr = bindR (pgf_read_int F rdr) (\<lambda>(i, rdr1). Done (V_Int i, rdr1))"

definition pgf_read_to_uint16_t :: "'s GuInStreamFuns \<Rightarrow> u8 list \<Rightarrow> (gval, 's) reading" where
  "pgf_read_to_uint16_t F junk rdr =
     bindR (gu_in_u16be F junk (rin rdr) (rerr rdr)) (\<lambda>(u, i, err). Done (V_Int (uint u), rdr\<lparr>rin := i, rerr := err\<rparr>))"

definition pgf_read_to_GuLength :: "'s GuInStreamFuns \<Rightarrow> (gval, 's) reading" where
  "pgf_read_to_GuLength F rdr = bindR (pgf_read_len F rdr) (\<lambda>(n, rdr1). Done (V_Int (int n), rdr1))"

text \<open>A double is kept as the word of its bits.\<close>

definition pgf_read_to_double :: "'s GuInStreamFuns \<Rightarrow> u8 list \<Rightarrow> (gval, 's) reading" where
  "pgf_read_to_double F junk rdr =
     bindR (gu_in_f64be (\<lambda>w. w) F junk (rin rdr) (rerr rdr)) (\<lambda>(w, i, err). Done (V_Double w, rdr\<lparr>rin := i, rerr := err\<rparr>))"

definition pgf_read_to_alias :: "'s read_to \<Rightarrow> GuType \<Rightarrow> loc \<Rightarrow> (gval, 's) reading" where
  "pgf_read_to_alias rd type to rdr =
     (case describe type of Some (D_Alias t) \<Rightarrow> rd t to rdr | _ \<Rightarrow> Fault (Abort GU_ASSERT_ASSERTION))"

definition pgf_read_to_referenced :: "'s read_to \<Rightarrow> GuType \<Rightarrow> loc \<Rightarrow> (gval, 's) reading" where
  "pgf_read_to_referenced rd type to rdr =
     (case describe type of
        Some (D_Alias t) \<Rightarrow> rd t to (rdr\<lparr>ctx := (type, to) # ctx rdr\<rparr>)
      | _ \<Rightarrow> Fault (Abort GU_ASSERT_ASSERTION))"

text \<open>The loop of \<open>pgf_read_into_map\<close>, which stops at an exception and tells whether it has come to its end.\<close>

fun map_entries :: "'s read_to \<Rightarrow> 's read_new \<Rightarrow> bool \<Rightarrow> GuType \<Rightarrow> GuType \<Rightarrow> nat \<Rightarrow> nat \<Rightarrow> (bool, 's) reading" where
  "map_entries rd rn hashed kt vt m 0 rdr = Done (True, rdr)"
| "map_entries rd rn hashed kt vt m (Suc n) rdr =
     bindR (if hashed then rd kt Elsewhere rdr else rn kt rdr) (\<lambda>(key, rdr1).
       if rerr rdr1 \<noteq> None then Done (False, rdr1)
       else bindR (rd vt Elsewhere (rdr1\<lparr>curr_key := key\<rparr>)) (\<lambda>(v, rdr2).
         if rerr rdr2 \<noteq> None then Done (False, rdr2)
         else bindR (map_put m key v rdr2) (\<lambda>rdr3. map_entries rd rn hashed kt vt m n rdr3)))"

definition pgf_read_into_map ::
  "'s GuInStreamFuns \<Rightarrow> 's read_to \<Rightarrow> 's read_new \<Rightarrow> GuType \<Rightarrow> nat \<Rightarrow> 's PgfReader \<Rightarrow> 's PgfReader run" where
  "pgf_read_into_map F rd rn type m rdr =
     (case describe type of
        Some (D_Map hashed kt vt) \<Rightarrow>
          bindR (pgf_read_len F rdr) (\<lambda>(len, rdr1).
            if rerr rdr1 \<noteq> None then Done rdr1
            else bindR (map_entries rd rn hashed kt vt m len rdr1) (\<lambda>(complete, rdr2).
              Done (if complete then rdr2\<lparr>curr_key := curr_key rdr\<rparr> else rdr2)))
      | _ \<Rightarrow> Fault Out_Of_Bounds)"

definition pgf_read_new_GuMap :: "'s GuInStreamFuns \<Rightarrow> 's read_to \<Rightarrow> 's read_new \<Rightarrow> GuType \<Rightarrow> (gval, 's) reading" where
  "pgf_read_new_GuMap F rd rn type rdr =
     (case new_map rdr of (m, rdr1) \<Rightarrow>
        bindR (pgf_read_into_map F rd rn type m rdr1) (\<lambda>rdr2.
          Done (if rerr rdr2 \<noteq> None then V_Null else V_Map m, rdr2)))"

definition pgf_read_new_type :: "'s read_to \<Rightarrow> GuType \<Rightarrow> (gval, 's) reading" where
  "pgf_read_new_type rd type rdr =
     with_repr type
       (case new_object V_Uninit rdr of (a, rdr1) \<Rightarrow>
          bindR (rd type (Loc a []) rdr1) (\<lambda>(v, rdr2). Done (V_Ptr a, store (Loc a []) v rdr2)))"

text \<open>The loop over the elements of a sequence; the key is the index.\<close>

fun read_elems :: "'s read_to \<Rightarrow> GuType \<Rightarrow> nat \<Rightarrow> nat \<Rightarrow> (gval list, 's) reading" where
  "read_elems rd et i 0 rdr = Done ([], rdr)"
| "read_elems rd et i (Suc n) rdr =
     bindR (rd et Elsewhere (rdr\<lparr>curr_key := V_Int (int i)\<rparr>)) (\<lambda>(v, rdr1).
       if rerr rdr1 \<noteq> None then Done ([], rdr1)
       else bindR (read_elems rd et (Suc i) n rdr1) (\<lambda>(vs, rdr2). Done (v # vs, rdr2)))"

definition pgf_read_to_GuSeq :: "'s GuInStreamFuns \<Rightarrow> 's read_to \<Rightarrow> GuType \<Rightarrow> (gval, 's) reading" where
  "pgf_read_to_GuSeq F rd type rdr =
     (case describe type of
        Some (D_Seq et) \<Rightarrow>
          bindR (pgf_read_len F rdr) (\<lambda>(len, rdr1).
            if rerr rdr1 \<noteq> None then Done (V_Uninit, rdr1)
            else with_repr et (bindR (read_elems rd et 0 len rdr1) (\<lambda>(vs, rdr2).
              if rerr rdr2 \<noteq> None then Done (V_Uninit, rdr2)
              else Done (V_Seq vs, rdr2\<lparr>curr_key := curr_key rdr\<rparr>))))
      | _ \<Rightarrow> Fault (Abort GU_ASSERT_ASSERTION))"

definition pgf_read_to_maybe_seq :: "'s GuInStreamFuns \<Rightarrow> 's read_to \<Rightarrow> GuType \<Rightarrow> (gval, 's) reading" where
  "pgf_read_to_maybe_seq F rd type rdr =
     bindR (pgf_read_u8 F rdr) (\<lambda>(tag, rdr1).
       if rerr rdr1 \<noteq> None then Done (V_Uninit, rdr1)
       else if tag = 0 then Done (V_NullSeq, rdr1)
       else if tag = 1 then pgf_read_to_GuSeq F rd type rdr1
       else Done (V_Uninit, raise_in PgfReadTagExn rdr1))"

definition pgf_read_to_idarray :: "'s GuInStreamFuns \<Rightarrow> 's read_to \<Rightarrow> GuType \<Rightarrow> (gval, 's) reading" where
  "pgf_read_to_idarray F rd type rdr =
     bindR (pgf_read_to_GuSeq F rd type rdr) (\<lambda>(v, rdr1).
       if rerr rdr1 \<noteq> None then Done (v, rdr1)
       else if type = ty_PgfSequences then Done (v, rdr1\<lparr>curr_sequences := v\<rparr>)
       else if type = ty_PgfCncFuns then Done (v, rdr1\<lparr>curr_cncfuns := v\<rparr>)
       else gu_impossible)"

subsection \<open>References and keys\<close>

text \<open>What \<open>curr_key\<close> points to: an integer or a string, or an object, whose first word is then read.\<close>

definition key_word :: "'s PgfReader \<Rightarrow> gval run" where
  "key_word rdr =
     (case curr_key rdr of
        V_Ptr a \<Rightarrow> get_member (V_Ptr a) 0 rdr
      | V_Uninit \<Rightarrow> Fault Out_Of_Bounds
      | v \<Rightarrow> Done v)"

definition pgf_read_to_PgfKey :: "(gval, 's) reading" where
  "pgf_read_to_PgfKey rdr = bindR (key_word rdr) (\<lambda>v. Done (v, rdr))"

text \<open>The pointer that the context holds for a type, null if there is none.\<close>

definition context_ptr :: "GuType \<Rightarrow> 's PgfReader \<Rightarrow> gval" where
  "context_ptr type rdr =
     (case map_of (ctx rdr) type of
        None \<Rightarrow> V_Null
      | Some (Loc a []) \<Rightarrow> V_Ptr a
      | Some l \<Rightarrow> V_Uninit)"

definition pgf_read_to_PgfContext :: "GuType \<Rightarrow> (gval, 's) reading" where
  "pgf_read_to_PgfContext type rdr =
     (case describe type of
        Some (D_Pointer pointed) \<Rightarrow> Done (context_ptr pointed rdr, rdr)
      | _ \<Rightarrow> Fault (Abort GU_ASSERT_ASSERTION))"

fun seq_elems :: "gval \<Rightarrow> gval list run" where
  "seq_elems (V_Seq vs) = Done vs"
| "seq_elems V_NullSeq = Fault Null_Deref"
| "seq_elems v = Fault Out_Of_Bounds"

text \<open>An element of the current sequences or functions.\<close>

definition read_index :: "'s GuInStreamFuns \<Rightarrow> ('s PgfReader \<Rightarrow> gval) \<Rightarrow> (gval, 's) reading" where
  "read_index F arr rdr =
     bindR (pgf_read_int F rdr) (\<lambda>(i, rdr1).
       if rerr rdr1 \<noteq> None then Done (V_Uninit, rdr1)
       else if i < 0 then Done (V_Uninit, raise_in PgfReadExn rdr1)
       else bindR (seq_elems (arr rdr1)) (\<lambda>vs.
         if nat i \<ge> length vs then Done (V_Uninit, raise_in PgfReadExn rdr1)
         else Done (vs ! nat i, rdr1)))"

definition pgf_read_to_PgfSeqId :: "'s GuInStreamFuns \<Rightarrow> (gval, 's) reading" where
  "pgf_read_to_PgfSeqId F rdr = read_index F curr_sequences rdr"

definition pgf_read_to_PgfFunId :: "'s GuInStreamFuns \<Rightarrow> (gval, 's) reading" where
  "pgf_read_to_PgfFunId F rdr = read_index F curr_cncfuns rdr"

text \<open>A map that has not been set is an uninitialised pointer.\<close>

definition with_map :: "nat option \<Rightarrow> (nat \<Rightarrow> 'a run) \<Rightarrow> 'a run" where
  "with_map m k = (case m of None \<Rightarrow> Fault Out_Of_Bounds | Some i \<Rightarrow> k i)"

text \<open>An object of type \<open>PgfCCat\<close> has the members \<open>cnccat\<close>, \<open>prods\<close> and \<open>fid\<close>.\<close>

definition pgf_reader_intern_ccat :: "int \<Rightarrow> (gval, 's) reading" where
  "pgf_reader_intern_ccat fid rdr =
     with_map (curr_ccats rdr) (\<lambda>m.
       bindR (map_get m (V_Int fid) V_Null rdr) (\<lambda>p.
         if p \<noteq> V_Null then Done (p, rdr)
         else case new_object (V_Struct [V_Null, V_NullSeq, V_Int fid]) rdr of
           (a, rdr1) \<Rightarrow> bindR (map_put m (V_Int fid) (V_Ptr a) rdr1) (\<lambda>rdr2. Done (V_Ptr a, rdr2))))"

definition pgf_read_to_PgfCCatId :: "'s GuInStreamFuns \<Rightarrow> (gval, 's) reading" where
  "pgf_read_to_PgfCCatId F rdr =
     bindR (pgf_read_int F rdr) (\<lambda>(fid, rdr1).
       if rerr rdr1 \<noteq> None then Done (V_Uninit, rdr1) else pgf_reader_intern_ccat fid rdr1)"

subsection \<open>Concrete syntaxes\<close>

definition pgf_read_new_PgfCCat :: "'s read_to \<Rightarrow> (gval, 's) reading" where
  "pgf_read_new_PgfCCat rd rdr =
     bindR (key_word rdr) (\<lambda>k.
       case k of
         V_Int fid \<Rightarrow> bindR (pgf_reader_intern_ccat fid rdr) (\<lambda>(p, rdr1).
           bindR (rd ty_PgfProductions Elsewhere rdr1) (\<lambda>(v, rdr2).
             if rerr rdr2 \<noteq> None then Done (p, rdr2)
             else bindR (set_member p 1 v rdr2) (\<lambda>rdr3. Done (p, rdr3))))
       | _ \<Rightarrow> Fault Out_Of_Bounds)"

text \<open>Propagating the concrete category through coercions. The recursion of the code follows the coercions; it need not
  end when they are cyclic.\<close>

fun pgf_ccat_set_cnccat :: "nat \<Rightarrow> gval \<Rightarrow> gval list \<Rightarrow> 's PgfReader \<Rightarrow> (gval \<times> gval list \<times> 's PgfReader) run" where
  "pgf_ccat_set_cnccat 0 ccat newly_set rdr = Out_Of_Fuel"
| "pgf_ccat_set_cnccat (Suc n) ccat newly_set rdr =
     bindR (get_member ccat 0 rdr) (\<lambda>cnccat.
       if cnccat \<noteq> V_Null then Done (cnccat, newly_set, rdr)
       else bindR (get_member ccat 1 rdr) (\<lambda>prods. bindR (seq_elems prods) (\<lambda>ps.
         bindR (foldR (\<lambda>p (set, rdr).
             case p of
               V_Variant (Suc 0) (V_Struct [coerce]) \<Rightarrow>
                 bindR (pgf_ccat_set_cnccat n coerce set rdr) (\<lambda>(cc, set1, rdr1).
                 bindR (get_member ccat 0 rdr1) (\<lambda>old.
                   if old = V_Null then bindR (set_member ccat 0 cc rdr1) (\<lambda>rdr2. Done (set1, rdr2))
                   else if old \<noteq> cc then gu_impossible
                   else Done (set1, rdr1)))
             | _ \<Rightarrow> gu_impossible) ps (newly_set, rdr)) (\<lambda>(set, rdr1).
         bindR (get_member ccat 0 rdr1) (\<lambda>cc. Done (cc, set @ [ccat], rdr1))))))"

definition pgf_read_ccat_cb :: "nat \<Rightarrow> gval \<times> gval \<Rightarrow> gval list \<times> 's PgfReader \<Rightarrow> (gval list \<times> 's PgfReader) run" where
  "pgf_read_ccat_cb fuel entry st =
     bindR (pgf_ccat_set_cnccat fuel (snd entry) (fst st) (snd st)) (\<lambda>(cc, set, rdr). Done (set, rdr))"

text \<open>The number of constituents, which all applicative productions of a category must agree on; -1 if it is not known yet.\<close>

fun pgf_ccat_n_ctnts :: "nat \<Rightarrow> gval \<Rightarrow> int \<Rightarrow> 's PgfReader \<Rightarrow> (bool \<times> int) run" where
  "pgf_ccat_n_ctnts 0 cat n_ctnts rdr = Out_Of_Fuel"
| "pgf_ccat_n_ctnts (Suc n) cat n_ctnts rdr =
     bindR (get_member cat 1 rdr) (\<lambda>prods.
       if prods = V_NullSeq then Done (True, n_ctnts)
       else bindR (seq_elems prods) (\<lambda>ps.
         foldR (\<lambda>p (ok, k).
             if \<not> ok then Done (False, k)
             else case p of
               V_Variant 0 (V_Struct [f, args]) \<Rightarrow>
                 bindR (get_member f 1 rdr) (\<lambda>lins. bindR (seq_elems lins) (\<lambda>ls.
                   let old = int (length ls) in
                   if k = - 1 then Done (True, old) else Done (k = old, k)))
             | V_Variant (Suc 0) (V_Struct [coerce]) \<Rightarrow> pgf_ccat_n_ctnts n coerce k rdr
             | _ \<Rightarrow> gu_impossible) ps (True, n_ctnts)))"

text \<open>The numbers of the functions. An object of type \<open>PgfCncFun\<close> has the members \<open>fun\<close>, \<open>lins\<close> and \<open>fid\<close>.\<close>

fun number_cncfuns :: "nat \<Rightarrow> gval list \<Rightarrow> 's PgfReader \<Rightarrow> 's PgfReader run" where
  "number_cncfuns i [] rdr = Done rdr"
| "number_cncfuns i (f # fs) rdr = bindR (set_member f 2 (V_Int (int i)) rdr) (\<lambda>rdr1. number_cncfuns (Suc i) fs rdr1)"

text \<open>An object of type \<open>PgfConcr\<close> has the members \<open>pgf\<close>, \<open>id\<close>, \<open>cflags\<close>, \<open>printnames\<close>, \<open>cnccats\<close> and \<open>extra_ccats\<close>.\<close>

definition pgf_read_new_PgfConcr :: "'s ReaderEnv \<Rightarrow> nat \<Rightarrow> 's read_to \<Rightarrow> 's read_new \<Rightarrow> (gval, 's) reading" where
  "pgf_read_new_PgfConcr E fuel rd rn rdr0 =
     (let F = efuns E in
      bindR (key_word rdr0) (\<lambda>cid.
      case new_object (V_Struct [context_ptr ty_PgfPGF rdr0, cid, V_Uninit, V_Uninit, V_Uninit, V_Uninit]) rdr0 of (a, rdr1) \<Rightarrow>
      let concr = V_Ptr a in
      bindR (rn ty_PgfFlags rdr1) (\<lambda>(cflags, rdr2).
      bindR (set_member concr 2 cflags rdr2) (\<lambda>rdr3.
      bindR (rn ty_PgfPrintNames rdr3) (\<lambda>(printnames, rdr4).
      bindR (set_member concr 3 printnames rdr4) (\<lambda>rdr5.
      bindR (rd ty_PgfSequences Elsewhere rdr5) (\<lambda>(seqs, rdr6).
      bindR (rd ty_PgfCncFuns Elsewhere rdr6) (\<lambda>(funs, rdr7).
      if rerr rdr7 \<noteq> None then Done (concr, rdr7)
      else
        bindR (seq_elems (curr_cncfuns rdr7)) (\<lambda>fs.
        bindR (number_cncfuns 0 fs rdr7) (\<lambda>rdr8.
        case new_map rdr8 of (ml, rdr9) \<Rightarrow>
        bindR (pgf_read_into_map F rd rn ty_PgfLinDefs ml (rdr9\<lparr>curr_lindefs := Some ml\<rparr>)) (\<lambda>rdr10.
        case new_map rdr10 of (mc, rdr11) \<Rightarrow>
        bindR (pgf_read_into_map F rd rn ty_PgfCCatMap mc (rdr11\<lparr>curr_ccats := Some mc\<rparr>)) (\<lambda>rdr12.
        bindR (rn ty_PgfCncCatMap rdr12) (\<lambda>(cnccats, rdr13).
        bindR (set_member concr 4 cnccats rdr13) (\<lambda>rdr14.
        bindR (seq_at (maps rdr14) mc) (\<lambda>es.
        bindR (foldR (pgf_read_ccat_cb fuel) (eorder E es) ([], rdr14)) (\<lambda>(extra, rdr15).
        bindR (set_member concr 5 (V_Seq extra) rdr15) (\<lambda>rdr16.
        bindR (pgf_read_int F rdr16) (\<lambda>(totalcats, rdr17). Done (concr, rdr17)))))))))))))))))))"

text \<open>A category of the abstract syntax, found in or added to the map of the grammar. The struct \<open>PgfPGF\<close> has \<open>abstract\<close>
  as member 3, and that has \<open>cats\<close> as member 3.\<close>

definition abstract_cats :: "gval \<Rightarrow> 's PgfReader \<Rightarrow> gval run" where
  "abstract_cats pgf rdr = bindR (get_member pgf 3 rdr) (\<lambda>abstr. struct_member abstr 3)"

definition pgf_read_new_PgfCatId :: "'s GuInStreamFuns \<Rightarrow> (gval, 's) reading" where
  "pgf_read_new_PgfCatId F rdr =
     (let pgf = context_ptr ty_PgfPGF rdr in
      bindR (pgf_read_to_PgfCId F rdr) (\<lambda>(cid, rdr1).
        if rerr rdr1 \<noteq> None then Done (V_Null, rdr1)
        else bindR (abstract_cats pgf rdr1) (\<lambda>cats.
          case cats of
            V_Map m \<Rightarrow> bindR (map_get m cid V_Null rdr1) (\<lambda>cat.
              if cat \<noteq> V_Null then Done (cat, rdr1)
              else case new_object (V_Struct [pgf, cid, V_Seq [], V_Seq []]) rdr1 of
                (a, rdr2) \<Rightarrow> bindR (map_put m cid (V_Ptr a) rdr2) (\<lambda>rdr3. Done (V_Ptr a, rdr3)))
          | V_Null \<Rightarrow> Fault Null_Deref
          | _ \<Rightarrow> Fault Out_Of_Bounds)))"

text \<open>The categories in the range of a concrete category, the first \<open>len\<close> from \<open>first\<close> on.\<close>

fun link_ccats :: "nat \<Rightarrow> gval \<Rightarrow> int \<Rightarrow> nat \<Rightarrow> int \<Rightarrow> 's PgfReader \<Rightarrow> (gval list option \<times> int \<times> 's PgfReader) run" where
  "link_ccats fuel cnccat first 0 n_ctnts rdr = Done (Some [], n_ctnts, rdr)"
| "link_ccats fuel cnccat first (Suc len) n_ctnts rdr =
     with_map (curr_ccats rdr) (\<lambda>m.
     bindR (map_get m (V_Int first) V_Null rdr) (\<lambda>ccat.
       if ccat = V_Null then
         bindR (link_ccats fuel cnccat (first + 1) len n_ctnts rdr) (\<lambda>(cs, k, rdr1). Done (map_option ((#) ccat) cs, k, rdr1))
       else
         bindR (set_member ccat 0 cnccat rdr) (\<lambda>rdr1.
         bindR (pgf_ccat_n_ctnts fuel ccat n_ctnts rdr1) (\<lambda>(ok, k).
           if \<not> ok then Done (None, k, raise_in PgfReadExn rdr1)
           else bindR (link_ccats fuel cnccat (first + 1) len k rdr1) (\<lambda>(cs, k', rdr2).
             Done (map_option ((#) ccat) cs, k', rdr2))))))"

text \<open>An object of type \<open>PgfCncCat\<close> has the members \<open>cid\<close>, \<open>cats\<close>, \<open>n_ctnts\<close>, \<open>lindefs\<close> and \<open>ctnts\<close>. The length of the range is
  computed in 32 bits; a negative one is a size that no allocation can serve.\<close>

definition pgf_read_new_PgfCncCat :: "'s GuInStreamFuns \<Rightarrow> nat \<Rightarrow> 's read_to \<Rightarrow> (gval, 's) reading" where
  "pgf_read_new_PgfCncCat F fuel rd rdr0 =
     bindR (key_word rdr0) (\<lambda>cid.
     case new_object (V_Struct [cid, V_Uninit, V_Uninit, V_Uninit, V_Uninit]) rdr0 of (a, rdr1) \<Rightarrow>
     let cnccat = V_Ptr a in
     bindR (pgf_read_int F rdr1) (\<lambda>(first, rdr2).
     bindR (pgf_read_int F rdr2) (\<lambda>(last, rdr3).
       let len = last + 1 - first in
       if len < 0 \<or> len \<ge> 2 ^ 31 \<or> last + 1 \<ge> 2 ^ 31 then Fault Out_Of_Bounds
       else bindR (link_ccats fuel cnccat first (nat len) (- 1) rdr3) (\<lambda>(cats, n_ctnts, rdr4).
         case cats of
           None \<Rightarrow> Done (V_Null, rdr4)
         | Some cs \<Rightarrow>
             with_map (curr_lindefs rdr4) (\<lambda>ml.
             bindR (map_get ml (V_Int first) V_NullSeq rdr4) (\<lambda>lindefs.
             bindR (set_member cnccat 1 (V_Seq cs) rdr4) (\<lambda>rdr5.
             bindR (set_member cnccat 2 (V_Int (if n_ctnts = - 1 then 0 else n_ctnts)) rdr5) (\<lambda>rdr6.
             bindR (set_member cnccat 3 lindefs rdr6) (\<lambda>rdr7.
             bindR (rd ty_GuStrings Elsewhere rdr7) (\<lambda>(ctnts, rdr8).
               if rerr rdr8 \<noteq> None then Done (cnccat, rdr8)
               else bindR (set_member cnccat 4 ctnts rdr8) (\<lambda>rdr9. Done (cnccat, rdr9))))))))))))"

subsection \<open>Dispatch\<close>

definition run_read_to :: "'s ReaderEnv \<Rightarrow> 's read_to \<Rightarrow> 's read_new \<Rightarrow> PgfReadToFn \<Rightarrow> 's read_to" where
  "run_read_to E rd rn fn type to rdr =
     (let F = efuns E in
      case fn of
        R_struct \<Rightarrow> pgf_read_to_struct rd type to rdr
      | R_GuVariant \<Rightarrow> pgf_read_to_GuVariant F rd type rdr
      | R_enum \<Rightarrow> pgf_read_to_enum F type rdr
      | R_void \<Rightarrow> pgf_read_to_void rdr
      | R_int32_t \<Rightarrow> pgf_read_to_int32_t F rdr
      | R_uint16_t \<Rightarrow> pgf_read_to_uint16_t F (ejunk E) rdr
      | R_GuLength \<Rightarrow> pgf_read_to_GuLength F rdr
      | R_PgfCId \<Rightarrow> pgf_read_to_PgfCId F rdr
      | R_GuString \<Rightarrow> pgf_read_to_GuString F rdr
      | R_double \<Rightarrow> pgf_read_to_double F (ejunk E) rdr
      | R_pointer \<Rightarrow> pgf_read_to_pointer rn type rdr
      | R_maybe_seq \<Rightarrow> pgf_read_to_maybe_seq F rd type rdr
      | R_GuSeq \<Rightarrow> pgf_read_to_GuSeq F rd type rdr
      | R_PgfCCatId \<Rightarrow> pgf_read_to_PgfCCatId F rdr
      | R_PgfSeqId \<Rightarrow> pgf_read_to_PgfSeqId F rdr
      | R_PgfFunId \<Rightarrow> pgf_read_to_PgfFunId F rdr
      | R_PgfContext \<Rightarrow> pgf_read_to_PgfContext type rdr
      | R_PgfKey \<Rightarrow> pgf_read_to_PgfKey rdr
      | R_alias \<Rightarrow> pgf_read_to_alias rd type to rdr
      | R_referenced \<Rightarrow> pgf_read_to_referenced rd type to rdr
      | R_idarray \<Rightarrow> pgf_read_to_idarray F rd type rdr)"

definition run_read_new :: "'s ReaderEnv \<Rightarrow> nat \<Rightarrow> 's read_to \<Rightarrow> 's read_new \<Rightarrow> PgfReadNewFn \<Rightarrow> 's read_new" where
  "run_read_new E fuel rd rn fn type rdr =
     (let F = efuns E in
      case fn of
        N_type \<Rightarrow> pgf_read_new_type rd type rdr
      | N_GuMap \<Rightarrow> pgf_read_new_GuMap F rd rn type rdr
      | N_PgfCatId \<Rightarrow> pgf_read_new_PgfCatId F rdr
      | N_PgfCCat \<Rightarrow> pgf_read_new_PgfCCat rd rdr
      | N_PgfCncCat \<Rightarrow> pgf_read_new_PgfCncCat F fuel rd rdr
      | N_PgfConcr \<Rightarrow> pgf_read_new_PgfConcr E fuel rd rn rdr)"

text \<open>A type without an entry gives a null pointer, through which the function is called.\<close>

fun pgf_read_to :: "'s ReaderEnv \<Rightarrow> nat \<Rightarrow> 's read_to"
  and pgf_read_new :: "'s ReaderEnv \<Rightarrow> nat \<Rightarrow> 's read_new" where
  "pgf_read_to E 0 type to rdr = Out_Of_Fuel"
| "pgf_read_to E (Suc n) type to rdr =
     (case gu_type_map_get (gu_new_type_map pgf_read_to_table) type of
        None \<Rightarrow> Fault Null_Deref
      | Some fn \<Rightarrow> run_read_to E (pgf_read_to E n) (pgf_read_new E n) fn type to rdr)"
| "pgf_read_new E 0 type rdr = Out_Of_Fuel"
| "pgf_read_new E (Suc n) type rdr =
     (case gu_type_map_get (gu_new_type_map pgf_read_new_table) type of
        None \<Rightarrow> Fault Null_Deref
      | Some fn \<Rightarrow> run_read_new E n (pgf_read_to E n) (pgf_read_new E n) fn type rdr)"

definition pgf_new_reader :: "'s GuIn \<Rightarrow> GuErr \<Rightarrow> 's PgfReader" where
  "pgf_new_reader i err =
     \<lparr>rin = i, rerr = err, heap = [], maps = [], strings = [], symtab = [], curr_sequences = V_NullSeq,
      curr_cncfuns = V_NullSeq, curr_ccats = None, curr_lindefs = None, curr_key = V_Uninit, ctx = []\<rparr>"

definition pgf_read_pgf :: "'s ReaderEnv \<Rightarrow> nat \<Rightarrow> 's GuIn \<Rightarrow> GuErr \<Rightarrow> (gval \<times> 's PgfReader) run" where
  "pgf_read_pgf E fuel i err =
     bindR (pgf_read_new E fuel ty_PgfPGF (pgf_new_reader i err)) (\<lambda>(p, rdr).
       Done (if rerr rdr \<noteq> None then V_Null else p, rdr))"

end
