(* ===== verification/ReaderNum.thy ===== *)
theory ReaderNum
  imports Reader
begin

unbundle bit_operations_syntax

text \<open>
  What the primitive readers of \<open>Reader\<close> do: bytes, the variable-length integers, lengths, fixed-width numbers and
  strings. \<open>reader_stream\<close> is the contract of the stream that a grammar is read from. Each reader has two lemmas: it reads
  back the encoding of a value, and on arbitrary input it ends with an exception or with a value of its type, having consumed input.
\<close>

subsection \<open>Variable-length integers\<close>

text \<open>The encoding: seven bits to a byte, the lowest first, with the top bit set in all bytes but the last.\<close>

fun varint :: "nat \<Rightarrow> u8 list" where
  "varint n = (if n < 128 then [word_of_nat n] else word_of_nat (n mod 128 + 128) # varint (n div 128))"

declare varint.simps [simp del]

definition int_bytes :: "int \<Rightarrow> u8 list" where
  "int_bytes i = varint (nat (i mod 2 ^ 32))"

lemma varint_not_empty: "varint n \<noteq> []"
  by (subst varint.simps) simp

lemma low_bits: "uint (b AND NOT 0x80 :: u8) = uint b mod 128"
proof -
  have "NOT 0x80 = (mask 7 :: u8)" by (simp add: mask_eq_exp_minus_1)
  then have "b AND NOT 0x80 = take_bit 7 b" by (simp add: take_bit_eq_mask)
  then have "uint (b AND NOT 0x80) = take_bit 7 (uint b)" by (simp only: unsigned_take_bit_eq)
  then show ?thesis by (simp only: take_bit_eq_mod) simp
qed

lemma top_bit: "b AND 0x80 \<noteq> (0 :: u8) \<longleftrightarrow> 128 \<le> uint b"
proof -
  have "b AND 0x80 = 0 \<longleftrightarrow> \<not> bit b 7" using and_exp_eq_0_iff_not_bit [of b 7] by simp
  moreover have "bit b 7 \<longleftrightarrow> odd (uint b div 128)"
    using bit_uint_iff [of b 7] by (simp add: bit_iff_odd)
  moreover have "0 \<le> uint b" "uint b < 256" using uint_lt2p [of b] by simp_all
  moreover from this have "uint b div 128 = (if 128 \<le> uint b then 1 else 0)"
    by (cases "128 \<le> uint b") (auto simp: div_pos_pos_trivial)
  ultimately show ?thesis by auto
qed

text \<open>One step of the loop adds the seven bits above the bits read so far.\<close>

lemma add_bits:
  assumes "uint (u :: u32) < 2 ^ s" and "s < 32" and "uint u + uint (x :: u8) * 2 ^ s < 2 ^ 32"
  shows "uint (u OR push_bit s (ucast x)) = uint u + uint x * 2 ^ s"
proof -
  have x: "uint (ucast x :: u32) = uint x"
    using uint_lt2p [of x] by (simp add: unsigned_ucast_eq take_bit_int_eq_self)
  have "uint x * 2 ^ s < 2 ^ 32" using assms(3) uint_ge_0 [of u] by linarith
  then have "uint (push_bit s (ucast x :: u32)) = push_bit s (uint x)"
    by (subst unsigned_push_bit_eq) (simp add: x push_bit_eq_mult take_bit_int_eq_self)
  then have "uint (u OR push_bit s (ucast x)) = push_bit s (uint x) OR uint u"
    by (simp add: unsigned_or_eq or.commute)
  also have "\<dots> = uint x * 2 ^ s + uint u" by (rule or_shift) (use assms(1) in simp_all)
  finally show ?thesis by simp
qed

lemma varint_byte:
  "n < 128 \<Longrightarrow> uint (word_of_nat n :: u8) = int n"
  "uint (word_of_nat (n mod 128 + 128) :: u8) = int (n mod 128) + 128"
proof -
  show "n < 128 \<Longrightarrow> uint (word_of_nat n :: u8) = int n"
    by (simp add: unsigned_of_nat take_bit_nat_eq_self)
  have "take_bit 8 (n mod 128 + 128) = n mod 128 + 128" by (rule take_bit_nat_eq_self) simp
  then show "uint (word_of_nat (n mod 128 + 128) :: u8) = int (n mod 128) + 128"
    by (simp only: unsigned_of_nat) (simp add: zmod_int)
qed

subsection \<open>Fixed-width numbers\<close>

definition be_bytes :: "nat \<Rightarrow> int \<Rightarrow> u8 list" where
  "be_bytes k x = map (\<lambda>i. word_of_int (x div 256 ^ i)) (rev [0..<k])"

lemma length_be_bytes [simp]: "length (be_bytes k x) = k"
  by (simp add: be_bytes_def)

lemma be_bytes_Suc: "be_bytes (Suc k) x = be_bytes k (x div 256) @ [word_of_int x]"
proof -
  have "rev [0..<Suc k] = map Suc (rev [0..<k]) @ [0]"
    by (simp add: upt_conv_Cons map_Suc_upt [symmetric] rev_map del: upt_Suc map_Suc_upt)
  then show ?thesis by (simp add: be_bytes_def zdiv_zmult2_eq comp_def)
qed

lemma be_value_bytes: "be_value (be_bytes k x) = x mod 256 ^ k"
proof (induction k arbitrary: x)
  case (Suc k)
  have "x mod 256 ^ Suc k = 256 * (x div 256 mod 256 ^ k) + x mod 256"
    using zmod_zmult2_eq [of "256 ^ k" x 256] by simp
  moreover have "uint (word_of_int x :: u8) = x mod 256" by (simp add: uint_word_of_int)
  ultimately show ?case using Suc by (simp add: be_bytes_Suc be_value_def)
qed (simp add: be_bytes_def be_value_def)

subsection \<open>The stream of a reader\<close>

locale reader_stream = in_stream F contents lent inv drained + raising: raising_in F
  for F :: "'s GuInStreamFuns" and contents lent inv drained
begin

definition bytes_left :: "'s PgfReader \<Rightarrow> u8 list" where
  "bytes_left rdr = in_contents (rin rdr)"

text \<open>The reader has no exception and its strings and symbols are in order. There is room in the store of strings for
  what a string that is read takes, which is two objects for each byte of input at most.\<close>

definition rd_ok :: "'s PgfReader \<Rightarrow> bool" where
  "rd_ok rdr \<longleftrightarrow> in_ok (rin rdr) \<and> rerr rdr = None \<and> (\<exists>bss. table_ok (strings rdr) (symtab rdr) bss) \<and>
     length (strings rdr) + 2 * length (bytes_left rdr) < 2 ^ 59"

text \<open>Only the input has changed, of which \<open>bs\<close> is left.\<close>

definition moved :: "'s PgfReader \<Rightarrow> u8 list \<Rightarrow> 's PgfReader \<Rightarrow> bool" where
  "moved rdr bs rdr' \<longleftrightarrow> (\<exists>i. rdr' = rdr\<lparr>rin := i\<rparr> \<and> in_ok i \<and> in_contents i = bs)"

text \<open>How a reader of a number ends: with an exception, or with a number and less input.\<close>

definition num_end :: "('a \<Rightarrow> bool) \<Rightarrow> 's PgfReader \<Rightarrow> 'a \<times> 's PgfReader \<Rightarrow> bool" where
  "num_end P rdr r \<longleftrightarrow> rerr (snd r) \<noteq> None \<or>
     (P (fst r) \<and> (\<exists>bs. moved rdr bs (snd r) \<and> length bs < length (bytes_left rdr)))"

lemma moved_ok:
  assumes "rd_ok rdr" and "moved rdr bs rdr'" and "length bs \<le> length (bytes_left rdr)"
  shows "rd_ok rdr'" and "bytes_left rdr' = bs"
  using assms by (auto simp: moved_def rd_ok_def bytes_left_def)

lemma moved_trans: "moved rdr bs rdr1 \<Longrightarrow> moved rdr1 cs rdr2 \<Longrightarrow> moved rdr cs rdr2"
  by (auto simp: moved_def)

lemma moved_keeps:
  assumes "moved rdr bs rdr'"
  shows "heap rdr' = heap rdr" and "strings rdr' = strings rdr" and "symtab rdr' = symtab rdr" and "rerr rdr' = rerr rdr"
    and "curr_key rdr' = curr_key rdr" and "maps rdr' = maps rdr" and "bytes_left rdr' = bs"
  using assms by (auto simp: moved_def bytes_left_def)

lemma read_u8:
  assumes "rd_ok rdr"
  shows "bytes_left rdr = b # bs \<Longrightarrow> \<exists>rdr'. pgf_read_u8 F rdr = Done (b, rdr') \<and> moved rdr bs rdr'"
    and "bytes_left rdr = [] \<Longrightarrow> \<exists>rdr'. pgf_read_u8 F rdr = Done (0, rdr') \<and> rerr rdr' \<noteq> None"
proof -
  obtain i' where i': "gu_in_u8 F (rin rdr) None =
      Done (case in_contents (rin rdr) of [] \<Rightarrow> 0 | b # _ \<Rightarrow> b, i', if in_contents (rin rdr) = [] then Some GuEOF else None)"
    "in_ok i'" "in_contents i' = tl (in_contents (rin rdr))" using u8 [of "rin rdr"] assms by (auto simp: rd_ok_def)
  have e: "rerr rdr = None" "rdr\<lparr>rin := i', rerr := None\<rparr> = rdr\<lparr>rin := i'\<rparr>" using assms by (simp_all add: rd_ok_def)
  show "bytes_left rdr = b # bs \<Longrightarrow> \<exists>rdr'. pgf_read_u8 F rdr = Done (b, rdr') \<and> moved rdr bs rdr'"
    using i' e(1) by (intro exI [of _ "rdr\<lparr>rin := i'\<rparr>"]) (auto simp: pgf_read_u8_def bytes_left_def moved_def e(2))
  show "bytes_left rdr = [] \<Longrightarrow> \<exists>rdr'. pgf_read_u8 F rdr = Done (0, rdr') \<and> rerr rdr' \<noteq> None"
    using i' e by (simp add: pgf_read_u8_def bytes_left_def)
qed

lemma read_u8_end:
  assumes "rd_ok rdr"
  shows "ends (pgf_read_u8 F rdr) (num_end (\<lambda>_. True) rdr)"
  using read_u8 [OF assms] by (cases "bytes_left rdr") (fastforce simp: num_end_def)+

lemma uint_loop_varint:
  assumes "rd_ok rdr" and "bytes_left rdr = varint n @ rest" and "uint u < 2 ^ s" and "s < 32"
    and "uint u + int n * 2 ^ s < 2 ^ 32"
  shows "\<exists>rdr' w. uint_loop F u s rdr = Done (w, rdr') \<and> uint w = uint u + int n * 2 ^ s \<and> moved rdr rest rdr'"
  using assms
proof (induction n arbitrary: rdr u s rule: less_induct)
  case (less n)
  define b :: u8 where "b = (if n < 128 then word_of_nat n else word_of_nat (n mod 128 + 128))"
  define bs where "bs = (if n < 128 then [] else varint (n div 128)) @ rest"
  have l: "bytes_left rdr = b # bs" using less.prems(2) by (subst (asm) varint.simps) (simp add: b_def bs_def split: if_splits)
  from read_u8(1) [OF less.prems(1) l] obtain rdr1 where r: "pgf_read_u8 F rdr = Done (b, rdr1)" "moved rdr bs rdr1" by blast
  have ok: "rd_ok rdr1" "bytes_left rdr1 = bs" "rerr rdr1 = None"
    using moved_ok [OF less.prems(1) r(2)] l by (auto simp: rd_ok_def)
  have ub: "uint (b AND NOT 0x80) = int (n mod 128)" "b AND 0x80 \<noteq> 0 \<longleftrightarrow> 128 \<le> n"
    unfolding low_bits top_bit using varint_byte(1) [of n] varint_byte(2) [of n] by (auto simp: b_def zmod_int)
  have le: "int (n mod 128) * 2 ^ s \<le> int n * 2 ^ s" by (intro mult_right_mono) auto
  define u1 where "u1 = u OR push_bit s (ucast (b AND NOT 0x80) :: u32)"
  have u1: "uint u1 = uint u + int (n mod 128) * 2 ^ s"
  proof -
    have "uint u + int (n mod 128) * 2 ^ s < 2 ^ 32" using le less.prems(5) by linarith
    then show ?thesis unfolding u1_def using add_bits [OF less.prems(3,4), of "b AND NOT 0x80"] ub(1) by simp
  qed
  show ?case
  proof (cases "n < 128")
    case True
    then have "uint_loop F u s rdr = Done (u1, rdr1)"
      using r(1) ok(3) ub(2) less.prems(4) by (subst uint_loop.simps) (simp add: u1_def)
    with True u1 r(2) show ?thesis by (auto simp: bs_def)
  next
    case False
    have n: "int n = int (n mod 128) + int (n div 128) * 2 ^ 7"
      by (simp add: zmod_int zdiv_int)
    then have e: "uint u + int n * 2 ^ s = uint u1 + int (n div 128) * 2 ^ (s + 7)"
      by (simp add: u1 power_add algebra_simps)
    have "int (n mod 128) * 2 ^ s \<le> 127 * 2 ^ s" by (intro mult_right_mono) auto
    moreover have "(2 :: int) ^ (s + 7) = 2 ^ s * 128" by (simp add: power_add)
    ultimately have b1: "uint u1 < 2 ^ (s + 7)" using u1 less.prems(3) by linarith
    have "1 \<le> int (n div 128)" using False by simp
    then have "1 * 2 ^ (s + 7) \<le> int (n div 128) * 2 ^ (s + 7)" by (intro mult_right_mono) auto
    then have "(2 :: int) ^ (s + 7) < 2 ^ 32" using e less.prems(5) uint_ge_0 [of u1] by linarith
    then have s1: "s + 7 < 32" by (rule power_less_imp_less_exp [rotated]) simp
    have l1: "bytes_left rdr1 = varint (n div 128) @ rest" using ok(2) False by (simp add: bs_def)
    have "n div 128 < n" using False by simp
    from less.IH [OF this ok(1) l1 b1 s1] e less.prems(5) obtain rdr' w where w: "uint_loop F u1 (s + 7) rdr1 = Done (w, rdr')"
      "uint w = uint u1 + int (n div 128) * 2 ^ (s + 7)" "moved rdr1 rest rdr'" by auto
    have "uint_loop F u s rdr = uint_loop F u1 (s + 7) rdr1"
      using r(1) ok(3) ub(2) less.prems(4) False by (subst uint_loop.simps) (simp add: u1_def)
    with w e moved_trans [OF r(2) w(3)] show ?thesis by auto
  qed
qed

lemma num_end_step:
  assumes "num_end P rdr (x, rdr1)" and "rd_ok rdr" and "rerr rdr1 = None"
  obtains bs where "P x" and "moved rdr bs rdr1" and "rd_ok rdr1" and "bytes_left rdr1 = bs" and "length bs < length (bytes_left rdr)"
proof -
  obtain bs where bs: "P x" "moved rdr bs rdr1" "length bs < length (bytes_left rdr)"
    using assms(1,3) by (auto simp: num_end_def)
  with moved_ok [OF assms(2) bs(2)] that show thesis by simp
qed

lemma num_end_trans:
  assumes "moved rdr bs rdr1" and "length bs < length (bytes_left rdr)" and "num_end P rdr1 r"
  shows "num_end P rdr r"
  using assms moved_keeps(7) [OF assms(1)] by (fastforce simp: num_end_def intro: moved_trans)

lemma uint_loop_end:
  assumes "rd_ok rdr"
  shows "ends (uint_loop F u s rdr) (num_end (\<lambda>_. True) rdr)"
  using assms
proof (induction "39 - s" arbitrary: u s rdr rule: less_induct)
  case less
  show ?case
  proof (subst uint_loop.simps, unfold ends_bindR, rule ends_mono [OF read_u8_end [OF less.prems]], clarify)
    fix b :: u8 and rdr1
    assume n: "num_end (\<lambda>_. True) rdr (b, rdr1)"
    show "ends (if rerr rdr1 \<noteq> None then Done (0, rdr1) else if 32 \<le> s then Fault Out_Of_Bounds
        else let u1 = u OR push_bit s (ucast (b AND NOT 0x80)) in
          if b AND 0x80 \<noteq> 0 then uint_loop F u1 (s + 7) rdr1 else Done (u1, rdr1)) (num_end (\<lambda>_. True) rdr)"
    proof (cases "rerr rdr1 = None \<and> s < 32")
      case True
      then obtain bs where m: "moved rdr bs rdr1" "rd_ok rdr1" "length bs < length (bytes_left rdr)"
        using num_end_step [OF n less.prems] by blast
      have "ends (uint_loop F u1 (s + 7) rdr1) (num_end (\<lambda>_. True) rdr)" for u1
        by (rule ends_mono [OF less.hyps [OF _ m(2)]]) (use True m in \<open>auto intro: num_end_trans\<close>)
      with True m show ?thesis by (auto simp: num_end_def Let_def)
    qed (auto simp: num_end_def)
  qed
qed

lemma decode_2c32: "gu_decode_2c32 c = Some (sint c)"
  using decode_2c [of "uint c" "0x80000000"] uint_lt2p [of c] by (simp add: gu_decode_2c32_def sint_uint)

definition int32 :: "int \<Rightarrow> bool" where
  "int32 i \<longleftrightarrow> - (2 ^ 31) \<le> i \<and> i < 2 ^ 31"

lemma read_int_eq: "pgf_read_int F rdr = bindR (uint_loop F 0 0 rdr) (\<lambda>(u, rdr1). Done (sint u, rdr1))"
  by (simp add: pgf_read_int_def pgf_read_uint_def decode_2c32)

lemma read_int:
  assumes "rd_ok rdr" and "bytes_left rdr = int_bytes i @ rest" and "int32 i"
  shows "\<exists>rdr'. pgf_read_int F rdr = Done (i, rdr') \<and> moved rdr rest rdr'"
proof -
  have n: "uint (0 :: u32) + int (nat (i mod 2 ^ 32)) * 2 ^ 0 < 2 ^ 32" by simp
  obtain rdr' w where w: "uint_loop F 0 0 rdr = Done (w, rdr')" "uint w = i mod 2 ^ 32" "moved rdr rest rdr'"
    using uint_loop_varint [OF assms(1) assms(2) [unfolded int_bytes_def] _ _ n] by auto
  have "w = word_of_int i" by (simp add: word_uint_eq_iff w(2) uint_word_of_int)
  then have "sint w = i" using assms(3) by (simp add: int32_def signed_of_int signed_take_bit_int_eq_self)
  with w show ?thesis by (simp add: read_int_eq)
qed

lemma read_int_end:
  assumes "rd_ok rdr"
  shows "ends (pgf_read_int F rdr) (num_end int32 rdr)"
proof -
  have "int32 (sint w)" for w :: u32 using sint_lt [of w] sint_ge [of w] by (simp add: int32_def)
  then show ?thesis
    unfolding read_int_eq ends_bindR by (intro ends_mono [OF uint_loop_end [OF assms]]) (auto simp: num_end_def)
qed

lemma read_len:
  assumes "rd_ok rdr" and "bytes_left rdr = int_bytes (int n) @ rest" and "n < 2 ^ 31"
  shows "\<exists>rdr'. pgf_read_len F rdr = Done (n, rdr') \<and> moved rdr rest rdr'"
proof -
  have i: "int32 (int n)" using assms(3) by (simp add: int32_def)
  obtain rdr' where r: "pgf_read_int F rdr = Done (int n, rdr')" "moved rdr rest rdr'"
    using read_int [OF assms(1,2) i] by blast
  moreover have "rerr rdr' = None" using moved_keeps(4) [OF r(2)] assms(1) by (simp add: rd_ok_def)
  ultimately show ?thesis by (simp add: pgf_read_len_def)
qed

lemma read_len_end:
  assumes "rd_ok rdr"
  shows "ends (pgf_read_len F rdr) (num_end (\<lambda>n. n < 2 ^ 31) rdr)"
  unfolding pgf_read_len_def ends_bindR
  by (rule ends_mono [OF read_int_end [OF assms]]) (auto simp: num_end_def int32_def raise_in_def)

lemma in_be:
  assumes "rd_ok rdr" and "k \<le> 8"
  shows "length bs = k \<Longrightarrow> bytes_left rdr = bs @ rest \<Longrightarrow>
      \<exists>i. gu_in_be F junk (rin rdr) (rerr rdr) k = Done (bytes_value bs, i, None) \<and> in_ok i \<and> in_contents i = rest"
    and "length (bytes_left rdr) < k \<Longrightarrow> \<exists>v i. gu_in_be F junk (rin rdr) (rerr rdr) k = Done (v, i, Some GuEOF)"
proof -
  have i: "in_ok (rin rdr)" "k < PTRDIFF_MAX" "rerr rdr = None" using assms by (auto simp: rd_ok_def PTRDIFF_MAX_def)
  show "length bs = k \<Longrightarrow> bytes_left rdr = bs @ rest \<Longrightarrow>
      \<exists>i. gu_in_be F junk (rin rdr) (rerr rdr) k = Done (bytes_value bs, i, None) \<and> in_ok i \<and> in_contents i = rest"
    using be [OF i(1) _ i(2)] i(3) by (auto simp: bytes_left_def)
  show "length (bytes_left rdr) < k \<Longrightarrow> \<exists>v i. gu_in_be F junk (rin rdr) (rerr rdr) k = Done (v, i, Some GuEOF)"
    using bytes [OF i(1,2)] i(3) by (auto simp: gu_in_be_def bytes_left_def)
qed

lemma read_uint16_t:
  assumes "rd_ok rdr" and "bytes_left rdr = be_bytes 2 n @ rest" and "0 \<le> n" and "n < 2 ^ 16"
  shows "\<exists>rdr'. pgf_read_to_uint16_t F junk rdr = Done (V_Int n, rdr') \<and> moved rdr rest rdr'"
proof -
  obtain i where i: "gu_in_be F junk (rin rdr) (rerr rdr) 2 = Done (bytes_value (be_bytes 2 n), i, None)" "in_ok i"
    "in_contents i = rest" using in_be(1) [OF assms(1) _ _ assms(2)] by auto
  have "uint (bytes_value (be_bytes 2 n)) = n"
    using bytes_value [of "be_bytes 2 n"] assms(3,4) by (simp add: be_value_bytes)
  then have "uint (ucast (bytes_value (be_bytes 2 n)) :: u16) = n"
    using assms(3,4) by (simp add: unsigned_ucast_eq take_bit_int_eq_self)
  moreover have "rdr\<lparr>rin := i, rerr := None\<rparr> = rdr\<lparr>rin := i\<rparr>" using assms(1) by (simp add: rd_ok_def)
  ultimately show ?thesis
    using i by (auto simp: pgf_read_to_uint16_t_def gu_in_u16be_def map_read_def moved_def)
qed

lemma read_double:
  assumes "rd_ok rdr" and "bytes_left rdr = be_bytes 8 (uint w) @ rest"
  shows "\<exists>rdr'. pgf_read_to_double F junk rdr = Done (V_Double w, rdr') \<and> moved rdr rest rdr'"
proof -
  obtain i where i: "gu_in_be F junk (rin rdr) (rerr rdr) 8 = Done (bytes_value (be_bytes 8 (uint w)), i, None)" "in_ok i"
    "in_contents i = rest" using in_be(1) [OF assms(1) _ _ assms(2)] by auto
  have "uint (bytes_value (be_bytes 8 (uint w))) = uint w"
    using bytes_value [of "be_bytes 8 (uint w)"] uint_lt2p [of w] by (simp add: be_value_bytes)
  then have "bytes_value (be_bytes 8 (uint w)) = w" by (simp add: word_uint_eq_iff)
  moreover have "rdr\<lparr>rin := i, rerr := None\<rparr> = rdr\<lparr>rin := i\<rparr>" using assms(1) by (simp add: rd_ok_def)
  ultimately show ?thesis
    using i by (auto simp: pgf_read_to_double_def gu_in_f64be_def gu_in_u64le_def gu_in_le_def gu_in_be_def map_read_def moved_def)
qed

lemma in_be_end:
  assumes "rd_ok rdr" and "0 < k" and "k \<le> 8"
  shows "ends (gu_in_be F junk (rin rdr) (rerr rdr) k) (\<lambda>(v, i, err). err \<noteq> None \<or>
    (err = None \<and> in_ok i \<and> length (in_contents i) < length (bytes_left rdr)))"
proof (cases "length (bytes_left rdr) < k")
  case True
  with in_be(2) [OF assms(1,3), of junk] show ?thesis by fastforce
next
  case False
  then have "bytes_left rdr = take k (bytes_left rdr) @ drop k (bytes_left rdr)" "length (take k (bytes_left rdr)) = k" by simp_all
  from in_be(1) [OF assms(1,3) this(2,1), of junk] False assms(2) show ?thesis by fastforce
qed

lemma num_end_in:
  assumes "rd_ok rdr" and "in_ok i" and "length (in_contents i) < length (bytes_left rdr)" and "P v"
  shows "num_end P rdr (v, rdr\<lparr>rin := i, rerr := None\<rparr>)"
proof -
  have "rdr\<lparr>rin := i, rerr := None\<rparr> = rdr\<lparr>rin := i\<rparr>" using assms(1) by (simp add: rd_ok_def)
  then have "moved rdr (in_contents i) (rdr\<lparr>rin := i, rerr := None\<rparr>)" using assms(2) by (auto simp: moved_def)
  with assms(3,4) show ?thesis by (auto simp: num_end_def)
qed

lemma read_uint16_t_end:
  assumes "rd_ok rdr"
  shows "ends (pgf_read_to_uint16_t F junk rdr) (num_end (\<lambda>v. \<exists>n. v = V_Int n \<and> 0 \<le> n \<and> n < 2 ^ 16) rdr)"
proof -
  have u: "uint (x :: u16) < 65536" for x using uint_lt2p [of x] by simp
  have "ends (gu_in_be F junk (rin rdr) (rerr rdr) 2) (\<lambda>x. ends (case x of (v, i, err) \<Rightarrow>
      Done (V_Int (uint (ucast v :: u16)), rdr\<lparr>rin := i, rerr := err\<rparr>)) (num_end (\<lambda>v. \<exists>n. v = V_Int n \<and> 0 \<le> n \<and> n < 2 ^ 16) rdr))"
    by (rule ends_mono [OF in_be_end [OF assms]]) (auto simp: num_end_def [of _ rdr "(_, rdr\<lparr>rin := _, rerr := Some _\<rparr>)"] u intro!: num_end_in [OF assms])
  then show ?thesis by (simp add: pgf_read_to_uint16_t_def gu_in_u16be_def map_read_def split_def)
qed

lemma read_double_end:
  assumes "rd_ok rdr"
  shows "ends (pgf_read_to_double F junk rdr) (num_end (\<lambda>v. \<exists>w. v = V_Double w) rdr)"
proof -
  have "ends (gu_in_be F junk (rin rdr) (rerr rdr) 8) (\<lambda>x. ends (case x of (v, i, err) \<Rightarrow>
      Done (V_Double v, rdr\<lparr>rin := i, rerr := err\<rparr>)) (num_end (\<lambda>v. \<exists>w. v = V_Double w) rdr))"
    by (rule ends_mono [OF in_be_end [OF assms]]) (auto simp: num_end_def [of _ rdr "(_, rdr\<lparr>rin := _, rerr := Some _\<rparr>)"] intro!: num_end_in [OF assms])
  then show ?thesis by (simp add: pgf_read_to_double_def gu_in_f64be_def gu_in_u64le_def gu_in_le_def gu_in_be_def map_read_def split_def)
qed

end

subsection \<open>Strings\<close>

lemma ends_foldR: "(\<And>x s. ends (f x s) (\<lambda>_. True)) \<Longrightarrow> ends (foldR f xs s) (\<lambda>_. True)"
  by (induction xs arbitrary: s) (auto elim!: ends_mono)

context in_stream begin

text \<open>A code point read from arbitrary input.\<close>

lemma utf8_any:
  assumes "in_ok i"
  shows "ends (gu_in_utf8 F i None) (\<lambda>(u, i', err). gu_ucs_valid u \<and>
    (err \<noteq> None \<or> (in_ok i' \<and> length (in_contents i') < length (in_contents i))))"
proof -
  have v: "gu_ucs_valid 0" by (simp add: gu_ucs_valid_def GU_UCS_MAX_def)
  have d: "ends (gu_utf8_decode_one src) (\<lambda>r. case r of None \<Rightarrow> True | Some (u, n) \<Rightarrow> gu_ucs_valid u)" for src
  proof -
    have "gu_ucs_valid (uint c)" if "c < 0x80" for c :: u8
      using that by (simp add: gu_ucs_valid_def GU_UCS_MAX_def word_less_def)
    moreover have "ends (utf8_tail src n u) (\<lambda>_. True)" for n u
      unfolding utf8_tail_def by (intro ends_foldR) simp
    ultimately show ?thesis
      by (auto simp: gu_utf8_decode_one_def elim!: ends_mono)
  qed
  have "ends (gu_in_utf8_slow F i None) (\<lambda>(u, i', err). gu_ucs_valid u \<and>
    (err \<noteq> None \<or> (in_ok i' \<and> length (in_contents i') < length (in_contents i))))"
  proof (cases "in_contents i")
    case Nil
    with u8 [OF assms] v show ?thesis by (auto simp: gu_in_utf8_slow_def)
  next
    case (Cons c cs)
    then obtain i1 where i1: "gu_in_u8 F i None = Done (c, i1, None)" "in_ok i1" "in_contents i1 = cs"
      using u8 [OF assms] by auto
    define len :: nat where "len = (if c < 0xc0 then 0 else if c < 0xe0 then 1 else if c < 0xf0 then 2 else 3)"
    have "len \<le> PTRDIFF_MAX" by (simp add: len_def PTRDIFF_MAX_def)
    from some [OF i1(2) order_refl this] obtain bs i2 where i2: "gu_in_some F i1 len len None = Done (bs, i2, None)" "in_ok i2"
      "cs = bs @ in_contents i2" using i1(3) by auto
    have "gu_in_utf8_slow F i None = (if length bs < len then Done (0, i2, Some GuUCSExn)
        else bindR (gu_utf8_decode_one (c # bs)) (\<lambda>r.
          case r of None \<Rightarrow> Done (0, i2, Some GuUCSExn) | Some (u, n) \<Rightarrow> Done (u, i2, None)))"
      using i1(1) i2(1) by (simp add: gu_in_utf8_slow_def Let_def len_def)
    with v i2(2,3) Cons show ?thesis by (auto intro!: ends_mono [OF d] split: option.splits)
  qed
  moreover have "ends (bindR (gu_in_consume i 1) (\<lambda>i1. Done (uint (hd (in_contents i)), i1, None)))
      (\<lambda>(u, i', err). gu_ucs_valid u \<and> (err \<noteq> None \<or> (in_ok i' \<and> length (in_contents i') < length (in_contents i))))"
    if c: "buf_curr i \<noteq> 0" "uint (hd (in_contents i)) < 0x80"
  proof -
    have "buf_curr i < 0" using assms c(1) by (auto simp: in_ok_def split: option.splits)
    from byte(2) [OF assms this] consume_one [OF assms c(1)] c(2) show ?thesis
      by (auto simp: gu_ucs_valid_def GU_UCS_MAX_def)
  qed
  ultimately show ?thesis using peek [OF assms] by (simp add: gu_in_utf8_def)
qed

end

end
