(* ===== verification/ReadText.thy ===== *)
theory ReadText
  imports ReaderNum
begin

unbundle bit_operations_syntax

text \<open>
  What the readers of strings and identifiers do. Both copy code points to a string buffer, in UTF-8 and in
  Latin-1 form, freeze the buffer and intern the string. Each reads the encoding of a text back, and on arbitrary input ends with a
  fault, with an exception, or with a string that holds a valid text.
\<close>

subsection \<open>Copying code points\<close>

text \<open>The two loops are one, over the reader of a code point.\<close>

fun copy_with ::
  "('s GuIn \<Rightarrow> GuErr \<Rightarrow> (GuUCS \<times> 's GuIn \<times> GuErr) run) \<Rightarrow> nat \<Rightarrow> u8 GuBuf GuProxyOutStream GuWriter \<Rightarrow>
    (u8 GuBuf GuProxyOutStream GuWriter, 's) reading" where
  "copy_with r 0 wtr rdr = Done (wtr, rdr)"
| "copy_with r (Suc n) wtr rdr =
     bindR (r (rin rdr) (rerr rdr)) (\<lambda>(u, i, err).
     bindR (gu_ucs_write sb_funs u wtr err) (\<lambda>(w, err1).
       copy_with r n w (rdr\<lparr>rin := i, rerr := err1\<rparr>)))"

definition in_latin1 :: "'s GuInStreamFuns \<Rightarrow> 's GuIn \<Rightarrow> GuErr \<Rightarrow> (GuUCS \<times> 's GuIn \<times> GuErr) run" where
  "in_latin1 F i err = bindR (gu_in_u8 F i err) (\<lambda>(c, i1, err1). Done (uint c, i1, err1))"

lemma copy_ucs_with: "copy_ucs F n wtr rdr = copy_with (gu_in_utf8 F) n wtr rdr"
  by (induction n arbitrary: wtr rdr) auto

lemma copy_latin1_with: "copy_latin1 F n wtr rdr = copy_with (in_latin1 F) n wtr rdr"
  by (induction n arbitrary: wtr rdr) (auto simp: in_latin1_def bindR_assoc split_def)

lemma copy_with_raised:
  assumes r: "\<And>i err. raised err \<Longrightarrow> ends (r i err) (\<lambda>(u, i', err'). raised err')"
    and "raised (rerr rdr)"
  shows "ends (copy_with r n wtr rdr) (\<lambda>(w, rdr'). raised (rerr rdr'))"
  using assms(2)
proof (induction n arbitrary: wtr rdr)
  case (Suc n)
  show ?case
    unfolding copy_with.simps gu_ucs_write_def
    by (rule raised3_bind [OF r [OF Suc.prems]])
      (simp del: ends_bindR, auto simp del: ends_bindR intro!: raised2_bind proxied_raising.out_utf8 Suc.IH)
qed simp

text \<open>A text is a list of code points; \<open>enc\<close> is how the file has them.\<close>

context reader_stream begin

lemma copy_with_ok:
  assumes r: "\<And>i u rest. u \<in> set us \<Longrightarrow> in_ok i \<Longrightarrow> in_contents i = enc u @ rest \<Longrightarrow>
      \<exists>i'. r i None = Done (u, i', None) \<and> in_ok i' \<and> in_contents i' = rest"
    and "list_all gu_ucs_valid us" and "in_ok (rin rdr)" and "rerr rdr = None"
    and "bytes_left rdr = concat (map enc us) @ rest"
    and "proxied_out.out_ok wtr" and "length (proxied_out.out_written wtr) + 4 * length us < OUT_LIMIT"
  shows "\<exists>w rdr'. copy_with r (length us) wtr rdr = Done (w, rdr') \<and> moved rdr rest rdr' \<and>
    proxied_out.out_ok w \<and> proxied_out.out_written w = proxied_out.out_written wtr @ utf8_all us"
  using assms
proof (induction us arbitrary: wtr rdr)
  case Nil
  then show ?case by (auto simp: moved_def bytes_left_def intro!: exI [of _ "rin rdr"])
next
  case (Cons u us)
  have "in_contents (rin rdr) = enc u @ (concat (map enc us) @ rest)" using Cons.prems(5) by (simp add: bytes_left_def)
  from Cons.prems(1) [OF _ Cons.prems(3) this] obtain i where i: "r (rin rdr) None = Done (u, i, None)" "in_ok i"
    "in_contents i = concat (map enc us) @ rest" by auto
  have u: "gu_ucs_valid u" "length (proxied_out.out_written wtr) + 4 < OUT_LIMIT" using Cons.prems(2,7) by auto
  obtain w where w: "gu_out_utf8 sb_funs u wtr None = Done (w, None)" "proxied_out.out_ok w"
    "proxied_out.out_written w = proxied_out.out_written wtr @ utf8_bytes u"
    using proxied_out.out_utf8 [OF Cons.prems(6) u] by blast
  let ?r1 = "rdr\<lparr>rin := i, rerr := None\<rparr>"
  have m: "moved rdr (concat (map enc us) @ rest) ?r1"
    using i(2,3) Cons.prems(4) by (auto simp: moved_def intro!: exI [of _ i])
  have l: "length (proxied_out.out_written w) + 4 * length us < OUT_LIMIT"
    using Cons.prems(7) w(3) encode_length_bounds(2) [of u] by simp
  have "\<exists>w' rdr'. copy_with r (length us) w ?r1 = Done (w', rdr') \<and> moved ?r1 rest rdr' \<and>
    proxied_out.out_ok w' \<and> proxied_out.out_written w' = proxied_out.out_written w @ utf8_all us"
    by (rule Cons.IH) (use Cons.prems(1,2) i(2,3) w(2) l in \<open>auto simp: bytes_left_def\<close>)
  with i(1) w Cons.prems(4) moved_trans [OF m] show ?case by (auto simp: gu_ucs_write_def)
qed

text \<open>On arbitrary input, where \<open>r\<close> reads a valid code point from at least one byte.\<close>

definition copied ::
  "(GuUCS \<Rightarrow> bool) \<Rightarrow> 's PgfReader \<Rightarrow> u8 GuBuf GuProxyOutStream GuWriter \<Rightarrow> nat \<Rightarrow> u8 GuBuf GuProxyOutStream GuWriter \<times> 's PgfReader \<Rightarrow> bool" where
  "copied P rdr wtr n r \<longleftrightarrow> raised (rerr (snd r)) \<or>
    (\<exists>us bs. list_all P us \<and> length us = n \<and> proxied_out.out_ok (fst r) \<and>
      proxied_out.out_written (fst r) = proxied_out.out_written wtr @ utf8_all us \<and>
      moved rdr bs (snd r) \<and> length bs + n \<le> length (bytes_left rdr))"

lemma copied_step:
  assumes "copied P rdr1 w n r" and "moved rdr (bytes_left rdr1) rdr1" and "length (bytes_left rdr1) < length (bytes_left rdr)"
    and "P u" and "proxied_out.out_written w = proxied_out.out_written wtr @ utf8_bytes u"
  shows "copied P rdr wtr (Suc n) r"
proof (cases "raised (rerr (snd r))")
  case False
  with assms(1) obtain us bs where us: "list_all P us" "length us = n" "proxied_out.out_ok (fst r)"
    "proxied_out.out_written (fst r) = proxied_out.out_written w @ utf8_all us" "moved rdr1 bs (snd r)"
    "length bs + n \<le> length (bytes_left rdr1)" by (auto simp: copied_def)
  then show ?thesis
    unfolding copied_def using assms(3-) moved_trans [OF assms(2) us(5)]
    by (intro disjI2 exI [of _ "u # us"] exI [of _ bs]) auto
qed (simp add: copied_def)

lemma copy_with_end:
  assumes valid: "\<And>u. P u \<Longrightarrow> gu_ucs_valid u"
    and r: "\<And>i. in_ok i \<Longrightarrow> ends (r i None) (\<lambda>(u, i', err). P u \<and>
      (raised err \<or> (err = None \<and> in_ok i' \<and> length (in_contents i') < length (in_contents i))))"
    and raise: "\<And>i err. raised err \<Longrightarrow> ends (r i err) (\<lambda>(u, i', err'). raised err')"
    and "in_ok (rin rdr)" and "rerr rdr = None"
    and "proxied_out.out_ok wtr" and "length (proxied_out.out_written wtr) + 4 * n < OUT_LIMIT"
  shows "ends (copy_with r n wtr rdr) (copied P rdr wtr n)"
  using assms(4-)
proof (induction n arbitrary: wtr rdr)
  case 0
  then show ?case by (auto simp: copied_def moved_def bytes_left_def intro!: exI [of _ "rin rdr"])
next
  case (Suc n)
  have step: "ends (gu_ucs_write sb_funs u wtr err) (\<lambda>(w, err1).
      ends (copy_with r n w (rdr\<lparr>rin := i, rerr := err1\<rparr>)) (copied P rdr wtr (Suc n)))"
    if u: "P u"
      and i: "raised err \<or> (err = None \<and> in_ok i \<and> length (in_contents i) < length (in_contents (rin rdr)))" for u i err
  proof (cases "raised err")
    case True
    have c: "ends (copy_with r n w (rdr\<lparr>rin := i, rerr := e\<rparr>)) (copied P rdr wtr (Suc n))" if "raised e" for w e
    proof -
      have "ends (copy_with r n w (rdr\<lparr>rin := i, rerr := e\<rparr>)) (\<lambda>(w, rdr'). raised (rerr rdr'))"
        by (intro copy_with_raised raise) (use that in auto)
      then show ?thesis by (rule ends_mono) (auto simp: copied_def)
    qed
    have "ends (gu_ucs_write sb_funs u wtr err) (\<lambda>(w, e). raised e)"
      unfolding gu_ucs_write_def by (rule proxied_raising.out_utf8 [OF True])
    then show ?thesis by (rule ends_mono) (use c in auto)
  next
    case False
    with i have i: "err = None" "in_ok i" "length (in_contents i) < length (in_contents (rin rdr))" by auto
    obtain w where w: "gu_out_utf8 sb_funs u wtr None = Done (w, None)" "proxied_out.out_ok w"
      "proxied_out.out_written w = proxied_out.out_written wtr @ utf8_bytes u"
      using proxied_out.out_utf8 [OF Suc.prems(3) valid [OF u]] Suc.prems(4) by auto
    let ?r1 = "rdr\<lparr>rin := i, rerr := None\<rparr>"
    have m: "moved rdr (bytes_left ?r1) ?r1" "length (bytes_left ?r1) < length (bytes_left rdr)"
      using i Suc.prems(2) by (auto simp: moved_def bytes_left_def intro!: exI [of _ i])
    have l: "length (proxied_out.out_written w) + 4 * n < OUT_LIMIT"
      using Suc.prems(4) w(3) encode_length_bounds(2) [of u] by simp
    have "ends (copy_with r n w ?r1) (copied P ?r1 w n)"
      by (rule Suc.IH) (use i w l in auto)
    then have "ends (copy_with r n w ?r1) (copied P rdr wtr (Suc n))"
      by (rule ends_mono) (rule copied_step [where P = P and u = u, OF _ m u w(3)])
    with w(1) i(1) show ?thesis by (simp add: gu_ucs_write_def)
  qed
  show ?case
    unfolding copy_with.simps Suc.prems(2) ends_bindR
    by (rule ends_mono [OF r [OF Suc.prems(1)]]) (use step in \<open>fastforce simp: split_def\<close>)
qed

end

subsection \<open>Interning what has been copied\<close>


text \<open>Freezing and interning always come to an end.\<close>

definition stops :: "'a run \<Rightarrow> bool" where "stops m \<longleftrightarrow> m \<noteq> Out_Of_Fuel"

lemma stops_ends: "stops m \<longleftrightarrow> ends m (\<lambda>_. True)" by (simp add: stops_def ends_any)

lemma stops_simps [simp]:
  "stops (Done x)" "stops (Fault e)" "stops gu_impossible" "stops (seq_at xs i)"
  "stops (gu_require b k) = (b \<longrightarrow> stops k)" "stops (gu_assert b k) = (b \<longrightarrow> stops k)"
  by (simp_all add: stops_ends)

lemma stops_bind [intro]: "stops m \<Longrightarrow> (\<And>x. m = Done x \<Longrightarrow> stops (f x)) \<Longrightarrow> stops (bindR m f)"
  by (cases m) (auto simp: stops_def)

locale stops_out =
  fixes G :: "'s GuOutStreamFuns"
  assumes begin_stops: "begin_buf G = Some f \<Longrightarrow> stops (f s n err)"
    and end_stops: "end_buf G = Some g \<Longrightarrow> stops (g s bs err)"
    and output_stops: "output_fn G = Some h \<Longrightarrow> stops (h s bs err)"
    and flush_stops: "flush G = Some k \<Longrightarrow> stops (k s err)"
begin

lemma end_buf: "stops (gu_out_end_buf G out err)"
  unfolding gu_out_end_buf_def Let_def
  by (auto split: option.splits intro!: stops_bind end_stops)

lemma begin_buf: "stops (gu_out_begin_buf G out n err)"
  unfolding gu_out_begin_buf_def ask_buf_def
  by (auto split: option.splits intro!: stops_bind end_buf begin_stops)

lemma buf_write: "stops (buf_write out bs)"
  by (auto simp: buf_write_def Let_def split: option.splits)

lemma flush: "stops (gu_out_flush G out err)"
  unfolding gu_out_flush_def
  by (auto split: option.splits intro!: stops_bind end_buf flush_stops)

lemma bytes_slow: "stops (gu_out_bytes_slow G out bs err)"
  unfolding gu_out_bytes_slow_def gu_out_try_buf_def gu_out_output_def
  by (auto split: option.splits intro!: stops_bind buf_write begin_buf end_buf output_stops)

lemma end_span: "stops (gu_out_end_span G out p bs err)"
  unfolding gu_out_end_span_def by (auto intro!: stops_bind buf_write bytes_slow)

lemma proxy_flush: "stops (gu_out_flush (gu_proxy_out_funs G) out err)"
  unfolding gu_out_flush_def [of "gu_proxy_out_funs G"] gu_out_end_buf_def [of "gu_proxy_out_funs G"] Let_def
  by (auto simp: gu_proxy_out_funs_def gu_proxy_out_buf_end_def gu_proxy_out_flush_def split: option.splits intro!: stops_bind end_span flush)

end

lemma buf_require_stops: "stops (gu_buf_require b n)"
  by (simp add: stops_ends buf_require_ends)

interpretation outbuf_stops: stops_out gu_buf_out_funs
  by unfold_locales
    (auto simp: gu_buf_out_funs_def gu_buf_outbuf_begin_def gu_buf_outbuf_end_def gu_buf_out_output_def
      gu_buf_push_n_def Let_def intro!: stops_bind buf_require_stops)

lemma string_open_stops: "stops (gu_string_open s h)"
  by (auto simp: gu_string_open_def obj_at_def Let_def split: option.splits intro!: stops_bind)

lemma string_eq_stops: "stops (gu_string_eq s t h)"
  by (auto simp: gu_string_eq_def Let_def intro!: stops_bind string_open_stops)

lemma symtable_find_stops: "stops (gu_symtable_find tab s h)"
  by (induction tab) (auto intro!: stops_bind string_eq_stops)

lemma utf8_string_stops: "stops (gu_utf8_string bs h)"
  by (auto simp: gu_utf8_string_def Let_def)

lemma intern_stops: "stops (gu_symtable_intern tab s h)"
  by (auto simp: gu_symtable_intern_def gu_string_copy_def split: option.splits
      intro!: stops_bind symtable_find_stops string_open_stops utf8_string_stops)

lemma freeze_stops: "stops (gu_string_buf_freeze sb h)"
  by (auto simp: gu_string_buf_freeze_def gu_writer_flush_def Let_def intro!: stops_bind outbuf_stops.proxy_flush utf8_string_stops)

lemma intern_buf_raised:
  assumes "raised (rerr rdr)"
  shows "ends (intern_buf w rdr) (\<lambda>(v, rdr'). raised (rerr rdr'))"
proof -
  have "stops (intern_buf w rdr)"
    by (auto simp: intern_buf_def intro!: stops_bind freeze_stops intern_stops)
  then have "ends (intern_buf w rdr) (\<lambda>_. True)" by (simp add: stops_ends)
  then show ?thesis by (rule ends_mono) (use assms in \<open>auto simp: intern_buf_def run_simps\<close>)
qed

subsection \<open>Strings and identifiers\<close>

text \<open>Both readers are this one.\<close>

definition read_text ::
  "'s GuInStreamFuns \<Rightarrow> ('s GuIn \<Rightarrow> GuErr \<Rightarrow> (GuUCS \<times> 's GuIn \<times> GuErr) run) \<Rightarrow> (gval, 's) reading" where
  "read_text F r rdr =
     bindR (pgf_read_len F rdr) (\<lambda>(len, rdr1).
     bindR (copy_with r len (gu_string_buf_writer gu_string_buf) rdr1) (\<lambda>(wtr, rdr2). intern_buf wtr rdr2))"

lemma read_text_is:
  "pgf_read_to_GuString F rdr = read_text F (gu_in_utf8 F) rdr"
  "pgf_read_to_PgfCId F rdr = read_text F (in_latin1 F) rdr"
  by (simp_all add: read_text_def pgf_read_to_GuString_def pgf_read_to_PgfCId_def copy_ucs_with copy_latin1_with)

context reader_stream begin

text \<open>The input and the strings have changed; \<open>bs\<close> is left of the input.\<close>

definition took :: "'s PgfReader \<Rightarrow> u8 list \<Rightarrow> 's PgfReader \<Rightarrow> bool" where
  "took rdr bs rdr' \<longleftrightarrow> (\<exists>i g tab. rdr' = rdr\<lparr>rin := i, strings := strings rdr @ g, symtab := tab\<rparr>) \<and>
     bytes_left rdr' = bs \<and> rd_ok rdr'"

lemma moved_took: "rd_ok rdr \<Longrightarrow> moved rdr bs rdr' \<Longrightarrow> length bs \<le> length (bytes_left rdr) \<Longrightarrow> took rdr bs rdr'"
  using moved_ok [of rdr bs rdr'] unfolding took_def moved_def
  by (auto intro!: exI [of _ "[]"] exI [of _ "symtab rdr"])

lemma intern_buf_ok:
  assumes "rd_ok rdr0" and "moved rdr0 rest rdr" and "length rest < length (bytes_left rdr0)"
    and "proxied_out.out_ok w" and "proxied_out.out_written w = bs" and "length bs < 256"
  shows "\<exists>s rdr'. intern_buf w rdr = Done (V_Str s, rdr') \<and> took rdr0 rest rdr' \<and> valid_string (strings rdr') s bs"
proof -
  obtain bss where t: "table_ok (strings rdr0) (symtab rdr0) bss" using assms(1) by (auto simp: rd_ok_def)
  have k: "strings rdr = strings rdr0" "symtab rdr = symtab rdr0" using moved_keeps [OF assms(2)] by auto
  have n: "length (strings rdr) + 2 * length (bytes_left rdr0) < 2 ^ 59" using assms(1) k by (simp add: rd_ok_def)
  obtain s sb g where s: "gu_string_buf_freeze \<lparr>sb_wtr = w\<rparr> (strings rdr) = Done (s, sb, strings rdr @ g)" "length g \<le> 1"
    "valid_string (strings rdr @ g) s bs"
    using freeze_contents [of "\<lparr>sb_wtr = w\<rparr>" bs "strings rdr"] assms(4-) n by auto
  have t1: "table_ok (strings rdr @ g) (symtab rdr) bss"
    using t valid_append by (auto simp: table_ok_def k elim!: list_all2_mono)
  obtain sym tab g1 bss1 where i: "gu_symtable_intern (symtab rdr) s (strings rdr @ g) = Done (sym, tab, (strings rdr @ g) @ g1)"
    "length g1 \<le> 1" "valid_string ((strings rdr @ g) @ g1) sym bs" "table_ok ((strings rdr @ g) @ g1) tab bss1"
    using intern_spec [OF t1 s(3)] s(2) n by auto
  let ?r = "rdr\<lparr>symtab := tab, strings := strings rdr @ g @ g1\<rparr>"
  have "rd_ok ?r" "bytes_left ?r = rest"
    using assms(1-3) i(2,4) s(2) n by (auto simp: moved_def rd_ok_def bytes_left_def)
  moreover obtain i where "rdr = rdr0\<lparr>rin := i\<rparr>" using assms(2) by (auto simp: moved_def)
  then have "?r = rdr0\<lparr>rin := i, strings := strings rdr0 @ g @ g1, symtab := tab\<rparr>" by simp
  ultimately have "took rdr0 rest ?r" unfolding took_def by blast
  moreover have "intern_buf w rdr = Done (V_Str sym, ?r)" using s(1) i(1) by (simp add: intern_buf_def)
  ultimately show ?thesis using i(3) by auto
qed

lemma read_text_ok:
  assumes "\<And>i u rest. u \<in> set us \<Longrightarrow> in_ok i \<Longrightarrow> in_contents i = enc u @ rest \<Longrightarrow>
      \<exists>i'. r i None = Done (u, i', None) \<and> in_ok i' \<and> in_contents i' = rest"
    and "rd_ok rdr" and "bytes_left rdr = int_bytes (int (length us)) @ concat (map enc us) @ rest"
    and "list_all gu_ucs_valid us" and "length (utf8_all us) < 256"
  shows "\<exists>s rdr'. read_text F r rdr = Done (V_Str s, rdr') \<and> took rdr rest rdr' \<and> valid_string (strings rdr') s (utf8_all us)"
proof -
  have n: "length us < 256" using utf8_all_bounds(1) [of us] assms(5) by simp
  obtain rdr1 where r1: "pgf_read_len F rdr = Done (length us, rdr1)" "moved rdr (concat (map enc us) @ rest) rdr1"
    using read_len [OF assms(2,3)] n by auto
  have ok: "rd_ok rdr1" "bytes_left rdr1 = concat (map enc us) @ rest"
    using moved_ok [OF assms(2) r1(2)] assms(3) by auto
  obtain w rdr2 where r2: "copy_with r (length us) (gu_string_buf_writer gu_string_buf) rdr1 = Done (w, rdr2)"
    "moved rdr1 rest rdr2" "proxied_out.out_ok w" "proxied_out.out_written w = utf8_all us"
    using copy_with_ok [of us enc r rdr1 rest "gu_string_buf_writer gu_string_buf"] assms(1,4) ok string_buf_ok n
    by (auto simp: rd_ok_def OUT_LIMIT_def)
  have "int_bytes (int (length us)) \<noteq> []" by (simp add: int_bytes_def varint_not_empty)
  then have "length rest < length (bytes_left rdr)" using assms(3) by simp
  from intern_buf_ok [OF assms(2) moved_trans [OF r1(2) r2(2)] this r2(3,4) assms(5)] r1(1) r2(1)
  show ?thesis by (auto simp: read_text_def)
qed

lemma read_text_end:
  assumes valid: "\<And>u. P u \<Longrightarrow> gu_ucs_valid u"
    and r: "\<And>i. in_ok i \<Longrightarrow> ends (r i None) (\<lambda>(u, i', err). P u \<and>
      (raised err \<or> (err = None \<and> in_ok i' \<and> length (in_contents i') < length (in_contents i))))"
    and raise: "\<And>i err. raised err \<Longrightarrow> ends (r i err) (\<lambda>(u, i', err'). raised err')"
    and ok: "rd_ok rdr"
  shows "ends (read_text F r rdr) (\<lambda>(v, rdr'). raised (rerr rdr') \<or>
    (\<exists>s us rest. v = V_Str s \<and> took rdr rest rdr' \<and> length rest + length us < length (bytes_left rdr) \<and>
      valid_string (strings rdr') s (utf8_all us) \<and> list_all P us \<and> length (utf8_all us) < 256))"
    (is "ends _ ?P")
proof -
  have raised_end: "ends (intern_buf w rdr2) ?P" if "raised (rerr rdr2)" for w rdr2
    by (rule ends_mono [OF intern_buf_raised [OF that]]) auto
  have interned: "ends (intern_buf w rdr2) ?P"
    if c: "copied P rdr1 (gu_string_buf_writer gu_string_buf) len (w, rdr2)" and m: "moved rdr bs rdr1"
      and l: "length bs < length (bytes_left rdr)" "len < 2 ^ 31" for w rdr1 rdr2 len bs
  proof (cases "raised (rerr rdr2)")
    case False
    with c obtain us rest where us: "list_all P us" "length us = len" "proxied_out.out_ok w"
      "proxied_out.out_written w = utf8_all us" "moved rdr1 rest rdr2" "length rest + len \<le> length bs"
      using string_buf_ok moved_keeps(7) [OF m] by (auto simp: copied_def)
    have rl: "length rest < length (bytes_left rdr)" "length rest + length us < length (bytes_left rdr)" using us(2,6) l(1) by auto
    show ?thesis
    proof (cases "length (utf8_all us) < 256")
      case True
      from intern_buf_ok [OF ok moved_trans [OF m us(5)] rl(1) us(3,4) True] us(1) rl(2) True show ?thesis by auto
    next
      case False
      have "length (utf8_all us) \<le> 4 * length us" by (rule utf8_all_bounds)
      then have "length (utf8_all us) < OUT_LIMIT" using us(2) l(2) by (simp add: OUT_LIMIT_def)
      then have "gu_string_buf_freeze \<lparr>sb_wtr = w\<rparr> (strings rdr2) = Fault Null_Deref"
        using freeze_long [of "\<lparr>sb_wtr = w\<rparr>"] us(3,4) False by simp
      then show ?thesis by (simp add: intern_buf_def)
    qed
  qed (rule raised_end)
  have copied: "ends (copy_with r len (gu_string_buf_writer gu_string_buf) rdr1) (\<lambda>(w, rdr2). ends (intern_buf w rdr2) ?P)"
    if n: "num_end (\<lambda>n. n < 2 ^ 31) rdr (len, rdr1)" for len rdr1
  proof (cases "raised (rerr rdr1)")
    case True
    show ?thesis by (rule ends_mono [OF copy_with_raised [OF raise True]]) (use raised_end in auto)
  next
    case False
    then have "rerr rdr1 = None" by (simp add: raised_def)
    from num_end_step [OF n ok this] obtain bs where bs: "len < 2 ^ 31" "moved rdr bs rdr1" "rd_ok rdr1"
      "length bs < length (bytes_left rdr)" by blast
    then have "ends (copy_with r len (gu_string_buf_writer gu_string_buf) rdr1) (copied P rdr1 (gu_string_buf_writer gu_string_buf) len)"
      using string_buf_ok by (intro copy_with_end valid r raise) (auto simp: rd_ok_def OUT_LIMIT_def)
    then show ?thesis by (rule ends_mono) (use interned [OF _ bs(2,4,1)] in auto)
  qed
  show ?thesis
    unfolding read_text_def ends_bindR by (rule ends_mono [OF read_len_end [OF ok]]) (use copied in \<open>auto simp: split_def\<close>)
qed

end

definition str_bytes :: "GuUCS list \<Rightarrow> u8 list" where
  "str_bytes us = int_bytes (int (length us)) @ utf8_all us"

definition id_bytes :: "u8 list \<Rightarrow> u8 list" where
  "id_bytes cs = int_bytes (int (length cs)) @ cs"

definition str_ok :: "GuUCS list \<Rightarrow> bool" where
  "str_ok us \<longleftrightarrow> list_all gu_ucs_valid us \<and> length (utf8_all us) < 256"

text \<open>A value is a string with the given text.\<close>

fun is_str :: "str_heap \<Rightarrow> GuUCS list \<Rightarrow> gval \<Rightarrow> bool" where
  "is_str h us (V_Str s) = valid_string h s (utf8_all us)"
| "is_str h us v = False"

lemma is_str_append: "is_str h us v \<Longrightarrow> is_str (h @ g) us v"
  by (cases v) (auto intro: valid_append)

context reader_stream begin

lemma read_GuString:
  assumes "rd_ok rdr" and "bytes_left rdr = str_bytes us @ rest" and "str_ok us"
  shows "\<exists>v rdr'. pgf_read_to_GuString F rdr = Done (v, rdr') \<and> took rdr rest rdr' \<and> is_str (strings rdr') us v"
proof -
  have v: "gu_ucs_valid u" if "u \<in> set us" for u using assms(3) that by (auto simp: str_ok_def list_all_iff)
  have "\<exists>s rdr'. read_text F (gu_in_utf8 F) rdr = Done (V_Str s, rdr') \<and> took rdr rest rdr' \<and>
      valid_string (strings rdr') s (utf8_all us)"
    by (rule read_text_ok [of us utf8_bytes]) (use assms utf8 v in \<open>auto simp: str_bytes_def utf8_all_def str_ok_def\<close>)
  then show ?thesis by (auto simp: read_text_is)
qed

lemma latin1_valid: "gu_ucs_valid (uint (c :: u8))"
  using uint_lt2p [of c] by (simp add: gu_ucs_valid_def GU_UCS_MAX_def)

lemma read_PgfCId:
  assumes "rd_ok rdr" and "bytes_left rdr = id_bytes cs @ rest" and "length (utf8_all (map uint cs)) < 256"
  shows "\<exists>v rdr'. pgf_read_to_PgfCId F rdr = Done (v, rdr') \<and> took rdr rest rdr' \<and> is_str (strings rdr') (map uint cs) v"
proof -
  have "\<exists>i'. in_latin1 F i None = Done (uint c, i', None) \<and> in_ok i' \<and> in_contents i' = rest'"
    if "in_ok i" "in_contents i = c # rest'" for i c rest'
    using u8 [OF that(1)] that(2) by (auto simp: in_latin1_def)
  then have "\<exists>s rdr'. read_text F (in_latin1 F) rdr = Done (V_Str s, rdr') \<and> took rdr rest rdr' \<and>
      valid_string (strings rdr') s (utf8_all (map uint cs))"
    by (intro read_text_ok [of "map uint cs" "\<lambda>u. [word_of_int u]"])
      (use assms latin1_valid in \<open>auto simp: id_bytes_def comp_def list_all_iff\<close>)
  then show ?thesis by (auto simp: read_text_is)
qed

lemma read_GuString_end:
  assumes "rd_ok rdr"
  shows "ends (pgf_read_to_GuString F rdr) (\<lambda>(v, rdr'). raised (rerr rdr') \<or>
    (\<exists>us rest. str_ok us \<and> is_str (strings rdr') us v \<and> took rdr rest rdr' \<and> length rest < length (bytes_left rdr)))"
proof -
  have "ends (read_text F (gu_in_utf8 F) rdr) (\<lambda>(v, rdr'). raised (rerr rdr') \<or>
    (\<exists>s us rest. v = V_Str s \<and> took rdr rest rdr' \<and> length rest + length us < length (bytes_left rdr) \<and>
      valid_string (strings rdr') s (utf8_all us) \<and> list_all gu_ucs_valid us \<and> length (utf8_all us) < 256))"
  proof (rule read_text_end [of gu_ucs_valid, OF _ _ _ assms])
    show "ends (gu_in_utf8 F i None) (\<lambda>(u, i', err). gu_ucs_valid u \<and>
      (raised err \<or> (err = None \<and> in_ok i' \<and> length (in_contents i') < length (in_contents i))))" if "in_ok i" for i
      by (rule ends_mono [OF utf8_any [OF that]]) (auto simp: raised_def)
    show "ends (gu_in_utf8 F i err) (\<lambda>(u, i', err'). raised err')" if "raised err" for i err
      by (rule ends_mono [OF raising.utf8 [OF that]]) auto
  qed
  then show ?thesis unfolding read_text_is
    by (rule ends_mono) (clarsimp simp: str_ok_def, meson add_lessD1 is_str.simps(1))
qed

lemma read_PgfCId_end:
  assumes "rd_ok rdr"
  shows "ends (pgf_read_to_PgfCId F rdr) (\<lambda>(v, rdr'). raised (rerr rdr') \<or>
    (\<exists>cs rest. length (utf8_all (map uint cs)) < 256 \<and> is_str (strings rdr') (map uint (cs :: u8 list)) v \<and> took rdr rest rdr' \<and>
      length rest < length (bytes_left rdr)))"
proof -
  define P where "P u \<longleftrightarrow> 0 \<le> u \<and> u < (256 :: GuUCS)" for u
  have "ends (read_text F (in_latin1 F) rdr) (\<lambda>(v, rdr'). raised (rerr rdr') \<or>
    (\<exists>s us rest. v = V_Str s \<and> took rdr rest rdr' \<and> length rest + length us < length (bytes_left rdr) \<and>
      valid_string (strings rdr') s (utf8_all us) \<and> list_all P us \<and> length (utf8_all us) < 256))"
  proof (rule read_text_end [OF _ _ _ assms])
    have b: "P (uint c)" for c :: u8 using uint_lt2p [of c] by (simp add: P_def)
    show "gu_ucs_valid u" if "P u" for u using that by (simp add: P_def gu_ucs_valid_def GU_UCS_MAX_def)
    show "ends (in_latin1 F i None) (\<lambda>(u, i', err). P u \<and>
      (raised err \<or> (err = None \<and> in_ok i' \<and> length (in_contents i') < length (in_contents i))))" if "in_ok i" for i
      using u8 [OF that] b b [of 0] by (cases "in_contents i") (auto simp: in_latin1_def)
    show "ends (in_latin1 F i err) (\<lambda>(u, i', err'). raised err')" if "raised err" for i err
      unfolding in_latin1_def by (rule raised3_bind [OF raising.u8 [OF that]]) auto
  qed
  moreover have "\<exists>cs. us = map uint (cs :: u8 list)" if "list_all P us" for us
    using that by (intro exI [of _ "map word_of_int us"], induction us) (auto simp: P_def uint_byte)
  ultimately show ?thesis unfolding read_text_is
    by (elim ends_mono) (clarsimp, metis add_lessD1 is_str.simps(1))
qed

end

end
