(* ===== verification/TypeTables.thy ===== *)
theory TypeTables
  imports Reader
begin

text \<open>
  The type tables, evaluated: the description of each type that an abstract syntax or a sequence of symbols is made of, and the function that
  reads it. The proofs on the reader use these facts instead of searching the tables.
\<close>

subsection \<open>Descriptions\<close>

lemmas type_tables = type_descs_def gu_types_def expr_types_def concrete_types_def abstract_types_def pgf_types_def reader_types_def append.simps

text \<open>No name is twice in the tables. To compare the names quickly they are taken as numbers.\<close>

definition name_key :: "string \<Rightarrow> int" where
  "name_key s = fold (\<lambda>c n. of_char c + 256 * n) s 0"

lemma type_names_distinct: "distinct (map fst type_descs)"
proof -
  have "distinct (map name_key (map fst type_descs))" unfolding type_tables by (simp add: name_key_def)
  then show ?thesis by (metis distinct_map)
qed

lemma describe_table: "(n, d) \<in> set type_descs \<Longrightarrow> describe (GuKind n s) = Some d"
  using type_names_distinct by simp

lemma describe_types:
  "describe ty_PgfBindType = Some (D_Enum 4 [0, 1])"
  "describe (ty_variant ''PgfLiteral'') = Some (D_Variant [ty_struct ''PgfLiteralStr'', ty_struct ''PgfLiteralInt'', ty_struct ''PgfLiteralFlt''])"
  "describe (ty_struct ''PgfLiteralStr'') = Some (D_Struct [ty_GuString])"
  "describe (ty_struct ''PgfLiteralInt'') = Some (D_Struct [ty_int])"
  "describe (ty_struct ''PgfLiteralFlt'') = Some (D_Struct [ty_double])"
  "describe (ty_struct ''PgfHypo'') = Some (D_Struct [ty_PgfBindType, ty_PgfCId, ty_ptr ''PgfType*''])"
  "describe (ty_seq ''PgfHypos'') = Some (D_Seq (ty_struct ''PgfHypo''))"
  "describe (ty_seq ''PgfExprs'') = Some (D_Seq (ty_variant ''PgfExpr''))"
  "describe (ty_struct ''PgfType'') = Some (D_Struct [ty_seq ''PgfHypos'', ty_PgfCId, ty_seq ''PgfExprs''])"
  "describe (ty_ptr ''PgfType*'') = Some (D_Pointer (ty_struct ''PgfType''))"
  "describe (ty_variant ''PgfExpr'') = Some (D_Variant [ty_struct ''PgfExprAbs'', ty_struct ''PgfExprApp'', ty_struct ''PgfExprLit'', ty_struct ''PgfExprMeta'', ty_struct ''PgfExprFun'', ty_struct ''PgfExprVar'', ty_struct ''PgfExprTyped'', ty_struct ''PgfExprImplArg''])"
  "describe (ty_struct ''PgfExprAbs'') = Some (D_Struct [ty_PgfBindType, ty_PgfCId, ty_variant ''PgfExpr''])"
  "describe (ty_struct ''PgfExprApp'') = Some (D_Struct [ty_variant ''PgfExpr'', ty_variant ''PgfExpr''])"
  "describe (ty_struct ''PgfExprLit'') = Some (D_Struct [ty_variant ''PgfLiteral''])"
  "describe (ty_struct ''PgfExprMeta'') = Some (D_Struct [ty_int])"
  "describe (ty_struct ''PgfExprVar'') = Some (D_Struct [ty_int])"
  "describe (ty_struct ''PgfExprFun'') = Some (D_Struct [ty_PgfCId])"
  "describe (ty_struct ''PgfExprTyped'') = Some (D_Struct [ty_variant ''PgfExpr'', ty_ptr ''PgfType*''])"
  "describe (ty_struct ''PgfExprImplArg'') = Some (D_Struct [ty_variant ''PgfExpr''])"
  "describe (ty_seq ''PgfTokens'') = Some (D_Seq ty_GuString)"
  "describe (ty_struct ''PgfAlternative'') = Some (D_Struct [ty_seq ''PgfTokens'', ty_GuStrings])"
  "describe (ty_seq ''PgfAlternatives'') = Some (D_Seq (ty_struct ''PgfAlternative''))"
  "describe (ty_struct ''PgfSymbolIdx'') = Some (D_Struct [ty_int32_t, ty_int32_t])"
  "describe (ty_variant ''PgfSymbol'') = Some (D_Variant [ty_struct ''PgfSymbolIdx'', ty_struct ''PgfSymbolIdx'', ty_struct ''PgfSymbolIdx'', ty_struct ''PgfSymbolKS'', ty_struct ''PgfSymbolKP''])"
  "describe (ty_struct ''PgfSymbolKS'') = Some (D_Struct [ty_seq ''PgfTokens''])"
  "describe (ty_struct ''PgfSymbolKP'') = Some (D_Struct [ty_seq ''PgfTokens'', ty_seq ''PgfAlternatives''])"
  "describe (ty_seq ''PgfSequence'') = Some (D_Seq (ty_variant ''PgfSymbol''))"
  "describe ty_GuStrings = Some (D_Seq ty_GuString)"
  "describe ty_PgfPGFCtx = Some (D_Pointer ty_PgfPGF)"
  "describe ty_PgfCIdKey = Some (D_Alias ty_PgfCId)"
  "describe ty_PgfFlags = Some (D_Map True ty_GuString (ty_variant ''PgfLiteral''))"
  "describe (ty_ptr ''PgfFlagsP'') = Some (D_Pointer ty_PgfFlags)"
  "describe (ty_seq ''PgfPatts'') = Some (D_Seq (ty_variant ''PgfPatt''))"
  "describe (ty_variant ''PgfPatt'') = Some (D_Variant [ty_struct ''PgfPattApp'', ty_struct ''PgfPattVar'', ty_struct ''PgfPattAs'', ty_void, ty_struct ''PgfPattLit'', ty_struct ''PgfPattImplArg'', ty_struct ''PgfPattTilde''])"
  "describe (ty_struct ''PgfPattApp'') = Some (D_Struct [ty_PgfCId, ty_seq ''PgfPatts''])"
  "describe (ty_struct ''PgfPattVar'') = Some (D_Struct [ty_PgfCId])"
  "describe (ty_struct ''PgfPattAs'') = Some (D_Struct [ty_PgfCId, ty_variant ''PgfPatt''])"
  "describe (ty_struct ''PgfPattLit'') = Some (D_Struct [ty_variant ''PgfLiteral''])"
  "describe (ty_struct ''PgfPattImplArg'') = Some (D_Struct [ty_variant ''PgfPatt''])"
  "describe (ty_struct ''PgfPattTilde'') = Some (D_Struct [ty_variant ''PgfExpr''])"
  "describe (ty_struct ''PgfEquation'') = Some (D_Struct [ty_seq ''PgfPatts'', ty_variant ''PgfExpr''])"
  "describe ty_PgfEquationsM = Some (D_Seq (ty_struct ''PgfEquation''))"
  "describe (ty_struct ''PgfFunDecl'') = Some (D_Struct [ty_ptr ''PgfType*'', ty_int32_t, ty_PgfEquationsM, ty_double])"
  "describe (ty_ptr ''PgfFunDecl*'') = Some (D_Pointer (ty_struct ''PgfFunDecl''))"
  "describe (ty_struct ''PgfCatFun'') = Some (D_Struct [ty_double, ty_PgfCId])"
  "describe (ty_seq ''PgfCatFuns'') = Some (D_Seq (ty_struct ''PgfCatFun''))"
  "describe ty_PgfCat = Some (D_Struct [ty_PgfPGFCtx, ty_PgfCIdKey, ty_seq ''PgfHypos'', ty_seq ''PgfCatFuns''])"
  "describe (ty_ptr ''PgfCat*'') = Some (D_Pointer ty_PgfCat)"
  "describe (ty_string_map ''PgfCIdMap(PgfFunDecl*)'') = Some (D_Map True ty_GuString (ty_ptr ''PgfFunDecl*''))"
  "describe (ty_ptr ''PgfCIdMap(PgfFunDecl*)*'') = Some (D_Pointer (ty_string_map ''PgfCIdMap(PgfFunDecl*)''))"
  "describe (ty_string_map ''PgfCIdMap(PgfCat*)'') = Some (D_Map True ty_GuString (ty_ptr ''PgfCat*''))"
  "describe (ty_ptr ''PgfCIdMap(PgfCat*)*'') = Some (D_Pointer (ty_string_map ''PgfCIdMap(PgfCat*)''))"
  "describe (ty_struct ''PgfAbstr'') = Some (D_Struct [ty_PgfCId, ty_ptr ''PgfFlagsP'', ty_ptr ''PgfCIdMap(PgfFunDecl*)*'', ty_ptr ''PgfCIdMap(PgfCat*)*''])"
  "describe ty_PgfPrintNames = Some (D_Map True ty_GuString ty_GuString)"
  "describe (ty_string_map ''PgfCIdMap(PgfConcr*)'') = Some (D_Map True ty_GuString (ty_ptr ''PgfConcr*''))"
  "describe (ty_ptr ''PgfCIdMap(PgfConcr*)*'') = Some (D_Pointer (ty_string_map ''PgfCIdMap(PgfConcr*)''))"
  "describe ty_PgfPGF = Some (D_Alias (ty_struct ''struct PgfPGF''))"
  "describe (ty_struct ''struct PgfPGF'') = Some (D_Struct [ty_uint16_t, ty_uint16_t, ty_ptr ''PgfFlagsP'', ty_struct ''PgfAbstr'',
     ty_ptr ''PgfCIdMap(PgfConcr*)*''])"
  unfolding named_type_defs
  by (rule describe_table, unfold type_tables named_type_defs, (rule list.set_intros(1) | rule list.set_intros(2))+)+

subsection \<open>Functions\<close>

text \<open>The lookup climbs from a type to its kind.\<close>

lemma read_to_types:
  "gu_type_map_get (gu_new_type_map pgf_read_to_table) (ty_struct n) = Some R_struct"
  "gu_type_map_get (gu_new_type_map pgf_read_to_table) (ty_variant n) = Some R_GuVariant"
  "gu_type_map_get (gu_new_type_map pgf_read_to_table) (ty_ptr n) = Some R_pointer"
  "n \<notin> {''PgfEquationsM'', ''PgfSequences'', ''PgfCncFuns''} \<Longrightarrow>
     gu_type_map_get (gu_new_type_map pgf_read_to_table) (ty_seq n) = Some R_GuSeq"
  "gu_type_map_get (gu_new_type_map pgf_read_to_table) ty_GuStrings = Some R_GuSeq"
  "gu_type_map_get (gu_new_type_map pgf_read_to_table) ty_PgfCat = Some R_struct"
  "gu_type_map_get (gu_new_type_map pgf_read_to_table) ty_PgfEquationsM = Some R_maybe_seq"
  "gu_type_map_get (gu_new_type_map pgf_read_to_table) ty_void = Some R_void"
  "gu_type_map_get (gu_new_type_map pgf_read_to_table) ty_int32_t = Some R_int32_t"
  "gu_type_map_get (gu_new_type_map pgf_read_to_table) ty_uint16_t = Some R_uint16_t"
  "gu_type_map_get (gu_new_type_map pgf_read_to_table) ty_double = Some R_double"
  "gu_type_map_get (gu_new_type_map pgf_read_to_table) ty_GuString = Some R_GuString"
  "gu_type_map_get (gu_new_type_map pgf_read_to_table) ty_PgfCId = Some R_PgfCId"
  "gu_type_map_get (gu_new_type_map pgf_read_to_table) ty_PgfBindType = Some R_enum"
  "gu_type_map_get (gu_new_type_map pgf_read_to_table) ty_PgfPGFCtx = Some R_PgfContext"
  "gu_type_map_get (gu_new_type_map pgf_read_to_table) ty_PgfCIdKey = Some R_PgfKey"
  "gu_type_map_get (gu_new_type_map pgf_read_to_table) ty_PgfPGF = Some R_referenced"
  by (simp_all add: gu_new_type_map_def pgf_read_to_table_def kind_defs prim_type_defs named_type_defs)

lemma read_new_types:
  "n \<notin> {''PgfCCat'', ''PgfCncCat'', ''PgfConcr''} \<Longrightarrow>
     gu_type_map_get (gu_new_type_map pgf_read_new_table) (ty_struct n) = Some N_type"
  "gu_type_map_get (gu_new_type_map pgf_read_new_table) (ty_string_map n) = Some N_GuMap"
  "gu_type_map_get (gu_new_type_map pgf_read_new_table) ty_PgfFlags = Some N_GuMap"
  "gu_type_map_get (gu_new_type_map pgf_read_new_table) ty_PgfPrintNames = Some N_GuMap"
  "gu_type_map_get (gu_new_type_map pgf_read_new_table) ty_PgfCat = Some N_type"
  "gu_type_map_get (gu_new_type_map pgf_read_new_table) ty_PgfPGF = Some N_type"
  by (simp_all add: gu_new_type_map_def pgf_read_new_table_def kind_defs prim_type_defs named_type_defs)

text \<open>The types of the elements of sequences and of the constructors of variants have a size, and pointers point to structs and maps.\<close>

lemma type_reprs:
  "gu_type_repr 4 (ty_struct n) = Some (ty_struct n)"
  "gu_type_repr 4 (ty_variant n) = Some (ty_variant n)"
  "gu_type_repr 4 (ty_seq n) = Some (ty_seq n)"
  "gu_type_repr 4 ty_GuString = Some ty_GuString"
  "gu_type_repr 4 ty_void = Some ty_void"
  "gu_type_repr 4 ty_PgfCat = Some ty_PgfCat"
  by (simp_all add: eval_nat_numeral gu_type_dyn_cast_def kind_defs prim_type_defs named_type_defs)

lemma type_repr_PgfPGF: "gu_type_repr 4 ty_PgfPGF = Some (ty_struct ''struct PgfPGF'')"
  by code_simp

lemma pointed_kinds:
  "gu_type_has_kind (ty_struct n) kind_struct" "gu_type_has_kind (ty_string_map n) kind_abstract"
  "gu_type_has_kind ty_PgfCat kind_struct" "gu_type_has_kind ty_PgfFlags kind_abstract" "gu_type_has_kind ty_PgfPrintNames kind_abstract"
  by (simp_all add: kind_defs named_type_defs)

text \<open>The only integer type without a function is \<open>int\<close>.\<close>

lemma read_to_int: "gu_type_map_get (gu_new_type_map pgf_read_to_table) ty_int = None"
  by (simp add: gu_new_type_map_def pgf_read_to_table_def kind_defs prim_type_defs named_type_defs)

end
