(* ===== verification/ReadTree.thy ===== *)
theory ReadTree
  imports ReadText TypeTables
begin

text \<open>
  What a grammar file means: the trees that the readers without references to other parts of the grammar read. \<open>encode\<close> is the file
  form of a tree, \<open>tree_ok\<close> tells the trees of a type, following the type tables of the reader, and \<open>rep\<close> is the relation
  between a tree and the value in memory that stands for it. The trees cover abstract syntaxes and everything in them; concrete
  syntaxes, whose parts refer to each other by numbers, are not trees.
\<close>

subsection \<open>Trees and their file form\<close>

text \<open>\<open>T_Enum\<close> has the number of a constant and its value. \<open>T_Ctx\<close> and \<open>T_Key\<close> stand for members that are not in the file: the
  pointer to the grammar, and the key under which an object is entered into a map.\<close>

datatype tree =
    T_Void
  | T_Int int
  | T_U16 int
  | T_Len nat
  | T_Double u64
  | T_Str "GuUCS list"
  | T_Id "u8 list"
  | T_Enum nat int
  | T_Struct "tree list"
  | T_Variant nat tree
  | T_Seq "tree list"
  | T_NoSeq
  | T_SomeSeq "tree list"
  | T_Ptr tree
  | T_Map "(GuUCS list \<times> tree) list"
  | T_Ctx
  | T_Key

primrec encode :: "tree \<Rightarrow> u8 list" where
  "encode T_Void = []"
| "encode (T_Int i) = int_bytes i"
| "encode (T_U16 n) = be_bytes 2 n"
| "encode (T_Len n) = int_bytes (int n)"
| "encode (T_Double w) = be_bytes 8 (uint w)"
| "encode (T_Str us) = str_bytes us"
| "encode (T_Id cs) = id_bytes cs"
| "encode (T_Enum i x) = [word_of_nat i]"
| "encode (T_Struct ts) = concat (map encode ts)"
| "encode (T_Variant i t) = word_of_nat i # encode t"
| "encode (T_Seq ts) = int_bytes (int (length ts)) @ concat (map encode ts)"
| "encode T_NoSeq = [0]"
| "encode (T_SomeSeq ts) = 1 # int_bytes (int (length ts)) @ concat (map encode ts)"
| "encode (T_Ptr t) = encode t"
| "encode (T_Map es) =
     int_bytes (int (length es)) @ concat (map (\<lambda>(us, bs). str_bytes us @ bs) (map (map_prod id encode) es))"
| "encode T_Ctx = []"
| "encode T_Key = []"

text \<open>No key occurs twice in a map.\<close>

primrec keys_distinct :: "tree \<Rightarrow> bool" where
  "keys_distinct T_Void = True"
| "keys_distinct (T_Int i) = True"
| "keys_distinct (T_U16 n) = True"
| "keys_distinct (T_Len n) = True"
| "keys_distinct (T_Double w) = True"
| "keys_distinct (T_Str us) = True"
| "keys_distinct (T_Id cs) = True"
| "keys_distinct (T_Enum i x) = True"
| "keys_distinct (T_Struct ts) = list_all (\<lambda>b. b) (map keys_distinct ts)"
| "keys_distinct (T_Variant i t) = keys_distinct t"
| "keys_distinct (T_Seq ts) = list_all (\<lambda>b. b) (map keys_distinct ts)"
| "keys_distinct T_NoSeq = True"
| "keys_distinct (T_SomeSeq ts) = list_all (\<lambda>b. b) (map keys_distinct ts)"
| "keys_distinct (T_Ptr t) = keys_distinct t"
| "keys_distinct (T_Map es) = (distinct (map fst es) \<and> list_all snd (map (map_prod id keys_distinct) es))"
| "keys_distinct T_Ctx = True"
| "keys_distinct T_Key = True"

subsection \<open>The trees of a type\<close>

text \<open>What a function of the table \<open>pgf_read_to_table\<close> can read, where \<open>ok\<close> tells the trees of the types of the parts, and
  \<open>new\<close> those of the types that pointers point to. In a map or a sequence there is a key.\<close>

definition seq_fits :: "(bool \<Rightarrow> GuType \<Rightarrow> tree \<Rightarrow> bool) \<Rightarrow> GuType \<Rightarrow> tree list \<Rightarrow> bool" where
  "seq_fits ok type ts =
     (case describe type of
        Some (D_Seq et) \<Rightarrow> int (length ts) < 2 ^ 31 \<and> gu_type_repr 4 et \<noteq> None \<and> list_all (ok True et) ts
      | _ \<Rightarrow> False)"

definition fits ::
  "bool \<Rightarrow> (bool \<Rightarrow> GuType \<Rightarrow> tree \<Rightarrow> bool) \<Rightarrow> (bool \<Rightarrow> GuType \<Rightarrow> tree \<Rightarrow> bool) \<Rightarrow> PgfReadToFn \<Rightarrow> GuType \<Rightarrow> tree \<Rightarrow> bool" where
  "fits key ok new fn type t =
     (case fn of
        R_struct \<Rightarrow>
          (case describe type of Some (D_Struct ms) \<Rightarrow> (case t of T_Struct ts \<Rightarrow> list_all2 (ok key) ms ts | _ \<Rightarrow> False) | _ \<Rightarrow> False)
      | R_GuVariant \<Rightarrow>
          (case describe type of
             Some (D_Variant cs) \<Rightarrow>
               (case t of
                  T_Variant i u \<Rightarrow> i < length cs \<and> i < 256 \<and> gu_type_repr 4 (cs ! i) \<noteq> None \<and> ok key (cs ! i) u
                | _ \<Rightarrow> False)
           | _ \<Rightarrow> False)
      | R_enum \<Rightarrow>
          (case describe type of
             Some (D_Enum sz cs) \<Rightarrow>
               (case t of
                  T_Enum i x \<Rightarrow> i < length cs \<and> i < 256 \<and> sz \<in> {1, 2, 4, 8} \<and> x = to_signed (8 * sz) (cs ! i)
                | _ \<Rightarrow> False)
           | _ \<Rightarrow> False)
      | R_void \<Rightarrow> t = T_Void
      | R_int32_t \<Rightarrow> (case t of T_Int i \<Rightarrow> - (2 ^ 31) \<le> i \<and> i < 2 ^ 31 | _ \<Rightarrow> False)
      | R_uint16_t \<Rightarrow> (case t of T_U16 n \<Rightarrow> 0 \<le> n \<and> n < 2 ^ 16 | _ \<Rightarrow> False)
      | R_GuLength \<Rightarrow> (case t of T_Len n \<Rightarrow> int n < 2 ^ 31 | _ \<Rightarrow> False)
      | R_double \<Rightarrow> (case t of T_Double w \<Rightarrow> True | _ \<Rightarrow> False)
      | R_GuString \<Rightarrow> (case t of T_Str us \<Rightarrow> str_ok us | _ \<Rightarrow> False)
      | R_PgfCId \<Rightarrow> (case t of T_Id cs \<Rightarrow> length (utf8_all (map uint cs)) < 256 | _ \<Rightarrow> False)
      | R_pointer \<Rightarrow>
          (case describe type of
             Some (D_Pointer p) \<Rightarrow> (gu_type_has_kind p kind_struct \<or> gu_type_has_kind p kind_abstract) \<and> new key p t
           | _ \<Rightarrow> False)
      | R_GuSeq \<Rightarrow> (case t of T_Seq ts \<Rightarrow> seq_fits ok type ts | _ \<Rightarrow> False)
      | R_maybe_seq \<Rightarrow> (case t of T_NoSeq \<Rightarrow> True | T_SomeSeq ts \<Rightarrow> seq_fits ok type ts | _ \<Rightarrow> False)
      | R_alias \<Rightarrow> (case describe type of Some (D_Alias u) \<Rightarrow> ok key u t | _ \<Rightarrow> False)
      | R_PgfContext \<Rightarrow> (case describe type of Some (D_Pointer p) \<Rightarrow> t = T_Ctx \<and> p = ty_PgfPGF | _ \<Rightarrow> False)
      | R_PgfKey \<Rightarrow> t = T_Key \<and> key
      | _ \<Rightarrow> False)"

definition fits_new ::
  "bool \<Rightarrow> (bool \<Rightarrow> GuType \<Rightarrow> tree \<Rightarrow> bool) \<Rightarrow> PgfReadNewFn \<Rightarrow> GuType \<Rightarrow> tree \<Rightarrow> bool" where
  "fits_new key ok fn type t =
     (case fn of
        N_type \<Rightarrow> (case t of T_Ptr u \<Rightarrow> gu_type_repr 4 type \<noteq> None \<and> ok key type u | _ \<Rightarrow> False)
      | N_GuMap \<Rightarrow>
          (case describe type of
             Some (D_Map hashed kt vt) \<Rightarrow>
               (case t of
                  T_Map es \<Rightarrow> hashed \<and> int (length es) < 2 ^ 31 \<and> list_all (\<lambda>(us, u). ok False kt (T_Str us) \<and> ok True vt u) es
                | _ \<Rightarrow> False)
           | _ \<Rightarrow> False)
      | _ \<Rightarrow> False)"

text \<open>The fuel is that of the reader.\<close>

fun tree_ok :: "nat \<Rightarrow> bool \<Rightarrow> GuType \<Rightarrow> tree \<Rightarrow> bool"
  and new_ok :: "nat \<Rightarrow> bool \<Rightarrow> GuType \<Rightarrow> tree \<Rightarrow> bool" where
  "tree_ok 0 key type t = False"
| "tree_ok (Suc n) key type t =
     (case gu_type_map_get (gu_new_type_map pgf_read_to_table) type of
        None \<Rightarrow> False
      | Some fn \<Rightarrow> fits key (tree_ok n) (new_ok n) fn type t)"
| "new_ok 0 key type t = False"
| "new_ok (Suc n) key type t =
     (case gu_type_map_get (gu_new_type_map pgf_read_new_table) type of
        None \<Rightarrow> False
      | Some fn \<Rightarrow> fits_new key (tree_ok n) fn type t)"

lemma tree_ok_numeral [simp]:
  "tree_ok (numeral k) key type t =
     (case gu_type_map_get (gu_new_type_map pgf_read_to_table) type of
        None \<Rightarrow> False
      | Some fn \<Rightarrow> fits key (tree_ok (pred_numeral k)) (new_ok (pred_numeral k)) fn type t)"
  "new_ok (numeral k) key type t =
     (case gu_type_map_get (gu_new_type_map pgf_read_new_table) type of
        None \<Rightarrow> False
      | Some fn \<Rightarrow> fits_new key (tree_ok (pred_numeral k)) fn type t)"
  by (simp_all add: numeral_eq_Suc)

lemmas tree_eval = fits_def fits_new_def seq_fits_def read_to_types read_new_types describe_types type_reprs pointed_kinds

subsection \<open>Trees in memory\<close>

text \<open>The elements of a sequence have their indices as keys.\<close>

fun elems_rep :: "(gval \<Rightarrow> gval \<Rightarrow> bool) list \<Rightarrow> nat \<Rightarrow> gval list \<Rightarrow> bool" where
  "elems_rep [] i vs = (vs = [])"
| "elems_rep (r # rs) i [] = False"
| "elems_rep (r # rs) i (v # vs) = (r (V_Int (int i)) v \<and> elems_rep rs (Suc i) vs)"

text \<open>\<open>rep t rdr mk key v\<close>: in the memory of the reader, the value \<open>v\<close> stands for the tree \<open>t\<close>, in a place with the given key. The
  objects and the maps that it is made of are beyond the mark \<open>mk\<close>.\<close>

type_synonym mark = "nat \<times> nat"

primrec rep :: "tree \<Rightarrow> 's PgfReader \<Rightarrow> mark \<Rightarrow> gval \<Rightarrow> gval \<Rightarrow> bool" where
  "rep T_Void = (\<lambda>rdr mk key v. v = V_Uninit)"
| "rep (T_Int i) = (\<lambda>rdr mk key v. v = V_Int i)"
| "rep (T_U16 n) = (\<lambda>rdr mk key v. v = V_Int n)"
| "rep (T_Len n) = (\<lambda>rdr mk key v. v = V_Int (int n))"
| "rep (T_Double w) = (\<lambda>rdr mk key v. v = V_Double w)"
| "rep (T_Str us) = (\<lambda>rdr mk key v. is_str (strings rdr) us v)"
| "rep (T_Id cs) = (\<lambda>rdr mk key v. is_str (strings rdr) (map uint cs) v)"
| "rep (T_Enum i x) = (\<lambda>rdr mk key v. v = V_Int x)"
| "rep (T_Struct ts) = (\<lambda>rdr mk key v.
     case v of V_Struct vs \<Rightarrow> list_all2 (\<lambda>r w. r rdr mk key w) (map rep ts) vs | _ \<Rightarrow> False)"
| "rep (T_Variant i t) = (\<lambda>rdr mk key v. case v of V_Variant j w \<Rightarrow> j = i \<and> rep t rdr mk key w | _ \<Rightarrow> False)"
| "rep (T_Seq ts) = (\<lambda>rdr mk key v.
     case v of V_Seq vs \<Rightarrow> elems_rep (map (\<lambda>r. r rdr mk) (map rep ts)) 0 vs | _ \<Rightarrow> False)"
| "rep T_NoSeq = (\<lambda>rdr mk key v. v = V_NullSeq)"
| "rep (T_SomeSeq ts) = (\<lambda>rdr mk key v.
     case v of V_Seq vs \<Rightarrow> elems_rep (map (\<lambda>r. r rdr mk) (map rep ts)) 0 vs | _ \<Rightarrow> False)"
| "rep (T_Ptr t) = (\<lambda>rdr mk key v.
     case v of V_Ptr a \<Rightarrow> fst mk \<le> a \<and> a < length (heap rdr) \<and> rep t rdr mk key (heap rdr ! a) | _ \<Rightarrow> False)"
| "rep (T_Map es) = (\<lambda>rdr mk key v.
     case v of
       V_Map m \<Rightarrow> snd mk \<le> m \<and> m < length (maps rdr) \<and>
         list_all2 (\<lambda>(us, r) (k, w). is_str (strings rdr) us k \<and> r rdr mk k w) (map (map_prod id rep) es) (maps rdr ! m)
     | _ \<Rightarrow> False)"
| "rep T_Ctx = (\<lambda>rdr mk key v. v = context_ptr ty_PgfPGF rdr)"
| "rep T_Key = (\<lambda>rdr mk key v. v = key)"

lemma rep_Struct: "rep (T_Struct ts) rdr mk key v \<longleftrightarrow> (\<exists>vs. v = V_Struct vs \<and> list_all2 (\<lambda>t w. rep t rdr mk key w) ts vs)"
  by (cases v) (auto simp: list_all2_map1)

lemma rep_Map:
  "rep (T_Map es) rdr mk key v \<longleftrightarrow> (\<exists>m. v = V_Map m \<and> snd mk \<le> m \<and> m < length (maps rdr) \<and>
     list_all2 (\<lambda>(us, t) (k, w). is_str (strings rdr) us k \<and> rep t rdr mk k w) es (maps rdr ! m))"
  by (cases v) (auto simp: list_all2_map1 split_def map_prod_def)

lemma rep_Seq:
  "rep (T_Seq ts) rdr mk key v \<longleftrightarrow> (\<exists>vs. v = V_Seq vs \<and> elems_rep (map (\<lambda>t. rep t rdr mk) ts) 0 vs)"
  "rep (T_SomeSeq ts) rdr mk key v \<longleftrightarrow> (\<exists>vs. v = V_Seq vs \<and> elems_rep (map (\<lambda>t. rep t rdr mk) ts) 0 vs)"
  by (cases v; simp add: comp_def)+

lemma rep_Ptr:
  "rep (T_Ptr t) rdr mk key v \<longleftrightarrow> (\<exists>a. v = V_Ptr a \<and> fst mk \<le> a \<and> a < length (heap rdr) \<and> rep t rdr mk key (heap rdr ! a))"
  by (cases v) auto

lemma rep_Variant: "rep (T_Variant i t) rdr mk key v \<longleftrightarrow> (\<exists>w. v = V_Variant i w \<and> rep t rdr mk key w)"
  by (cases v) auto

text \<open>A value for a tree with parts is of the form that the tree has.\<close>

lemmas rep_simps = rep.simps(1-8,12,16,17) rep_Struct rep_Map rep_Seq rep_Ptr rep_Variant

declare rep.simps [simp del] rep_simps [simp]

end
