(* ===== verification/ReadCorrect.thy ===== *)
theory ReadCorrect
  imports ReadTree
begin

text \<open>
  The reader of types reads back the encoding of every tree of a type. The lemmas follow the functions of the reader; each says
  what the value is that a function reads, and that nothing else in memory changes.
\<close>

subsection \<open>What a reader leaves alone\<close>

fun addr :: "loc \<Rightarrow> nat set" where
  "addr Elsewhere = {}"
| "addr (Loc a p) = {a}"

lemma addr_member [simp]: "addr (member_loc to i) = addr to"
  by (cases to) auto

definition mark :: "'s PgfReader \<Rightarrow> mark" where
  "mark rdr = (length (heap rdr), length (maps rdr))"

text \<open>All objects but those in \<open>A\<close> and all maps but those in \<open>M\<close> are as before.\<close>

definition frame :: "nat set \<Rightarrow> nat set \<Rightarrow> 's PgfReader \<Rightarrow> 's PgfReader \<Rightarrow> bool" where
  "frame A M rdr rdr' \<longleftrightarrow>
     length (heap rdr) \<le> length (heap rdr') \<and> length (maps rdr) \<le> length (maps rdr') \<and>
     (\<forall>a < length (heap rdr). a \<notin> A \<longrightarrow> heap rdr' ! a = heap rdr ! a) \<and>
     (\<forall>m < length (maps rdr). m \<notin> M \<longrightarrow> maps rdr' ! m = maps rdr ! m) \<and>
     prefix (strings rdr) (strings rdr') \<and> ctx rdr' = ctx rdr"

lemma frame_refl [simp]: "frame A M rdr rdr"
  by (simp add: frame_def)

lemma frame_trans: "frame A M rdr rdr1 \<Longrightarrow> frame A M rdr1 rdr2 \<Longrightarrow> frame A M rdr rdr2"
  by (auto simp: frame_def intro: prefix_order.trans)

lemma frame_mono: "frame A M rdr rdr' \<Longrightarrow> A \<subseteq> A' \<Longrightarrow> M \<subseteq> M' \<Longrightarrow> frame A' M' rdr rdr'"
  by (auto simp: frame_def)

lemma frame_mark: "frame A M rdr rdr' \<Longrightarrow> fst (mark rdr) \<le> fst (mark rdr') \<and> snd (mark rdr) \<le> snd (mark rdr')"
  by (simp add: frame_def mark_def)

text \<open>What is new may change.\<close>

lemma frame_new:
  assumes "frame A M rdr rdr'"
  shows "frame (A \<inter> {..< length (heap rdr)}) (M \<inter> {..< length (maps rdr)}) rdr rdr'"
  using assms by (auto simp: frame_def)

lemma is_str_prefix: "is_str h us v \<Longrightarrow> prefix h h' \<Longrightarrow> is_str h' us v"
  by (auto simp: prefix_def intro: is_str_append)

lemma elems_rep_nth:
  "elems_rep rs i vs \<longleftrightarrow> length vs = length rs \<and> (\<forall>j < length rs. (rs ! j) (V_Int (int (i + j))) (vs ! j))"
proof (induction rs i vs rule: elems_rep.induct)
  case (3 r rs i v vs)
  then show ?case by (auto simp: All_less_Suc2 add_ac)
qed auto

lemma rep_frame:
  assumes "rep t rdr mk key v" and "frame A M rdr rdr'" and "\<forall>a \<in> A. a < fst mk" and "\<forall>m \<in> M. m < snd mk"
    and "fst mk' \<le> fst mk" and "snd mk' \<le> snd mk"
  shows "rep t rdr' mk' key v"
  using assms(1)
proof (induction t arbitrary: key v)
  case (T_Str us)
  then show ?case using assms(2) by (auto simp: frame_def intro: is_str_prefix)
next
  case (T_Id cs)
  then show ?case using assms(2) by (auto simp: frame_def intro: is_str_prefix)
next
  case (T_Struct ts)
  then show ?case by (auto elim!: list.rel_mono_strong)
next
  case (T_Variant i t)
  then show ?case by auto
next
  case (T_Seq ts)
  then show ?case by (auto simp: elems_rep_nth)
next
  case (T_SomeSeq ts)
  then show ?case by (auto simp: elems_rep_nth)
next
  case (T_Ptr t)
  then obtain a where a: "v = V_Ptr a" "fst mk \<le> a" "a < length (heap rdr)" "rep t rdr mk key (heap rdr ! a)" by auto
  moreover from this assms(3) have "a \<notin> A" by fastforce
  ultimately have "heap rdr' ! a = heap rdr ! a" "a < length (heap rdr')" using assms(2) by (auto simp: frame_def)
  with a T_Ptr.IH assms(5) show ?case by auto
next
  case (T_Map es)
  then obtain m where m: "v = V_Map m" "snd mk \<le> m" "m < length (maps rdr)"
    "list_all2 (\<lambda>(us, t) (k, w). is_str (strings rdr) us k \<and> rep t rdr mk k w) es (maps rdr ! m)" by auto
  have "list_all2 (\<lambda>(us, t) (k, w). is_str (strings rdr') us k \<and> rep t rdr' mk' k w) es (maps rdr ! m)"
    using m(4) by (rule list.rel_mono_strong) (use T_Map.IH assms(2) in \<open>fastforce simp: frame_def intro: is_str_prefix\<close>)
  moreover have "m \<notin> M" using m(2) assms(4) by fastforce
  then have "maps rdr' ! m = maps rdr ! m" "m < length (maps rdr')" using m(3) assms(2) by (auto simp: frame_def)
  ultimately show ?case using m(1,2) assms(6) by auto
next
  case T_Ctx
  then show ?case using assms(2) by (simp add: frame_def context_ptr_def)
qed (use assms in auto)

definition kept :: "loc \<Rightarrow> 's PgfReader \<Rightarrow> 's PgfReader \<Rightarrow> bool" where
  "kept to rdr rdr' \<longleftrightarrow> frame (addr to) {} rdr rdr' \<and> curr_key rdr' = curr_key rdr"

lemma kept_refl [simp]: "kept to rdr rdr"
  by (simp add: kept_def)

lemma kept_trans: "kept to rdr rdr1 \<Longrightarrow> kept to rdr1 rdr2 \<Longrightarrow> kept to rdr rdr2"
  by (auto simp: kept_def intro: frame_trans)

lemma kept_member [simp]: "kept (member_loc to i) = kept to"
  by (simp add: kept_def fun_eq_iff)

lemma kept_anywhere: "kept Elsewhere rdr rdr' \<Longrightarrow> kept to rdr rdr'"
  by (auto simp: kept_def elim: frame_mono)

lemma kept_store: "kept to rdr (store to v rdr)"
  by (cases to) (auto simp: kept_def frame_def)

lemma store_simps [simp]:
  "rin (store to v rdr) = rin rdr" "rerr (store to v rdr) = rerr rdr" "strings (store to v rdr) = strings rdr"
  "symtab (store to v rdr) = symtab rdr" "curr_key (store to v rdr) = curr_key rdr" "maps (store to v rdr) = maps rdr"
  "length (heap (store to v rdr)) = length (heap rdr)" "ctx (store to v rdr) = ctx rdr"
  by (cases to; simp)+

definition to_ok :: "loc \<Rightarrow> 's PgfReader \<Rightarrow> bool" where
  "to_ok to rdr \<longleftrightarrow> addr to \<subseteq> {..< length (heap rdr)}"

lemma to_ok_simps [simp]:
  "to_ok Elsewhere rdr" "to_ok (member_loc to i) rdr = to_ok to rdr" "to_ok to (store to' v rdr) = to_ok to rdr"
  by (simp_all add: to_ok_def)

lemma to_ok_kept: "to_ok to rdr \<Longrightarrow> kept to' rdr rdr' \<Longrightarrow> to_ok to rdr'"
  by (auto simp: to_ok_def kept_def frame_def)

text \<open>What has been read stays what it is when the reader goes on.\<close>

lemma rep_kept:
  assumes "rep t rdr1 (mark rdr) key v" and "kept to rdr1 rdr2" and "to_ok to rdr"
  shows "rep t rdr2 (mark rdr) key v"
  using assms by (intro rep_frame [OF assms(1)]) (auto simp: kept_def to_ok_def mark_def)

lemma rep_later:
  assumes "rep t rdr2 (mark rdr1) key v" and "kept to rdr rdr1"
  shows "rep t rdr2 (mark rdr) key v"
  using assms by (intro rep_frame [OF assms(1), of "{}" "{}"]) (auto simp: kept_def frame_def mark_def)

definition plain_key :: "gval \<Rightarrow> bool" where
  "plain_key k \<longleftrightarrow> (\<exists>i. k = V_Int i) \<or> (\<exists>s. k = V_Str s)"

lemma plain_key_word: "plain_key (curr_key rdr) \<Longrightarrow> key_word rdr = Done (curr_key rdr)"
  by (auto simp: plain_key_def key_word_def)

context reader_stream begin

lemma rd_ok_simps [simp]:
  "rd_ok (rdr\<lparr>heap := h\<rparr>) = rd_ok rdr" "rd_ok (rdr\<lparr>maps := ms\<rparr>) = rd_ok rdr" "rd_ok (rdr\<lparr>curr_key := k\<rparr>) = rd_ok rdr"
  "rd_ok (rdr\<lparr>ctx := c\<rparr>) = rd_ok rdr" "rd_ok (store to v rdr) = rd_ok rdr"
  "bytes_left (rdr\<lparr>heap := h\<rparr>) = bytes_left rdr" "bytes_left (rdr\<lparr>maps := ms\<rparr>) = bytes_left rdr"
  "bytes_left (rdr\<lparr>curr_key := k\<rparr>) = bytes_left rdr" "bytes_left (rdr\<lparr>ctx := c\<rparr>) = bytes_left rdr"
  "bytes_left (store to v rdr) = bytes_left rdr"
  by (simp_all add: rd_ok_def bytes_left_def)

lemma took_kept: "took rdr bs rdr' \<Longrightarrow> rd_ok rdr' \<and> bytes_left rdr' = bs \<and> kept to rdr rdr' \<and> rerr rdr' = None"
  by (auto simp: took_def kept_def frame_def rd_ok_def)

lemma moved_kept: "moved rdr bs rdr' \<Longrightarrow> kept to rdr rdr'"
  by (auto simp: moved_def kept_def frame_def)

subsection \<open>Reading back\<close>

definition reads :: "(gval, 's) reading \<Rightarrow> bool \<Rightarrow> loc \<Rightarrow> tree \<Rightarrow> bool" where
  "reads m key to t \<longleftrightarrow> (\<forall>rdr rest. rd_ok rdr \<longrightarrow> to_ok to rdr \<longrightarrow> (key \<longrightarrow> plain_key (curr_key rdr)) \<longrightarrow>
     bytes_left rdr = encode t @ rest \<longrightarrow>
     (\<exists>v rdr'. m rdr = Done (v, rdr') \<and> rd_ok rdr' \<and> bytes_left rdr' = rest \<and> kept to rdr rdr' \<and>
       rep t rdr' (mark rdr) (curr_key rdr) v))"

lemma readsI:
  assumes "\<And>rdr rest. rd_ok rdr \<Longrightarrow> to_ok to rdr \<Longrightarrow> (key \<Longrightarrow> plain_key (curr_key rdr)) \<Longrightarrow> bytes_left rdr = encode t @ rest \<Longrightarrow>
     \<exists>v rdr'. m rdr = Done (v, rdr') \<and> rd_ok rdr' \<and> bytes_left rdr' = rest \<and> kept to rdr rdr' \<and>
       rep t rdr' (mark rdr) (curr_key rdr) v"
  shows "reads m key to t"
  using assms by (auto simp: reads_def)

lemma readsD:
  assumes "reads m key to t" and "rd_ok rdr" and "to_ok to rdr" and "key \<longrightarrow> plain_key (curr_key rdr)"
    and "bytes_left rdr = encode t @ rest"
  shows "\<exists>v rdr'. m rdr = Done (v, rdr') \<and> rd_ok rdr' \<and> bytes_left rdr' = rest \<and> kept to rdr rdr' \<and>
    rep t rdr' (mark rdr) (curr_key rdr) v \<and> rerr rdr' = None"
proof -
  obtain v rdr' where "m rdr = Done (v, rdr')" "rd_ok rdr'" "bytes_left rdr' = rest" "kept to rdr rdr'"
    "rep t rdr' (mark rdr) (curr_key rdr) v" using assms unfolding reads_def by blast
  moreover from this have "rerr rdr' = None" by (simp add: rd_ok_def)
  ultimately show ?thesis by blast
qed

lemma reads_members:
  assumes "list_all2 (\<lambda>m t. \<forall>to. reads (rd m to) key to t) ms ts"
    and "rd_ok rdr" and "to_ok to rdr" and "key \<longrightarrow> plain_key (curr_key rdr)" and "bytes_left rdr = concat (map encode ts) @ rest"
  shows "\<exists>vs rdr'. read_members rd to i ms rdr = Done (vs, rdr') \<and> rd_ok rdr' \<and> bytes_left rdr' = rest \<and> kept to rdr rdr' \<and>
    list_all2 (\<lambda>t v. rep t rdr' (mark rdr) (curr_key rdr) v) ts vs"
  using assms
proof (induction arbitrary: rdr i rule: list_all2_induct)
  case (Cons m ms t ts)
  have b: "bytes_left rdr = encode t @ concat (map encode ts) @ rest" using Cons.prems(4) by simp
  obtain v rdr1 where r1: "rd m (member_loc to i) rdr = Done (v, rdr1)" "rd_ok rdr1" "bytes_left rdr1 = concat (map encode ts) @ rest"
    "kept to rdr rdr1" "rep t rdr1 (mark rdr) (curr_key rdr) v" "rerr rdr1 = None"
    using readsD [OF _ Cons.prems(1) _ Cons.prems(3) b, of "rd m (member_loc to i)" "member_loc to i"] Cons.hyps(1) Cons.prems(2) by auto
  let ?r2 = "store (member_loc to i) v rdr1"
  have k2: "kept to rdr1 ?r2" using kept_store [of "member_loc to i"] by simp
  have k: "curr_key rdr1 = curr_key rdr" using r1(4) by (simp add: kept_def)
  have "\<exists>vs rdr'. read_members rd to (Suc i) ms ?r2 = Done (vs, rdr') \<and> rd_ok rdr' \<and> bytes_left rdr' = rest \<and> kept to ?r2 rdr' \<and>
    list_all2 (\<lambda>t v. rep t rdr' (mark ?r2) (curr_key ?r2) v) ts vs"
    by (rule Cons.IH) (use r1 k Cons.prems to_ok_kept in auto)
  then obtain vs rdr3 where r3: "read_members rd to (Suc i) ms ?r2 = Done (vs, rdr3)" "rd_ok rdr3" "bytes_left rdr3 = rest"
    "kept to ?r2 rdr3" "list_all2 (\<lambda>t v. rep t rdr3 (mark ?r2) (curr_key rdr) v) ts vs" using k by auto
  have k3: "kept to rdr1 rdr3" "kept to rdr ?r2" using kept_trans k2 r3(4) r1(4) by blast+
  have "list_all2 (\<lambda>t v. rep t rdr3 (mark rdr) (curr_key rdr) v) ts vs"
    using r3(5) by (rule list_all2_mono) (rule rep_later [OF _ k3(2)])
  moreover have "rep t rdr3 (mark rdr) (curr_key rdr) v" using rep_kept [OF r1(5) k3(1) Cons.prems(2)] .
  moreover have "kept to rdr rdr3" using kept_trans k3(1) r1(4) by blast
  ultimately show ?case using r1(1,6) r3(1-3) by (simp add: Let_def)
qed simp

lemma reads_struct:
  assumes "describe type = Some (D_Struct ms)" and "list_all2 (\<lambda>m t. \<forall>to. reads (rd m to) key to t) ms ts"
  shows "reads (pgf_read_to_struct rd type to) key to (T_Struct ts)"
proof (rule readsI)
  fix rdr rest
  assume "rd_ok rdr" "to_ok to rdr" "key \<Longrightarrow> plain_key (curr_key rdr)" "bytes_left rdr = encode (T_Struct ts) @ rest"
  with reads_members [OF assms(2), of rdr to rest 0] assms(1)
  show "\<exists>v rdr'. pgf_read_to_struct rd type to rdr = Done (v, rdr') \<and> rd_ok rdr' \<and> bytes_left rdr' = rest \<and> kept to rdr rdr' \<and>
      rep (T_Struct ts) rdr' (mark rdr) (curr_key rdr) v"
    by (auto simp: pgf_read_to_struct_def)
qed

text \<open>The readers of numbers and strings.\<close>

lemma reads_moved:
  assumes "\<And>rdr rest. rd_ok rdr \<Longrightarrow> bytes_left rdr = encode t @ rest \<Longrightarrow> \<exists>rdr'. m rdr = Done (v, rdr') \<and> moved rdr rest rdr'"
    and "\<And>(rdr :: 's PgfReader) mk key. rep t rdr mk key v"
  shows "reads m key to t"
proof (rule readsI)
  fix rdr rest
  assume ok: "rd_ok rdr" and b: "bytes_left rdr = encode t @ rest"
  obtain rdr' where r: "m rdr = Done (v, rdr')" "moved rdr rest rdr'" using assms(1) [OF ok b] by blast
  moreover have "length rest \<le> length (bytes_left rdr)" using b by simp
  ultimately show "\<exists>v rdr'. m rdr = Done (v, rdr') \<and> rd_ok rdr' \<and> bytes_left rdr' = rest \<and> kept to rdr rdr' \<and>
      rep t rdr' (mark rdr) (curr_key rdr) v"
    using moved_ok [OF ok r(2)] moved_kept [OF r(2)] assms(2)
    by (intro exI [of _ v] exI [of _ rdr']) simp
qed

lemma reads_took:
  assumes "\<And>rdr rest. rd_ok rdr \<Longrightarrow> bytes_left rdr = encode t @ rest \<Longrightarrow>
      \<exists>v rdr'. m rdr = Done (v, rdr') \<and> took rdr rest rdr' \<and> (\<forall>mk key. rep t rdr' mk key v)"
  shows "reads m key to t"
proof (rule readsI)
  fix rdr rest
  assume ok: "rd_ok rdr" and b: "bytes_left rdr = encode t @ rest"
  from assms [OF this] took_kept
  show "\<exists>v rdr'. m rdr = Done (v, rdr') \<and> rd_ok rdr' \<and> bytes_left rdr' = rest \<and> kept to rdr rdr' \<and>
      rep t rdr' (mark rdr) (curr_key rdr) v" by blast
qed

lemma reads_void: "reads pgf_read_to_void key to T_Void"
  by (rule readsI) (auto simp: pgf_read_to_void_def)

lemma reads_int32_t: "int32 i \<Longrightarrow> reads (pgf_read_to_int32_t F) key to (T_Int i)"
  by (rule reads_moved [of _ _ "V_Int i"]) (use read_int in \<open>fastforce simp: pgf_read_to_int32_t_def\<close>)+

lemma reads_uint16_t: "0 \<le> n \<Longrightarrow> n < 2 ^ 16 \<Longrightarrow> reads (pgf_read_to_uint16_t F junk) key to (T_U16 n)"
  by (rule reads_moved [of _ _ "V_Int n"]) (use read_uint16_t in auto)

lemma reads_GuLength: "n < 2 ^ 31 \<Longrightarrow> reads (pgf_read_to_GuLength F) key to (T_Len n)"
  by (rule reads_moved [of _ _ "V_Int (int n)"]) (use read_len in \<open>fastforce simp: pgf_read_to_GuLength_def\<close>)+

lemma reads_double: "reads (pgf_read_to_double F junk) key to (T_Double w)"
  by (rule reads_moved [of _ _ "V_Double w"]) (use read_double in auto)

lemma reads_GuString: "str_ok us \<Longrightarrow> reads (pgf_read_to_GuString F) key to (T_Str us)"
  by (rule reads_took) (use read_GuString in auto)

lemma reads_PgfCId: "length (utf8_all (map uint cs)) < 256 \<Longrightarrow> reads (pgf_read_to_PgfCId F) key to (T_Id cs)"
  by (rule reads_took) (use read_PgfCId in auto)

lemma reads_enum:
  assumes "describe type = Some (D_Enum sz cs)" and "i < length cs" and "i < 256" and "sz \<in> {1, 2, 4, 8}"
  shows "reads (pgf_read_to_enum F type) key to (T_Enum i (to_signed (8 * sz) (cs ! i)))"
proof (rule reads_moved [of _ _ "V_Int (to_signed (8 * sz) (cs ! i))"])
  fix rdr rest
  assume ok: "rd_ok rdr" and b: "bytes_left rdr = encode (T_Enum i (to_signed (8 * sz) (cs ! i))) @ rest"
  then obtain rdr' where r: "pgf_read_u8 F rdr = Done (word_of_nat i, rdr')" "moved rdr rest rdr'"
    using read_u8(1) [OF ok, of "word_of_nat i" rest] by auto
  have "unat (word_of_nat i :: u8) = i" using assms(3) by (simp add: unsigned_of_nat take_bit_nat_eq_self)
  moreover have "rerr rdr' = None" using moved_keeps [OF r(2)] ok by (simp add: rd_ok_def)
  ultimately show "\<exists>rdr'. pgf_read_to_enum F type rdr = Done (V_Int (to_signed (8 * sz) (cs ! i)), rdr') \<and> moved rdr rest rdr'"
    using r assms by (auto simp: pgf_read_to_enum_def)
qed simp

lemma reads_key: "reads pgf_read_to_PgfKey True to T_Key"
  by (rule readsI) (auto simp: pgf_read_to_PgfKey_def plain_key_word)

lemma reads_context:
  "describe type = Some (D_Pointer ty_PgfPGF) \<Longrightarrow> reads (pgf_read_to_PgfContext type) key to T_Ctx"
  by (rule readsI) (auto simp: pgf_read_to_PgfContext_def)

lemma reads_alias:
  "describe type = Some (D_Alias u) \<Longrightarrow> reads (rd u to) key to t \<Longrightarrow> reads (pgf_read_to_alias rd type to) key to t"
  by (simp add: reads_def pgf_read_to_alias_def)

lemma reads_pointer:
  "describe type = Some (D_Pointer p) \<Longrightarrow> gu_type_has_kind p kind_struct \<or> gu_type_has_kind p kind_abstract \<Longrightarrow>
     reads (rn p) key to t \<Longrightarrow> reads (pgf_read_to_pointer rn type) key to t"
  by (simp add: reads_def pgf_read_to_pointer_def)

lemma reads_variant:
  assumes "describe type = Some (D_Variant cs)" and "i < length cs" and "i < 256" and "gu_type_repr 4 (cs ! i) \<noteq> None"
    and "reads (rd (cs ! i) Elsewhere) key Elsewhere t"
  shows "reads (pgf_read_to_GuVariant F rd type) key to (T_Variant i t)"
proof (rule readsI)
  fix rdr rest
  assume ok: "rd_ok rdr" and key: "key \<Longrightarrow> plain_key (curr_key rdr)" and b: "bytes_left rdr = encode (T_Variant i t) @ rest"
  obtain rdr1 where r1: "pgf_read_u8 F rdr = Done (word_of_nat i, rdr1)" "moved rdr (encode t @ rest) rdr1"
    using read_u8(1) [OF ok, of "word_of_nat i" "encode t @ rest"] b by auto
  have ok1: "rd_ok rdr1" "bytes_left rdr1 = encode t @ rest" using moved_ok [OF ok r1(2)] b by auto
  have k1: "rerr rdr1 = None" "curr_key rdr1 = curr_key rdr" "mark rdr1 = mark rdr"
    using moved_keeps [OF r1(2)] ok by (auto simp: rd_ok_def mark_def)
  have c: "key \<longrightarrow> plain_key (curr_key rdr1)" using key k1 by simp
  obtain v rdr2 where r2: "rd (cs ! i) Elsewhere rdr1 = Done (v, rdr2)" "rd_ok rdr2" "bytes_left rdr2 = rest"
    "kept Elsewhere rdr1 rdr2" "rep t rdr2 (mark rdr1) (curr_key rdr1) v"
    using readsD [OF assms(5) ok1(1) _ c ok1(2)] by auto
  have "unat (word_of_nat i :: u8) = i" using assms(3) by (simp add: unsigned_of_nat take_bit_nat_eq_self)
  then have "pgf_read_to_GuVariant F rd type rdr = Done (V_Variant i v, rdr2)"
    using assms(1,2,4) r1(1) r2(1) k1(1) by (auto simp: pgf_read_to_GuVariant_def with_repr_def)
  moreover have "kept to rdr rdr2" using moved_kept [OF r1(2)] kept_anywhere [OF r2(4)] by (rule kept_trans)
  ultimately show "\<exists>v rdr'. pgf_read_to_GuVariant F rd type rdr = Done (v, rdr') \<and> rd_ok rdr' \<and> bytes_left rdr' = rest \<and>
      kept to rdr rdr' \<and> rep (T_Variant i t) rdr' (mark rdr) (curr_key rdr) v"
    using r2 k1 by auto
qed

lemma reads_new:
  assumes "gu_type_repr 4 type \<noteq> None" and "\<And>to. reads (rd type to) key to t"
  shows "reads (pgf_read_new_type rd type) key to (T_Ptr t)"
proof (rule readsI)
  fix rdr rest
  assume ok: "rd_ok rdr" and key: "key \<Longrightarrow> plain_key (curr_key rdr)" and b: "bytes_left rdr = encode (T_Ptr t) @ rest"
  let ?a = "length (heap rdr)"
  let ?r1 = "rdr\<lparr>heap := heap rdr @ [V_Uninit]\<rparr>"
  have 1: "rd_ok ?r1" "to_ok (Loc ?a []) ?r1" "key \<longrightarrow> plain_key (curr_key ?r1)" "bytes_left ?r1 = encode t @ rest"
    using ok key b by (simp_all add: to_ok_def)
  obtain v rdr2 where r2: "rd type (Loc ?a []) ?r1 = Done (v, rdr2)" "rd_ok rdr2" "bytes_left rdr2 = rest"
    "kept (Loc ?a []) ?r1 rdr2" "rep t rdr2 (mark ?r1) (curr_key ?r1) v"
    using readsD [OF assms(2) 1] by blast
  let ?r3 = "store (Loc ?a []) v rdr2"
  have "pgf_read_new_type rd type rdr = Done (V_Ptr ?a, ?r3)"
    using assms(1) r2(1) by (auto simp: pgf_read_new_type_def with_repr_def new_object_def)
  moreover have k3: "kept (Loc ?a []) rdr2 ?r3" by (rule kept_store)
  moreover have "frame {} {} rdr ?r3"
    using kept_trans [OF r2(4) k3] by (auto simp: kept_def frame_def nth_append)
  then have "kept to rdr ?r3" using r2(4) by (auto simp: kept_def elim: frame_mono)
  moreover have "?a < length (heap rdr2)" "heap ?r3 ! ?a = v" using r2(4) by (auto simp: kept_def frame_def)
  moreover have "kept Elsewhere rdr ?r1" by (simp add: kept_def frame_def nth_append)
  then have "rep t ?r3 (mark rdr) (curr_key rdr) v" using rep_later [OF rep_kept [OF r2(5) k3 1(2)]] by simp
  ultimately show "\<exists>v rdr'. pgf_read_new_type rd type rdr = Done (v, rdr') \<and> rd_ok rdr' \<and> bytes_left rdr' = rest \<and>
      kept to rdr rdr' \<and> rep (T_Ptr t) rdr' (mark rdr) (curr_key rdr) v"
    using r2(2,3) by (auto simp: mark_def)
qed

end

subsection \<open>Sequences and maps\<close>

lemma rep_still: "rep t rdr1 mk key v \<Longrightarrow> frame {} {} rdr1 rdr2 \<Longrightarrow> rep t rdr2 mk key v"
  by (erule rep_frame) auto

lemma rep_since: "rep t rdr2 (mark rdr1) key v \<Longrightarrow> frame A M rdr rdr1 \<Longrightarrow> rep t rdr2 (mark rdr) key v"
  using frame_mark [of A M rdr rdr1] by (elim rep_frame [where A = "{}" and M = "{}"]) auto

lemma frame_key [simp]:
  "frame A M (rdr\<lparr>curr_key := k\<rparr>) rdr' = frame A M rdr rdr'" "frame A M rdr (rdr'\<lparr>curr_key := k\<rparr>) = frame A M rdr rdr'"
  "mark (rdr\<lparr>curr_key := k\<rparr>) = mark rdr" "kept to rdr rdr' \<Longrightarrow> frame (addr to) {} rdr rdr'"
  by (simp_all add: frame_def mark_def kept_def)

lemma kept_frame: "kept Elsewhere rdr rdr' \<longleftrightarrow> frame {} {} rdr rdr' \<and> curr_key rdr' = curr_key rdr"
  by (simp add: kept_def)

context reader_stream begin

lemma reads_elems:
  assumes "list_all (reads (rd et Elsewhere) True Elsewhere) ts" and "rd_ok rdr" and "bytes_left rdr = concat (map encode ts) @ rest"
  shows "\<exists>vs rdr'. read_elems rd et i (length ts) rdr = Done (vs, rdr') \<and> rd_ok rdr' \<and> bytes_left rdr' = rest \<and>
    frame {} {} rdr rdr' \<and> elems_rep (map (\<lambda>t. rep t rdr' (mark rdr)) ts) i vs"
  using assms
proof (induction ts arbitrary: rdr i)
  case (Cons t ts)
  let ?r0 = "rdr\<lparr>curr_key := V_Int (int i)\<rparr>"
  have 0: "rd_ok ?r0" "True \<longrightarrow> plain_key (curr_key ?r0)" "bytes_left ?r0 = encode t @ concat (map encode ts) @ rest"
    "reads (rd et Elsewhere) True Elsewhere t" using Cons.prems by (simp_all add: plain_key_def)
  obtain v rdr1 where r1: "rd et Elsewhere ?r0 = Done (v, rdr1)" "rd_ok rdr1" "bytes_left rdr1 = concat (map encode ts) @ rest"
    "frame {} {} rdr rdr1" "rep t rdr1 (mark rdr) (V_Int (int i)) v" "rerr rdr1 = None"
    using readsD [OF 0(4,1) _ 0(2,3)] by (auto simp: kept_frame)
  have "list_all (reads (rd et Elsewhere) True Elsewhere) ts" using Cons.prems(1) by simp
  from Cons.IH [OF this r1(2,3)] obtain vs rdr2 where r2: "read_elems rd et (Suc i) (length ts) rdr1 = Done (vs, rdr2)" "rd_ok rdr2"
    "bytes_left rdr2 = rest" "frame {} {} rdr1 rdr2" "elems_rep (map (\<lambda>t. rep t rdr2 (mark rdr1)) ts) (Suc i) vs" by blast
  have "elems_rep (map (\<lambda>t. rep t rdr2 (mark rdr)) ts) (Suc i) vs"
    using r2(5) by (auto simp: elems_rep_nth intro: rep_since [OF _ r1(4)])
  with r1 r2 show ?case by (auto intro: rep_still frame_trans)
qed simp

lemma read_seq:
  assumes "describe type = Some (D_Seq et)" and "gu_type_repr 4 et \<noteq> None" and "length ts < 2 ^ 31"
    and "list_all (reads (rd et Elsewhere) True Elsewhere) ts"
    and "rd_ok rdr" and "bytes_left rdr = int_bytes (int (length ts)) @ concat (map encode ts) @ rest"
  shows "\<exists>vs rdr'. pgf_read_to_GuSeq F rd type rdr = Done (V_Seq vs, rdr') \<and> rd_ok rdr' \<and> bytes_left rdr' = rest \<and>
    kept to rdr rdr' \<and> elems_rep (map (\<lambda>t. rep t rdr' (mark rdr)) ts) 0 vs"
proof -
  obtain rdr1 where r1: "pgf_read_len F rdr = Done (length ts, rdr1)" "moved rdr (concat (map encode ts) @ rest) rdr1"
    using read_len [OF assms(5,6,3)] by blast
  have ok: "rd_ok rdr1" "bytes_left rdr1 = concat (map encode ts) @ rest" using moved_ok [OF assms(5) r1(2)] assms(6) by auto
  obtain vs rdr2 where r2: "read_elems rd et 0 (length ts) rdr1 = Done (vs, rdr2)" "rd_ok rdr2" "bytes_left rdr2 = rest"
    "frame {} {} rdr1 rdr2" "elems_rep (map (\<lambda>t. rep t rdr2 (mark rdr1)) ts) 0 vs" using reads_elems [where rd = rd, OF assms(4) ok] by blast
  have f: "frame {} {} rdr rdr1" using moved_kept [OF r1(2), of Elsewhere] by (simp add: kept_frame)
  let ?r3 = "rdr2\<lparr>curr_key := curr_key rdr\<rparr>"
  have "elems_rep (map (\<lambda>t. rep t ?r3 (mark rdr)) ts) 0 vs"
    using r2(5) by (auto simp: elems_rep_nth intro!: rep_still [of _ rdr2 _ _ _ ?r3] rep_since [OF _ f])
  moreover have "kept to rdr ?r3" by (rule kept_anywhere) (use frame_trans [OF f r2(4)] in \<open>simp add: kept_frame\<close>)
  moreover have "rerr rdr1 = None" "rerr rdr2 = None" using ok(1) r2(2) by (simp_all add: rd_ok_def)
  ultimately show ?thesis
    using assms(1,2) r1(1) r2(1-3) by (intro exI [of _ vs] exI [of _ ?r3]) (auto simp: pgf_read_to_GuSeq_def with_repr_def)
qed

lemma reads_seq:
  assumes "describe type = Some (D_Seq et)" and "gu_type_repr 4 et \<noteq> None" and "length ts < 2 ^ 31"
    and "list_all (reads (rd et Elsewhere) True Elsewhere) ts"
  shows "reads (pgf_read_to_GuSeq F rd type) key to (T_Seq ts)"
  by (rule readsI) (use read_seq [where rd = rd, OF assms] in fastforce)

lemma read_tag:
  assumes "rd_ok rdr" and "bytes_left rdr = b # rest"
  shows "\<exists>rdr1. pgf_read_u8 F rdr = Done (b, rdr1) \<and> rd_ok rdr1 \<and> bytes_left rdr1 = rest \<and> kept to rdr rdr1 \<and> rerr rdr1 = None \<and>
    mark rdr1 = mark rdr"
proof -
  obtain rdr1 where r1: "pgf_read_u8 F rdr = Done (b, rdr1)" "moved rdr rest rdr1" using read_u8(1) [OF assms] by blast
  with moved_ok [OF assms(1) r1(2)] moved_kept [OF r1(2)] moved_keeps [OF r1(2)] assms show ?thesis
    by (auto simp: rd_ok_def mark_def)
qed

lemma reads_maybe_seq:
  "reads (pgf_read_to_maybe_seq F rd type) key to T_NoSeq"
  "describe type = Some (D_Seq et) \<Longrightarrow> gu_type_repr 4 et \<noteq> None \<Longrightarrow> length ts < 2 ^ 31 \<Longrightarrow>
    list_all (reads (rd et Elsewhere) True Elsewhere) ts \<Longrightarrow> reads (pgf_read_to_maybe_seq F rd type) key to (T_SomeSeq ts)"
proof -
  show "reads (pgf_read_to_maybe_seq F rd type) key to T_NoSeq"
    by (rule readsI) (use read_tag in \<open>fastforce simp: pgf_read_to_maybe_seq_def\<close>)
  assume a: "describe type = Some (D_Seq et)" "gu_type_repr 4 et \<noteq> None" "length ts < 2 ^ 31"
    "list_all (reads (rd et Elsewhere) True Elsewhere) ts"
  show "reads (pgf_read_to_maybe_seq F rd type) key to (T_SomeSeq ts)"
  proof (rule readsI)
    fix rdr rest
    assume ok: "rd_ok rdr" and b: "bytes_left rdr = encode (T_SomeSeq ts) @ rest"
    obtain rdr1 where r1: "pgf_read_u8 F rdr = Done (1, rdr1)" "rd_ok rdr1" "kept to rdr rdr1" "rerr rdr1 = None" "mark rdr1 = mark rdr"
      "bytes_left rdr1 = int_bytes (int (length ts)) @ concat (map encode ts) @ rest"
      using read_tag [OF ok, of 1 "int_bytes (int (length ts)) @ concat (map encode ts) @ rest"] b by auto
    from read_seq [where rd = rd and to = to, OF a r1(2,6)] r1 show "\<exists>v rdr'. pgf_read_to_maybe_seq F rd type rdr = Done (v, rdr') \<and> rd_ok rdr' \<and>
        bytes_left rdr' = rest \<and> kept to rdr rdr' \<and> rep (T_SomeSeq ts) rdr' (mark rdr) (curr_key rdr) v"
      by (auto simp: pgf_read_to_maybe_seq_def intro: kept_trans)
  qed
qed

end

text \<open>Different texts are different keys.\<close>

lemma utf8_all_inj:
  assumes "list_all gu_ucs_valid us" and "list_all gu_ucs_valid vs" and "utf8_all us = utf8_all vs"
  shows "us = vs"
  using assms
proof (induction us arbitrary: vs)
  case Nil
  then show ?case using utf8_all_bounds(1) [of vs] by simp
next
  case (Cons u us)
  then obtain w ws where vs: "vs = w # ws" using utf8_all_bounds(1) [of "u # us"] by (cases vs) auto
  have "gu_utf8_decode_one_unsafe (utf8_bytes u @ utf8_all us) = Done (u, gu_utf8_encode_length u)"
    "gu_utf8_decode_one_unsafe (utf8_bytes w @ utf8_all ws) = Done (w, gu_utf8_encode_length w)"
    using Cons.prems(1,2) vs by (auto intro: decode_one(2))
  then have "w = u" using Cons.prems(3) vs by simp
  with Cons vs show ?case by auto
qed

lemma is_str_inj: "is_str h us v \<Longrightarrow> is_str h us' v \<Longrightarrow> str_ok us \<Longrightarrow> str_ok us' \<Longrightarrow> us = us'"
  by (cases v) (auto simp: str_ok_def intro: utf8_all_inj dest!: valid_open)

definition entries_rep :: "'s PgfReader \<Rightarrow> mark \<Rightarrow> (GuUCS list \<times> tree) list \<Rightarrow> (gval \<times> gval) list \<Rightarrow> bool" where
  "entries_rep rdr mk = list_all2 (\<lambda>(us, t) (k, w). is_str (strings rdr) us k \<and> rep t rdr mk k w)"

lemma entries_frame:
  assumes "entries_rep rdr mk es kvs" and "frame A M rdr rdr'" and "\<forall>a \<in> A. a < fst mk" and "\<forall>m \<in> M. m < snd mk"
    and "fst mk' \<le> fst mk" and "snd mk' \<le> snd mk"
  shows "entries_rep rdr' mk' es kvs"
  using assms(1) unfolding entries_rep_def
  by (rule list_all2_mono)
    (use assms(2) in \<open>auto simp: frame_def intro: is_str_prefix intro!: rep_frame [OF _ assms(2-6)]\<close>)

lemma entries_keys:
  assumes "entries_rep rdr mk es kvs" and "is_str (strings rdr) us k" and "us \<notin> fst ` set es" and "str_ok us"
    and "list_all (\<lambda>(us, t). str_ok us) es"
  shows "k \<notin> fst ` set kvs"
proof
  assume "k \<in> fst ` set kvs"
  then obtain j where j: "j < length kvs" "fst (kvs ! j) = k" by (auto simp: in_set_conv_nth)
  then have "is_str (strings rdr) (fst (es ! j)) k" "j < length es"
    using assms(1) by (auto simp: entries_rep_def list_all2_conv_all_nth split_def)
  moreover from this have "str_ok (fst (es ! j))" using assms(5) by (auto simp: list_all_length split_def)
  ultimately show False using is_str_inj [OF assms(2) _ assms(4)] assms(3) by auto
qed

lemma map_put_entry_new: "k \<notin> fst ` set kvs \<Longrightarrow> map_put_entry k v kvs = kvs @ [(k, v)]"
  by (induction k v kvs rule: map_put_entry.induct) auto

context reader_stream begin

lemma reads_entries:
  assumes "list_all (\<lambda>(us, t). reads (rd kt Elsewhere) False Elsewhere (T_Str us) \<and> reads (rd vt Elsewhere) True Elsewhere t \<and> str_ok us) es"
    and "list_all (\<lambda>(us, t). str_ok us) old" and "distinct (map fst (old @ es))"
    and "rd_ok rdr" and "bytes_left rdr = concat (map (\<lambda>(us, t). str_bytes us @ encode t) es) @ rest"
    and "m < length (maps rdr)" and "entries_rep rdr mk old (maps rdr ! m)" and "m < snd mk"
    and "fst mk \<le> fst (mark rdr)" and "snd mk \<le> snd (mark rdr)"
  shows "\<exists>rdr'. map_entries rd rn True kt vt m (length es) rdr = Done (True, rdr') \<and> rd_ok rdr' \<and> bytes_left rdr' = rest \<and>
    frame {} {m} rdr rdr' \<and> entries_rep rdr' mk (old @ es) (maps rdr' ! m)"
  using assms
proof (induction es arbitrary: rdr old)
  case (Cons e es)
  obtain us t where e: "e = (us, t)" by (cases e)
  define more where "more = concat (map (\<lambda>(us, t). str_bytes us @ encode t) es) @ rest"
  have k0: "reads (rd kt Elsewhere) False Elsewhere (T_Str us)" "bytes_left rdr = encode (T_Str us) @ encode t @ more"
    using Cons.prems(1,5) by (simp_all add: e more_def)
  obtain k rdr1 where r1: "rd kt Elsewhere rdr = Done (k, rdr1)" "rd_ok rdr1" "bytes_left rdr1 = encode t @ more"
    "frame {} {} rdr rdr1" "is_str (strings rdr1) us k" "rerr rdr1 = None"
    using readsD [OF k0(1) Cons.prems(4) _ _ k0(2)] by (auto simp: kept_frame)
  let ?r1 = "rdr1\<lparr>curr_key := k\<rparr>"
  have k1: "reads (rd vt Elsewhere) True Elsewhere t" "rd_ok ?r1" "bytes_left ?r1 = encode t @ more" "True \<longrightarrow> plain_key (curr_key ?r1)"
    using Cons.prems(1) r1 by (cases k; simp add: e plain_key_def)+
  obtain v rdr2 where r2: "rd vt Elsewhere ?r1 = Done (v, rdr2)" "rd_ok rdr2" "bytes_left rdr2 = more"
    "frame {} {} rdr1 rdr2" "rep t rdr2 (mark rdr1) k v" "rerr rdr2 = None"
    using readsD [OF k1(1,2) _ k1(4,3)] by (auto simp: kept_frame)
  have f2: "frame {} {} rdr rdr2" using r1(4) r2(4) by (rule frame_trans)
  then have m2: "m < length (maps rdr2)" "maps rdr2 ! m = maps rdr ! m" using Cons.prems(6) by (auto simp: frame_def)
  have s: "is_str (strings rdr2) us k" using r1(5) r2(4) by (auto simp: frame_def intro: is_str_prefix)
  have d2: "entries_rep rdr2 mk old (maps rdr ! m)" by (rule entries_frame [OF Cons.prems(7) f2]) auto
  have new: "k \<notin> fst ` set (maps rdr ! m)"
    by (rule entries_keys [OF d2 s]) (use Cons.prems(1-3) in \<open>auto simp: e\<close>)
  define kvs where "kvs = (maps rdr ! m) @ [(k, v)]"
  let ?r3 = "rdr2\<lparr>maps := (maps rdr2)[m := kvs]\<rparr>"
  have put: "map_put m k v rdr2 = Done ?r3" using m2 map_put_entry_new [OF new] by (simp add: map_put_def kvs_def)
  have f3: "frame {} {m} rdr2 ?r3" by (auto simp: frame_def)
  have "rep t rdr2 (mark rdr) k v" using r2(5) r1(4) by (rule rep_since)
  then have "rep t rdr2 mk k v" using Cons.prems(9,10) by (elim rep_frame [where A = "{}" and M = "{}"]) auto
  then have "entries_rep rdr2 mk (old @ [e]) kvs"
    using d2 s unfolding kvs_def entries_rep_def by (intro list_all2_appendI) (simp_all add: e)
  then have d3: "entries_rep ?r3 mk (old @ [e]) (maps ?r3 ! m)"
    using m2(1) Cons.prems(8) by (auto intro: entries_frame [OF _ f3])
  have "\<exists>rdr'. map_entries rd rn True kt vt m (length es) ?r3 = Done (True, rdr') \<and> rd_ok rdr' \<and> bytes_left rdr' = rest \<and>
    frame {} {m} ?r3 rdr' \<and> entries_rep rdr' mk ((old @ [e]) @ es) (maps rdr' ! m)"
    by (rule Cons.IH) (use Cons.prems r2 m2 d3 frame_mark [OF f2] frame_mark [OF f3] in \<open>auto simp: e more_def\<close>)
  then obtain rdr' where r4: "map_entries rd rn True kt vt m (length es) ?r3 = Done (True, rdr')" "rd_ok rdr'" "bytes_left rdr' = rest"
    "frame {} {m} ?r3 rdr'" "entries_rep rdr' mk (old @ e # es) (maps rdr' ! m)" by auto
  have "frame {} {m} rdr rdr2" using f2 by (rule frame_mono) auto
  from frame_trans [OF this frame_trans [OF f3 r4(4)]] r4 r1(1,6) r2(1,6) put show ?case by simp
qed simp

lemma reads_map:
  assumes "describe type = Some (D_Map True kt vt)" and "length es < 2 ^ 31" and "distinct (map fst es)"
    and "list_all (\<lambda>(us, t). reads (rd kt Elsewhere) False Elsewhere (T_Str us) \<and> reads (rd vt Elsewhere) True Elsewhere t \<and> str_ok us) es"
  shows "reads (pgf_read_new_GuMap F rd rn type) key to (T_Map es)"
proof (rule readsI)
  fix rdr rest
  assume ok: "rd_ok rdr" and b: "bytes_left rdr = encode (T_Map es) @ rest"
  let ?m = "length (maps rdr)"
  let ?r1 = "rdr\<lparr>maps := maps rdr @ [[]]\<rparr>"
  define ents where "ents = concat (map (\<lambda>(us, t). str_bytes us @ encode t) es)"
  have "bytes_left ?r1 = int_bytes (int (length es)) @ ents @ rest"
    using b by (simp add: ents_def map_prod_def split_def comp_def)
  then obtain rdr2 where r2: "pgf_read_len F ?r1 = Done (length es, rdr2)" "moved ?r1 (ents @ rest) rdr2"
    "length (ents @ rest) \<le> length (bytes_left ?r1)" using read_len [of ?r1 "length es"] ok assms(2) by auto
  have ok2: "rd_ok rdr2" "bytes_left rdr2 = ents @ rest" using moved_ok [OF _ r2(2,3)] ok by auto
  have f2: "frame {} {} ?r1 rdr2" using moved_kept [OF r2(2), of Elsewhere] by (simp add: kept_frame)
  have m2: "maps rdr2 = maps rdr @ [[]]" "heap rdr2 = heap rdr" using moved_keeps [OF r2(2)] by auto
  have "\<exists>rdr'. map_entries rd rn True kt vt ?m (length es) rdr2 = Done (True, rdr') \<and> rd_ok rdr' \<and> bytes_left rdr' = rest \<and>
    frame {} {?m} rdr2 rdr' \<and> entries_rep rdr' (mark rdr2) ([] @ es) (maps rdr' ! ?m)"
    by (rule reads_entries) (use assms(3,4) ok2 m2 in \<open>auto simp: ents_def mark_def entries_rep_def\<close>)
  then obtain rdr3 where r3: "map_entries rd rn True kt vt ?m (length es) rdr2 = Done (True, rdr3)" "rd_ok rdr3" "bytes_left rdr3 = rest"
    "frame {} {?m} rdr2 rdr3" "entries_rep rdr3 (mark rdr2) es (maps rdr3 ! ?m)" by auto
  let ?r4 = "rdr3\<lparr>curr_key := curr_key rdr\<rparr>"
  have e: "rerr rdr2 = None" "rerr rdr3 = None" using ok2(1) r3(2) by (simp_all add: rd_ok_def)
  have "pgf_read_new_GuMap F rd rn type rdr = Done (V_Map ?m, ?r4)"
    using assms(1) r2(1) r3(1) e by (simp add: pgf_read_new_GuMap_def new_map_def pgf_read_into_map_def)
  moreover have "frame {} {?m} ?r1 rdr3" using frame_mono [OF f2] r3(4) by (auto intro: frame_trans)
  then have f: "frame {} {} rdr rdr3" "?m < length (maps rdr3)" by (auto simp: frame_def nth_append)
  moreover have "entries_rep ?r4 (mark rdr) es (maps rdr3 ! ?m)"
    by (rule entries_frame [OF r3(5), of "{}" "{}"]) (auto simp: mark_def m2)
  moreover have "kept to rdr ?r4" by (rule kept_anywhere) (use f in \<open>simp add: kept_frame\<close>)
  ultimately show "\<exists>v rdr'. pgf_read_new_GuMap F rd rn type rdr = Done (v, rdr') \<and> rd_ok rdr' \<and> bytes_left rdr' = rest \<and>
      kept to rdr rdr' \<and> rep (T_Map es) rdr' (mark rdr) (curr_key rdr) v"
    using r3(2,3) by (auto simp: entries_rep_def mark_def)
qed

end

subsection \<open>All types\<close>

lemma fits_str: "fits key ok new fn type (T_Str us) \<Longrightarrow> (\<And>k u. ok k u (T_Str us) \<Longrightarrow> str_ok us) \<Longrightarrow>
    (\<And>k u. \<not> new k u (T_Str us)) \<Longrightarrow> str_ok us"
  by (auto simp: fits_def split: PgfReadToFn.splits option.splits type_desc.splits)

lemma tree_ok_str: "tree_ok n key type (T_Str us) \<Longrightarrow> str_ok us"
proof (induction n arbitrary: key type)
  case (Suc n)
  have "\<not> new_ok n k u (T_Str us)" for k u
    by (cases n) (auto simp: fits_new_def split: option.splits PgfReadNewFn.splits type_desc.splits)
  with Suc show ?case by (auto split: option.splits intro: fits_str)
qed simp

lemma all_distinct: "list_all (\<lambda>b. b) (map keys_distinct ts) \<longleftrightarrow> list_all keys_distinct ts"
  by (simp add: list_all_iff)

lemma run_read_to_simps:
  "run_read_to E rd rn R_struct type to = pgf_read_to_struct rd type to"
  "run_read_to E rd rn R_GuVariant type to = pgf_read_to_GuVariant (efuns E) rd type"
  "run_read_to E rd rn R_enum type to = pgf_read_to_enum (efuns E) type"
  "run_read_to E rd rn R_void type to = pgf_read_to_void"
  "run_read_to E rd rn R_int32_t type to = pgf_read_to_int32_t (efuns E)"
  "run_read_to E rd rn R_uint16_t type to = pgf_read_to_uint16_t (efuns E) (ejunk E)"
  "run_read_to E rd rn R_GuLength type to = pgf_read_to_GuLength (efuns E)"
  "run_read_to E rd rn R_PgfCId type to = pgf_read_to_PgfCId (efuns E)"
  "run_read_to E rd rn R_GuString type to = pgf_read_to_GuString (efuns E)"
  "run_read_to E rd rn R_double type to = pgf_read_to_double (efuns E) (ejunk E)"
  "run_read_to E rd rn R_pointer type to = pgf_read_to_pointer rn type"
  "run_read_to E rd rn R_maybe_seq type to = pgf_read_to_maybe_seq (efuns E) rd type"
  "run_read_to E rd rn R_GuSeq type to = pgf_read_to_GuSeq (efuns E) rd type"
  "run_read_to E rd rn R_PgfContext type to = pgf_read_to_PgfContext type"
  "run_read_to E rd rn R_PgfKey type to = pgf_read_to_PgfKey"
  "run_read_to E rd rn R_alias type to = pgf_read_to_alias rd type to"
  by (simp_all add: fun_eq_iff run_read_to_def)

lemma run_read_new_simps:
  "run_read_new E n rd rn N_type type = pgf_read_new_type rd type"
  "run_read_new E n rd rn N_GuMap type = pgf_read_new_GuMap (efuns E) rd rn type"
  by (simp_all add: fun_eq_iff run_read_new_def)

context reader_stream begin

lemma reads_fits:
  assumes E: "efuns E = F" and "fits key ok new fn type t" and "keys_distinct t"
    and rd: "\<And>key type t to. ok key type t \<Longrightarrow> keys_distinct t \<Longrightarrow> reads (rd type to) key to t"
    and rn: "\<And>key type t to. new key type t \<Longrightarrow> keys_distinct t \<Longrightarrow> reads (rn type) key to t"
  shows "reads (run_read_to E rd rn fn type to) key to t"
proof -
  note simps = run_read_to_simps E fits_def seq_fits_def
  note splits = option.splits type_desc.splits tree.splits
  have all: "list_all (reads (rd et Elsewhere) True Elsewhere) ts" if "list_all (ok True et) ts" "list_all keys_distinct ts" for et ts
    using that rd by (auto simp: list_all_length)
  note f = assms(2,3)
  show ?thesis
  proof (cases fn)
    case R_struct
    with f obtain ms ts where t: "t = T_Struct ts" "describe type = Some (D_Struct ms)" "list_all2 (ok key) ms ts"
      by (auto simp: fits_def split: splits)
    moreover have "list_all2 (\<lambda>m t. \<forall>to. reads (rd m to) key to t) ms ts"
      using t f(2) rd by (auto simp: list_all2_conv_all_nth list_all_length)
    ultimately show ?thesis using R_struct reads_struct by (auto simp: simps)
  next
    case R_GuVariant
    with f rd show ?thesis by (auto simp: simps split: splits intro!: reads_variant)
  next
    case R_GuSeq
    with f all show ?thesis by (auto simp: simps all_distinct split: splits intro!: reads_seq)
  next
    case R_maybe_seq
    with f all show ?thesis by (auto simp: simps all_distinct split: splits intro!: reads_maybe_seq)
  next
    case R_pointer
    with f rn show ?thesis by (auto simp: simps split: splits intro!: reads_pointer)
  next
    case R_alias
    with f rd show ?thesis by (auto simp: simps split: splits intro!: reads_alias)
  next
    case R_enum
    with f obtain sz cs i where "describe type = Some (D_Enum sz cs)" "i < length cs" "i < 256" "sz \<in> {1, 2, 4, 8}"
      "t = T_Enum i (to_signed (8 * sz) (cs ! i))" by (auto simp: fits_def split: splits)
    from reads_enum [OF this(1-4)] this(5) R_enum show ?thesis by (simp add: simps)
  qed (use f reads_void reads_int32_t reads_uint16_t reads_GuLength reads_double reads_GuString reads_PgfCId reads_context reads_key
    in \<open>auto simp: simps int32_def split: splits\<close>)
qed

lemma reads_fits_new:
  assumes E: "efuns E = F" and "fits_new key ok fn type t" and "keys_distinct t"
    and rd: "\<And>key type t to. ok key type t \<Longrightarrow> keys_distinct t \<Longrightarrow> reads (rd type to) key to t"
    and str: "\<And>key type us. ok key type (T_Str us) \<Longrightarrow> str_ok us"
  shows "reads (run_read_new E n rd rn fn type) key to t"
proof (cases fn)
  case N_type
  with assms(2,3) rd show ?thesis
    by (auto simp: run_read_new_simps fits_new_def split: tree.splits intro!: reads_new)
next
  case N_GuMap
  with assms(2) obtain kt vt es where es: "describe type = Some (D_Map True kt vt)" "t = T_Map es" "length es < 2 ^ 31"
    "list_all (\<lambda>(us, u). ok False kt (T_Str us) \<and> ok True vt u) es"
    by (auto simp: fits_new_def split: option.splits type_desc.splits tree.splits)
  have "list_all (\<lambda>(us, t). reads (rd kt Elsewhere) False Elsewhere (T_Str us) \<and> reads (rd vt Elsewhere) True Elsewhere t \<and> str_ok us) es"
    using es(2,4) assms(3) rd str by (fastforce simp: list_all_iff)
  from reads_map [where rd = rd, OF es(1,3) _ this] assms(3) N_GuMap es(2) E show ?thesis by (simp add: run_read_new_simps)
qed (use assms(2) in \<open>auto simp: fits_new_def\<close>)

lemma reads_type:
  assumes "efuns E = F"
  shows "tree_ok n key type t \<Longrightarrow> keys_distinct t \<Longrightarrow> reads (pgf_read_to E n type to) key to t"
    and "new_ok n key type t \<Longrightarrow> keys_distinct t \<Longrightarrow> reads (pgf_read_new E n type) key to t"
proof (induction n arbitrary: key type t to)
  case (Suc n)
  {
    case 1
    then show ?case using reads_fits [OF assms _ 1(2) Suc.IH] by (auto split: option.splits)
  next
    case 2
    then show ?case using reads_fits_new [OF assms _ 2(2) Suc.IH(1) tree_ok_str] by (auto split: option.splits)
  }
qed simp_all

end

interpretation data_reader: reader_stream gu_data_in_funs "\<lambda>d. d" "\<lambda>d. d" "\<lambda>d. length d < 2 ^ 63" "\<lambda>d. d = []" ..

lemma new_reader_ok:
  assumes "length bs < 2 ^ 58"
  shows "data_reader.rd_ok (pgf_new_reader (gu_data_in bs) None)" and "data_reader.bytes_left (pgf_new_reader (gu_data_in bs) None) = bs"
proof -
  note d = data_in_ok [of bs]
  have "table_ok [] [] []" by (simp add: table_ok_def)
  then show "data_reader.rd_ok (pgf_new_reader (gu_data_in bs) None)"
    using d assms unfolding data_reader.rd_ok_def data_reader.bytes_left_def by (auto simp: pgf_new_reader_def)
  show "data_reader.bytes_left (pgf_new_reader (gu_data_in bs) None) = bs"
    using d assms by (simp add: data_reader.bytes_left_def pgf_new_reader_def)
qed


text \<open>A grammar with a flag, a function and a category.\<close>

definition sample_grammar :: tree where
  "sample_grammar =
     T_Struct [T_U16 1, T_U16 0, T_Map [],
       T_Struct [T_Id [65], T_Map [([120], T_Variant 0 (T_Struct [T_Str [228]]))],
         T_Map [([102], T_Ptr (T_Struct [T_Ptr (T_Struct [T_Seq [], T_Id [83], T_Seq []]), T_Int 0, T_NoSeq, T_Double 0x3ff0000000000000]))],
         T_Map [([83], T_Ptr (T_Struct [T_Ctx, T_Key, T_Seq [], T_Seq [T_Struct [T_Double 0x3ff0000000000000, T_Id [102]]]]))]],
       T_Map []]"


end
