(* ===== verification/ReadSafe.thy ===== *)
theory ReadSafe
  imports ReadCorrect
begin

text \<open>
  Reading arbitrary bytes. For the types of abstract syntaxes the reader always comes to an end, within a fuel that is linear in the
  length of the input, and if it ends without a fault and without an exception then the value that it has read is one of the type.
\<close>

subsection \<open>Which types\<close>

text \<open>A task of the reader, and its subtasks. The first component of the result tells that a byte is read before each of them; no result means that
  the task depends on other parts of the grammar. A type without a function ends in a fault.\<close>

datatype task = Read_To GuType | Read_New GuType

definition subtasks_to :: "bool \<Rightarrow> PgfReadToFn \<Rightarrow> GuType \<Rightarrow> (bool \<times> (bool \<times> task) list) option" where
  "subtasks_to key fn type =
     (case fn of
        R_struct \<Rightarrow>
          (case describe type of Some (D_Struct ms) \<Rightarrow> Some (False, map (\<lambda>m. (key, Read_To m)) ms) | _ \<Rightarrow> None)
      | R_GuVariant \<Rightarrow>
          (case describe type of Some (D_Variant cs) \<Rightarrow> Some (True, map (\<lambda>c. (key, Read_To c)) cs) | _ \<Rightarrow> None)
      | R_pointer \<Rightarrow> (case describe type of Some (D_Pointer p) \<Rightarrow> Some (False, [(key, Read_New p)]) | _ \<Rightarrow> None)
      | R_GuSeq \<Rightarrow> (case describe type of Some (D_Seq et) \<Rightarrow> Some (True, [(True, Read_To et)]) | _ \<Rightarrow> None)
      | R_maybe_seq \<Rightarrow> (case describe type of Some (D_Seq et) \<Rightarrow> Some (True, [(True, Read_To et)]) | _ \<Rightarrow> None)
      | R_alias \<Rightarrow> (case describe type of Some (D_Alias u) \<Rightarrow> Some (False, [(key, Read_To u)]) | _ \<Rightarrow> None)
      | R_PgfContext \<Rightarrow> (case describe type of Some (D_Pointer p) \<Rightarrow> if p = ty_PgfPGF then Some (True, []) else None | _ \<Rightarrow> None)
      | R_PgfKey \<Rightarrow> if key then Some (True, []) else None
      | R_enum \<Rightarrow> Some (True, [])
      | R_void \<Rightarrow> Some (True, [])
      | R_int32_t \<Rightarrow> Some (True, [])
      | R_uint16_t \<Rightarrow> Some (True, [])
      | R_GuLength \<Rightarrow> Some (True, [])
      | R_double \<Rightarrow> Some (True, [])
      | R_GuString \<Rightarrow> Some (True, [])
      | R_PgfCId \<Rightarrow> Some (True, [])
      | _ \<Rightarrow> None)"

definition subtasks_new :: "bool \<Rightarrow> PgfReadNewFn \<Rightarrow> GuType \<Rightarrow> (bool \<times> (bool \<times> task) list) option" where
  "subtasks_new key fn type =
     (case fn of
        N_type \<Rightarrow> Some (False, [(key, Read_To type)])
      | N_GuMap \<Rightarrow>
          (case describe type of
             Some (D_Map hashed kt vt) \<Rightarrow>
               if hashed \<and> kt = ty_GuString then Some (True, [(False, Read_To kt), (True, Read_To vt)]) else None
           | _ \<Rightarrow> None)
      | _ \<Rightarrow> None)"

fun subtasks :: "bool \<Rightarrow> task \<Rightarrow> (bool \<times> (bool \<times> task) list) option" where
  "subtasks key (Read_To type) =
     (case gu_type_map_get (gu_new_type_map pgf_read_to_table) type of None \<Rightarrow> Some (True, []) | Some fn \<Rightarrow> subtasks_to key fn type)"
| "subtasks key (Read_New type) =
     (case gu_type_map_get (gu_new_type_map pgf_read_new_table) type of None \<Rightarrow> Some (True, []) | Some fn \<Rightarrow> subtasks_new key fn type)"

text \<open>The number of tasks that can be nested without reading a byte, and the tasks all of whose subtasks, down to a depth, read a byte after at most
  \<open>FUEL_STEP\<close> nested tasks.\<close>

fun rank_le :: "nat \<Rightarrow> bool \<Rightarrow> task \<Rightarrow> bool" where
  "rank_le 0 key u = False"
| "rank_le (Suc k) key u =
     (case subtasks key u of None \<Rightarrow> False | Some (c, us) \<Rightarrow> c \<or> list_all (\<lambda>(b, u). rank_le k b u) us)"

definition FUEL_STEP :: nat where "FUEL_STEP = 12"

fun plain :: "nat \<Rightarrow> bool \<Rightarrow> task \<Rightarrow> bool" where
  "plain 0 key u = True"
| "plain (Suc n) key u =
     (rank_le FUEL_STEP key u \<and>
      (case subtasks key u of None \<Rightarrow> False | Some (c, us) \<Rightarrow> list_all (\<lambda>(b, u). plain n b u) us))"

subsection \<open>What a reader delivers\<close>

context reader_stream begin

definition good :: "(tree \<Rightarrow> bool) \<Rightarrow> loc \<Rightarrow> 's PgfReader \<Rightarrow> gval \<times> 's PgfReader \<Rightarrow> bool" where
  "good P to rdr r \<longleftrightarrow> raised (rerr (snd r)) \<or>
     (\<exists>t. P t \<and> rd_ok (snd r) \<and> kept to rdr (snd r) \<and> rep t (snd r) (mark rdr) (curr_key rdr) (fst r) \<and>
       length (bytes_left (snd r)) \<le> length (bytes_left rdr))"

definition safe :: "(gval, 's) reading \<Rightarrow> bool \<Rightarrow> loc \<Rightarrow> nat \<Rightarrow> (tree \<Rightarrow> bool) \<Rightarrow> bool" where
  "safe m key to l P \<longleftrightarrow> (\<forall>rdr. rd_ok rdr \<longrightarrow> to_ok to rdr \<longrightarrow> (key \<longrightarrow> plain_key (curr_key rdr)) \<longrightarrow>
     length (bytes_left rdr) < l \<longrightarrow> ends (m rdr) (good P to rdr))"

lemma safeI:
  assumes "\<And>rdr. rd_ok rdr \<Longrightarrow> to_ok to rdr \<Longrightarrow> (key \<Longrightarrow> plain_key (curr_key rdr)) \<Longrightarrow> length (bytes_left rdr) < l \<Longrightarrow>
    ends (m rdr) (good P to rdr)"
  shows "safe m key to l P"
  using assms by (simp add: safe_def)

lemma safeD:
  "safe m key to l P \<Longrightarrow> rd_ok rdr \<Longrightarrow> to_ok to rdr \<Longrightarrow> (key \<longrightarrow> plain_key (curr_key rdr)) \<Longrightarrow> length (bytes_left rdr) < l \<Longrightarrow>
    ends (m rdr) (good P to rdr)"
  by (simp add: safe_def)

lemma good_raised [intro]: "raised (rerr (snd r)) \<Longrightarrow> good P to rdr r"
  by (simp add: good_def)

lemma good_raised_in [simp]: "good P to rdr (v, raise_in t rdr')"
  by (simp add: good_def raise_in_def)

lemma goodI:
  "P t \<Longrightarrow> rd_ok rdr' \<Longrightarrow> kept to rdr rdr' \<Longrightarrow> rep t rdr' (mark rdr) (curr_key rdr) v \<Longrightarrow>
    length (bytes_left rdr') \<le> length (bytes_left rdr) \<Longrightarrow> good P to rdr (v, rdr')"
  by (auto simp: good_def)

lemma goodE:
  assumes "good P to rdr (v, rdr')" and "rerr rdr' = None"
  obtains t where "P t" and "rd_ok rdr'" and "kept to rdr rdr'" and "rep t rdr' (mark rdr) (curr_key rdr) v"
    and "length (bytes_left rdr') \<le> length (bytes_left rdr)"
  using assms by (auto simp: good_def)

subsection \<open>The primitive readers\<close>

lemma safe_moved:
  assumes "\<And>rdr. rd_ok rdr \<Longrightarrow> ends (m rdr) (num_end Q rdr)" and "\<And>v. Q v \<Longrightarrow> \<exists>t. P t \<and> (\<forall>(rdr :: 's PgfReader) mk key. rep t rdr mk key v)"
  shows "safe m key to l P"
proof (rule safeI)
  fix rdr
  assume ok: "rd_ok rdr"
  show "ends (m rdr) (good P to rdr)"
  proof (rule ends_mono [OF assms(1) [OF ok]], clarify)
    fix v rdr'
    assume n: "num_end Q rdr (v, rdr')"
    show "good P to rdr (v, rdr')"
    proof (cases "rerr rdr' = None")
      case True
      from num_end_step [OF n ok True] obtain bs where bs: "Q v" "moved rdr bs rdr'" "rd_ok rdr'" "bytes_left rdr' = bs"
        "length bs < length (bytes_left rdr)" by blast
      from assms(2) [OF bs(1)] obtain t where "P t" "\<forall>(rdr :: 's PgfReader) mk key. rep t rdr mk key v" by blast
      then show ?thesis using bs moved_kept [OF bs(2)] by (intro goodI) (auto simp: mark_def)
    qed (auto simp: good_def raised_def)
  qed
qed

lemma safe_void: "safe pgf_read_to_void key to l (\<lambda>t. t = T_Void)"
  by (rule safeI) (auto simp: pgf_read_to_void_def intro!: goodI)

lemma safe_int32_t: "safe (pgf_read_to_int32_t F) key to l (\<lambda>t. \<exists>i. t = T_Int i \<and> int32 i)"
proof (rule safe_moved)
  show "ends (pgf_read_to_int32_t F rdr) (num_end (\<lambda>v. \<exists>i. v = V_Int i \<and> int32 i) rdr)" if "rd_ok rdr" for rdr
    unfolding pgf_read_to_int32_t_def ends_bindR
    by (rule ends_mono [OF read_int_end [OF that]]) (auto simp: num_end_def)
qed auto

lemma safe_GuLength: "safe (pgf_read_to_GuLength F) key to l (\<lambda>t. \<exists>n. t = T_Len n \<and> n < 2 ^ 31)"
proof (rule safe_moved)
  show "ends (pgf_read_to_GuLength F rdr) (num_end (\<lambda>v. \<exists>n. v = V_Int (int n) \<and> n < 2 ^ 31) rdr)" if "rd_ok rdr" for rdr
    unfolding pgf_read_to_GuLength_def ends_bindR
    by (rule ends_mono [OF read_len_end [OF that]]) (auto simp: num_end_def)
qed auto

lemma safe_uint16_t: "safe (pgf_read_to_uint16_t F junk) key to l (\<lambda>t. \<exists>n. t = T_U16 n \<and> 0 \<le> n \<and> n < 2 ^ 16)"
  by (rule safe_moved [OF read_uint16_t_end]) auto

lemma safe_double: "safe (pgf_read_to_double F junk) key to l (\<lambda>t. \<exists>w. t = T_Double w)"
  by (rule safe_moved [OF read_double_end]) auto

lemma safe_enum:
  assumes "describe type = Some (D_Enum sz cs)"
  shows "safe (pgf_read_to_enum F type) key to l
    (\<lambda>t. \<exists>i. t = T_Enum i (to_signed (8 * sz) (cs ! i)) \<and> i < length cs \<and> i < 256 \<and> sz \<in> {1, 2, 4, 8})"
proof (rule safe_moved)
  have "unat b < 256" for b :: u8 using unsigned_less [of b] by simp
  then show "ends (pgf_read_to_enum F type rdr) (num_end (\<lambda>v. \<exists>i. v = V_Int (to_signed (8 * sz) (cs ! i)) \<and> i < length cs \<and> i < 256 \<and>
      sz \<in> {1, 2, 4, 8}) rdr)" if "rd_ok rdr" for rdr
    unfolding pgf_read_to_enum_def assms option.case type_desc.case ends_bindR
    by (intro ends_mono [OF read_u8_end [OF that]]) (auto simp: num_end_def raise_in_def gu_impossible_def, (fastforce simp: not_le)+)
qed auto

lemma safe_took:
  assumes "\<And>rdr. rd_ok rdr \<Longrightarrow> ends (m rdr) (\<lambda>(v, rdr'). raised (rerr rdr') \<or>
      (\<exists>t rest. P t \<and> took rdr rest rdr' \<and> length rest < length (bytes_left rdr) \<and> (\<forall>mk key. rep t rdr' mk key v)))"
  shows "safe m key to l P"
  by (rule safeI, rule ends_mono [OF assms], assumption) (fastforce simp: good_def mark_def dest!: took_kept)

lemma safe_GuString: "safe (pgf_read_to_GuString F) key to l (\<lambda>t. \<exists>us. t = T_Str us \<and> str_ok us)"
  by (rule safe_took, rule ends_mono [OF read_GuString_end], assumption) fastforce

lemma safe_PgfCId: "safe (pgf_read_to_PgfCId F) key to l (\<lambda>t. \<exists>cs. t = T_Id cs \<and> length (utf8_all (map uint cs)) < 256)"
  by (rule safe_took, rule ends_mono [OF read_PgfCId_end], assumption) fastforce

lemma safe_key: "safe pgf_read_to_PgfKey True to l (\<lambda>t. t = T_Key)"
  by (rule safeI) (auto simp: pgf_read_to_PgfKey_def plain_key_word intro!: goodI)

lemma safe_context: "describe type = Some (D_Pointer ty_PgfPGF) \<Longrightarrow> safe (pgf_read_to_PgfContext type) key to l (\<lambda>t. t = T_Ctx)"
  by (rule safeI) (auto simp: pgf_read_to_PgfContext_def intro!: goodI)

lemma safe_alias: "describe type = Some (D_Alias u) \<Longrightarrow> safe (rd u to) key to l P \<Longrightarrow> safe (pgf_read_to_alias rd type to) key to l P"
  by (simp add: safe_def pgf_read_to_alias_def)

lemma safe_pointer:
  assumes "describe type = Some (D_Pointer p)" and "safe (rn p) key to l P"
  shows "safe (pgf_read_to_pointer rn type) key to l
    (\<lambda>t. P t \<and> (gu_type_has_kind p kind_struct \<or> gu_type_has_kind p kind_abstract))"
  using assms by (auto simp: safe_def pgf_read_to_pointer_def gu_require_def good_def)

subsection \<open>The composite readers\<close>

lemma ends_split [simp]: "ends (case x of (a, b) \<Rightarrow> f a b) P = (case x of (a, b) \<Rightarrow> ends (f a b) P)"
  by (cases x) simp

lemma good_trans:
  assumes "good P to rdr1 r" and "kept to rdr rdr1" and "length (bytes_left rdr1) \<le> length (bytes_left rdr)"
  shows "good P to rdr r"
  using assms by (auto simp: good_def kept_def intro: frame_trans rep_since)

lemma good_anywhere: "good P Elsewhere rdr r \<Longrightarrow> good P to rdr r"
  by (auto simp: good_def intro: kept_anywhere)

lemma good_mono: "good P to rdr r \<Longrightarrow> (\<And>t. P t \<Longrightarrow> Q t) \<Longrightarrow> good Q to rdr r"
  by (auto simp: good_def)

lemma good_wrap:
  assumes "good P to rdr (v, r)"
    and "\<And>t. P t \<Longrightarrow> rep t r (mark rdr) (curr_key rdr) v \<Longrightarrow> Q (f t) \<and> rep (f t) r (mark rdr) (curr_key rdr) w"
  shows "good Q to rdr (w, r)"
  using assms unfolding good_def by (metis fst_conv snd_conv)

lemma safe_mono: "safe m key to l P \<Longrightarrow> (\<And>t. P t \<Longrightarrow> Q t) \<Longrightarrow> safe m key to l Q"
  by (auto simp: safe_def intro: ends_mono good_mono)

lemma safe_less: "safe m key to l P \<Longrightarrow> l' \<le> l \<Longrightarrow> safe m key to l' P"
  by (simp add: safe_def)

text \<open>A tag has been read; the bound on the bytes that are left is one less.\<close>

lemma tag_end:
  assumes "rd_ok rdr" and "length (bytes_left rdr) < l"
  shows "ends (pgf_read_u8 F rdr) (\<lambda>(b, rdr1). raised (rerr rdr1) \<or>
    (rerr rdr1 = None \<and> rd_ok rdr1 \<and> kept to rdr rdr1 \<and> length (bytes_left rdr1) < length (bytes_left rdr) \<and>
      length (bytes_left rdr1) < l - 1 \<and> curr_key rdr1 = curr_key rdr))"
    (is "ends _ ?Q")
proof -
  have "?Q (b, rdr1)" if n: "num_end (\<lambda>_. True) rdr (b, rdr1)" for b rdr1
  proof (cases "rerr rdr1 = None")
    case True
    from num_end_step [OF n assms(1) True] obtain bs where "moved rdr bs rdr1" "rd_ok rdr1" "bytes_left rdr1 = bs"
      "length bs < length (bytes_left rdr)" by blast
    with moved_kept [of rdr bs rdr1] assms(2) True show ?thesis by (auto simp: kept_def)
  qed (simp add: raised_def)
  then show ?thesis by (intro ends_mono [OF read_u8_end [OF assms(1)]]) auto
qed

lemma len_end:
  assumes "rd_ok rdr" and "length (bytes_left rdr) < l"
  shows "ends (pgf_read_len F rdr) (\<lambda>(n, rdr1). raised (rerr rdr1) \<or>
    (n < 2 ^ 31 \<and> rerr rdr1 = None \<and> rd_ok rdr1 \<and> kept Elsewhere rdr rdr1 \<and> length (bytes_left rdr1) < length (bytes_left rdr) \<and>
      length (bytes_left rdr1) < l - 1 \<and> maps rdr1 = maps rdr \<and> heap rdr1 = heap rdr))"
    (is "ends _ ?Q")
proof -
  have "?Q (n, rdr1)" if n: "num_end (\<lambda>n. n < 2 ^ 31) rdr (n, rdr1)" for n rdr1
  proof (cases "rerr rdr1 = None")
    case True
    from num_end_step [OF n assms(1) True] obtain bs where "n < 2 ^ 31" "moved rdr bs rdr1" "rd_ok rdr1" "bytes_left rdr1 = bs"
      "length bs < length (bytes_left rdr)" by blast
    with moved_kept [of rdr bs rdr1] moved_keeps [of rdr bs rdr1] assms(2) True show ?thesis by auto
  qed (simp add: raised_def)
  then show ?thesis by (intro ends_mono [OF read_len_end [OF assms(1)]]) auto
qed

lemma safe_variant:
  assumes "describe type = Some (D_Variant cs)"
    and "\<And>i. i < length cs \<Longrightarrow> safe (rd (cs ! i) Elsewhere) key Elsewhere (l - 1) (P i)"
  shows "safe (pgf_read_to_GuVariant F rd type) key to l
    (\<lambda>t. \<exists>i u. t = T_Variant i u \<and> i < length cs \<and> i < 256 \<and> gu_type_repr 4 (cs ! i) \<noteq> None \<and> P i u)"
proof (rule safeI)
  fix rdr
  assume ok: "rd_ok rdr" and key: "key \<Longrightarrow> plain_key (curr_key rdr)" and l: "length (bytes_left rdr) < l"
  let ?G = "good (\<lambda>t. \<exists>i u. t = T_Variant i u \<and> i < length cs \<and> i < 256 \<and> gu_type_repr 4 (cs ! i) \<noteq> None \<and> P i u) to rdr"
  have b: "unat b < 256" for b :: u8 using unsigned_less [of b] by simp
  have step: "ends (rd (cs ! unat b) Elsewhere rdr1) (\<lambda>(v, rdr2). ?G (V_Variant (unat b) v, rdr2))"
    if "unat b < length cs" "rd_ok rdr1" "kept to rdr rdr1" "length (bytes_left rdr1) < length (bytes_left rdr)"
      "length (bytes_left rdr1) < l - 1" "curr_key rdr1 = curr_key rdr" "gu_type_repr 4 (cs ! unat b) \<noteq> None" for b :: u8 and rdr1
  proof -
    have "ends (rd (cs ! unat b) Elsewhere rdr1) (good (P (unat b)) Elsewhere rdr1)"
      using safeD [OF assms(2) [OF that(1)] that(2)] key that(5,6) by simp
    then have "ends (rd (cs ! unat b) Elsewhere rdr1) (good (P (unat b)) to rdr)"
      by (rule ends_mono) (rule good_trans [OF good_anywhere that(3) less_imp_le [OF that(4)]])
    moreover have "?G (V_Variant (unat b) v, rdr2)" if "good (P (unat b)) to rdr (v, rdr2)" for v rdr2
      using that by (rule good_wrap [of _ _ _ _ _ _ "T_Variant (unat b)"])
        (use b [of b] \<open>unat b < length cs\<close> \<open>gu_type_repr 4 (cs ! unat b) \<noteq> None\<close> in auto)
    ultimately show ?thesis by (elim ends_mono) auto
  qed
  show "ends (pgf_read_to_GuVariant F rd type rdr) ?G"
    unfolding pgf_read_to_GuVariant_def assms(1) option.case type_desc.case ends_bindR
    by (rule ends_mono [OF tag_end [OF ok l]])
      (use step in \<open>auto simp: Let_def with_repr_def not_le raised_def [symmetric] good_def [of _ _ _ "(V_Uninit, _)"]\<close>)
qed

definition members_good :: "(GuType \<Rightarrow> tree \<Rightarrow> bool) \<Rightarrow> GuType list \<Rightarrow> loc \<Rightarrow> 's PgfReader \<Rightarrow> gval list \<times> 's PgfReader \<Rightarrow> bool" where
  "members_good P ms to rdr r \<longleftrightarrow> raised (rerr (snd r)) \<or>
     (\<exists>ts. list_all2 P ms ts \<and> rd_ok (snd r) \<and> kept to rdr (snd r) \<and>
       list_all2 (\<lambda>t v. rep t (snd r) (mark rdr) (curr_key rdr) v) ts (fst r) \<and>
       length (bytes_left (snd r)) \<le> length (bytes_left rdr))"

lemma members_good_Cons:
  assumes "P m t" and "rep t rdr1 (mark rdr) (curr_key rdr) v" and "kept to rdr rdr1" and "to_ok to rdr"
    and "length (bytes_left rdr1) \<le> length (bytes_left rdr)"
    and "members_good P ms to (store (member_loc to i) v rdr1) (vs, rdr')"
  shows "members_good P (m # ms) to rdr (v # vs, rdr')"
proof (cases "raised (rerr rdr')")
  case False
  let ?r2 = "store (member_loc to i) v rdr1"
  from False assms(6) obtain ts where ts: "list_all2 P ms ts" "rd_ok rdr'" "kept to ?r2 rdr'"
    "list_all2 (\<lambda>t v. rep t rdr' (mark ?r2) (curr_key ?r2) v) ts vs" "length (bytes_left rdr') \<le> length (bytes_left rdr1)"
    by (auto simp: members_good_def)
  have k: "kept to rdr1 ?r2" using kept_store [of "member_loc to i"] by simp
  have k2: "kept to rdr ?r2" "kept to rdr1 rdr'" using kept_trans k assms(3) ts(3) by blast+
  have key: "curr_key ?r2 = curr_key rdr" using k2(1) by (simp add: kept_def)
  have "list_all2 (\<lambda>t v. rep t rdr' (mark rdr) (curr_key rdr) v) ts vs"
    using ts(4) unfolding key by (rule list_all2_mono) (rule rep_later [OF _ k2(1)])
  moreover have "rep t rdr' (mark rdr) (curr_key rdr) v" by (rule rep_kept [OF assms(2) k2(2) assms(4)])
  moreover have "kept to rdr rdr'" using kept_trans k2(2) assms(3) by blast
  ultimately show ?thesis
    unfolding members_good_def using assms(1,5) ts(1,2,5) by (intro disjI2 exI [of _ "t # ts"]) auto
qed (simp add: members_good_def)

lemma safe_members:
  assumes "\<forall>m \<in> set ms. \<forall>to. safe (rd m to) key to l (P m)"
    and "rd_ok rdr" and "to_ok to rdr" and "key \<longrightarrow> plain_key (curr_key rdr)" and "length (bytes_left rdr) < l"
  shows "ends (read_members rd to i ms rdr) (members_good P ms to rdr)"
  using assms
proof (induction ms arbitrary: i rdr)
  case (Cons m ms)
  have "ends (rd m (member_loc to i) rdr) (good (P m) (member_loc to i) rdr)"
    by (rule safeD [of _ key _ l]) (use Cons.prems in auto)
  then have r: "ends (rd m (member_loc to i) rdr) (good (P m) to rdr)" by (rule ends_mono) (simp add: good_def)
  have step: "ends (read_members rd to (Suc i) ms (store (member_loc to i) v rdr1)) (\<lambda>(vs, rdr'). members_good P (m # ms) to rdr (v # vs, rdr'))"
    if g: "good (P m) to rdr (v, rdr1)" and e: "rerr rdr1 = None" for v rdr1
  proof -
    obtain t where t: "P m t" "rd_ok rdr1" "kept to rdr rdr1" "rep t rdr1 (mark rdr) (curr_key rdr) v"
      "length (bytes_left rdr1) \<le> length (bytes_left rdr)" using goodE [OF g e] by blast
    have "ends (read_members rd to (Suc i) ms (store (member_loc to i) v rdr1)) (members_good P ms to (store (member_loc to i) v rdr1))"
      by (rule Cons.IH) (use Cons.prems t to_ok_kept in \<open>auto simp: kept_def\<close>)
    then show ?thesis by (rule ends_mono) (use members_good_Cons [where P = P, OF t(1,4,3) Cons.prems(3) t(5)] in auto)
  qed
  show ?case
    unfolding read_members.simps ends_bindR
    by (rule ends_mono [OF r]) (use step in \<open>auto simp: Let_def members_good_def [of _ _ _ _ "([_], _)"] raised_def split_def\<close>)
qed (simp add: members_good_def)

lemma safe_struct:
  assumes "describe type = Some (D_Struct ms)" and "\<forall>m \<in> set ms. \<forall>to. safe (rd m to) key to l (P m)"
  shows "safe (pgf_read_to_struct rd type to) key to l (\<lambda>t. \<exists>ts. t = T_Struct ts \<and> list_all2 P ms ts)"
proof (rule safeI)
  fix rdr
  assume a: "rd_ok rdr" "to_ok to rdr" "key \<Longrightarrow> plain_key (curr_key rdr)" "length (bytes_left rdr) < l"
  then have "ends (read_members rd to 0 ms rdr) (members_good P ms to rdr)" by (intro safe_members [OF assms(2)]) auto
  then show "ends (pgf_read_to_struct rd type to rdr) (good (\<lambda>t. \<exists>ts. t = T_Struct ts \<and> list_all2 P ms ts) to rdr)"
    unfolding pgf_read_to_struct_def assms(1) option.case type_desc.case ends_bindR
    by (rule ends_mono) (auto simp: members_good_def good_def)
qed

lemma safe_new:
  assumes "gu_type_repr 4 type \<noteq> None \<Longrightarrow> \<forall>to. safe (rd type to) key to l P"
  shows "safe (pgf_read_new_type rd type) key to l (\<lambda>t. \<exists>u. t = T_Ptr u \<and> gu_type_repr 4 type \<noteq> None \<and> P u)"
proof (rule safeI)
  fix rdr
  assume ok: "rd_ok rdr" and key: "key \<Longrightarrow> plain_key (curr_key rdr)" and l: "length (bytes_left rdr) < l"
  let ?a = "length (heap rdr)"
  let ?r1 = "rdr\<lparr>heap := heap rdr @ [V_Uninit]\<rparr>"
  let ?G = "good (\<lambda>t. \<exists>u. t = T_Ptr u \<and> gu_type_repr 4 type \<noteq> None \<and> P u) to rdr"
  have 1: "rd_ok ?r1" "to_ok (Loc ?a []) ?r1" "key \<longrightarrow> plain_key (curr_key ?r1)" "length (bytes_left ?r1) < l"
    using ok key l by (simp_all add: to_ok_def)
  have step: "?G (V_Ptr ?a, store (Loc ?a []) v rdr2)" if g: "good P (Loc ?a []) ?r1 (v, rdr2)" and ty: "gu_type_repr 4 type \<noteq> None" for v rdr2
  proof (cases "rerr rdr2 = None")
    case True
    obtain t where t: "P t" "rd_ok rdr2" "kept (Loc ?a []) ?r1 rdr2" "rep t rdr2 (mark ?r1) (curr_key ?r1) v"
      "length (bytes_left rdr2) \<le> length (bytes_left ?r1)" using goodE [OF g True] by blast
    let ?r3 = "store (Loc ?a []) v rdr2"
    have k3: "kept (Loc ?a []) rdr2 ?r3" by (rule kept_store)
    have "frame {} {} rdr ?r3" using kept_trans [OF t(3) k3] by (auto simp: kept_def frame_def nth_append)
    then have "kept to rdr ?r3" using t(3) by (auto simp: kept_def elim: frame_mono)
    moreover have "?a < length (heap rdr2)" "heap ?r3 ! ?a = v" using t(3) by (auto simp: kept_def frame_def)
    moreover have "kept Elsewhere rdr ?r1" by (simp add: kept_def frame_def nth_append)
    then have "rep t ?r3 (mark rdr) (curr_key rdr) v" using rep_later [OF rep_kept [OF t(4) k3 1(2)]] by simp
    ultimately show ?thesis using t(1,2,5) ty by (intro goodI [of _ "T_Ptr t"]) (auto simp: mark_def)
  qed (simp add: good_def raised_def)
  have "ends (rd type (Loc ?a []) ?r1) (good P (Loc ?a []) ?r1)" if "gu_type_repr 4 type \<noteq> None"
    using safeD [OF _ 1] assms [OF that] by blast
  then show "ends (pgf_read_new_type rd type rdr) ?G"
    using step by (auto simp: pgf_read_new_type_def with_repr_def new_object_def elim!: ends_mono simp del: store.simps)
qed

definition elems_good :: "(tree \<Rightarrow> bool) \<Rightarrow> nat \<Rightarrow> nat \<Rightarrow> 's PgfReader \<Rightarrow> gval list \<times> 's PgfReader \<Rightarrow> bool" where
  "elems_good P i n rdr r \<longleftrightarrow> raised (rerr (snd r)) \<or>
     (\<exists>ts. list_all P ts \<and> length ts = n \<and> rd_ok (snd r) \<and> frame {} {} rdr (snd r) \<and>
       elems_rep (map (\<lambda>t. rep t (snd r) (mark rdr)) ts) i (fst r) \<and> length (bytes_left (snd r)) \<le> length (bytes_left rdr))"

lemma safe_elems:
  assumes "safe (rd et Elsewhere) True Elsewhere l P" and "rd_ok rdr" and "length (bytes_left rdr) < l"
  shows "ends (read_elems rd et i n rdr) (elems_good P i n rdr)"
  using assms(2,3)
proof (induction n arbitrary: i rdr)
  case (Suc n)
  let ?r0 = "rdr\<lparr>curr_key := V_Int (int i)\<rparr>"
  have r: "ends (rd et Elsewhere ?r0) (good P Elsewhere ?r0)"
    by (rule safeD [OF assms(1)]) (use Suc.prems in \<open>auto simp: plain_key_def\<close>)
  have step: "ends (read_elems rd et (Suc i) n rdr1) (\<lambda>(vs, rdr2). elems_good P i (Suc n) rdr (v # vs, rdr2))"
    if g: "good P Elsewhere ?r0 (v, rdr1)" and e: "rerr rdr1 = None" for v rdr1
  proof -
    obtain t where t: "P t" "rd_ok rdr1" "frame {} {} rdr rdr1" "rep t rdr1 (mark rdr) (V_Int (int i)) v"
      "length (bytes_left rdr1) \<le> length (bytes_left rdr)" using goodE [OF g e] by (auto simp: kept_frame)
    have 2: "elems_good P i (Suc n) rdr (v # vs, rdr2)" if g: "elems_good P (Suc i) n rdr1 (vs, rdr2)" for vs rdr2
    proof (cases "raised (rerr rdr2)")
      case False
      with g obtain ts where ts: "list_all P ts" "length ts = n" "rd_ok rdr2" "frame {} {} rdr1 rdr2"
        "elems_rep (map (\<lambda>t. rep t rdr2 (mark rdr1)) ts) (Suc i) vs" "length (bytes_left rdr2) \<le> length (bytes_left rdr1)"
        by (auto simp: elems_good_def)
      have "elems_rep (map (\<lambda>t. rep t rdr2 (mark rdr)) ts) (Suc i) vs"
        using ts(5) by (auto simp: elems_rep_nth intro: rep_since [OF _ t(3)])
      moreover have "rep t rdr2 (mark rdr) (V_Int (int i)) v" using t(4) ts(4) by (rule rep_still)
      moreover have "frame {} {} rdr rdr2" using t(3) ts(4) by (rule frame_trans)
      ultimately show ?thesis
        unfolding elems_good_def using t(1,5) ts(1-3,6) by (intro disjI2 exI [of _ "t # ts"]) auto
    qed (simp add: elems_good_def)
    have "ends (read_elems rd et (Suc i) n rdr1) (elems_good P (Suc i) n rdr1)"
      by (rule Suc.IH) (use t Suc.prems in auto)
    then show ?thesis by (rule ends_mono) (use 2 in auto)
  qed
  show ?case
    unfolding read_elems.simps ends_bindR
    by (rule ends_mono [OF r]) (use step in \<open>auto simp: elems_good_def [of _ _ _ _ "([], _)"] raised_def split_def\<close>)
qed (simp add: elems_good_def)

lemma safe_seq_value:
  assumes "describe type = Some (D_Seq et)" and "gu_type_repr 4 et \<noteq> None \<Longrightarrow> safe (rd et Elsewhere) True Elsewhere (l - 1) P"
  shows "safe (pgf_read_to_GuSeq F rd type) key to l
    (\<lambda>t. \<exists>ts. t = T_Seq ts \<and> length ts < 2 ^ 31 \<and> gu_type_repr 4 et \<noteq> None \<and> list_all P ts)"
proof (rule safeI)
  fix rdr
  assume ok: "rd_ok rdr" and l: "length (bytes_left rdr) < l"
  let ?G = "good (\<lambda>t. \<exists>ts. t = T_Seq ts \<and> length ts < 2 ^ 31 \<and> gu_type_repr 4 et \<noteq> None \<and> list_all P ts) to rdr"
  have fin: "?G (V_Seq vs, rdr2\<lparr>curr_key := curr_key rdr\<rparr>)"
    if g: "elems_good P 0 n rdr1 (vs, rdr2)" and k: "kept Elsewhere rdr rdr1" "length (bytes_left rdr1) < length (bytes_left rdr)" "n < 2 ^ 31"
      and e: "rerr rdr2 = None" and ty: "gu_type_repr 4 et \<noteq> None" for n rdr1 vs rdr2
  proof -
    obtain ts where ts: "list_all P ts" "length ts = n" "rd_ok rdr2" "frame {} {} rdr1 rdr2"
      "elems_rep (map (\<lambda>t. rep t rdr2 (mark rdr1)) ts) 0 vs" "length (bytes_left rdr2) \<le> length (bytes_left rdr1)"
      using g e by (auto simp: elems_good_def)
    have f: "frame {} {} rdr rdr1" using k(1) by (simp add: kept_frame)
    let ?r3 = "rdr2\<lparr>curr_key := curr_key rdr\<rparr>"
    have "elems_rep (map (\<lambda>t. rep t ?r3 (mark rdr)) ts) 0 vs"
      using ts(5) by (auto simp: elems_rep_nth intro!: rep_still [of _ rdr2 _ _ _ ?r3] rep_since [OF _ f])
    moreover have "kept to rdr ?r3" by (rule kept_anywhere) (use frame_trans [OF f ts(4)] in \<open>simp add: kept_frame\<close>)
    ultimately show ?thesis using ts k ty by (intro goodI [of _ "T_Seq ts"]) auto
  qed
  have body: "ends (with_repr et (bindR (read_elems rd et 0 n rdr1) (\<lambda>(vs, rdr2).
      if rerr rdr2 \<noteq> None then Done (V_Uninit, rdr2) else Done (V_Seq vs, rdr2\<lparr>curr_key := curr_key rdr\<rparr>)))) ?G"
    if "n < 2 ^ 31" "rd_ok rdr1" "kept Elsewhere rdr rdr1" "length (bytes_left rdr1) < length (bytes_left rdr)"
      "length (bytes_left rdr1) < l - 1" for n rdr1
  proof (cases "gu_type_repr 4 et = None")
    case False
    have "ends (read_elems rd et 0 n rdr1) (elems_good P 0 n rdr1)"
      by (rule safe_elems [where rd = rd, OF assms(2)]) (use that False in auto)
    then show ?thesis
      using False fin [OF _ that(3,4,1) _ False]
      by (auto simp: with_repr_def good_def [of _ _ _ "(V_Uninit, _)"] raised_def elim!: ends_mono)
  qed (simp add: with_repr_def)
  show "ends (pgf_read_to_GuSeq F rd type rdr) ?G"
    unfolding pgf_read_to_GuSeq_def assms(1) option.case type_desc.case ends_bindR
    by (rule ends_mono [OF len_end [OF ok l]]) (use body in \<open>auto simp: good_def [of _ _ _ "(V_Uninit, _)"] raised_def simp del: ends_bindR\<close>)
qed

lemma safe_maybe_seq:
  assumes "describe type = Some (D_Seq et)" and "gu_type_repr 4 et \<noteq> None \<Longrightarrow> safe (rd et Elsewhere) True Elsewhere (l - 1) P"
  shows "safe (pgf_read_to_maybe_seq F rd type) key to l
    (\<lambda>t. t = T_NoSeq \<or> (\<exists>ts. t = T_SomeSeq ts \<and> length ts < 2 ^ 31 \<and> gu_type_repr 4 et \<noteq> None \<and> list_all P ts))"
proof (rule safeI)
  fix rdr
  assume ok: "rd_ok rdr" and key: "key \<Longrightarrow> plain_key (curr_key rdr)" and l: "length (bytes_left rdr) < l"
  let ?P = "\<lambda>t. t = T_NoSeq \<or> (\<exists>ts. t = T_SomeSeq ts \<and> length ts < 2 ^ 31 \<and> gu_type_repr 4 et \<noteq> None \<and> list_all P ts)"
  have none: "good ?P to rdr (V_NullSeq, rdr1)" if "rd_ok rdr1" "kept to rdr rdr1" "length (bytes_left rdr1) < length (bytes_left rdr)" for rdr1
    using that by (intro goodI [of _ T_NoSeq]) auto
  have seq: "ends (pgf_read_to_GuSeq F rd type rdr1) (good ?P to rdr)"
    if "rd_ok rdr1" "kept to rdr rdr1" "length (bytes_left rdr1) < length (bytes_left rdr)" "length (bytes_left rdr1) < l - 1" for rdr1
  proof -
    have "gu_type_repr 4 et \<noteq> None \<Longrightarrow> safe (rd et Elsewhere) True Elsewhere (l - 1 - 1) P"
      using assms(2) by (rule safe_less) auto
    from safe_seq_value [where rd = rd and key = False and to = Elsewhere, OF assms(1) this] that(1,4)
    have "ends (pgf_read_to_GuSeq F rd type rdr1) (good (\<lambda>t. \<exists>ts. t = T_Seq ts \<and> length ts < 2 ^ 31 \<and> gu_type_repr 4 et \<noteq> None \<and>
        list_all P ts) Elsewhere rdr1)" by (auto simp: safe_def)
    then show ?thesis
    proof (rule ends_mono)
      fix x
      assume g: "good (\<lambda>t. \<exists>ts. t = T_Seq ts \<and> length ts < 2 ^ 31 \<and> gu_type_repr 4 et \<noteq> None \<and> list_all P ts) Elsewhere rdr1 x"
      obtain v rdr2 where x: "x = (v, rdr2)" by (cases x)
      from g have "good ?P Elsewhere rdr1 (v, rdr2)"
        unfolding x by (rule good_wrap [where f = "\<lambda>t. case t of T_Seq ts \<Rightarrow> T_SomeSeq ts | _ \<Rightarrow> t"]) auto
      from good_trans [OF good_anywhere [OF this] that(2)] that(3) show "good ?P to rdr x" unfolding x by simp
    qed
  qed
  show "ends (pgf_read_to_maybe_seq F rd type rdr) (good ?P to rdr)"
    unfolding pgf_read_to_maybe_seq_def ends_bindR
    by (rule ends_mono [OF tag_end [OF ok l]]) (use none seq in \<open>auto simp: good_def [of _ _ _ "(V_Uninit, _)"] raised_def raise_in_def\<close>)
qed

end

text \<open>Putting into a map: an entry with the key is overwritten.\<close>

lemma entries_put:
  assumes "entries_rep rdr mk es kvs" and "is_str (strings rdr) us k" and "rep t rdr mk k v"
    and "list_all (\<lambda>(us, t). Q us \<and> P t) es" and "Q us" and "P t"
  shows "\<exists>es'. entries_rep rdr mk es' (map_put_entry k v kvs) \<and> list_all (\<lambda>(us, t). Q us \<and> P t) es' \<and> length es' \<le> Suc (length es)"
  using assms(1,4) unfolding entries_rep_def
proof (induction rule: list_all2_induct)
  case Nil
  show ?case using assms(2,3,5,6) by (intro exI [of _ "[(us, t)]"]) simp
next
  case (Cons e es kv kvs)
  obtain us' t' k' v' where e: "e = (us', t')" "kv = (k', v')" by (cases e; cases kv)
  show ?case
  proof (cases "k' = k")
    case True
    with Cons e assms(3,6) show ?thesis by (intro exI [of _ "(us', t) # es"]) auto
  next
    case False
    from Cons obtain es' where "list_all2 (\<lambda>(us, t) (k, w). is_str (strings rdr) us k \<and> rep t rdr mk k w) es' (map_put_entry k v kvs)"
      "list_all (\<lambda>(us, t). Q us \<and> P t) es'" "length es' \<le> Suc (length es)" by auto
    with Cons e False show ?thesis by (intro exI [of _ "(us', t') # es'"]) auto
  qed
qed

context reader_stream begin

definition entries_good ::
  "(GuUCS list \<Rightarrow> bool) \<Rightarrow> (tree \<Rightarrow> bool) \<Rightarrow> nat \<Rightarrow> mark \<Rightarrow> nat \<Rightarrow> 's PgfReader \<Rightarrow> bool \<times> 's PgfReader \<Rightarrow> bool" where
  "entries_good Q P m mk n rdr r \<longleftrightarrow> raised (rerr (snd r)) \<or>
     (fst r \<and> (\<exists>es. list_all (\<lambda>(us, t). Q us \<and> P t) es \<and> length es \<le> n \<and> rd_ok (snd r) \<and> frame {} {m} rdr (snd r) \<and>
       entries_rep (snd r) mk es (maps (snd r) ! m) \<and> length (bytes_left (snd r)) \<le> length (bytes_left rdr)))"

lemma entries_good_trans:
  assumes "entries_good Q P m mk n rdr1 r" and "frame {} {m} rdr rdr1" and "length (bytes_left rdr1) \<le> length (bytes_left rdr)"
  shows "entries_good Q P m mk n rdr r"
  using assms by (auto simp: entries_good_def intro: frame_trans order_trans)

lemma safe_entries:
  assumes "safe (rd kt Elsewhere) False Elsewhere l (\<lambda>t. \<exists>us. t = T_Str us \<and> Q us)" and "safe (rd vt Elsewhere) True Elsewhere l P"
    and "rd_ok rdr" and "length (bytes_left rdr) < l"
    and "m < length (maps rdr)" and "entries_rep rdr mk old (maps rdr ! m)" and "list_all (\<lambda>(us, t). Q us \<and> P t) old" and "m < snd mk"
    and "fst mk \<le> fst (mark rdr)" and "snd mk \<le> snd (mark rdr)"
  shows "ends (map_entries rd rn True kt vt m n rdr) (entries_good Q P m mk (length old + n) rdr)"
  using assms(3-)
proof (induction n arbitrary: rdr old)
  case 0
  then show ?case by (auto simp: entries_good_def)
next
  case (Suc n)
  let ?E = "entries_good Q P m mk (length old + Suc n) rdr"
  have key: "ends (rd kt Elsewhere rdr) (good (\<lambda>t. \<exists>us. t = T_Str us \<and> Q us) Elsewhere rdr)"
    by (rule safeD [OF assms(1)]) (use Suc.prems in auto)
  have put: "ends (bindR (map_put m k v rdr2) (map_entries rd rn True kt vt m n)) ?E"
    if k: "is_str (strings rdr1) us k" "Q us" "frame {} {} rdr rdr1" "length (bytes_left rdr1) \<le> length (bytes_left rdr)"
      and g: "good P Elsewhere (rdr1\<lparr>curr_key := k\<rparr>) (v, rdr2)" and e: "rerr rdr2 = None" for k us rdr1 v rdr2
  proof -
    obtain t where t: "P t" "rd_ok rdr2" "frame {} {} rdr1 rdr2" "rep t rdr2 (mark rdr1) k v"
      "length (bytes_left rdr2) \<le> length (bytes_left rdr1)" using goodE [OF g e] by (auto simp: kept_frame)
    have f2: "frame {} {} rdr rdr2" using k(3) t(3) by (rule frame_trans)
    then have m2: "m < length (maps rdr2)" "maps rdr2 ! m = maps rdr ! m" using Suc.prems(3) by (auto simp: frame_def)
    have "is_str (strings rdr2) us k" using k(1) t(3) by (auto simp: frame_def intro: is_str_prefix)
    moreover have "entries_rep rdr2 mk old (maps rdr ! m)" by (rule entries_frame [OF Suc.prems(4) f2]) auto
    moreover have "rep t rdr2 (mark rdr) k v" using t(4) k(3) by (rule rep_since)
    then have "rep t rdr2 mk k v" using Suc.prems(7,8) by (elim rep_frame [where A = "{}" and M = "{}"]) auto
    ultimately obtain es where es: "entries_rep rdr2 mk es (map_put_entry k v (maps rdr ! m))" "list_all (\<lambda>(us, t). Q us \<and> P t) es"
      "length es \<le> Suc (length old)" using entries_put [OF _ _ _ Suc.prems(5) k(2) t(1)] by blast
    let ?r3 = "rdr2\<lparr>maps := (maps rdr2)[m := map_put_entry k v (maps rdr ! m)]\<rparr>"
    have f3: "frame {} {m} rdr2 ?r3" by (auto simp: frame_def)
    have "frame {} {m} rdr rdr2" using f2 by (rule frame_mono) auto
    with f3 have f4: "frame {} {m} rdr ?r3" by (blast intro: frame_trans)
    have "entries_rep ?r3 mk es (maps ?r3 ! m)" using es(1) m2(1) Suc.prems(6) by (auto intro: entries_frame [OF _ f3])
    then have "ends (map_entries rd rn True kt vt m n ?r3) (entries_good Q P m mk (length es + n) ?r3)"
      by (intro Suc.IH) (use Suc.prems t k es m2 frame_mark [OF f4] in auto)
    then have "ends (map_entries rd rn True kt vt m n ?r3) ?E"
    proof (rule ends_mono)
      fix r
      assume "entries_good Q P m mk (length es + n) ?r3 r"
      then have "entries_good Q P m mk (length old + Suc n) ?r3 r" using es(3) by (auto simp: entries_good_def)
      then show "?E r" by (rule entries_good_trans) (use f4 k(4) t(5) in auto)
    qed
    then show ?thesis using m2 by (simp add: map_put_def)
  qed
  have val: "ends (rd vt Elsewhere (rdr1\<lparr>curr_key := k\<rparr>)) (good P Elsewhere (rdr1\<lparr>curr_key := k\<rparr>))"
    if "is_str (strings rdr1) us k" "rd_ok rdr1" "length (bytes_left rdr1) < l" for k us rdr1
  proof -
    have "plain_key k" using that(1) by (cases k) (auto simp: plain_key_def)
    then show ?thesis by (intro safeD [OF assms(2)]) (use that in auto)
  qed
  have step: "ends (bindR (rd vt Elsewhere (rdr1\<lparr>curr_key := k\<rparr>)) (\<lambda>(v, rdr2).
      if rerr rdr2 \<noteq> None then Done (False, rdr2)
      else bindR (map_put m k v rdr2) (\<lambda>rdr3. map_entries rd rn True kt vt m n rdr3))) ?E"
    if g: "good (\<lambda>t. \<exists>us. t = T_Str us \<and> Q us) Elsewhere rdr (k, rdr1)" and e: "rerr rdr1 = None" for k rdr1
  proof -
    obtain t where t: "\<exists>us. t = T_Str us \<and> Q us" "rd_ok rdr1" "kept Elsewhere rdr rdr1" "rep t rdr1 (mark rdr) (curr_key rdr) k"
      "length (bytes_left rdr1) \<le> length (bytes_left rdr)" using goodE [OF g e] by blast
    then obtain us where us: "Q us" "rd_ok rdr1" "frame {} {} rdr rdr1" "is_str (strings rdr1) us k"
      "length (bytes_left rdr1) \<le> length (bytes_left rdr)" by (auto simp: kept_frame)
    have l: "length (bytes_left rdr1) < l" using us(5) Suc.prems(2) by simp
    have "ends (if rerr rdr2 \<noteq> None then Done (False, rdr2)
        else bindR (map_put m k v rdr2) (\<lambda>rdr3. map_entries rd rn True kt vt m n rdr3)) ?E"
      if "good P Elsewhere (rdr1\<lparr>curr_key := k\<rparr>) (v, rdr2)" for v rdr2
    proof (cases "rerr rdr2 = None")
      case True
      with put [OF us(4,1,3,5) that] show ?thesis by simp
    qed (simp add: entries_good_def raised_def)
    then have "ends (case x of (v, rdr2) \<Rightarrow> if rerr rdr2 \<noteq> None then Done (False, rdr2)
        else bindR (map_put m k v rdr2) (\<lambda>rdr3. map_entries rd rn True kt vt m n rdr3)) ?E"
      if "good P Elsewhere (rdr1\<lparr>curr_key := k\<rparr>) x" for x using that by (cases x) simp
    with val [OF us(4,2) l] show ?thesis unfolding ends_bindR [of "rd vt _ _"] by (rule ends_mono)
  qed
  have step': "ends (case x of (k, rdr1) \<Rightarrow> if rerr rdr1 \<noteq> None then Done (False, rdr1)
      else bindR (rd vt Elsewhere (rdr1\<lparr>curr_key := k\<rparr>)) (\<lambda>(v, rdr2).
        if rerr rdr2 \<noteq> None then Done (False, rdr2)
        else bindR (map_put m k v rdr2) (\<lambda>rdr3. map_entries rd rn True kt vt m n rdr3))) ?E"
    if "good (\<lambda>t. \<exists>us. t = T_Str us \<and> Q us) Elsewhere rdr x" for x
  proof (cases x)
    case (Pair k rdr1)
    show ?thesis
    proof (cases "rerr rdr1 = None")
      case True
      with step [OF that [unfolded Pair] True] show ?thesis by (simp only: Pair prod.case) simp
    qed (simp add: Pair entries_good_def raised_def)
  qed
  show ?case
    unfolding map_entries.simps if_True ends_bindR [of "rd kt _ _"]
    by (rule ends_mono [OF key]) (use step' in auto)
qed

lemma safe_map:
  assumes "describe type = Some (D_Map True kt vt)"
    and "safe (rd kt Elsewhere) False Elsewhere (l - 1) (\<lambda>t. \<exists>us. t = T_Str us \<and> Q us)"
    and "safe (rd vt Elsewhere) True Elsewhere (l - 1) P"
  shows "safe (pgf_read_new_GuMap F rd rn type) key to l
    (\<lambda>t. \<exists>es. t = T_Map es \<and> length es < 2 ^ 31 \<and> list_all (\<lambda>(us, t). Q us \<and> P t) es)"
proof (rule safeI)
  fix rdr
  assume ok: "rd_ok rdr" and l: "length (bytes_left rdr) < l"
  let ?G = "good (\<lambda>t. \<exists>es. t = T_Map es \<and> length es < 2 ^ 31 \<and> list_all (\<lambda>(us, t). Q us \<and> P t) es) to rdr"
  let ?m = "length (maps rdr)"
  let ?r1 = "rdr\<lparr>maps := maps rdr @ [[]]\<rparr>"
  have fin: "?G (V_Map ?m, rdr3\<lparr>curr_key := curr_key rdr\<rparr>)"
    if g: "entries_good Q P ?m (mark rdr2) n rdr2 (c, rdr3)" and e: "rerr rdr3 = None" and n: "n < 2 ^ 31"
      and 2: "kept Elsewhere ?r1 rdr2" "length (bytes_left rdr2) < length (bytes_left rdr)" "maps rdr2 = maps ?r1" "heap rdr2 = heap rdr"
    for n rdr2 c rdr3
  proof -
    obtain es where es: "list_all (\<lambda>(us, t). Q us \<and> P t) es" "length es \<le> n" "rd_ok rdr3" "frame {} {?m} rdr2 rdr3"
      "entries_rep rdr3 (mark rdr2) es (maps rdr3 ! ?m)" "length (bytes_left rdr3) \<le> length (bytes_left rdr2)"
      using g e by (auto simp: entries_good_def)
    let ?r4 = "rdr3\<lparr>curr_key := curr_key rdr\<rparr>"
    have "frame {} {?m} ?r1 rdr3" using frame_mono [of "{}" "{}" ?r1 rdr2] 2(1) es(4) by (auto simp: kept_frame intro: frame_trans)
    then have f: "frame {} {} rdr rdr3" "?m < length (maps rdr3)" by (auto simp: frame_def nth_append)
    have "entries_rep ?r4 (mark rdr) es (maps rdr3 ! ?m)"
      by (rule entries_frame [OF es(5), of "{}" "{}"]) (auto simp: mark_def 2(3,4))
    moreover have "kept to rdr ?r4" by (rule kept_anywhere) (use f in \<open>simp add: kept_frame\<close>)
    ultimately show ?thesis
      using es f n 2(2) by (intro goodI [of _ "T_Map es"]) (auto simp: entries_rep_def mark_def)
  qed
  have body: "ends (bindR (map_entries rd rn True kt vt ?m n rdr2) (\<lambda>(complete, rdr3).
      Done (if complete then rdr3\<lparr>curr_key := curr_key ?r1\<rparr> else rdr3)))
      (\<lambda>rdr3. ?G (if rerr rdr3 \<noteq> None then V_Null else V_Map ?m, rdr3))"
    if "n < 2 ^ 31" "rd_ok rdr2" "kept Elsewhere ?r1 rdr2" "length (bytes_left rdr2) < length (bytes_left rdr)"
      "length (bytes_left rdr2) < l - 1" "maps rdr2 = maps ?r1" "heap rdr2 = heap rdr" for n rdr2
  proof -
    have "ends (map_entries rd rn True kt vt ?m n rdr2) (entries_good Q P ?m (mark rdr2) (length ([] :: (GuUCS list \<times> tree) list) + n) rdr2)"
      by (rule safe_entries [where rd = rd, OF assms(2,3)]) (use that in \<open>auto simp: entries_rep_def mark_def\<close>)
    then show ?thesis
      unfolding ends_bindR
    proof (rule ends_mono)
      fix x
      assume g: "entries_good Q P ?m (mark rdr2) (length ([] :: (GuUCS list \<times> tree) list) + n) rdr2 x"
      obtain c rdr3 where x: "x = (c, rdr3)" by (cases x)
      show "ends (case x of (complete, rdr3) \<Rightarrow> Done (if complete then rdr3\<lparr>curr_key := curr_key ?r1\<rparr> else rdr3))
        (\<lambda>rdr3. ?G (if rerr rdr3 \<noteq> None then V_Null else V_Map ?m, rdr3))"
      proof (cases "rerr rdr3 = None")
        case True
        with g have c by (simp add: x entries_good_def)
        with fin [OF g [unfolded x, simplified] True that(1,3,4,6,7)] True show ?thesis by (simp add: x)
      qed (auto simp: x good_def raised_def)
    qed
  qed
  have "length (bytes_left ?r1) < l" "rd_ok ?r1" using ok l by simp_all
  note len = len_end [OF this(2,1)]
  have "ends (if rerr rdr2 \<noteq> None then Done rdr2 else bindR (map_entries rd rn True kt vt ?m n rdr2) (\<lambda>(complete, rdr3).
      Done (if complete then rdr3\<lparr>curr_key := curr_key ?r1\<rparr> else rdr3)))
      (\<lambda>rdr3. ?G (if rerr rdr3 \<noteq> None then V_Null else V_Map ?m, rdr3))"
    if "raised (rerr rdr2) \<or> (n < 2 ^ 31 \<and> rerr rdr2 = None \<and> rd_ok rdr2 \<and> kept Elsewhere ?r1 rdr2 \<and>
      length (bytes_left rdr2) < length (bytes_left ?r1) \<and> length (bytes_left rdr2) < l - 1 \<and> maps rdr2 = maps ?r1 \<and>
      heap rdr2 = heap ?r1)" for n rdr2
  proof (cases "rerr rdr2 = None")
    case True
    with that have "n < 2 ^ 31" "rd_ok rdr2" "kept Elsewhere ?r1 rdr2" "length (bytes_left rdr2) < length (bytes_left rdr)"
      "length (bytes_left rdr2) < l - 1" "maps rdr2 = maps ?r1" "heap rdr2 = heap rdr" by (simp_all add: raised_def)
    from body [OF this] True show ?thesis by (simp only: simp_thms if_False)
  qed (simp add: good_def raised_def)
  note rest = this
  have into: "ends (pgf_read_into_map F rd rn type ?m ?r1) (\<lambda>rdr3. ?G (if rerr rdr3 \<noteq> None then V_Null else V_Map ?m, rdr3))"
    unfolding pgf_read_into_map_def assms(1) option.case type_desc.case ends_bindR [of "pgf_read_len F ?r1"]
  proof (rule ends_mono [OF len])
    fix x :: "nat \<times> 's PgfReader"
    assume x: "case x of (n, rdr1) \<Rightarrow> raised (rerr rdr1) \<or>
      (n < 2 ^ 31 \<and> rerr rdr1 = None \<and> rd_ok rdr1 \<and> kept Elsewhere ?r1 rdr1 \<and> length (bytes_left rdr1) < length (bytes_left ?r1) \<and>
        length (bytes_left rdr1) < l - 1 \<and> maps rdr1 = maps ?r1 \<and> heap rdr1 = heap ?r1)"
    obtain n rdr2 where n: "x = (n, rdr2)" by (cases x)
    show "ends (case x of (len, rdr1) \<Rightarrow> if rerr rdr1 \<noteq> None then Done rdr1
        else bindR (map_entries rd rn True kt vt ?m len rdr1) (\<lambda>(complete, rdr2).
          Done (if complete then rdr2\<lparr>curr_key := curr_key ?r1\<rparr> else rdr2)))
        (\<lambda>rdr3. ?G (if rerr rdr3 \<noteq> None then V_Null else V_Map ?m, rdr3))"
      unfolding n prod.case by (rule rest [OF x [unfolded n prod.case]])
  qed
  show "ends (pgf_read_new_GuMap F rd rn type rdr) ?G"
    unfolding pgf_read_new_GuMap_def new_map_def prod.case ends_bindR ends.simps by (rule into)
qed

subsection \<open>All types\<close>

lemma safe_fits:
  assumes E: "efuns E = F" and s: "subtasks_to key fn type = Some (c, us)"
    and rd: "\<And>b u to'. (b, Read_To u) \<in> set us \<Longrightarrow> safe (rd u to') b to' (if c then l - 1 else l) (ok b u)"
    and rn: "\<And>b u to'. (b, Read_New u) \<in> set us \<Longrightarrow> safe (rn u) b to' (if c then l - 1 else l) (new b u)"
  shows "safe (run_read_to E rd rn fn type to) key to l (fits key ok new fn type)"
proof -
  note simps = run_read_to_simps E fits_def seq_fits_def
  note splits = option.splits type_desc.splits
  note s = s [unfolded subtasks_to_def]
  show ?thesis
  proof (cases fn)
    case R_struct
    with s obtain ms where ms: "describe type = Some (D_Struct ms)" "c = False" "us = map (\<lambda>m. (key, Read_To m)) ms"
      by (auto split: splits)
    then have sub: "\<forall>m \<in> set ms. \<forall>to. safe (rd m to) key to l (ok key m)" using rd by auto
    show ?thesis unfolding R_struct run_read_to_simps E by (rule safe_mono [OF safe_struct [OF ms(1) sub]]) (auto simp: simps ms(1))
  next
    case R_GuVariant
    with s obtain cs where cs: "describe type = Some (D_Variant cs)" "c = True" "us = map (\<lambda>c. (key, Read_To c)) cs"
      by (auto split: splits)
    then have sub: "\<And>i. i < length cs \<Longrightarrow> safe (rd (cs ! i) Elsewhere) key Elsewhere (l - 1) (ok key (cs ! i))"
      using rd by auto
    show ?thesis unfolding R_GuVariant run_read_to_simps E by (rule safe_mono [OF safe_variant [where rd = rd, OF cs(1) sub]]) (auto simp: simps cs(1))
  next
    case R_pointer
    with s obtain p where p: "describe type = Some (D_Pointer p)" "c = False" "us = [(key, Read_New p)]"
      by (auto split: splits)
    then have sub: "safe (rn p) key to l (new key p)" using rn by auto
    show ?thesis unfolding R_pointer run_read_to_simps E by (rule safe_mono [OF safe_pointer [where rn = rn, OF p(1) sub]]) (auto simp: simps p(1))
  next
    case R_GuSeq
    with s obtain et where et: "describe type = Some (D_Seq et)" "c = True" "us = [(True, Read_To et)]" by (auto split: splits)
    then have sub: "safe (rd et Elsewhere) True Elsewhere (l - 1) (ok True et)" using rd by auto
    show ?thesis unfolding R_GuSeq run_read_to_simps E by (rule safe_mono [OF safe_seq_value [where rd = rd, OF et(1) sub]]) (auto simp: simps et(1))
  next
    case R_maybe_seq
    with s obtain et where et: "describe type = Some (D_Seq et)" "c = True" "us = [(True, Read_To et)]" by (auto split: splits)
    then have sub: "safe (rd et Elsewhere) True Elsewhere (l - 1) (ok True et)" using rd by auto
    show ?thesis unfolding R_maybe_seq run_read_to_simps E by (rule safe_mono [OF safe_maybe_seq [where rd = rd, OF et(1) sub]]) (auto simp: simps et(1))
  next
    case R_alias
    with s obtain u where u: "describe type = Some (D_Alias u)" "c = False" "us = [(key, Read_To u)]" by (auto split: splits)
    then have sub: "safe (rd u to) key to l (ok key u)" using rd by auto
    show ?thesis unfolding R_alias run_read_to_simps E by (rule safe_mono [OF safe_alias [where rd = rd, OF u(1) sub]]) (auto simp: simps u(1))
  next
    case R_enum
    show ?thesis
    proof (cases "\<exists>sz cs. describe type = Some (D_Enum sz cs)")
      case True
      then obtain sz cs where "describe type = Some (D_Enum sz cs)" by blast
      note d = this
      show ?thesis unfolding R_enum run_read_to_simps E by (rule safe_mono [OF safe_enum [OF d]]) (auto simp: simps d)
    next
      case False
      then show ?thesis unfolding R_enum run_read_to_simps
        by (auto simp: safe_def pgf_read_to_enum_def split: option.split type_desc.split)
    qed
  next
    case R_PgfContext
    with s obtain p where "describe type = Some (D_Pointer p)" "p = ty_PgfPGF" by (auto split: splits if_splits)
    then have d: "describe type = Some (D_Pointer ty_PgfPGF)" by simp
    show ?thesis unfolding R_PgfContext run_read_to_simps by (rule safe_mono [OF safe_context [OF d]]) (auto simp: simps d)
  next
    case R_PgfKey
    with s have "key" by (auto split: if_splits)
    then show ?thesis unfolding R_PgfKey run_read_to_simps by (auto simp: simps intro!: safe_mono [OF safe_key])
  next
    case R_void
    show ?thesis unfolding R_void run_read_to_simps E by (rule safe_mono [OF safe_void]) (auto simp: simps )
  next
    case R_int32_t
    show ?thesis unfolding R_int32_t run_read_to_simps E by (rule safe_mono [OF safe_int32_t]) (auto simp: simps int32_def )
  next
    case R_uint16_t
    show ?thesis unfolding R_uint16_t run_read_to_simps E by (rule safe_mono [OF safe_uint16_t]) (auto simp: simps )
  next
    case R_GuLength
    show ?thesis unfolding R_GuLength run_read_to_simps E by (rule safe_mono [OF safe_GuLength]) (auto simp: simps )
  next
    case R_double
    show ?thesis unfolding R_double run_read_to_simps E by (rule safe_mono [OF safe_double]) (auto simp: simps )
  next
    case R_GuString
    show ?thesis unfolding R_GuString run_read_to_simps E by (rule safe_mono [OF safe_GuString]) (auto simp: simps )
  next
    case R_PgfCId
    show ?thesis unfolding R_PgfCId run_read_to_simps E by (rule safe_mono [OF safe_PgfCId]) (auto simp: simps )
  qed (use s in auto)
qed

lemma safe_fits_new:
  assumes E: "efuns E = F" and s: "subtasks_new key fn type = Some (c, us)"
    and rd: "\<And>b u to'. (b, Read_To u) \<in> set us \<Longrightarrow> safe (rd u to') b to' (if c then l - 1 else l) (ok b u)"
    and str: "\<And>t. ok False ty_GuString t \<Longrightarrow> \<exists>us. t = T_Str us"
  shows "safe (run_read_new E n rd rn fn type) key to l (fits_new key ok fn type)"
proof -
  note s = s [unfolded subtasks_new_def]
  show ?thesis
  proof (cases fn)
    case N_type
    with s have "c = False" "us = [(key, Read_To type)]" by auto
    then have sub: "\<forall>to. safe (rd type to) key to l (ok key type)" using rd by auto
    show ?thesis unfolding N_type run_read_new_simps
      by (rule safe_mono [OF safe_new [where rd = rd, OF sub]]) (auto simp: fits_new_def)
  next
    case N_GuMap
    with s obtain vt where m: "describe type = Some (D_Map True ty_GuString vt)" "c = True"
      "us = [(False, Read_To ty_GuString), (True, Read_To vt)]" by (auto split: option.splits type_desc.splits if_splits)
    have "safe (rd ty_GuString Elsewhere) False Elsewhere (l - 1) (ok False ty_GuString)" using rd m by auto
    then have k: "safe (rd ty_GuString Elsewhere) False Elsewhere (l - 1) (\<lambda>t. \<exists>us. t = T_Str us \<and> ok False ty_GuString (T_Str us))"
      by (rule safe_mono) (use str in fastforce)
    have v: "safe (rd vt Elsewhere) True Elsewhere (l - 1) (ok True vt)" using rd m by auto
    show ?thesis unfolding N_GuMap run_read_new_simps E
      by (rule safe_mono [OF safe_map [where rd = rd, OF m(1) k v]]) (auto simp: fits_new_def m(1))
  qed (use s in auto)
qed

lemma tree_ok_GuString: "tree_ok n key ty_GuString t \<Longrightarrow> \<exists>us. t = T_Str us"
  by (cases n) (auto simp: read_to_types fits_def simp del: gu_type_map_get.simps split: tree.splits)

lemma plain_sub: "plain (Suc n) key u \<Longrightarrow> subtasks key u = Some (c, us) \<Longrightarrow> (b, v) \<in> set us \<Longrightarrow> plain n b v"
  by (auto simp: list_all_iff)

lemma rank_sub: "rank_le (Suc k) key u \<Longrightarrow> subtasks key u = Some (False, us) \<Longrightarrow> (b, v) \<in> set us \<Longrightarrow> rank_le k b v"
  by (auto simp: list_all_iff)

lemma plain_rank: "plain n b v \<Longrightarrow> n \<noteq> 0 \<Longrightarrow> rank_le FUEL_STEP b v"
  by (cases n) auto

text \<open>The fuel for a task that reads from fewer than \<open>l\<close> bytes, where \<open>k\<close> tasks can be nested before a byte is read.\<close>

lemma safe_task:
  assumes "efuns E = F"
  shows "(plain n key (Read_To type) \<longrightarrow> rank_le k key (Read_To type) \<longrightarrow> (l - 1) * FUEL_STEP + k \<le> n \<longrightarrow>
      safe (pgf_read_to E n type to) key to l (tree_ok n key type)) \<and>
    (plain n key (Read_New type) \<longrightarrow> rank_le k key (Read_New type) \<longrightarrow> (l - 1) * FUEL_STEP + k \<le> n \<longrightarrow>
      safe (pgf_read_new E n type) key to l (new_ok n key type))"
proof (induction n arbitrary: key type k l to)
  case 0
  then show ?case by (cases k) auto
next
  case (Suc n)
  have sub: "(\<forall>u. v = Read_To u \<longrightarrow> (\<forall>to'. safe (pgf_read_to E n u to') b to' (if c then l - 1 else l) (tree_ok n b u))) \<and>
      (\<forall>u. v = Read_New u \<longrightarrow> (\<forall>to'. safe (pgf_read_new E n u) b to' (if c then l - 1 else l) (new_ok n b u)))"
    if p: "plain (Suc n) key u" and r: "rank_le k key u" and k: "(l - 1) * FUEL_STEP + k \<le> Suc n"
      and s: "subtasks key u = Some (c, us)" and v: "(b, v) \<in> set us" for u c us b v
  proof -
    obtain k' where k': "k = Suc k'" using r by (cases k) auto
    have p': "plain n b v" by (rule plain_sub [OF p s v])
    show ?thesis
    proof (cases c)
      case False
      then have "rank_le k' b v" using rank_sub [OF r [unfolded k'] _ v] s by simp
      with p' k k' False Suc.IH [of b _ k' l] show ?thesis by auto
    next
      case True
      show ?thesis
      proof (cases "l - 1")
        case 0
        then show ?thesis using True by (simp add: safe_def)
      next
        case (Suc m)
        with k k' have n: "(l - 1 - 1) * FUEL_STEP + FUEL_STEP \<le> n" by simp
        then have "n \<noteq> 0" by (simp add: FUEL_STEP_def)
        with plain_rank [OF p'] have "rank_le FUEL_STEP b v" by simp
        with p' n True Suc.IH [of b _ FUEL_STEP "l - 1"] show ?thesis by auto
      qed
    qed
  qed
  have to: "safe (pgf_read_to E (Suc n) type to) key to l (tree_ok (Suc n) key type)"
    if p: "plain (Suc n) key (Read_To type)" and r: "rank_le k key (Read_To type)" and k: "(l - 1) * FUEL_STEP + k \<le> Suc n"
  proof (cases "gu_type_map_get (gu_new_type_map pgf_read_to_table) type")
    case (Some fn)
    with p obtain c us where s: "subtasks_to key fn type = Some (c, us)" by (auto split: option.splits)
    then have s': "subtasks key (Read_To type) = Some (c, us)" using Some by simp
    have "safe (run_read_to E (pgf_read_to E n) (pgf_read_new E n) fn type to) key to l (fits key (tree_ok n) (new_ok n) fn type)"
      by (rule safe_fits [OF assms s]) (use sub [OF p r k s'] in blast)+
    moreover have "tree_ok (Suc n) key type = fits key (tree_ok n) (new_ok n) fn type" using Some by (simp add: fun_eq_iff)
    ultimately show ?thesis using Some by (simp add: safe_def)
  qed (simp add: safe_def)
  have new: "safe (pgf_read_new E (Suc n) type) key to l (new_ok (Suc n) key type)"
    if p: "plain (Suc n) key (Read_New type)" and r: "rank_le k key (Read_New type)" and k: "(l - 1) * FUEL_STEP + k \<le> Suc n"
  proof (cases "gu_type_map_get (gu_new_type_map pgf_read_new_table) type")
    case (Some fn)
    with p obtain c us where s: "subtasks_new key fn type = Some (c, us)" by (auto split: option.splits)
    then have s': "subtasks key (Read_New type) = Some (c, us)" using Some by simp
    have "safe (run_read_new E n (pgf_read_to E n) (pgf_read_new E n) fn type) key to l (fits_new key (tree_ok n) fn type)"
      by (rule safe_fits_new [OF assms s]) (use sub [OF p r k s'] tree_ok_GuString in blast)+
    moreover have "new_ok (Suc n) key type = fits_new key (tree_ok n) fn type" using Some by (simp add: fun_eq_iff)
    ultimately show ?thesis using Some by (simp add: safe_def)
  qed (simp add: safe_def)
  from to new show ?case by blast
qed

end

end
