(* ===== verification/ReadTotal.thy ===== *)
theory ReadTotal
  imports ReadSafe
begin

text \<open>
  The reader on arbitrary input: the types whose readers are plain in the sense of \<open>ReadSafe\<close>, the theorem that reading them is total and
  type-safe, and the integers, which have no reader.
\<close>

subsection \<open>The types of abstract syntaxes\<close>

text \<open>All types of abstract syntaxes, expressions, types, patterns, flags, sequences of symbols and print names, with the types that they are made of. A category needs the
  key under which it is in the map of the categories.\<close>

lemma subtasks_types:
  "subtasks key (Read_To (ty_struct ''PgfAbstr'')) = Some (False, [(key, Read_To ty_PgfCId), (key, Read_To (ty_ptr ''PgfFlagsP'')),
     (key, Read_To (ty_ptr ''PgfCIdMap(PgfFunDecl*)*'')), (key, Read_To (ty_ptr ''PgfCIdMap(PgfCat*)*''))])"
  "subtasks key (Read_To (ty_seq ''PgfSequence'')) = Some (True, [(True, Read_To (ty_variant ''PgfSymbol''))])"
  "subtasks key (Read_To ty_PgfCId) = Some (True, [])"
  "subtasks key (Read_To (ty_ptr ''PgfFlagsP'')) = Some (False, [(key, Read_New ty_PgfFlags)])"
  "subtasks key (Read_To (ty_ptr ''PgfCIdMap(PgfFunDecl*)*'')) = Some (False, [(key, Read_New (ty_string_map ''PgfCIdMap(PgfFunDecl*)''))])"
  "subtasks key (Read_To (ty_ptr ''PgfCIdMap(PgfCat*)*'')) = Some (False, [(key, Read_New (ty_string_map ''PgfCIdMap(PgfCat*)''))])"
  "subtasks key (Read_To (ty_variant ''PgfSymbol'')) = Some (True, [(key, Read_To (ty_struct ''PgfSymbolIdx'')),
     (key, Read_To (ty_struct ''PgfSymbolIdx'')), (key, Read_To (ty_struct ''PgfSymbolIdx'')), (key, Read_To (ty_struct ''PgfSymbolKS'')),
     (key, Read_To (ty_struct ''PgfSymbolKP''))])"
  "subtasks key (Read_New ty_PgfFlags) = Some (True, [(False, Read_To ty_GuString), (True, Read_To (ty_variant ''PgfLiteral''))])"
  "subtasks key (Read_New (ty_string_map ''PgfCIdMap(PgfFunDecl*)'')) = Some (True, [(False, Read_To ty_GuString),
     (True, Read_To (ty_ptr ''PgfFunDecl*''))])"
  "subtasks key (Read_New (ty_string_map ''PgfCIdMap(PgfCat*)'')) = Some (True, [(False, Read_To ty_GuString), (True, Read_To (ty_ptr ''PgfCat*''))])"
  "subtasks key (Read_To (ty_struct ''PgfSymbolIdx'')) = Some (False, [(key, Read_To ty_int32_t), (key, Read_To ty_int32_t)])"
  "subtasks key (Read_To (ty_struct ''PgfSymbolKS'')) = Some (False, [(key, Read_To (ty_seq ''PgfTokens''))])"
  "subtasks key (Read_To (ty_struct ''PgfSymbolKP'')) = Some (False, [(key, Read_To (ty_seq ''PgfTokens'')),
     (key, Read_To (ty_seq ''PgfAlternatives''))])"
  "subtasks key (Read_To ty_GuString) = Some (True, [])"
  "subtasks key (Read_To (ty_variant ''PgfLiteral'')) = Some (True, [(key, Read_To (ty_struct ''PgfLiteralStr'')),
     (key, Read_To (ty_struct ''PgfLiteralInt'')), (key, Read_To (ty_struct ''PgfLiteralFlt''))])"
  "subtasks key (Read_To (ty_ptr ''PgfFunDecl*'')) = Some (False, [(key, Read_New (ty_struct ''PgfFunDecl''))])"
  "subtasks True (Read_To (ty_ptr ''PgfCat*'')) = Some (False, [(True, Read_New ty_PgfCat)])"
  "subtasks key (Read_To ty_int32_t) = Some (True, [])"
  "subtasks key (Read_To (ty_seq ''PgfTokens'')) = Some (True, [(True, Read_To ty_GuString)])"
  "subtasks key (Read_To (ty_seq ''PgfAlternatives'')) = Some (True, [(True, Read_To (ty_struct ''PgfAlternative''))])"
  "subtasks key (Read_To (ty_struct ''PgfLiteralStr'')) = Some (False, [(key, Read_To ty_GuString)])"
  "subtasks key (Read_To (ty_struct ''PgfLiteralInt'')) = Some (False, [(key, Read_To ty_int)])"
  "subtasks key (Read_To (ty_struct ''PgfLiteralFlt'')) = Some (False, [(key, Read_To ty_double)])"
  "subtasks key (Read_New (ty_struct ''PgfFunDecl'')) = Some (False, [(key, Read_To (ty_struct ''PgfFunDecl''))])"
  "subtasks True (Read_New ty_PgfCat) = Some (False, [(True, Read_To ty_PgfCat)])"
  "subtasks key (Read_To (ty_struct ''PgfAlternative'')) = Some (False, [(key, Read_To (ty_seq ''PgfTokens'')), (key, Read_To ty_GuStrings)])"
  "subtasks key (Read_To ty_int) = Some (True, [])"
  "subtasks key (Read_To ty_double) = Some (True, [])"
  "subtasks key (Read_To (ty_struct ''PgfFunDecl'')) = Some (False, [(key, Read_To (ty_ptr ''PgfType*'')), (key, Read_To ty_int32_t),
     (key, Read_To ty_PgfEquationsM), (key, Read_To ty_double)])"
  "subtasks True (Read_To ty_PgfCat) = Some (False, [(True, Read_To ty_PgfPGFCtx), (True, Read_To ty_PgfCIdKey),
     (True, Read_To (ty_seq ''PgfHypos'')), (True, Read_To (ty_seq ''PgfCatFuns''))])"
  "subtasks key (Read_To ty_GuStrings) = Some (True, [(True, Read_To ty_GuString)])"
  "subtasks key (Read_To (ty_ptr ''PgfType*'')) = Some (False, [(key, Read_New (ty_struct ''PgfType''))])"
  "subtasks key (Read_To ty_PgfEquationsM) = Some (True, [(True, Read_To (ty_struct ''PgfEquation''))])"
  "subtasks key (Read_To ty_PgfPGFCtx) = Some (True, [])"
  "subtasks True (Read_To ty_PgfCIdKey) = Some (True, [])"
  "subtasks key (Read_To (ty_seq ''PgfHypos'')) = Some (True, [(True, Read_To (ty_struct ''PgfHypo''))])"
  "subtasks key (Read_To (ty_seq ''PgfCatFuns'')) = Some (True, [(True, Read_To (ty_struct ''PgfCatFun''))])"
  "subtasks key (Read_New (ty_struct ''PgfType'')) = Some (False, [(key, Read_To (ty_struct ''PgfType''))])"
  "subtasks key (Read_To (ty_struct ''PgfEquation'')) = Some (False, [(key, Read_To (ty_seq ''PgfPatts'')), (key, Read_To (ty_variant ''PgfExpr''))])"
  "subtasks key (Read_To (ty_struct ''PgfHypo'')) = Some (False, [(key, Read_To ty_PgfBindType), (key, Read_To ty_PgfCId),
     (key, Read_To (ty_ptr ''PgfType*''))])"
  "subtasks key (Read_To (ty_struct ''PgfCatFun'')) = Some (False, [(key, Read_To ty_double), (key, Read_To ty_PgfCId)])"
  "subtasks key (Read_To (ty_struct ''PgfType'')) = Some (False, [(key, Read_To (ty_seq ''PgfHypos'')), (key, Read_To ty_PgfCId),
     (key, Read_To (ty_seq ''PgfExprs''))])"
  "subtasks key (Read_To (ty_seq ''PgfPatts'')) = Some (True, [(True, Read_To (ty_variant ''PgfPatt''))])"
  "subtasks key (Read_To (ty_variant ''PgfExpr'')) = Some (True, [(key, Read_To (ty_struct ''PgfExprAbs'')),
     (key, Read_To (ty_struct ''PgfExprApp'')), (key, Read_To (ty_struct ''PgfExprLit'')), (key, Read_To (ty_struct ''PgfExprMeta'')),
     (key, Read_To (ty_struct ''PgfExprFun'')), (key, Read_To (ty_struct ''PgfExprVar'')), (key, Read_To (ty_struct ''PgfExprTyped'')),
     (key, Read_To (ty_struct ''PgfExprImplArg''))])"
  "subtasks key (Read_To ty_PgfBindType) = Some (True, [])"
  "subtasks key (Read_To (ty_seq ''PgfExprs'')) = Some (True, [(True, Read_To (ty_variant ''PgfExpr''))])"
  "subtasks key (Read_To (ty_variant ''PgfPatt'')) = Some (True, [(key, Read_To (ty_struct ''PgfPattApp'')),
     (key, Read_To (ty_struct ''PgfPattVar'')), (key, Read_To (ty_struct ''PgfPattAs'')), (key, Read_To ty_void),
     (key, Read_To (ty_struct ''PgfPattLit'')), (key, Read_To (ty_struct ''PgfPattImplArg'')), (key, Read_To (ty_struct ''PgfPattTilde''))])"
  "subtasks key (Read_To (ty_struct ''PgfExprAbs'')) = Some (False, [(key, Read_To ty_PgfBindType), (key, Read_To ty_PgfCId),
     (key, Read_To (ty_variant ''PgfExpr''))])"
  "subtasks key (Read_To (ty_struct ''PgfExprApp'')) = Some (False, [(key, Read_To (ty_variant ''PgfExpr'')),
     (key, Read_To (ty_variant ''PgfExpr''))])"
  "subtasks key (Read_To (ty_struct ''PgfExprLit'')) = Some (False, [(key, Read_To (ty_variant ''PgfLiteral''))])"
  "subtasks key (Read_To (ty_struct ''PgfExprMeta'')) = Some (False, [(key, Read_To ty_int)])"
  "subtasks key (Read_To (ty_struct ''PgfExprFun'')) = Some (False, [(key, Read_To ty_PgfCId)])"
  "subtasks key (Read_To (ty_struct ''PgfExprVar'')) = Some (False, [(key, Read_To ty_int)])"
  "subtasks key (Read_To (ty_struct ''PgfExprTyped'')) = Some (False, [(key, Read_To (ty_variant ''PgfExpr'')),
     (key, Read_To (ty_ptr ''PgfType*''))])"
  "subtasks key (Read_To (ty_struct ''PgfExprImplArg'')) = Some (False, [(key, Read_To (ty_variant ''PgfExpr''))])"
  "subtasks key (Read_To (ty_struct ''PgfPattApp'')) = Some (False, [(key, Read_To ty_PgfCId), (key, Read_To (ty_seq ''PgfPatts''))])"
  "subtasks key (Read_To (ty_struct ''PgfPattVar'')) = Some (False, [(key, Read_To ty_PgfCId)])"
  "subtasks key (Read_To (ty_struct ''PgfPattAs'')) = Some (False, [(key, Read_To ty_PgfCId), (key, Read_To (ty_variant ''PgfPatt''))])"
  "subtasks key (Read_To ty_void) = Some (True, [])"
  "subtasks key (Read_To (ty_struct ''PgfPattLit'')) = Some (False, [(key, Read_To (ty_variant ''PgfLiteral''))])"
  "subtasks key (Read_To (ty_struct ''PgfPattImplArg'')) = Some (False, [(key, Read_To (ty_variant ''PgfPatt''))])"
  "subtasks key (Read_To (ty_struct ''PgfPattTilde'')) = Some (False, [(key, Read_To (ty_variant ''PgfExpr''))])"
  "subtasks key (Read_New ty_PgfPrintNames) = Some (True, [(False, Read_To ty_GuString), (True, Read_To ty_GuString)])"
  by (simp_all add: subtasks_to_def subtasks_new_def read_to_types read_new_types read_to_int describe_types
      del: describe.simps gu_type_map_get.simps)

lemma rank_le_numeral:
  "rank_le (numeral k) key u =
     (case subtasks key u of None \<Rightarrow> False | Some (c, us) \<Rightarrow> c \<or> list_all (\<lambda>(b, u). rank_le (pred_numeral k) b u) us)"
  by (simp add: numeral_eq_Suc)

lemma rank_types:
  "rank_le FUEL_STEP key (Read_To (ty_struct ''PgfAbstr''))"
  "rank_le FUEL_STEP key (Read_To (ty_seq ''PgfSequence''))"
  "rank_le FUEL_STEP key (Read_To ty_PgfCId)"
  "rank_le FUEL_STEP key (Read_To (ty_ptr ''PgfFlagsP''))"
  "rank_le FUEL_STEP key (Read_To (ty_ptr ''PgfCIdMap(PgfFunDecl*)*''))"
  "rank_le FUEL_STEP key (Read_To (ty_ptr ''PgfCIdMap(PgfCat*)*''))"
  "rank_le FUEL_STEP key (Read_To (ty_variant ''PgfSymbol''))"
  "rank_le FUEL_STEP key (Read_New ty_PgfFlags)"
  "rank_le FUEL_STEP key (Read_New (ty_string_map ''PgfCIdMap(PgfFunDecl*)''))"
  "rank_le FUEL_STEP key (Read_New (ty_string_map ''PgfCIdMap(PgfCat*)''))"
  "rank_le FUEL_STEP key (Read_To (ty_struct ''PgfSymbolIdx''))"
  "rank_le FUEL_STEP key (Read_To (ty_struct ''PgfSymbolKS''))"
  "rank_le FUEL_STEP key (Read_To (ty_struct ''PgfSymbolKP''))"
  "rank_le FUEL_STEP key (Read_To ty_GuString)"
  "rank_le FUEL_STEP key (Read_To (ty_variant ''PgfLiteral''))"
  "rank_le FUEL_STEP key (Read_To (ty_ptr ''PgfFunDecl*''))"
  "rank_le FUEL_STEP True (Read_To (ty_ptr ''PgfCat*''))"
  "rank_le FUEL_STEP key (Read_To ty_int32_t)"
  "rank_le FUEL_STEP key (Read_To (ty_seq ''PgfTokens''))"
  "rank_le FUEL_STEP key (Read_To (ty_seq ''PgfAlternatives''))"
  "rank_le FUEL_STEP key (Read_To (ty_struct ''PgfLiteralStr''))"
  "rank_le FUEL_STEP key (Read_To (ty_struct ''PgfLiteralInt''))"
  "rank_le FUEL_STEP key (Read_To (ty_struct ''PgfLiteralFlt''))"
  "rank_le FUEL_STEP key (Read_New (ty_struct ''PgfFunDecl''))"
  "rank_le FUEL_STEP True (Read_New ty_PgfCat)"
  "rank_le FUEL_STEP key (Read_To (ty_struct ''PgfAlternative''))"
  "rank_le FUEL_STEP key (Read_To ty_int)"
  "rank_le FUEL_STEP key (Read_To ty_double)"
  "rank_le FUEL_STEP key (Read_To (ty_struct ''PgfFunDecl''))"
  "rank_le FUEL_STEP True (Read_To ty_PgfCat)"
  "rank_le FUEL_STEP key (Read_To ty_GuStrings)"
  "rank_le FUEL_STEP key (Read_To (ty_ptr ''PgfType*''))"
  "rank_le FUEL_STEP key (Read_To ty_PgfEquationsM)"
  "rank_le FUEL_STEP key (Read_To ty_PgfPGFCtx)"
  "rank_le FUEL_STEP True (Read_To ty_PgfCIdKey)"
  "rank_le FUEL_STEP key (Read_To (ty_seq ''PgfHypos''))"
  "rank_le FUEL_STEP key (Read_To (ty_seq ''PgfCatFuns''))"
  "rank_le FUEL_STEP key (Read_New (ty_struct ''PgfType''))"
  "rank_le FUEL_STEP key (Read_To (ty_struct ''PgfEquation''))"
  "rank_le FUEL_STEP key (Read_To (ty_struct ''PgfHypo''))"
  "rank_le FUEL_STEP key (Read_To (ty_struct ''PgfCatFun''))"
  "rank_le FUEL_STEP key (Read_To (ty_struct ''PgfType''))"
  "rank_le FUEL_STEP key (Read_To (ty_seq ''PgfPatts''))"
  "rank_le FUEL_STEP key (Read_To (ty_variant ''PgfExpr''))"
  "rank_le FUEL_STEP key (Read_To ty_PgfBindType)"
  "rank_le FUEL_STEP key (Read_To (ty_seq ''PgfExprs''))"
  "rank_le FUEL_STEP key (Read_To (ty_variant ''PgfPatt''))"
  "rank_le FUEL_STEP key (Read_To (ty_struct ''PgfExprAbs''))"
  "rank_le FUEL_STEP key (Read_To (ty_struct ''PgfExprApp''))"
  "rank_le FUEL_STEP key (Read_To (ty_struct ''PgfExprLit''))"
  "rank_le FUEL_STEP key (Read_To (ty_struct ''PgfExprMeta''))"
  "rank_le FUEL_STEP key (Read_To (ty_struct ''PgfExprFun''))"
  "rank_le FUEL_STEP key (Read_To (ty_struct ''PgfExprVar''))"
  "rank_le FUEL_STEP key (Read_To (ty_struct ''PgfExprTyped''))"
  "rank_le FUEL_STEP key (Read_To (ty_struct ''PgfExprImplArg''))"
  "rank_le FUEL_STEP key (Read_To (ty_struct ''PgfPattApp''))"
  "rank_le FUEL_STEP key (Read_To (ty_struct ''PgfPattVar''))"
  "rank_le FUEL_STEP key (Read_To (ty_struct ''PgfPattAs''))"
  "rank_le FUEL_STEP key (Read_To ty_void)"
  "rank_le FUEL_STEP key (Read_To (ty_struct ''PgfPattLit''))"
  "rank_le FUEL_STEP key (Read_To (ty_struct ''PgfPattImplArg''))"
  "rank_le FUEL_STEP key (Read_To (ty_struct ''PgfPattTilde''))"
  "rank_le FUEL_STEP key (Read_New ty_PgfPrintNames)"
  by (simp_all add: FUEL_STEP_def rank_le_numeral subtasks_types del: subtasks.simps)

lemma plain_types:
  "(\<forall>key. plain n key (Read_To (ty_struct ''PgfAbstr''))) \<and>
   (\<forall>key. plain n key (Read_To (ty_seq ''PgfSequence''))) \<and>
   (\<forall>key. plain n key (Read_To ty_PgfCId)) \<and>
   (\<forall>key. plain n key (Read_To (ty_ptr ''PgfFlagsP''))) \<and>
   (\<forall>key. plain n key (Read_To (ty_ptr ''PgfCIdMap(PgfFunDecl*)*''))) \<and>
   (\<forall>key. plain n key (Read_To (ty_ptr ''PgfCIdMap(PgfCat*)*''))) \<and>
   (\<forall>key. plain n key (Read_To (ty_variant ''PgfSymbol''))) \<and>
   (\<forall>key. plain n key (Read_New ty_PgfFlags)) \<and>
   (\<forall>key. plain n key (Read_New (ty_string_map ''PgfCIdMap(PgfFunDecl*)''))) \<and>
   (\<forall>key. plain n key (Read_New (ty_string_map ''PgfCIdMap(PgfCat*)''))) \<and>
   (\<forall>key. plain n key (Read_To (ty_struct ''PgfSymbolIdx''))) \<and>
   (\<forall>key. plain n key (Read_To (ty_struct ''PgfSymbolKS''))) \<and>
   (\<forall>key. plain n key (Read_To (ty_struct ''PgfSymbolKP''))) \<and>
   (\<forall>key. plain n key (Read_To ty_GuString)) \<and>
   (\<forall>key. plain n key (Read_To (ty_variant ''PgfLiteral''))) \<and>
   (\<forall>key. plain n key (Read_To (ty_ptr ''PgfFunDecl*''))) \<and>
   plain n True (Read_To (ty_ptr ''PgfCat*'')) \<and>
   (\<forall>key. plain n key (Read_To ty_int32_t)) \<and>
   (\<forall>key. plain n key (Read_To (ty_seq ''PgfTokens''))) \<and>
   (\<forall>key. plain n key (Read_To (ty_seq ''PgfAlternatives''))) \<and>
   (\<forall>key. plain n key (Read_To (ty_struct ''PgfLiteralStr''))) \<and>
   (\<forall>key. plain n key (Read_To (ty_struct ''PgfLiteralInt''))) \<and>
   (\<forall>key. plain n key (Read_To (ty_struct ''PgfLiteralFlt''))) \<and>
   (\<forall>key. plain n key (Read_New (ty_struct ''PgfFunDecl''))) \<and>
   plain n True (Read_New ty_PgfCat) \<and>
   (\<forall>key. plain n key (Read_To (ty_struct ''PgfAlternative''))) \<and>
   (\<forall>key. plain n key (Read_To ty_int)) \<and>
   (\<forall>key. plain n key (Read_To ty_double)) \<and>
   (\<forall>key. plain n key (Read_To (ty_struct ''PgfFunDecl''))) \<and>
   plain n True (Read_To ty_PgfCat) \<and>
   (\<forall>key. plain n key (Read_To ty_GuStrings)) \<and>
   (\<forall>key. plain n key (Read_To (ty_ptr ''PgfType*''))) \<and>
   (\<forall>key. plain n key (Read_To ty_PgfEquationsM)) \<and>
   (\<forall>key. plain n key (Read_To ty_PgfPGFCtx)) \<and>
   plain n True (Read_To ty_PgfCIdKey) \<and>
   (\<forall>key. plain n key (Read_To (ty_seq ''PgfHypos''))) \<and>
   (\<forall>key. plain n key (Read_To (ty_seq ''PgfCatFuns''))) \<and>
   (\<forall>key. plain n key (Read_New (ty_struct ''PgfType''))) \<and>
   (\<forall>key. plain n key (Read_To (ty_struct ''PgfEquation''))) \<and>
   (\<forall>key. plain n key (Read_To (ty_struct ''PgfHypo''))) \<and>
   (\<forall>key. plain n key (Read_To (ty_struct ''PgfCatFun''))) \<and>
   (\<forall>key. plain n key (Read_To (ty_struct ''PgfType''))) \<and>
   (\<forall>key. plain n key (Read_To (ty_seq ''PgfPatts''))) \<and>
   (\<forall>key. plain n key (Read_To (ty_variant ''PgfExpr''))) \<and>
   (\<forall>key. plain n key (Read_To ty_PgfBindType)) \<and>
   (\<forall>key. plain n key (Read_To (ty_seq ''PgfExprs''))) \<and>
   (\<forall>key. plain n key (Read_To (ty_variant ''PgfPatt''))) \<and>
   (\<forall>key. plain n key (Read_To (ty_struct ''PgfExprAbs''))) \<and>
   (\<forall>key. plain n key (Read_To (ty_struct ''PgfExprApp''))) \<and>
   (\<forall>key. plain n key (Read_To (ty_struct ''PgfExprLit''))) \<and>
   (\<forall>key. plain n key (Read_To (ty_struct ''PgfExprMeta''))) \<and>
   (\<forall>key. plain n key (Read_To (ty_struct ''PgfExprFun''))) \<and>
   (\<forall>key. plain n key (Read_To (ty_struct ''PgfExprVar''))) \<and>
   (\<forall>key. plain n key (Read_To (ty_struct ''PgfExprTyped''))) \<and>
   (\<forall>key. plain n key (Read_To (ty_struct ''PgfExprImplArg''))) \<and>
   (\<forall>key. plain n key (Read_To (ty_struct ''PgfPattApp''))) \<and>
   (\<forall>key. plain n key (Read_To (ty_struct ''PgfPattVar''))) \<and>
   (\<forall>key. plain n key (Read_To (ty_struct ''PgfPattAs''))) \<and>
   (\<forall>key. plain n key (Read_To ty_void)) \<and>
   (\<forall>key. plain n key (Read_To (ty_struct ''PgfPattLit''))) \<and>
   (\<forall>key. plain n key (Read_To (ty_struct ''PgfPattImplArg''))) \<and>
   (\<forall>key. plain n key (Read_To (ty_struct ''PgfPattTilde''))) \<and>
   (\<forall>key. plain n key (Read_New ty_PgfPrintNames))"
  by (induction n) (simp_all add: rank_types subtasks_types del: subtasks.simps)

subsection \<open>Arbitrary input\<close>

text \<open>The types in places without a key.\<close>

definition readable_types :: "GuType list" where
  "readable_types =
     [ty_struct ''PgfAbstr'', ty_struct ''PgfFunDecl'', ty_struct ''PgfEquation'', ty_variant ''PgfExpr'', ty_struct ''PgfType'', ty_seq ''PgfHypos'',
      ty_variant ''PgfPatt'', ty_variant ''PgfLiteral'', ty_seq ''PgfSequence'', ty_variant ''PgfSymbol'', ty_GuString, ty_PgfCId]"

lemma readable_plain: "list_all (\<lambda>ty. plain n False (Read_To ty) \<and> rank_le FUEL_STEP False (Read_To ty)) readable_types"
  by (simp add: readable_types_def plain_types rank_types del: plain.simps rank_le.simps)

text \<open>C5. Reading an abstract syntax, an expression, a type, a pattern or a sequence of symbols is total and type-safe. Whatever the bytes of the input are,
  \<open>pgf_read_to\<close> comes to an end, with 12 units of fuel for each byte of the input and 12 more; and unless the reader crashes or raises an exception,
  the value that it has stored is a value of the type: each struct has its members, each variant has one of its
  constructors with a value of the type of this constructor, numbers are within the bounds of their types, strings are interned, and pointers are to
  objects that have been read in this run.\<close>

theorem reading_is_type_safe:
  assumes "type \<in> set readable_types" and "length bs < 2 ^ 58" and "12 * length bs + 12 \<le> n" and "efuns E = gu_data_in_funs"
  shows "ends (pgf_read_to E n type Elsewhere (pgf_new_reader (gu_data_in bs) None)) (\<lambda>(v, rdr).
    raised (rerr rdr) \<or> (\<exists>t. tree_ok n False type t \<and> rep t rdr (0, 0) V_Uninit v))"
proof -
  have p: "plain n False (Read_To type)" and r: "rank_le FUEL_STEP False (Read_To type)"
    using readable_plain [of n] assms(1) by (simp_all add: list_all_iff del: plain.simps rank_le.simps)
  let ?r = "pgf_new_reader (gu_data_in bs) None :: u8 list PgfReader"
  note ok = new_reader_ok [OF assms(2)]
  have k: "(length bs + 1 - 1) * FUEL_STEP + FUEL_STEP \<le> n" using assms(3) by (simp add: FUEL_STEP_def)
  have "data_reader.safe (pgf_read_to E n type Elsewhere) False Elsewhere (length bs + 1) (tree_ok n False type)"
    using data_reader.safe_task [OF assms(4)] p r k by blast
  moreover have "length (data_reader.bytes_left ?r) < length bs + 1" unfolding ok(2) by simp
  ultimately have "ends (pgf_read_to E n type Elsewhere ?r) (data_reader.good (tree_ok n False type) Elsewhere ?r)"
    using data_reader.safeD [where rdr = ?r] ok(1) by (simp add: to_ok_def)
  from this [unfolded data_reader.good_def] show ?thesis
    by (rule ends_mono) (auto simp: mark_def pgf_new_reader_def)
qed

theorem reading_is_type_safe_witness:
  "ends (pgf_read_to \<lparr>efuns = gu_data_in_funs, eorder = id, ejunk = []\<rparr> 48 (ty_variant ''PgfExpr'') Elsewhere (pgf_new_reader (gu_data_in [4, 1, 65]) None))
     (\<lambda>(v, rdr). raised (rerr rdr) \<or> (\<exists>t. tree_ok 48 False (ty_variant ''PgfExpr'') t \<and> rep t rdr (0, 0) V_Uninit v))"
  by (rule reading_is_type_safe) (simp_all add: readable_types_def)



end
