(* ===== verification/Hash.thy ===== *)
theory Hash
  imports GuStr PgfTypes
begin

text \<open>
  \<open>gu/hash.c\<close>, \<open>gu/generic.c\<close> and the macros of \<open>gu/fun.h\<close> and \<open>gu/hash.h\<close>: hash functions and equality predicates for values of
  arbitrary types, built at run time from the descriptions of the types. A hasher works on an address. The memory is a map from addresses to
  the scalars that are stored there: integers, pointers, the words of strings, and, opened into their parts,
  the words of sequences (length and address of the elements, see \<open>Seq\<close>) and of variants (tag and address of the data, see \<open>Variant\<close>);
  further the bits of floating point numbers, the C strings that a pointer leads to, and maps, as the addresses of their keys and values.
  The offsets of members and the sizes of types, which the C compiler chooses, are a parameter.
\<close>

unbundle bit_operations_syntax

subsection \<open>Memory\<close>

datatype cell =
    C_Int int
  | C_Ptr u64
  | C_Str GuString
  | C_Seq "(u64 \<times> nat) option"
  | C_Variant int u64
  | C_Double u64
  | C_CStr string
  | C_Map "(u64 \<times> u64) list"

record hash_mem =
  cells :: "u64 \<rightharpoonup> cell"
  strs :: str_heap

record layout =
  l_size :: "GuType \<Rightarrow> u64"
  l_offset :: "GuType \<Rightarrow> nat \<Rightarrow> u64"

definition cell_at :: "hash_mem \<Rightarrow> u64 \<Rightarrow> cell run" where
  "cell_at m p =
     (if p = 0 then Fault Null_Deref else case cells m p of None \<Rightarrow> Fault Out_Of_Bounds | Some c \<Rightarrow> Done c)"

definition int_at :: "hash_mem \<Rightarrow> u64 \<Rightarrow> int run" where
  "int_at m p = bindR (cell_at m p) (\<lambda>c. case c of C_Int i \<Rightarrow> Done i | _ \<Rightarrow> Fault Out_Of_Bounds)"

definition ptr_at :: "hash_mem \<Rightarrow> u64 \<Rightarrow> u64 run" where
  "ptr_at m p = bindR (cell_at m p) (\<lambda>c. case c of C_Ptr v \<Rightarrow> Done v | _ \<Rightarrow> Fault Out_Of_Bounds)"

definition str_at :: "hash_mem \<Rightarrow> u64 \<Rightarrow> GuString run" where
  "str_at m p = bindR (cell_at m p) (\<lambda>c. case c of C_Str s \<Rightarrow> Done s | _ \<Rightarrow> Fault Out_Of_Bounds)"

text \<open>The length of the null sequence is read through a null pointer.\<close>

definition array_at :: "hash_mem \<Rightarrow> u64 \<Rightarrow> (u64 \<times> nat) run" where
  "array_at m p = bindR (cell_at m p) (\<lambda>c.
     case c of C_Seq (Some a) \<Rightarrow> Done a | C_Seq None \<Rightarrow> Fault Null_Deref | _ \<Rightarrow> Fault Out_Of_Bounds)"

definition variant_at :: "hash_mem \<Rightarrow> u64 \<Rightarrow> (int \<times> u64) run" where
  "variant_at m p = bindR (cell_at m p) (\<lambda>c. case c of C_Variant t d \<Rightarrow> Done (t, d) | _ \<Rightarrow> Fault Out_Of_Bounds)"

subsection \<open>Hash functions and equality\<close>

type_synonym eq_fn = "hash_mem \<Rightarrow> u64 \<Rightarrow> u64 \<Rightarrow> bool run"
type_synonym hash_fn = "hash_mem \<Rightarrow> u64 \<Rightarrow> u64 \<Rightarrow> u64 run"

text \<open>The bytes of a word in memory, least significant first.\<close>

definition word_bytes :: "u64 \<Rightarrow> u8 list" where
  "word_bytes w = map (\<lambda>i. ucast (drop_bit (8 * i) w)) [0..<8]"

definition gu_hash_word :: "u64 \<Rightarrow> u64 \<Rightarrow> u64" where
  "gu_hash_word h w = gu_hash_bytes h (word_bytes w)"

definition gu_eq :: "eq_fn \<Rightarrow> eq_fn" where
  "gu_eq eq m a b = (if a = b then Done True else eq m a b)"

text \<open>The four integer hashers are instances of one macro.\<close>

definition gu_integer_eq_fn :: eq_fn where
  "gu_integer_eq_fn m p1 p2 = bindR (int_at m p1) (\<lambda>i1. bindR (int_at m p2) (\<lambda>i2. Done (i1 = i2)))"

definition gu_integer_hash_fn :: hash_fn where
  "gu_integer_hash_fn m h p = bindR (int_at m p) (\<lambda>i. Done (gu_hash_word h (word_of_int i)))"

definition gu_addr_eq_fn :: eq_fn where
  "gu_addr_eq_fn m p1 p2 = Done (p1 = p2)"

definition gu_addr_hash_fn :: hash_fn where
  "gu_addr_hash_fn m h p = Done (gu_hash_word h p)"

definition gu_shared_eq_fn :: eq_fn where
  "gu_shared_eq_fn m p1 p2 = bindR (ptr_at m p1) (\<lambda>v1. bindR (ptr_at m p2) (\<lambda>v2. Done (v1 = v2)))"

definition gu_shared_hash_fn :: hash_fn where
  "gu_shared_hash_fn m h p = bindR (ptr_at m p) (\<lambda>v. Done (gu_hash_word h v))"

definition gu_string_eq_fn :: eq_fn where
  "gu_string_eq_fn m p1 p2 = bindR (str_at m p1) (\<lambda>s1. bindR (str_at m p2) (\<lambda>s2. gu_string_eq s1 s2 (strs m)))"

text \<open>The hash so far is not used.\<close>

definition gu_string_hasher_hash :: hash_fn where
  "gu_string_hasher_hash m h p = bindR (str_at m p) (\<lambda>s. gu_string_hash s (strs m))"

fun seq_eq_loop :: "eq_fn \<Rightarrow> u64 \<Rightarrow> hash_mem \<Rightarrow> u64 \<Rightarrow> u64 \<Rightarrow> nat \<Rightarrow> nat \<Rightarrow> bool run" where
  "seq_eq_loop eeq esz m d1 d2 i 0 = Done True"
| "seq_eq_loop eeq esz m d1 d2 i (Suc k) =
     bindR (gu_eq eeq m (d1 + of_nat i * esz) (d2 + of_nat i * esz)) (\<lambda>b.
       if b then seq_eq_loop eeq esz m d1 d2 (Suc i) k else Done False)"

definition gu_seq_eq_fn :: "eq_fn \<Rightarrow> u64 \<Rightarrow> eq_fn" where
  "gu_seq_eq_fn eeq esz m p1 p2 =
     bindR (array_at m p1) (\<lambda>(d1, len). bindR (array_at m p2) (\<lambda>(d2, len2).
       if len2 \<noteq> len then Done False
       else if d1 = d2 then Done True
       else seq_eq_loop eeq esz m d1 d2 0 len))"

fun seq_hash_loop :: "hash_fn \<Rightarrow> u64 \<Rightarrow> hash_mem \<Rightarrow> u64 \<Rightarrow> nat \<Rightarrow> nat \<Rightarrow> u64 \<Rightarrow> u64 run" where
  "seq_hash_loop ehash esz m d i 0 h = Done h"
| "seq_hash_loop ehash esz m d i (Suc k) h =
     bindR (ehash m h (d + of_nat i * esz)) (\<lambda>h. seq_hash_loop ehash esz m d (Suc i) k h)"

definition gu_seq_hash_fn :: "hash_fn \<Rightarrow> u64 \<Rightarrow> hash_fn" where
  "gu_seq_hash_fn ehash esz m h p =
     bindR (array_at m p) (\<lambda>(d, len). seq_hash_loop ehash esz m d 0 len (gu_hash_word h (of_nat len)))"

text \<open>The hashers of the data are indexed by the tag.\<close>

definition data_fn :: "'f list \<Rightarrow> int \<Rightarrow> 'f run" where
  "data_fn fs tag = (if tag < 0 then Fault Out_Of_Bounds else seq_at fs (nat tag))"

definition gu_variant_eq_fn :: "eq_fn list \<Rightarrow> eq_fn" where
  "gu_variant_eq_fn deqs m p1 p2 =
     bindR (variant_at m p1) (\<lambda>(t1, d1). bindR (variant_at m p2) (\<lambda>(t2, d2).
       if t1 \<noteq> t2 then Done False
       else if d1 = d2 then Done True
       else bindR (data_fn deqs t1) (\<lambda>deq. deq m d1 d2)))"

definition gu_variant_hash_fn :: "hash_fn list \<Rightarrow> hash_fn" where
  "gu_variant_hash_fn dhashes m h p =
     bindR (variant_at m p) (\<lambda>(t, d).
       let h = gu_hash_word h (word_of_int t) in
       if d = 0 \<or> t < 0 then Done (NOT h)
       else bindR (data_fn dhashes t) (\<lambda>dhash. dhash m h d))"

fun gu_struct_eq_fn :: "(u64 \<times> eq_fn) list \<Rightarrow> eq_fn" where
  "gu_struct_eq_fn [] m p1 p2 = Done True"
| "gu_struct_eq_fn ((off, eq) # ms) m p1 p2 =
     bindR (eq m (p1 + off) (p2 + off)) (\<lambda>b. if \<not> b then Done False else gu_struct_eq_fn ms m p1 p2)"

fun gu_struct_hash_fn :: "(u64 \<times> hash_fn) list \<Rightarrow> hash_fn" where
  "gu_struct_hash_fn [] m h p = Done h"
| "gu_struct_hash_fn ((off, hash) # ms) m h p = bindR (hash m h (p + off)) (\<lambda>h. gu_struct_hash_fn ms m h p)"

definition gu_ptr_eq_fn :: "eq_fn \<Rightarrow> eq_fn" where
  "gu_ptr_eq_fn veq m p1 p2 =
     bindR (ptr_at m p1) (\<lambda>v1. bindR (ptr_at m p2) (\<lambda>v2.
       if v1 \<noteq> 0 \<and> v2 \<noteq> 0 then gu_eq veq m v1 v2 else Done (v1 = v2)))"

definition gu_ptr_hash_fn :: "hash_fn \<Rightarrow> hash_fn" where
  "gu_ptr_hash_fn vhash m h p = bindR (ptr_at m p) (\<lambda>v. if v \<noteq> 0 then vhash m h v else Done (NOT h))"

subsection \<open>Hashers\<close>

text \<open>A hasher object, with the objects that it refers to.\<close>

datatype GuHasher =
    H_integer
  | H_addr
  | H_shared
  | H_string
  | H_Seq GuHasher u64
  | H_Variant "GuHasher list"
  | H_Struct "(u64 \<times> GuHasher) list"
  | H_Ptr GuHasher

primrec is_equal :: "GuHasher \<Rightarrow> eq_fn" where
  "is_equal H_integer = gu_integer_eq_fn"
| "is_equal H_addr = gu_addr_eq_fn"
| "is_equal H_shared = gu_shared_eq_fn"
| "is_equal H_string = gu_string_eq_fn"
| "is_equal (H_Seq e esz) = gu_seq_eq_fn (is_equal e) esz"
| "is_equal (H_Variant ds) = gu_variant_eq_fn (map is_equal ds)"
| "is_equal (H_Struct ms) = gu_struct_eq_fn (map (map_prod id is_equal) ms)"
| "is_equal (H_Ptr v) = gu_ptr_eq_fn (is_equal v)"

primrec hash_of :: "GuHasher \<Rightarrow> hash_fn" where
  "hash_of H_integer = gu_integer_hash_fn"
| "hash_of H_addr = gu_addr_hash_fn"
| "hash_of H_shared = gu_shared_hash_fn"
| "hash_of H_string = gu_string_hasher_hash"
| "hash_of (H_Seq e esz) = gu_seq_hash_fn (hash_of e) esz"
| "hash_of (H_Variant ds) = gu_variant_hash_fn (map hash_of ds)"
| "hash_of (H_Struct ms) = gu_struct_hash_fn (map (map_prod id hash_of) ms)"
| "hash_of (H_Ptr v) = gu_ptr_hash_fn (hash_of v)"

definition gu_hasher_hash :: "GuHasher \<Rightarrow> hash_mem \<Rightarrow> u64 \<Rightarrow> u64 run" where
  "gu_hasher_hash hasher m p = hash_of hasher m 0 p"

subsection \<open>Specialisation\<close>

text \<open>A generic function is a type map whose values make the instance for a type; \<open>GU_CONST_INSTANCE\<close> gives a fixed one.\<close>

datatype GuInstance = I_const GuHasher | I_struct | I_variant | I_ptr | I_seq

definition ty_uint8_t :: GuType where "ty_uint8_t = GuKind ''uint8_t'' kind_unsigned"
definition ty_GuWord :: GuType where "ty_GuWord = GuKind ''GuWord'' kind_unsigned"

definition gu_hasher_instances :: "GuInstance GuTypeTable" where
  "gu_hasher_instances = GuTypeTable []
     [(ty_int32_t, I_const H_integer), (ty_uint16_t, I_const H_integer), (ty_uint8_t, I_const H_integer), (ty_GuWord, I_const H_integer),
      (kind_struct, I_struct), (kind_GuVariant, I_variant), (kind_pointer, I_ptr), (kind_shared, I_const H_shared),
      (kind_abstract, I_const H_addr), (kind_GuSeq, I_seq), (ty_GuString, I_const H_string)]"

type_synonym specializer = "GuType \<Rightarrow> GuHasher run"

definition gu_make_seq_hasher :: "(GuType \<Rightarrow> type_desc option) \<Rightarrow> layout \<Rightarrow> specializer \<Rightarrow> specializer" where
  "gu_make_seq_hasher desc lay gen type =
     (case desc type of
        Some (D_Seq et) \<Rightarrow> bindR (gen et) (\<lambda>e. Done (H_Seq e (l_size lay et)))
      | _ \<Rightarrow> Fault Out_Of_Bounds)"

fun make_data_hashers :: "specializer \<Rightarrow> GuType list \<Rightarrow> GuHasher list run" where
  "make_data_hashers gen [] = Done []"
| "make_data_hashers gen (c # cs) = bindR (gen c) (\<lambda>d. bindR (make_data_hashers gen cs) (\<lambda>ds. Done (d # ds)))"

definition gu_make_variant_hasher :: "(GuType \<Rightarrow> type_desc option) \<Rightarrow> specializer \<Rightarrow> specializer" where
  "gu_make_variant_hasher desc gen type =
     (case desc type of
        Some (D_Variant ctors) \<Rightarrow> bindR (make_data_hashers gen ctors) (\<lambda>ds. Done (H_Variant ds))
      | _ \<Rightarrow> Fault Out_Of_Bounds)"

fun make_member_hashers :: "layout \<Rightarrow> specializer \<Rightarrow> GuType \<Rightarrow> nat \<Rightarrow> GuType list \<Rightarrow> (u64 \<times> GuHasher) list run" where
  "make_member_hashers lay gen type i [] = Done []"
| "make_member_hashers lay gen type i (m # ms) =
     bindR (gen m) (\<lambda>d. bindR (make_member_hashers lay gen type (Suc i) ms) (\<lambda>ds. Done ((l_offset lay type i, d) # ds)))"

definition gu_make_struct_hasher :: "(GuType \<Rightarrow> type_desc option) \<Rightarrow> layout \<Rightarrow> specializer \<Rightarrow> specializer" where
  "gu_make_struct_hasher desc lay gen type =
     (case desc type of
        Some (D_Struct members) \<Rightarrow> bindR (make_member_hashers lay gen type 0 members) (\<lambda>ms. Done (H_Struct ms))
      | _ \<Rightarrow> Fault Out_Of_Bounds)"

definition gu_make_ptr_hasher :: "(GuType \<Rightarrow> type_desc option) \<Rightarrow> specializer \<Rightarrow> specializer" where
  "gu_make_ptr_hasher desc gen type =
     (case desc type of
        Some (D_Pointer pointed) \<Rightarrow> bindR (gen pointed) (\<lambda>v. Done (H_Ptr v))
      | _ \<Rightarrow> Fault Out_Of_Bounds)"

text \<open>The recursion is over the graph of types, and does not end on a recursive type. A type without an instance is a null pointer.\<close>

fun gu_specialize :: "(GuType \<Rightarrow> type_desc option) \<Rightarrow> layout \<Rightarrow> nat \<Rightarrow> specializer" where
  "gu_specialize desc lay 0 type = Out_Of_Fuel"
| "gu_specialize desc lay (Suc n) type =
     (case gu_type_map_get (gu_new_type_map gu_hasher_instances) type of
        None \<Rightarrow> Fault Null_Deref
      | Some (I_const h) \<Rightarrow> Done h
      | Some I_struct \<Rightarrow> gu_make_struct_hasher desc lay (gu_specialize desc lay n) type
      | Some I_variant \<Rightarrow> gu_make_variant_hasher desc (gu_specialize desc lay n) type
      | Some I_ptr \<Rightarrow> gu_make_ptr_hasher desc (gu_specialize desc lay n) type
      | Some I_seq \<Rightarrow> gu_make_seq_hasher desc lay (gu_specialize desc lay n) type)"

subsection \<open>Contents\<close>

text \<open>What a hasher looks at: the contents of a value, in which pointers that are compared by identity stay addresses.\<close>

datatype view =
    V_Integer int
  | V_Addr u64
  | V_Text "u8 list"
  | V_Array "view list"
  | V_NullVar
  | V_Var int view
  | V_Members "view list"
  | V_NullPtr
  | V_To view

fun view_elems :: "(u64 \<Rightarrow> view run) \<Rightarrow> u64 \<Rightarrow> u64 \<Rightarrow> nat \<Rightarrow> nat \<Rightarrow> view list run" where
  "view_elems f esz d i 0 = Done []"
| "view_elems f esz d i (Suc k) =
     bindR (f (d + of_nat i * esz)) (\<lambda>v. bindR (view_elems f esz d (Suc i) k) (\<lambda>vs. Done (v # vs)))"

fun view_members :: "(u64 \<times> (u64 \<Rightarrow> view run)) list \<Rightarrow> u64 \<Rightarrow> view list run" where
  "view_members [] p = Done []"
| "view_members ((off, f) # ms) p = bindR (f (p + off)) (\<lambda>v. bindR (view_members ms p) (\<lambda>vs. Done (v # vs)))"

text \<open>There is no view of a damaged value: a string that was not made by \<open>gu_utf8_string\<close>, or a variant with a tag and
  no data.\<close>

primrec view_at :: "GuHasher \<Rightarrow> hash_mem \<Rightarrow> u64 \<Rightarrow> view run" where
  "view_at H_integer = (\<lambda>m p. bindR (int_at m p) (\<lambda>i. Done (V_Integer i)))"
| "view_at H_addr = (\<lambda>m p. Done (V_Addr p))"
| "view_at H_shared = (\<lambda>m p. bindR (ptr_at m p) (\<lambda>v. Done (V_Addr v)))"
| "view_at H_string = (\<lambda>m p. bindR (str_at m p) (\<lambda>s. bindR (gu_string_open s (strs m)) (\<lambda>bs.
     if valid_string (strs m) s bs then Done (V_Text bs) else Fault Out_Of_Bounds)))"
| "view_at (H_Seq e esz) = (\<lambda>m p. bindR (array_at m p) (\<lambda>(d, len).
     bindR (view_elems (view_at e m) esz d 0 len) (\<lambda>vs. Done (V_Array vs))))"
| "view_at (H_Variant ds) = (\<lambda>m p. bindR (variant_at m p) (\<lambda>(t, d).
     if t < 0 then (if t = -1 \<and> d = 0 then Done V_NullVar else Fault Out_Of_Bounds)
     else if d = 0 then Fault Out_Of_Bounds
     else bindR (data_fn (map view_at ds) t) (\<lambda>f. bindR (f m d) (\<lambda>v. Done (V_Var t v)))))"
| "view_at (H_Struct ms) = (\<lambda>m p.
     bindR (view_members (map (\<lambda>(off, f). (off, f m)) (map (map_prod id view_at) ms)) p) (\<lambda>vs. Done (V_Members vs)))"
| "view_at (H_Ptr h) = (\<lambda>m p. bindR (ptr_at m p) (\<lambda>v.
     if v = 0 then Done V_NullPtr else bindR (view_at h m v) (\<lambda>w. Done (V_To w))))"

text \<open>The hash of contents.\<close>

primrec hash_view :: "view \<Rightarrow> u64 \<Rightarrow> u64" where
  "hash_view (V_Integer i) = (\<lambda>h. gu_hash_word h (word_of_int i))"
| "hash_view (V_Addr a) = (\<lambda>h. gu_hash_word h a)"
| "hash_view (V_Text bs) = (\<lambda>h. if length bs < 8 then short_word bs else gu_hash_bytes 0 bs)"
| "hash_view (V_Array vs) = (\<lambda>h. foldl (\<lambda>h f. f h) (gu_hash_word h (of_nat (length vs))) (map hash_view vs))"
| "hash_view V_NullVar = (\<lambda>h. NOT (gu_hash_word h (- 1)))"
| "hash_view (V_Var t v) = (\<lambda>h. hash_view v (gu_hash_word h (word_of_int t)))"
| "hash_view (V_Members vs) = (\<lambda>h. foldl (\<lambda>h f. f h) h (map hash_view vs))"
| "hash_view V_NullPtr = (\<lambda>h. NOT h)"
| "hash_view (V_To v) = hash_view v"

text \<open>The contract of a hasher: equality is equality of the contents, and the hash is a function of the contents.\<close>

definition implements :: "hash_mem \<Rightarrow> (u64 \<Rightarrow> view run) \<Rightarrow> eq_fn \<Rightarrow> hash_fn \<Rightarrow> bool" where
  "implements m f eq hash \<longleftrightarrow>
     (\<forall>p q v w. f p = Done v \<longrightarrow> f q = Done w \<longrightarrow> eq m p q = Done (v = w)) \<and>
     (\<forall>p v h. f p = Done v \<longrightarrow> hash m h p = Done (hash_view v h))"

lemma implementsD:
  assumes "implements m f eq hash" and "f p = Done v"
  shows "f q = Done w \<Longrightarrow> eq m p q = Done (v = w)" and "f q = Done w \<Longrightarrow> gu_eq eq m p q = Done (v = w)"
    and "hash m h p = Done (hash_view v h)"
  using assms by (auto simp: implements_def gu_eq_def)

lemma view_elems_spec:
  assumes "implements m f eq hash"
  shows "view_elems f esz d1 i k = Done vs \<Longrightarrow> length vs = k"
    and "view_elems f esz d1 i k = Done vs \<Longrightarrow> view_elems f esz d2 i k = Done ws \<Longrightarrow> seq_eq_loop eq esz m d1 d2 i k = Done (vs = ws)"
    and "view_elems f esz d1 i k = Done vs \<Longrightarrow>
      seq_hash_loop hash esz m d1 i k h = Done (foldl (\<lambda>h f. f h) h (map hash_view vs))"
proof (induction k arbitrary: i vs ws h)
  case (Suc k)
  {
    case 1
    then show ?case using Suc.IH(1) by (auto simp: run_simps)
  next
    case 2
    then show ?case using Suc.IH(2) by (auto simp: run_simps implementsD(2) [OF assms])
  next
    case 3
    then show ?case using Suc.IH(3) by (auto simp: run_simps implementsD(3) [OF assms])
  }
qed auto

definition member_views :: "hash_mem \<Rightarrow> (u64 \<times> GuHasher) list \<Rightarrow> u64 \<Rightarrow> view list run" where
  "member_views m ms = view_members (map (\<lambda>(off, f). (off, f m)) (map (map_prod id view_at) ms))"

lemma member_views_simps [simp]:
  "member_views m [] p = Done []"
  "member_views m ((off, h) # ms) p =
     bindR (view_at h m (p + off)) (\<lambda>v. bindR (member_views m ms p) (\<lambda>vs. Done (v # vs)))"
  by (simp_all add: member_views_def)

definition hasher_ok :: "hash_mem \<Rightarrow> GuHasher \<Rightarrow> bool" where
  "hasher_ok m h \<longleftrightarrow> implements m (view_at h m) (is_equal h) (hash_of h)"

lemma member_views_spec:
  assumes "\<forall>h \<in> snd ` set ms. hasher_ok m h"
  shows "member_views m ms p = Done vs \<Longrightarrow> member_views m ms q = Done ws \<Longrightarrow>
      gu_struct_eq_fn (map (map_prod id is_equal) ms) m p q = Done (vs = ws)"
    and "member_views m ms p = Done vs \<Longrightarrow>
      gu_struct_hash_fn (map (map_prod id hash_of) ms) m x p = Done (foldl (\<lambda>h f. f h) x (map hash_view vs))"
  using assms
proof (induction ms arbitrary: vs ws x)
  case (Cons a ms)
  obtain off h where a: "a = (off, h)" by (cases a)
  {
    case 1
    then have i: "implements m (view_at h m) (is_equal h) (hash_of h)" "\<forall>h \<in> snd ` set ms. hasher_ok m h"
      by (auto simp: a hasher_ok_def)
    obtain v vs' w ws' where v: "view_at h m (p + off) = Done v" "view_at h m (q + off) = Done w" "vs = v # vs'" "ws = w # ws'"
      "member_views m ms p = Done vs'" "member_views m ms q = Done ws'" using 1(1,2) by (auto simp: a run_simps)
    show ?case using implementsD(1) [OF i(1) v(1,2)] Cons.IH(1) [OF v(5,6) i(2)] by (simp add: a v(3,4))
  next
    case 2
    then have i: "implements m (view_at h m) (is_equal h) (hash_of h)" "\<forall>h \<in> snd ` set ms. hasher_ok m h"
      by (auto simp: a hasher_ok_def)
    obtain v vs' where v: "view_at h m (p + off) = Done v" "vs = v # vs'" "member_views m ms p = Done vs'"
      using 2(1) by (auto simp: a run_simps)
    show ?case using implementsD(3) [OF i(1) v(1)] Cons.IH(2) [OF v(3) i(2)] by (simp add: a v(2))
  }
qed auto

lemma variant_cases:
  assumes "view_at (H_Variant ds) m p = Done v"
  obtains (null) "variant_at m p = Done (-1, 0)" and "v = V_NullVar"
    | (data) t d w where "variant_at m p = Done (t, d)" and "0 \<le> t" and "d \<noteq> 0" and "nat t < length ds"
      and "view_at (ds ! nat t) m d = Done w" and "v = V_Var t w"
  using assms by (auto simp: run_simps data_fn_def split: if_splits)

lemma text_cases:
  assumes "view_at H_string m p = Done v"
  obtains s bs where "str_at m p = Done s" and "valid_string (strs m) s bs" and "v = V_Text bs"
  using assms by (auto simp: run_simps split: if_splits)

lemma valid_hash: "valid_string h s bs \<Longrightarrow> gu_string_hash s h = Done (if length bs < 8 then short_word bs else gu_hash_bytes 0 bs)"
  using valid_open [of h s bs] obj_addr_even short_word_parts(1) [of bs]
  by (auto simp: gu_string_hash_def valid_string_def split: if_splits)

lemma variant_ok:
  assumes "\<forall>h \<in> set ds. hasher_ok m h"
  shows "hasher_ok m (H_Variant ds)"
  unfolding hasher_ok_def implements_def
proof (intro conjI allI impI)
  fix p q v w
  assume v: "view_at (H_Variant ds) m p = Done v" and w: "view_at (H_Variant ds) m q = Done w"
  show "is_equal (H_Variant ds) m p q = Done (v = w)"
    using v
  proof (cases rule: variant_cases)
    case null
    from w show ?thesis by (cases rule: variant_cases) (auto simp: null gu_variant_eq_fn_def)
  next
    case (data t d v')
    note p = this
    from w show ?thesis
    proof (cases rule: variant_cases)
      case null
      with p show ?thesis by (auto simp: gu_variant_eq_fn_def)
    next
      case (data t' d' w')
      have "implements m (view_at (ds ! nat t) m) (is_equal (ds ! nat t)) (hash_of (ds ! nat t))"
        using assms p(4) by (simp add: hasher_ok_def)
      from implementsD(1) [OF this p(5)] data p show ?thesis by (auto simp: gu_variant_eq_fn_def data_fn_def)
    qed
  qed
next
  fix p v h
  assume v: "view_at (H_Variant ds) m p = Done v"
  then show "hash_of (H_Variant ds) m h p = Done (hash_view v h)"
  proof (cases rule: variant_cases)
    case null
    then show ?thesis by (simp add: gu_variant_hash_fn_def)
  next
    case (data t d w)
    have "implements m (view_at (ds ! nat t) m) (is_equal (ds ! nat t)) (hash_of (ds ! nat t))"
      using assms data(4) by (simp add: hasher_ok_def)
    from implementsD(3) [OF this data(5)] data show ?thesis by (simp add: gu_variant_hash_fn_def data_fn_def)
  qed
qed

lemma array_cases:
  assumes "view_at (H_Seq e esz) m p = Done v" and "hasher_ok m e"
  obtains d k vs where "array_at m p = Done (d, k)" and "view_elems (view_at e m) esz d 0 k = Done vs" and "v = V_Array vs" and "length vs = k"
proof -
  obtain d k vs where d: "array_at m p = Done (d, k)" "view_elems (view_at e m) esz d 0 k = Done vs" "v = V_Array vs"
    using assms(1) by (auto simp: run_simps)
  moreover have "length vs = k" using view_elems_spec(1) [OF assms(2) [unfolded hasher_ok_def] d(2)] .
  ultimately show thesis by (rule that)
qed

lemma hashers_ok: "hasher_ok m hasher"
proof (induction hasher)
  case H_string
  show ?case
    unfolding hasher_ok_def implements_def
  proof (intro conjI allI impI)
    fix p q v w
    assume v: "view_at H_string m p = Done v" and w: "view_at H_string m q = Done w"
    obtain s bs where "str_at m p = Done s" "valid_string (strs m) s bs" "v = V_Text bs" using text_cases [OF v] .
    moreover obtain t cs where "str_at m q = Done t" "valid_string (strs m) t cs" "w = V_Text cs" using text_cases [OF w] .
    ultimately show "is_equal H_string m p q = Done (v = w)" by (simp add: gu_string_eq_fn_def string_eq_spec)
  next
    fix p v h
    assume "view_at H_string m p = Done v"
    then obtain s bs where "str_at m p = Done s" "valid_string (strs m) s bs" "v = V_Text bs" by (rule text_cases)
    then show "hash_of H_string m h p = Done (hash_view v h)" by (simp add: gu_string_hasher_hash_def valid_hash)
  qed
next
  case (H_Seq e esz)
  then have e: "implements m (view_at e m) (is_equal e) (hash_of e)" by (simp add: hasher_ok_def)
  show ?case
    unfolding hasher_ok_def implements_def
  proof (intro conjI allI impI)
    fix p q v w
    assume v: "view_at (H_Seq e esz) m p = Done v" and w: "view_at (H_Seq e esz) m q = Done w"
    obtain d1 k vs where v: "array_at m p = Done (d1, k)" "view_elems (view_at e m) esz d1 0 k = Done vs" "v = V_Array vs" "length vs = k"
      using array_cases [OF v H_Seq] .
    obtain d2 k' ws where w: "array_at m q = Done (d2, k')" "view_elems (view_at e m) esz d2 0 k' = Done ws" "w = V_Array ws" "length ws = k'"
      using array_cases [OF w H_Seq] .
    show "is_equal (H_Seq e esz) m p q = Done (v = w)"
    proof (cases "k' = k")
      case True
      with w have "view_elems (view_at e m) esz d2 0 k = Done ws" by simp
      moreover from this have "seq_eq_loop (is_equal e) esz m d1 d2 0 k = Done (vs = ws)" by (rule view_elems_spec(2) [OF e v(2)])
      moreover have "vs = ws" if "d1 = d2" using calculation(1) v(2) that by simp
      ultimately show ?thesis using v(1,3) w(1,3) True by (simp add: gu_seq_eq_fn_def)
    next
      case False
      then have "vs \<noteq> ws" using v(4) w(4) by auto
      with False v(1,3) w(1,3) show ?thesis by (simp add: gu_seq_eq_fn_def)
    qed
  next
    fix p v h
    assume v: "view_at (H_Seq e esz) m p = Done v"
    obtain d1 k vs where v: "array_at m p = Done (d1, k)" "view_elems (view_at e m) esz d1 0 k = Done vs" "v = V_Array vs" "length vs = k"
      using array_cases [OF v H_Seq] .
    show "hash_of (H_Seq e esz) m h p = Done (hash_view v h)"
      using v(1,3,4) view_elems_spec(3) [OF e v(2)] by (simp add: gu_seq_hash_fn_def)
  qed
next
  case (H_Variant ds)
  then show ?case by (intro variant_ok) auto
next
  case (H_Struct ms)
  have ok: "\<forall>h \<in> snd ` set ms. hasher_ok m h" using H_Struct by (force simp: snds.simps)
  show ?case
    by (auto simp: hasher_ok_def implements_def run_simps member_views_def [symmetric]
        simp del: map_map intro: member_views_spec [OF ok])
next
  case (H_Ptr h)
  then have i: "implements m (view_at h m) (is_equal h) (hash_of h)" by (simp add: hasher_ok_def)
  have cs: "\<exists>x. ptr_at m p = Done x \<and> (if x = 0 then v = V_NullPtr else \<exists>w. view_at h m x = Done w \<and> v = V_To w)"
    if "view_at (H_Ptr h) m p = Done v" for p v
    using that by (auto simp: run_simps split: if_splits)
  show ?case
    unfolding hasher_ok_def implements_def
  proof (intro conjI allI impI)
    fix p q v w
    assume "view_at (H_Ptr h) m p = Done v" and "view_at (H_Ptr h) m q = Done w"
    with cs obtain x y where x: "ptr_at m p = Done x" "if x = 0 then v = V_NullPtr else \<exists>w. view_at h m x = Done w \<and> v = V_To w"
      and y: "ptr_at m q = Done y" "if y = 0 then w = V_NullPtr else \<exists>u. view_at h m y = Done u \<and> w = V_To u" by meson
    show "is_equal (H_Ptr h) m p q = Done (v = w)"
    proof (cases "x = 0 \<or> y = 0")
      case False
      with x y obtain v' w' where "view_at h m x = Done v'" "view_at h m y = Done w'" "v = V_To v'" "w = V_To w'" by auto
      with False x(1) y(1) implementsD(2) [OF i this(1,2)] show ?thesis by (simp add: gu_ptr_eq_fn_def)
    qed (use x y in \<open>auto simp: gu_ptr_eq_fn_def split: if_splits\<close>)
  next
    fix p v k
    assume "view_at (H_Ptr h) m p = Done v"
    with cs obtain x where x: "ptr_at m p = Done x" "if x = 0 then v = V_NullPtr else \<exists>w. view_at h m x = Done w \<and> v = V_To w" by meson
    then show "hash_of (H_Ptr h) m k p = Done (hash_view v k)"
      by (auto simp: gu_ptr_hash_fn_def implementsD(3) [OF i] split: if_splits)
  qed
qed (auto simp: hasher_ok_def implements_def run_simps gu_integer_eq_fn_def gu_integer_hash_fn_def gu_addr_eq_fn_def
    gu_addr_hash_fn_def gu_shared_eq_fn_def gu_shared_hash_fn_def)

text \<open>C27. Generic hashing is by contents. Whatever hasher was built for a type, two values in memory that have contents of this type
  are equal for the hasher exactly if their contents are the same, where members declared as shared and abstract objects are compared by
  identity; and the hash of a value is a function of its contents. So equality is an equivalence relation, equal keys have the same hash, and a hash table over such
  keys is a table over their contents.\<close>

theorem hashing_by_contents:
  assumes "view_at hasher m p = Done v" and "view_at hasher m q = Done w"
  shows "is_equal hasher m p q = Done (v = w) \<and> gu_hasher_hash hasher m p = Done (hash_view v 0) \<and>
    gu_hasher_hash hasher m q = Done (hash_view w 0)"
proof -
  have i: "implements m (view_at hasher m) (is_equal hasher) (hash_of hasher)" using hashers_ok by (simp add: hasher_ok_def)
  show ?thesis
    by (simp add: gu_hasher_hash_def implementsD(1) [OF i assms] implementsD(3) [OF i assms(1)] implementsD(3) [OF i assms(2)])
qed

text \<open>Two sequences of one string each, at different addresses.\<close>

definition sample_memory :: hash_mem where
  "sample_memory = \<lparr>cells = [8 \<mapsto> C_Seq (Some (64, 1)), 16 \<mapsto> C_Seq (Some (72, 1)),
     64 \<mapsto> C_Str (short_word [97]), 72 \<mapsto> C_Str (short_word [97])], strs = []\<rparr>"

theorem hashing_by_contents_witness:
  "is_equal (H_Seq H_string 8) sample_memory 8 16 = Done True \<and>
   gu_hasher_hash (H_Seq H_string 8) sample_memory 8 = gu_hasher_hash (H_Seq H_string 8) sample_memory 16"
proof -
  have v: "view_at (H_Seq H_string 8) sample_memory 8 = Done (V_Array [V_Text [97]])"
    "view_at (H_Seq H_string 8) sample_memory 16 = Done (V_Array [V_Text [97]])"
    by code_simp+
  show ?thesis using hashing_by_contents [OF v] by simp
qed

end
