(* ===== verification/HashTypes.thy ===== *)
theory HashTypes
  imports Hash TypeTables
begin

text \<open>
  The hashers that \<open>pgf_new_parser\<close> and \<open>pgf_new_lzr\<close> make: for items, for sequences of tokens and for sequences of categories.
\<close>

subsection \<open>The hashers of the parser and the linearizer\<close>

text \<open>The types of \<open>pgf/parser.c\<close>: \<open>conts\<close> points to a set of items, which is an abstract type.\<close>

definition parser_types :: type_table where
  "parser_types =
     [(''PgfItemSet'', D_Prim),
      (''PgfItemSet*'', D_Pointer (GuKind ''PgfItemSet'' kind_abstract)),
      (''PgfItemBase'', D_Struct [ty_ptr ''PgfItemSet*'', ty_PgfCCatId, ty_variant ''PgfProduction'', ty_GuWord]),
      (''PgfItemBase*'', D_Pointer (ty_struct ''PgfItemBase'')),
      (''PgfItem'', D_Struct
         [ty_ptr ''PgfItemBase*'', ty_seq ''PgfPArgs'', ty_variant ''PgfSymbol'', ty_uint16_t, ty_uint8_t, ty_uint8_t]),
      (''PgfItem*'', D_Pointer (ty_struct ''PgfItem''))]"

fun describe_parser :: "GuType \<Rightarrow> type_desc option" where
  "describe_parser GuKindNull = None"
| "describe_parser (GuKind n s) = map_of (parser_types @ type_descs) n"

abbreviation members :: "layout \<Rightarrow> GuType \<Rightarrow> GuHasher list \<Rightarrow> GuHasher" where
  "members lay type hs \<equiv> H_Struct (zip (map (l_offset lay type) [0..<length hs]) hs)"

definition tokens_hasher :: "layout \<Rightarrow> GuHasher" where
  "tokens_hasher lay = H_Seq H_string (l_size lay ty_GuString)"

definition ccat_ids_hasher :: "layout \<Rightarrow> GuHasher" where
  "ccat_ids_hasher lay = H_Seq H_shared (l_size lay ty_PgfCCatId)"

definition pargs_hasher :: "layout \<Rightarrow> GuHasher" where
  "pargs_hasher lay =
     H_Seq (members lay (ty_struct ''PgfPArg'') [ccat_ids_hasher lay, H_shared]) (l_size lay (ty_struct ''PgfPArg''))"

definition symbol_hasher :: "layout \<Rightarrow> GuHasher" where
  "symbol_hasher lay =
     (let idx = members lay (ty_struct ''PgfSymbolIdx'') [H_integer, H_integer];
          alternative = members lay (ty_struct ''PgfAlternative'') [tokens_hasher lay, tokens_hasher lay]
      in H_Variant [idx, idx, idx,
           members lay (ty_struct ''PgfSymbolKS'') [tokens_hasher lay],
           members lay (ty_struct ''PgfSymbolKP'')
             [tokens_hasher lay, H_Seq alternative (l_size lay (ty_struct ''PgfAlternative''))]])"

definition production_hasher :: "layout \<Rightarrow> GuHasher" where
  "production_hasher lay =
     H_Variant [members lay (ty_struct ''PgfProductionApply'') [H_shared, pargs_hasher lay],
                members lay (ty_struct ''PgfProductionCoerce'') [H_shared]]"

definition item_hasher :: "layout \<Rightarrow> GuHasher" where
  "item_hasher lay =
     H_Ptr (members lay (ty_struct ''PgfItem'')
       [H_Ptr (members lay (ty_struct ''PgfItemBase'') [H_Ptr H_addr, H_shared, production_hasher lay, H_integer]),
        pargs_hasher lay, symbol_hasher lay, H_integer, H_integer, H_integer])"

lemmas type_defs = kind_defs prim_type_defs named_type_defs ty_uint8_t_def ty_GuWord_def

lemma hasher_instances:
  "gu_type_map_get (gu_new_type_map gu_hasher_instances) (ty_struct s) = Some I_struct"
  "gu_type_map_get (gu_new_type_map gu_hasher_instances) (ty_variant s) = Some I_variant"
  "s \<noteq> ''shared'' \<Longrightarrow> gu_type_map_get (gu_new_type_map gu_hasher_instances) (ty_ptr s) = Some I_ptr"
  "gu_type_map_get (gu_new_type_map gu_hasher_instances) (ty_shared s) = Some (I_const H_shared)"
  "gu_type_map_get (gu_new_type_map gu_hasher_instances) (ty_seq s) = Some I_seq"
  "gu_type_map_get (gu_new_type_map gu_hasher_instances) (GuKind s kind_abstract) = Some (I_const H_addr)"
  "gu_type_map_get (gu_new_type_map gu_hasher_instances) ty_GuString = Some (I_const H_string)"
  "gu_type_map_get (gu_new_type_map gu_hasher_instances) ty_GuStrings = Some I_seq"
  "gu_type_map_get (gu_new_type_map gu_hasher_instances) ty_int32_t = Some (I_const H_integer)"
  "gu_type_map_get (gu_new_type_map gu_hasher_instances) ty_uint16_t = Some (I_const H_integer)"
  "gu_type_map_get (gu_new_type_map gu_hasher_instances) ty_uint8_t = Some (I_const H_integer)"
  "gu_type_map_get (gu_new_type_map gu_hasher_instances) ty_GuWord = Some (I_const H_integer)"
  "gu_type_map_get (gu_new_type_map gu_hasher_instances) ty_PgfCCatId = Some (I_const H_shared)"
  "gu_type_map_get (gu_new_type_map gu_hasher_instances) ty_PgfFunId = Some (I_const H_shared)"
  "gu_type_map_get (gu_new_type_map gu_hasher_instances) ty_PgfBindType = None"
  by (simp_all add: gu_new_type_map_def gu_hasher_instances_def type_defs)

lemma specialize_numeral:
  "gu_specialize desc lay (numeral k) type = gu_specialize desc lay (Suc (pred_numeral k)) type"
  by (simp only: numeral_eq_Suc)

lemma describe_concrete_types:
  "describe (ty_seq ''PgfCCatIds'') = Some (D_Seq ty_PgfCCatId)"
  "describe (ty_struct ''PgfPArg'') = Some (D_Struct [ty_seq ''PgfCCatIds'', ty_PgfCCatId])"
  "describe (ty_seq ''PgfPArgs'') = Some (D_Seq (ty_struct ''PgfPArg''))"
  "describe (ty_variant ''PgfProduction'') = Some (D_Variant [ty_struct ''PgfProductionApply'', ty_struct ''PgfProductionCoerce''])"
  "describe (ty_struct ''PgfProductionApply'') = Some (D_Struct [ty_PgfFunId, ty_seq ''PgfPArgs''])"
  "describe (ty_struct ''PgfProductionCoerce'') = Some (D_Struct [ty_PgfCCatId])"
  unfolding named_type_defs
  by (rule describe_table, unfold type_tables named_type_defs, (rule list.set_intros(1) | rule list.set_intros(2))+)+

lemma describe_parser_Kind:
  "describe_parser (GuKind n s) = (case map_of parser_types n of Some d \<Rightarrow> Some d | None \<Rightarrow> describe (GuKind n s))"
  by (simp add: map_add_def describe.simps split: option.split)

lemma describe_parser_GuStrings: "describe_parser ty_GuStrings = Some (D_Seq ty_GuString)"
  using describe_types unfolding ty_GuStrings_def by (simp add: describe_parser_Kind parser_types_def del: describe_parser.simps)

lemmas specialize_eval = describe_parser_GuStrings gu_make_seq_hasher_def gu_make_variant_hasher_def gu_make_struct_hasher_def gu_make_ptr_hasher_def
  hasher_instances describe_parser_Kind parser_types_def describe_types describe_concrete_types

text \<open>The hashers that the parser and the linearizer need exist, and compare what they should: specialising the generic hasher for
  pointers to items, for token sequences and for sequences of categories ends without a null pointer, for any layout of the types, and gives the hashers that compare items by the
  addresses of their continuation set, category and function, and by the contents of their production, arguments, symbol and indices.\<close>

theorem parser_hashers:
  "gu_specialize describe_parser lay (n + 10) (ty_ptr ''PgfItem*'') = Done (item_hasher lay) \<and>
   gu_specialize describe_parser lay (n + 10) (ty_seq ''PgfTokens'') = Done (tokens_hasher lay) \<and>
   gu_specialize describe_parser lay (n + 10) (ty_seq ''PgfCCatIds'') = Done (ccat_ids_hasher lay)"
  by (simp_all add: eval_nat_numeral specialize_eval item_hasher_def tokens_hasher_def ccat_ids_hasher_def pargs_hasher_def symbol_hasher_def
      production_hasher_def upt_rec Let_def del: describe.simps gu_type_map_get.simps describe_parser.simps)

text \<open>Not every type has a hasher: an expression contains an enumeration, for which there is no instance.\<close>

lemma expr_hasher_crashes:
  "gu_specialize describe_parser lay (n + 3) (ty_variant ''PgfExpr'') = Fault Null_Deref"
  by (simp add: eval_nat_numeral specialize_eval del: describe.simps gu_type_map_get.simps describe_parser.simps)

end
