(* ===== verification/Yaml.thy ===== *)
theory Yaml
  imports Expr
begin

text \<open>
  \<open>gu/yaml.c\<close>: an emitter of YAML in flow style. The emitter is a state machine: its state tells the text before and after the next
  node, a stack holds the states of the enclosing collections, and flags tell whether the node has begun and whether it has an anchor or
  a tag. The text is the list of code points that are passed to the writer, in order; writers are the subject of \<open>Out\<close> and \<open>TextIO\<close>.
  A scalar is given by its code points.
\<close>

subsection \<open>State\<close>

text \<open>The states with \<open>first_\<close> in their names are in the structure but not used.\<close>

datatype GuYamlState = Y_document | Y_key | Y_value | Y_elem

datatype GuYamlFrameClass = F_mapping | F_sequence

type_synonym utext = "int list"

definition ucs :: "string \<Rightarrow> utext" where
  "ucs s = map of_char s"

fun state_prefix :: "GuYamlState \<Rightarrow> string option" where
  "state_prefix Y_document = Some (''---'' @ [CHR 0x0A])"
| "state_prefix Y_key = Some ''? ''"
| "state_prefix Y_value = Some '': ''"
| "state_prefix Y_elem = None"

fun state_suffix :: "GuYamlState \<Rightarrow> string option" where
  "state_suffix Y_document = Some (CHR 0x0A # ''...'' @ [CHR 0x0A])"
| "state_suffix Y_key = None"
| "state_suffix Y_value = Some '',''"
| "state_suffix Y_elem = Some '',''"

fun state_next :: "GuYamlState \<Rightarrow> GuYamlState" where
  "state_next Y_document = Y_document"
| "state_next Y_key = Y_value"
| "state_next Y_value = Y_key"
| "state_next Y_elem = Y_elem"

fun class_open :: "GuYamlFrameClass \<Rightarrow> string" where
  "class_open F_mapping = ''{''"
| "class_open F_sequence = ''[''"

fun class_close :: "GuYamlFrameClass \<Rightarrow> string" where
  "class_close F_mapping = ''}''"
| "class_close F_sequence = '']''"

fun class_first :: "GuYamlFrameClass \<Rightarrow> GuYamlState" where
  "class_first F_mapping = Y_key"
| "class_first F_sequence = Y_elem"

record GuYamlFrame =
  klass :: GuYamlFrameClass
  next_state :: GuYamlState

record GuYaml =
  ystate :: GuYamlState
  in_node :: bool
  have_anchor :: bool
  have_tag :: bool
  next_anchor :: int
  indenting :: bool
  indent_level :: nat
  indented :: bool
  ystack :: "GuYamlFrame list"
  ytext :: utext

type_synonym GuYamlAnchor = int

definition gu_yaml_null_anchor :: GuYamlAnchor where "gu_yaml_null_anchor = 0"

definition gu_new_yaml :: GuYaml where
  "gu_new_yaml =
     \<lparr>ystate = Y_document, in_node = False, have_anchor = False, have_tag = False, next_anchor = 1, indenting = True,
      indent_level = 0, indented = False, ystack = [], ytext = []\<rparr>"

subsection \<open>Text\<close>

definition write_text :: "utext \<Rightarrow> GuYaml \<Rightarrow> GuYaml" where
  "write_text us y = y\<lparr>ytext := ytext y @ us\<rparr>"

definition gu_yaml_putc :: "char \<Rightarrow> GuYaml \<Rightarrow> GuYaml" where
  "gu_yaml_putc c y = write_text (ucs [c]) y"

definition gu_yaml_puts :: "string \<Rightarrow> GuYaml \<Rightarrow> GuYaml" where
  "gu_yaml_puts s y = write_text (ucs s) y"

fun put_spaces :: "nat \<Rightarrow> GuYaml \<Rightarrow> GuYaml" where
  "put_spaces 0 y = y"
| "put_spaces (Suc n) y = put_spaces n (gu_yaml_putc CHR '' '' y)"

definition gu_yaml_begin_line :: "GuYaml \<Rightarrow> GuYaml" where
  "gu_yaml_begin_line y =
     (if indenting y \<and> \<not> indented y then (put_spaces (indent_level y) y)\<lparr>indented := True\<rparr> else y)"

definition gu_yaml_end_line :: "GuYaml \<Rightarrow> GuYaml" where
  "gu_yaml_end_line y = (if indenting y then gu_yaml_putc CHR 0x0A y else y)\<lparr>indented := False\<rparr>"

definition puts_opt :: "string option \<Rightarrow> GuYaml \<Rightarrow> GuYaml" where
  "puts_opt s y = (case s of None \<Rightarrow> y | Some t \<Rightarrow> gu_yaml_puts t y)"

subsection \<open>Nodes\<close>

definition gu_yaml_begin_node :: "GuYaml \<Rightarrow> GuYaml" where
  "gu_yaml_begin_node y0 =
     (let y = gu_yaml_begin_line y0
      in if \<not> in_node y then (puts_opt (state_prefix (ystate y)) y)\<lparr>in_node := True\<rparr> else y)"

definition gu_yaml_end_node :: "GuYaml \<Rightarrow> GuYaml run" where
  "gu_yaml_end_node y =
     gu_assert (in_node y)
      (Done ((gu_yaml_end_line (puts_opt (state_suffix (ystate y)) y))
         \<lparr>in_node := False, have_anchor := False, have_tag := False, ystate := state_next (ystate y)\<rparr>))"

definition gu_yaml_begin :: "GuYamlFrameClass \<Rightarrow> GuYaml \<Rightarrow> GuYaml" where
  "gu_yaml_begin c y0 =
     (let y = gu_yaml_puts (class_open c) (gu_yaml_begin_node y0);
          y = y\<lparr>ystack := \<lparr>klass = c, next_state = ystate y\<rparr> # ystack y, ystate := class_first c,
                in_node := False, have_anchor := False, have_tag := False\<rparr>;
          y = gu_yaml_end_line y
      in y\<lparr>indent_level := indent_level y + 1\<rparr>)"

definition gu_yaml_begin_mapping :: "GuYaml \<Rightarrow> GuYaml" where
  "gu_yaml_begin_mapping y = gu_yaml_begin F_mapping y"

definition gu_yaml_begin_sequence :: "GuYaml \<Rightarrow> GuYaml" where
  "gu_yaml_begin_sequence y = gu_yaml_begin F_sequence y"

text \<open>Popping a frame off the empty stack violates the precondition of \<open>gu_buf_trim_n\<close>.\<close>

definition gu_yaml_end :: "GuYaml \<Rightarrow> GuYaml run" where
  "gu_yaml_end y0 =
     gu_assert (\<not> in_node y0)
      (let y = gu_yaml_begin_line (y0\<lparr>indent_level := indent_level y0 - 1\<rparr>)
       in case ystack y of
            [] \<Rightarrow> Fault (Abort GU_ASSERT_PRECOND)
          | f # fs \<Rightarrow>
              let y = gu_yaml_puts (class_close (klass f)) (y\<lparr>ystack := fs\<rparr>)
              in gu_yaml_end_node (y\<lparr>ystate := next_state f, in_node := True\<rparr>))"

subsection \<open>Scalars\<close>

text \<open>The table of escapes.\<close>

definition esc :: "int \<Rightarrow> char option" where
  "esc u =
     (if u = 0x00 then Some CHR ''0'' else if u = 0x07 then Some CHR ''a'' else if u = 0x08 then Some CHR ''b''
      else if u = 0x09 then Some CHR ''t'' else if u = 0x0a then Some CHR ''n'' else if u = 0x0b then Some CHR ''v''
      else if u = 0x0c then Some CHR ''f'' else if u = 0x0d then Some CHR ''r'' else if u = 0x1b then Some CHR ''e'' else None)"

definition hex_digit :: "int \<Rightarrow> int" where
  "hex_digit d = (if d < 10 then 48 + d else 87 + d)"

text \<open>\<open>%02x\<close> and \<open>%04x\<close>, for numbers that have no more digits.\<close>

fun hex_digits :: "nat \<Rightarrow> int \<Rightarrow> utext" where
  "hex_digits 0 u = []"
| "hex_digits (Suc n) u = hex_digits n (u div 16) @ [hex_digit (u mod 16)]"

definition scalar_char :: "int \<Rightarrow> utext" where
  "scalar_char u =
     (if u \<ge> 0x20 \<and> u < 0x7f then (if u = 0x22 \<or> u = 0x5c then ucs [CHR 0x5C] else []) @ [u]
      else if u < 0x20 \<and> esc u \<noteq> None then ucs [CHR 0x5C] @ ucs [the (esc u)]
      else if u \<le> 0x9f then ucs [CHR 0x5C, CHR ''x''] @ hex_digits 2 u
      else if (u \<ge> 0xd800 \<and> u \<le> 0xdfff) \<or> (u \<ge> 0xfffe \<and> u \<le> 0xffff) then ucs [CHR 0x5C, CHR ''u''] @ hex_digits 4 u
      else [u])"

fun scalar_loop :: "utext \<Rightarrow> GuYaml \<Rightarrow> GuYaml" where
  "scalar_loop [] y = y"
| "scalar_loop (u # us) y = scalar_loop us (write_text (scalar_char u) y)"

definition gu_yaml_scalar :: "utext \<Rightarrow> GuYaml \<Rightarrow> GuYaml run" where
  "gu_yaml_scalar us y =
     gu_yaml_end_node (gu_yaml_putc CHR 0x22 (scalar_loop us (gu_yaml_putc CHR 0x22 (gu_yaml_begin_node y))))"

subsection \<open>Tags, anchors and comments\<close>

text \<open>The argument is the formatted text of the tag.\<close>

definition gu_yaml_tag :: "string \<Rightarrow> GuYaml \<Rightarrow> GuYaml run" where
  "gu_yaml_tag s y0 =
     (let y = gu_yaml_begin_node y0
      in gu_assert (\<not> have_tag y)
        (Done ((gu_yaml_putc CHR '' '' (gu_yaml_puts s (gu_yaml_putc CHR ''!'' y)))\<lparr>have_tag := True\<rparr>)))"

definition gu_yaml_tag_primary :: "string \<Rightarrow> GuYaml \<Rightarrow> GuYaml run" where
  "gu_yaml_tag_primary tag y = gu_yaml_tag tag y"

definition gu_yaml_tag_secondary :: "string \<Rightarrow> GuYaml \<Rightarrow> GuYaml run" where
  "gu_yaml_tag_secondary tag y = gu_yaml_tag (''!'' @ tag) y"

definition gu_yaml_tag_named :: "string \<Rightarrow> string \<Rightarrow> GuYaml \<Rightarrow> GuYaml run" where
  "gu_yaml_tag_named handle tag y = gu_yaml_tag (handle @ ''!'' @ tag) y"

definition gu_yaml_tag_verbatim :: "string \<Rightarrow> GuYaml \<Rightarrow> GuYaml run" where
  "gu_yaml_tag_verbatim uri y = gu_yaml_tag (''<'' @ uri @ ''>'') y"

definition gu_yaml_tag_non_specific :: "GuYaml \<Rightarrow> GuYaml run" where
  "gu_yaml_tag_non_specific y = gu_yaml_tag [] y"

definition gu_yaml_anchor :: "GuYaml \<Rightarrow> (GuYamlAnchor \<times> GuYaml) run" where
  "gu_yaml_anchor y0 =
     (let y = gu_yaml_begin_node y0
      in gu_assert (\<not> have_anchor y)
        (let anchor = next_anchor y;
             y = y\<lparr>have_anchor := True, next_anchor := next_anchor y + 1\<rparr>
         in Done (anchor, gu_yaml_puts (''&'' @ int_digits anchor @ '' '') y)))"

definition gu_yaml_alias :: "GuYamlAnchor \<Rightarrow> GuYaml \<Rightarrow> GuYaml run" where
  "gu_yaml_alias anchor y0 =
     (let y = gu_yaml_begin_node y0
      in gu_assert (\<not> have_anchor y \<and> \<not> have_tag y)
        (gu_yaml_end_node (gu_yaml_puts (''*'' @ int_digits anchor @ '' '') y)))"

definition gu_yaml_comment :: "utext \<Rightarrow> GuYaml \<Rightarrow> GuYaml" where
  "gu_yaml_comment s y =
     (gu_yaml_puts [CHR 0x0A] (write_text s (gu_yaml_puts ''# '' (gu_yaml_begin_line y))))\<lparr>indented := False\<rparr>"

subsection \<open>Documents\<close>

text \<open>The abstract syntax of a document. The properties of a node are its anchor and its tag.\<close>

type_synonym node_props = "nat option \<times> string option"

datatype ynode =
    Alias nat
  | Scalar node_props utext
  | Mapping node_props yentries
  | Sequence node_props "ynode list"
  and yentries = No_Entries | Entries ynode ynode yentries

text \<open>The calls that emit a node.\<close>

definition emit_props :: "node_props \<Rightarrow> GuYaml \<Rightarrow> GuYaml run" where
  "emit_props p y =
     bindR (if fst p \<noteq> None then bindR (gu_yaml_anchor y) (\<lambda>(a, y). Done y) else Done y) (\<lambda>y.
       case snd p of None \<Rightarrow> Done y | Some t \<Rightarrow> gu_yaml_tag t y)"

fun emit :: "ynode \<Rightarrow> GuYaml \<Rightarrow> GuYaml run"
  and emit_entries :: "yentries \<Rightarrow> GuYaml \<Rightarrow> GuYaml run"
  and emit_elems :: "ynode list \<Rightarrow> GuYaml \<Rightarrow> GuYaml run" where
  "emit (Alias a) y = gu_yaml_alias (int a) y"
| "emit (Scalar p us) y = bindR (emit_props p y) (\<lambda>y. gu_yaml_scalar us y)"
| "emit (Mapping p es) y =
     bindR (emit_props p y) (\<lambda>y. bindR (emit_entries es (gu_yaml_begin_mapping y)) (\<lambda>y. gu_yaml_end y))"
| "emit (Sequence p ns) y =
     bindR (emit_props p y) (\<lambda>y. bindR (emit_elems ns (gu_yaml_begin_sequence y)) (\<lambda>y. gu_yaml_end y))"
| "emit_entries No_Entries y = Done y"
| "emit_entries (Entries k v es) y = bindR (emit k y) (\<lambda>y. bindR (emit v y) (\<lambda>y. emit_entries es y))"
| "emit_elems [] y = Done y"
| "emit_elems (n # ns) y = bindR (emit n y) (\<lambda>y. emit_elems ns y)"

text \<open>Anchors are numbered in the order of the text, and an alias stands for an anchor before it; the number after those of a node.\<close>

definition props_from :: "node_props \<Rightarrow> nat \<Rightarrow> nat option" where
  "props_from p k = (case fst p of None \<Rightarrow> Some k | Some a \<Rightarrow> if a = k then Some (Suc k) else None)"

fun anchors_from :: "ynode \<Rightarrow> nat \<Rightarrow> nat option"
  and entries_from :: "yentries \<Rightarrow> nat \<Rightarrow> nat option"
  and elems_from :: "ynode list \<Rightarrow> nat \<Rightarrow> nat option" where
  "anchors_from (Alias a) k = (if 0 < a \<and> a < k then Some k else None)"
| "anchors_from (Scalar p us) k = props_from p k"
| "anchors_from (Mapping p es) k = Option.bind (props_from p k) (entries_from es)"
| "anchors_from (Sequence p ns) k = Option.bind (props_from p k) (elems_from ns)"
| "entries_from No_Entries k = Some k"
| "entries_from (Entries n v es) k = Option.bind (anchors_from n k) (\<lambda>k. Option.bind (anchors_from v k) (entries_from es))"
| "elems_from [] k = Some k"
| "elems_from (n # ns) k = Option.bind (anchors_from n k) (elems_from ns)"

text \<open>The text of a document.\<close>

definition props_text :: "node_props \<Rightarrow> utext" where
  "props_text p =
     (case fst p of None \<Rightarrow> [] | Some a \<Rightarrow> ucs (''&'' @ int_digits (int a) @ '' '')) @
     (case snd p of None \<Rightarrow> [] | Some t \<Rightarrow> ucs (''!'' @ t @ '' ''))"

definition opt_text :: "string option \<Rightarrow> utext" where
  "opt_text s = (case s of None \<Rightarrow> [] | Some t \<Rightarrow> ucs t)"

abbreviation spaces :: "nat \<Rightarrow> utext" where "spaces n \<equiv> replicate n 32"

definition line :: "nat \<Rightarrow> GuYamlState \<Rightarrow> utext \<Rightarrow> utext" where
  "line n st t = spaces n @ opt_text (state_prefix st) @ t @ opt_text (state_suffix st) @ [10]"

fun node_text :: "nat \<Rightarrow> ynode \<Rightarrow> utext"
  and entries_text :: "nat \<Rightarrow> yentries \<Rightarrow> utext"
  and elems_text :: "nat \<Rightarrow> ynode list \<Rightarrow> utext" where
  "node_text n (Alias a) = ucs (''*'' @ int_digits (int a) @ '' '')"
| "node_text n (Scalar p us) = props_text p @ [34] @ concat (map scalar_char us) @ [34]"
| "node_text n (Mapping p es) = props_text p @ [123, 10] @ entries_text (Suc n) es @ spaces n @ [125]"
| "node_text n (Sequence p ns) = props_text p @ [91, 10] @ elems_text (Suc n) ns @ spaces n @ [93]"
| "entries_text n No_Entries = []"
| "entries_text n (Entries k v es) = line n Y_key (node_text n k) @ line n Y_value (node_text n v) @ entries_text n es"
| "elems_text n [] = []"
| "elems_text n (m # ms) = line n Y_elem (node_text n m) @ elems_text n ms"

text \<open>Before a node: nothing of it has been written.\<close>

definition at_line :: "GuYaml \<Rightarrow> bool" where
  "at_line y \<longleftrightarrow> \<not> in_node y \<and> \<not> have_anchor y \<and> \<not> have_tag y \<and> indenting y \<and> \<not> indented y"

definition in_line :: "GuYaml \<Rightarrow> bool" where
  "in_line y \<longleftrightarrow> in_node y \<and> indenting y \<and> indented y"

lemma ucs_simps [simp]: "ucs [] = []" "ucs (c # s) = of_char c # ucs s" "ucs (s @ t) = ucs s @ ucs t"
  by (simp_all add: ucs_def)

lemma write_simps [simp]:
  "write_text [] y = y" "write_text us (write_text vs y) = write_text (vs @ us) y"
  "ystate (write_text us y) = ystate y" "in_node (write_text us y) = in_node y" "have_anchor (write_text us y) = have_anchor y"
  "have_tag (write_text us y) = have_tag y" "next_anchor (write_text us y) = next_anchor y" "indenting (write_text us y) = indenting y"
  "indent_level (write_text us y) = indent_level y" "indented (write_text us y) = indented y" "ystack (write_text us y) = ystack y"
  "ytext (write_text us y) = ytext y @ us"
  by (simp_all add: write_text_def)

lemma put_spaces [simp]: "put_spaces n y = write_text (spaces n) y"
proof (induction n arbitrary: y)
  case (Suc n)
  have "[32] @ spaces n = spaces (Suc n)" by simp
  with Suc show ?case by (simp add: gu_yaml_putc_def del: replicate_Suc)
qed simp

lemma scalar_loop [simp]: "scalar_loop us y = write_text (concat (map scalar_char us)) y"
  by (induction us arbitrary: y) simp_all

lemma puts_opt [simp]: "puts_opt s y = write_text (opt_text s) y"
  by (cases s) (simp_all add: puts_opt_def opt_text_def gu_yaml_puts_def)

lemmas yaml_defs = gu_yaml_putc_def gu_yaml_puts_def gu_yaml_begin_line_def gu_yaml_end_line_def

lemma begin_node_at: "at_line y \<Longrightarrow> gu_yaml_begin_node y =
    y\<lparr>ytext := ytext y @ spaces (indent_level y) @ opt_text (state_prefix (ystate y)), in_node := True, indented := True\<rparr>"
  by (simp add: gu_yaml_begin_node_def yaml_defs at_line_def write_text_def)

lemma begin_node_in: "in_line y \<Longrightarrow> gu_yaml_begin_node y = y"
  by (simp add: gu_yaml_begin_node_def yaml_defs in_line_def)

text \<open>A node with properties has begun after them; the state in which its contents are written.\<close>

definition started :: "node_props \<Rightarrow> nat \<Rightarrow> GuYaml \<Rightarrow> GuYaml" where
  "started p k y =
     y\<lparr>ytext := ytext y @ spaces (indent_level y) @ opt_text (state_prefix (ystate y)) @ props_text p, in_node := True, indented := True,
       have_anchor := fst p \<noteq> None, have_tag := snd p \<noteq> None, next_anchor := int k\<rparr>"

lemma emit_props_spec:
  assumes "at_line y" and "next_anchor y = int k" and "props_from p k = Some k'"
  shows "\<exists>y'. emit_props p y = Done y' \<and> gu_yaml_begin_node y' = started p k' y"
proof -
  obtain a t where p: "p = (a, t)" by (cases p)
  have at: "\<not> in_node y" "\<not> have_anchor y" "\<not> have_tag y" "indenting y" "\<not> indented y" using assms(1) by (simp_all add: at_line_def)
  show ?thesis
  proof (cases "p = (None, None)")
    case True
    with assms have "emit_props p y = Done y" "k' = k" by (simp_all add: emit_props_def props_from_def)
    moreover have "gu_yaml_begin_node y = started p k y"
      using True assms(1,2) by (cases y) (simp add: begin_node_at started_def props_text_def at_line_def)
    ultimately show ?thesis by simp
  next
    case False
    have k: "int k' = (if a = None then next_anchor y else next_anchor y + 1)" "a = None \<or> a = Some k"
      using assms(2,3) by (auto simp: props_from_def p split: option.splits if_splits)
    have "emit_props p y = Done (started p k' y)"
      using False k assms(1,2)
      by (cases a; cases t; cases y) (simp_all add: p emit_props_def begin_node_at started_def props_text_def gu_yaml_tag_def gu_yaml_anchor_def
          yaml_defs at_line_def write_text_def gu_assert_def gu_yaml_begin_node_def Let_def)
    moreover have "gu_yaml_begin_node (started p k' y) = started p k' y"
      using at by (intro begin_node_in) (simp add: in_line_def started_def)
    ultimately show ?thesis by simp
  qed
qed

definition emitted :: "utext \<Rightarrow> nat \<Rightarrow> GuYaml \<Rightarrow> GuYaml" where
  "emitted t k y = y\<lparr>ytext := ytext y @ t, next_anchor := int k\<rparr>"

abbreviation node_done :: "ynode \<Rightarrow> nat \<Rightarrow> GuYaml \<Rightarrow> GuYaml" where
  "node_done n k y \<equiv>
     (emitted (line (indent_level y) (ystate y) (node_text (indent_level y) n)) k y)\<lparr>ystate := state_next (ystate y)\<rparr>"

lemma emitted_simps [simp]:
  "at_line (emitted t k y) = at_line y" "next_anchor (emitted t k y) = int k" "ystate (emitted t k y) = ystate y"
  "indent_level (emitted t k y) = indent_level y" "ytext (emitted t k y) = ytext y @ t" "at_line (y\<lparr>ystate := s\<rparr>) = at_line y"
  by (simp_all add: emitted_def at_line_def)

lemma emitted_emitted [simp]:
  "emitted t k (emitted s j y) = emitted (s @ t) k y" "emitted t k (y\<lparr>ystate := st\<rparr>) = (emitted t k y)\<lparr>ystate := st\<rparr>"
  "next_anchor y = int k \<Longrightarrow> emitted [] k y = y"
  by (cases y, simp add: emitted_def)+

lemma emit_alias:
  assumes "at_line y" and "next_anchor y = int k"
  shows "emit (Alias a) y = Done (node_done (Alias a) k y)"
  using assms
  by (cases y) (simp add: gu_yaml_alias_def begin_node_at gu_yaml_end_node_def gu_assert_def yaml_defs at_line_def write_text_def emitted_def
      line_def)

lemma emit_scalar:
  assumes "at_line y" and "next_anchor y = int k" and "props_from p k = Some k'"
  shows "emit (Scalar p us) y = Done (node_done (Scalar p us) k' y)"
proof -
  obtain y' where y': "emit_props p y = Done y'" "gu_yaml_begin_node y' = started p k' y" using emit_props_spec [OF assms] by blast
  show ?thesis
    using assms(1) y'
    by (cases y) (simp add: gu_yaml_scalar_def started_def gu_yaml_end_node_def gu_assert_def yaml_defs at_line_def write_text_def emitted_def
        line_def)
qed

text \<open>The state between the brackets of a collection.\<close>

definition opened :: "GuYamlFrameClass \<Rightarrow> node_props \<Rightarrow> nat \<Rightarrow> GuYaml \<Rightarrow> GuYaml" where
  "opened c p k y =
     y\<lparr>ytext := ytext y @ spaces (indent_level y) @ opt_text (state_prefix (ystate y)) @ props_text p @ ucs (class_open c) @ [10],
       next_anchor := int k, ystack := \<lparr>klass = c, next_state = ystate y\<rparr> # ystack y, ystate := class_first c,
       indent_level := Suc (indent_level y)\<rparr>"

lemma begin_spec:
  assumes "at_line y" and "gu_yaml_begin_node y' = started p k y"
  shows "gu_yaml_begin c y' = opened c p k y"
  using assms
  by (cases y) (simp add: gu_yaml_begin_def started_def opened_def yaml_defs at_line_def write_text_def)

lemma end_spec:
  assumes "at_line y"
  shows "gu_yaml_end (emitted t k' ((opened c p k y)\<lparr>ystate := s\<rparr>)) =
    Done ((emitted (line (indent_level y) (ystate y) (props_text p @ ucs (class_open c) @ [10] @ t @ spaces (indent_level y) @
      ucs (class_close c))) k' y)\<lparr>ystate := state_next (ystate y)\<rparr>)"
  using assms
  by (cases y) (simp add: gu_yaml_end_def gu_yaml_end_node_def opened_def emitted_def gu_assert_def yaml_defs at_line_def write_text_def line_def)

lemma opened_simps [simp]:
  "at_line (opened c p k y) = at_line y" "next_anchor (opened c p k y) = int k" "ystate (opened c p k y) = class_first c"
  "indent_level (opened c p k y) = Suc (indent_level y)"
  by (simp_all add: opened_def at_line_def)

lemma emit_spec:
  "at_line y \<Longrightarrow> next_anchor y = int k \<Longrightarrow> anchors_from n k = Some k' \<Longrightarrow> emit n y = Done (node_done n k' y)"
  "at_line y \<Longrightarrow> next_anchor y = int k \<Longrightarrow> ystate y = Y_key \<Longrightarrow> entries_from es k = Some k' \<Longrightarrow>
     emit_entries es y = Done (emitted (entries_text (indent_level y) es) k' y)"
  "at_line y \<Longrightarrow> next_anchor y = int k \<Longrightarrow> ystate y = Y_elem \<Longrightarrow> elems_from ns k = Some k' \<Longrightarrow>
     emit_elems ns y = Done (emitted (elems_text (indent_level y) ns) k' y)"
proof (induction n y and es y and ns y arbitrary: k k' and k k' and k k' rule: emit_emit_entries_emit_elems.induct)
  case (3 p es y)
  obtain k1 where k1: "props_from p k = Some k1" "entries_from es k1 = Some k'" using "3.prems"(3) by (auto simp: bind_eq_Some_conv)
  obtain y' where y': "emit_props p y = Done y'" "gu_yaml_begin_node y' = started p k1 y" using emit_props_spec [OF "3.prems"(1,2) k1(1)] by blast
  note b = begin_spec [OF "3.prems"(1) y'(2)]
  have "emit_entries es (opened F_mapping p k1 y) = Done (emitted (entries_text (Suc (indent_level y)) es) k' (opened F_mapping p k1 y))"
    using "3.IH" [of y' k1 k'] "3.prems"(1) k1(2) b by (simp add: gu_yaml_begin_mapping_def)
  then show ?case
    using y' b end_spec [OF "3.prems"(1), where c = F_mapping and p = p and k = k1 and s = Y_key] by (cases y) (simp add: gu_yaml_begin_mapping_def opened_def emitted_def)
next
  case (4 p ns y)
  obtain k1 where k1: "props_from p k = Some k1" "elems_from ns k1 = Some k'" using "4.prems"(3) by (auto simp: bind_eq_Some_conv)
  obtain y' where y': "emit_props p y = Done y'" "gu_yaml_begin_node y' = started p k1 y" using emit_props_spec [OF "4.prems"(1,2) k1(1)] by blast
  note b = begin_spec [OF "4.prems"(1) y'(2)]
  have "emit_elems ns (opened F_sequence p k1 y) = Done (emitted (elems_text (Suc (indent_level y)) ns) k' (opened F_sequence p k1 y))"
    using "4.IH" [of y' k1 k'] "4.prems"(1) k1(2) b by (simp add: gu_yaml_begin_sequence_def)
  then show ?case
    using y' b end_spec [OF "4.prems"(1), where c = F_sequence and p = p and k = k1 and s = Y_elem] by (cases y) (simp add: gu_yaml_begin_sequence_def opened_def emitted_def)
qed (use emit_alias emit_scalar in \<open>auto simp: bind_eq_Some_conv split: if_splits\<close>)

end
