(* ===== verification/Dump.thy ===== *)
theory Dump
  imports Yaml Hash TextIO
begin

text \<open>
  \<open>gu/dump.c\<close>: a generic dumper, that writes any value as a YAML document, driven by the description of its type. The memory is that of
  \<open>Hash\<close>. Descriptions of types have here the names that a dump shows. Two things connect the calls of the dumpers for the parts of a
  value: the table of the addresses that already have an anchor, and a pointer to the length that the innermost structure
  has seen, a local variable of the activation of \<open>gu_dump_struct\<close>.
\<close>

subsection \<open>Descriptions\<close>

record GuMember =
  offset :: u64
  m_name :: string
  m_type :: GuType
  is_flex :: bool

record GuConstructor =
  c_tag :: int
  c_name :: string
  c_type :: GuType

record GuEnumConstant =
  e_name :: string
  e_value :: int

text \<open>The parts of the structures that describe types.\<close>

datatype type_info =
    GuStructRepr "GuMember list"
  | GuVariantType "GuConstructor list"
  | GuEnumType nat "GuEnumConstant list"
  | GuPointerType GuType
  | GuTypeAlias GuType
  | GuSeqType GuType
  | GuListType GuType u64
  | GuMapType GuType GuType

definition gu_struct_has_flex :: "GuMember list \<Rightarrow> bool" where
  "gu_struct_has_flex members = list_ex is_flex members"

text \<open>What a dump depends on: the memory, the descriptions and sizes of types, and the \<open>%lf\<close> and \<open>%p\<close> of the C library.\<close>

record dump_env =
  memory :: hash_mem
  info :: "GuType \<Rightarrow> type_info option"
  type_size :: "GuType \<Rightarrow> u64"
  print_lf :: "u64 \<Rightarrow> string"
  print_p :: "u64 \<Rightarrow> string"

definition described :: "dump_env \<Rightarrow> GuType \<Rightarrow> type_info run" where
  "described E type = (case info E type of None \<Rightarrow> Fault Out_Of_Bounds | Some t \<Rightarrow> Done t)"

definition map_at :: "hash_mem \<Rightarrow> u64 \<Rightarrow> (u64 \<times> u64) list run" where
  "map_at m p = bindR (cell_at m p) (\<lambda>c. case c of C_Map es \<Rightarrow> Done es | _ \<Rightarrow> Fault Out_Of_Bounds)"

definition double_at :: "hash_mem \<Rightarrow> u64 \<Rightarrow> u64 run" where
  "double_at m p = bindR (cell_at m p) (\<lambda>c. case c of C_Double d \<Rightarrow> Done d | _ \<Rightarrow> Fault Out_Of_Bounds)"

definition cstr_at :: "hash_mem \<Rightarrow> u64 \<Rightarrow> string run" where
  "cstr_at m p = bindR (cell_at m p) (\<lambda>c. case c of C_CStr s \<Rightarrow> Done s | _ \<Rightarrow> Fault Out_Of_Bounds)"

subsection \<open>State\<close>

text \<open>
  The map \<open>data\<close> of a dump has two keys. Under \<open>gu_dump_length_key\<close> it holds a pointer to a local variable of an activation; \<open>frames\<close> has
  these variables, of the activations that have not returned. Under \<open>gu_dump_reference_key\<close> it holds the map of the anchors, which is
  made when it is first used. The exception that reading a string has raised is kept too.
\<close>

type_synonym GuLength = u64

record DumpData =
  length_ref :: "nat option"
  frames :: "nat \<rightharpoonup> GuLength"
  next_frame :: nat
  anchors :: "u64 \<rightharpoonup> nat"
  exn_raised :: "GuType option"

record GuDump =
  yaml :: GuYaml
  data :: DumpData
  print_address :: bool
  print_shared :: bool

definition new_data :: DumpData where
  "new_data = \<lparr>length_ref = None, frames = Map.empty, next_frame = 0, anchors = Map.empty, exn_raised = None\<rparr>"

definition gu_new_dump :: GuDump where
  "gu_new_dump = \<lparr>yaml = gu_new_yaml, data = new_data, print_address = False, print_shared = True\<rparr>"

subsection \<open>The local variables of structures\<close>

definition set_length :: "GuLength \<Rightarrow> DumpData \<Rightarrow> DumpData run" where
  "set_length l d =
     (case length_ref d of
        None \<Rightarrow> Done d
      | Some i \<Rightarrow> (case frames d i of None \<Rightarrow> Fault Out_Of_Bounds | Some _ \<Rightarrow> Done (d\<lparr>frames := (frames d)(i \<mapsto> l)\<rparr>)))"

text \<open>Beginning and end of \<open>gu_dump_struct\<close>. The pointer is restored only if there was one before.\<close>

definition enter_struct :: "DumpData \<Rightarrow> DumpData" where
  "enter_struct d =
     d\<lparr>length_ref := Some (next_frame d), frames := (frames d)(next_frame d \<mapsto> - 1), next_frame := Suc (next_frame d)\<rparr>"

definition leave_struct :: "nat \<Rightarrow> nat option \<Rightarrow> DumpData \<Rightarrow> DumpData" where
  "leave_struct i old_lenp d =
     d\<lparr>frames := (frames d)(i := None), length_ref := (if old_lenp \<noteq> None then old_lenp else length_ref d)\<rparr>"

definition local_length :: "nat \<Rightarrow> DumpData \<Rightarrow> GuLength run" where
  "local_length i d = (case frames d i of None \<Rightarrow> Fault Out_Of_Bounds | Some l \<Rightarrow> Done l)"

subsection \<open>Scalars\<close>

abbreviation with_yaml :: "GuDump \<Rightarrow> GuYaml run \<Rightarrow> GuDump run" where
  "with_yaml ctx r \<equiv> bindR r (\<lambda>y. Done (ctx\<lparr>yaml := y\<rparr>))"

text \<open>The code points that the reader of a string delivers to \<open>gu_yaml_scalar\<close>, and the exception that ends them.\<close>

definition string_codes :: "GuString \<Rightarrow> str_heap \<Rightarrow> (utext \<times> GuType option) run" where
  "string_codes s h =
     bindR (gu_string_utf8 s h) (\<lambda>bs. bindR (gu_string_reader s h) (\<lambda>rdr.
       bindR (read_codes (gu_proxy_in_funs gu_data_in_funs) (Suc (length bs)) rdr None) (\<lambda>(us, _, e).
         Done (us, if e = Some GuEOF then None else e))))"

definition note_exn :: "GuType option \<Rightarrow> DumpData \<Rightarrow> DumpData" where
  "note_exn e d = (case e of None \<Rightarrow> d | Some _ \<Rightarrow> d\<lparr>exn_raised := e\<rparr>)"

definition yaml_string :: "GuString \<Rightarrow> str_heap \<Rightarrow> GuDump \<Rightarrow> GuDump run" where
  "yaml_string s h ctx =
     bindR (string_codes s h) (\<lambda>(us, e).
       bindR (gu_yaml_scalar us (yaml ctx)) (\<lambda>y. Done (ctx\<lparr>yaml := y, data := note_exn e (data ctx)\<rparr>)))"

text \<open>The first argument is the formatted text.\<close>

definition gu_dump_scalar :: "dump_env \<Rightarrow> string \<Rightarrow> GuDump \<Rightarrow> GuDump run" where
  "gu_dump_scalar E txt ctx =
     bindR (gu_utf8_string (map of_char txt) (strs (memory E))) (\<lambda>(s, h). yaml_string s h ctx)"

definition gu_dump_str_scalar :: "dump_env \<Rightarrow> string \<Rightarrow> GuDump \<Rightarrow> GuDump run" where
  "gu_dump_str_scalar E str ctx =
     bindR (gu_str_string (map of_char str @ [0]) (strs (memory E))) (\<lambda>(s, h). yaml_string s h ctx)"

definition gu_dump_null :: "GuDump \<Rightarrow> GuDump run" where
  "gu_dump_null ctx = with_yaml ctx (bindR (gu_yaml_tag_secondary ''null'' (yaml ctx)) (\<lambda>y. gu_yaml_scalar [] y))"

text \<open>A dumper for a kind of types, given the generic dumper.\<close>

type_synonym dumper = "GuType \<Rightarrow> u64 \<Rightarrow> GuDump \<Rightarrow> GuDump run"

definition gu_dump_int :: "dump_env \<Rightarrow> dumper" where
  "gu_dump_int E type p ctx = bindR (int_at (memory E) p) (\<lambda>i. gu_dump_scalar E (int_digits i) ctx)"

definition gu_dump_uint16 :: "dump_env \<Rightarrow> dumper" where
  "gu_dump_uint16 E type p ctx = bindR (int_at (memory E) p) (\<lambda>i. gu_dump_scalar E (int_digits i) ctx)"

definition gu_dump_int32 :: "dump_env \<Rightarrow> dumper" where
  "gu_dump_int32 E type p ctx = bindR (int_at (memory E) p) (\<lambda>i. gu_dump_scalar E (int_digits i) ctx)"

definition gu_dump_size :: "dump_env \<Rightarrow> dumper" where
  "gu_dump_size E type p ctx = bindR (int_at (memory E) p) (\<lambda>i. gu_dump_scalar E (int_digits i) ctx)"

definition gu_dump_double :: "dump_env \<Rightarrow> dumper" where
  "gu_dump_double E type p ctx = bindR (double_at (memory E) p) (\<lambda>d. gu_dump_scalar E (print_lf E d) ctx)"

text \<open>\<open>%d\<close> takes the low half of the length.\<close>

definition length_digits :: "GuLength \<Rightarrow> string" where
  "length_digits l = int_digits (sint (ucast l :: 32 word))"

definition gu_dump_length :: "dump_env \<Rightarrow> dumper" where
  "gu_dump_length E type p ctx =
     bindR (int_at (memory E) p) (\<lambda>i. bindR (gu_dump_scalar E (length_digits (word_of_int i)) ctx) (\<lambda>ctx.
       bindR (set_length (word_of_int i) (data ctx)) (\<lambda>d. Done (ctx\<lparr>data := d\<rparr>))))"

definition gu_dump_str :: "dump_env \<Rightarrow> dumper" where
  "gu_dump_str E type p ctx = bindR (cstr_at (memory E) p) (\<lambda>s. gu_dump_str_scalar E s ctx)"

definition gu_dump_string :: "dump_env \<Rightarrow> dumper" where
  "gu_dump_string E type p ctx = bindR (str_at (memory E) p) (\<lambda>s. yaml_string s (strs (memory E)) ctx)"

definition gu_enum_value :: "nat \<Rightarrow> GuEnumConstant list \<Rightarrow> int \<Rightarrow> GuEnumConstant option" where
  "gu_enum_value esize constants c = (if esize \<in> {4, 1, 2, 8} then find (\<lambda>cp. c = e_value cp) constants else None)"

definition gu_dump_enum :: "dump_env \<Rightarrow> dumper" where
  "gu_dump_enum E type p ctx =
     bindR (described E type) (\<lambda>t. case t of
       GuEnumType esize constants \<Rightarrow>
         bindR (int_at (memory E) p) (\<lambda>c.
           case gu_enum_value esize constants c of
             None \<Rightarrow> Fault (Abort GU_ASSERT_ASSERTION)
           | Some cp \<Rightarrow> gu_dump_str_scalar E (e_name cp) ctx)
     | _ \<Rightarrow> Fault Out_Of_Bounds)"

subsection \<open>Collections\<close>

definition gu_dump_pointer :: "dumper \<Rightarrow> dump_env \<Rightarrow> dumper" where
  "gu_dump_pointer gu_dump E type p ctx =
     bindR (described E type) (\<lambda>t. case t of
       GuPointerType pointed \<Rightarrow>
         bindR (ptr_at (memory E) p) (\<lambda>v. if v = 0 then gu_dump_null ctx else gu_dump pointed v ctx)
     | _ \<Rightarrow> Fault Out_Of_Bounds)"

text \<open>The entries of a map, in the order of \<open>gu_map_iter\<close>.\<close>

fun dump_entries :: "dumper \<Rightarrow> GuType \<Rightarrow> GuType \<Rightarrow> (u64 \<times> u64) list \<Rightarrow> GuDump \<Rightarrow> GuDump run" where
  "dump_entries gu_dump kt vt [] ctx = Done ctx"
| "dump_entries gu_dump kt vt ((key, val) # es) ctx =
     bindR (gu_dump kt key ctx) (\<lambda>ctx. bindR (gu_dump vt val ctx) (\<lambda>ctx. dump_entries gu_dump kt vt es ctx))"

definition gu_dump_map :: "dumper \<Rightarrow> dump_env \<Rightarrow> dumper" where
  "gu_dump_map gu_dump E type p ctx =
     bindR (described E type) (\<lambda>t. case t of
       GuMapType kt vt \<Rightarrow>
         bindR (map_at (memory E) p) (\<lambda>es.
           bindR (dump_entries gu_dump kt vt es (ctx\<lparr>yaml := gu_yaml_begin_mapping (yaml ctx)\<rparr>)) (\<lambda>ctx.
             with_yaml ctx (gu_yaml_end (yaml ctx))))
     | _ \<Rightarrow> Fault Out_Of_Bounds)"

text \<open>The elements of an array, from number \<open>i\<close> on.\<close>

fun dump_array :: "dumper \<Rightarrow> GuType \<Rightarrow> u64 \<Rightarrow> u64 \<Rightarrow> nat \<Rightarrow> nat \<Rightarrow> GuDump \<Rightarrow> GuDump run" where
  "dump_array gu_dump et base esz i 0 ctx = Done ctx"
| "dump_array gu_dump et base esz i (Suc k) ctx =
     bindR (gu_dump et (base + of_nat i * esz) ctx) (\<lambda>ctx. dump_array gu_dump et base esz (Suc i) k ctx)"

definition dump_sequence :: "dumper \<Rightarrow> dump_env \<Rightarrow> GuType \<Rightarrow> u64 \<Rightarrow> nat \<Rightarrow> GuDump \<Rightarrow> GuDump run" where
  "dump_sequence gu_dump E et base len ctx =
     bindR (dump_array gu_dump et base (type_size E et) 0 len (ctx\<lparr>yaml := gu_yaml_begin_sequence (yaml ctx)\<rparr>)) (\<lambda>ctx.
       with_yaml ctx (gu_yaml_end (yaml ctx)))"

text \<open>The members of a structure at \<open>p\<close>, in the activation \<open>i\<close>.\<close>

fun dump_members :: "dumper \<Rightarrow> dump_env \<Rightarrow> u64 \<Rightarrow> nat \<Rightarrow> GuMember list \<Rightarrow> GuDump \<Rightarrow> GuDump run" where
  "dump_members gu_dump E p i [] ctx = Done ctx"
| "dump_members gu_dump E p i (m # ms) ctx =
     bindR (gu_dump_str_scalar E (m_name m) ctx) (\<lambda>ctx.
     bindR (if is_flex m
            then bindR (local_length i (data ctx)) (\<lambda>len.
              gu_assert (len \<noteq> - 1) (dump_sequence gu_dump E (m_type m) (p + offset m) (unat len) ctx))
            else gu_dump (m_type m) (p + offset m) ctx) (\<lambda>ctx.
     dump_members gu_dump E p i ms ctx))"

definition gu_dump_struct :: "dumper \<Rightarrow> dump_env \<Rightarrow> dumper" where
  "gu_dump_struct gu_dump E type p ctx =
     bindR (described E type) (\<lambda>t. case t of
       GuStructRepr members \<Rightarrow>
         (let old_lenp = length_ref (data ctx); i = next_frame (data ctx) in
          bindR (dump_members gu_dump E p i members
                   (ctx\<lparr>yaml := gu_yaml_begin_mapping (yaml ctx), data := enter_struct (data ctx)\<rparr>)) (\<lambda>ctx.
          bindR (gu_yaml_end (yaml ctx)) (\<lambda>y. Done (ctx\<lparr>yaml := y, data := leave_struct i old_lenp (data ctx)\<rparr>))))
     | _ \<Rightarrow> Fault Out_Of_Bounds)"

definition gu_dump_alias :: "dumper \<Rightarrow> dump_env \<Rightarrow> dumper" where
  "gu_dump_alias gu_dump E type p ctx =
     bindR (described E type) (\<lambda>t. case t of GuTypeAlias a \<Rightarrow> gu_dump a p ctx | _ \<Rightarrow> Fault Out_Of_Bounds)"

text \<open>The result tells whether the anchor is new.\<close>

definition gu_dump_anchor :: "u64 \<Rightarrow> GuDump \<Rightarrow> (bool \<times> GuDump) run" where
  "gu_dump_anchor p ctx =
     (case anchors (data ctx) p of
        None \<Rightarrow>
          bindR (gu_yaml_anchor (yaml ctx)) (\<lambda>(a, y).
            Done (True, ctx\<lparr>yaml := y, data := (data ctx)\<lparr>anchors := (anchors (data ctx))(p \<mapsto> nat a)\<rparr>\<rparr>))
      | Some a \<Rightarrow> bindR (gu_yaml_alias (int a) (yaml ctx)) (\<lambda>y. Done (False, ctx\<lparr>yaml := y\<rparr>)))"

definition gu_dump_referenced :: "dumper \<Rightarrow> dump_env \<Rightarrow> dumper" where
  "gu_dump_referenced gu_dump E type p ctx =
     bindR (described E type) (\<lambda>t. case t of
       GuTypeAlias a \<Rightarrow> bindR (gu_dump_anchor p ctx) (\<lambda>(created, ctx). if created then gu_dump a p ctx else Done ctx)
     | _ \<Rightarrow> Fault Out_Of_Bounds)"

definition gu_dump_reference :: "dumper \<Rightarrow> dump_env \<Rightarrow> dumper" where
  "gu_dump_reference gu_dump E type p ctx =
     bindR (described E type) (\<lambda>t. case t of
       GuPointerType pointed \<Rightarrow>
         bindR (ptr_at (memory E) p) (\<lambda>v.
           if v = 0 \<or> \<not> print_shared ctx then gu_dump_null ctx
           else bindR (gu_dump_anchor v ctx) (\<lambda>(created, ctx). if created then gu_dump pointed v ctx else Done ctx))
     | _ \<Rightarrow> Fault Out_Of_Bounds)"

text \<open>The body is that of \<open>gu_dump_reference\<close>.\<close>

definition gu_dump_shared :: "dumper \<Rightarrow> dump_env \<Rightarrow> dumper" where
  "gu_dump_shared gu_dump E type p ctx =
     bindR (described E type) (\<lambda>t. case t of
       GuPointerType pointed \<Rightarrow>
         bindR (ptr_at (memory E) p) (\<lambda>v.
           if v = 0 \<or> \<not> print_shared ctx then gu_dump_null ctx
           else bindR (gu_dump_anchor v ctx) (\<lambda>(created, ctx). if created then gu_dump pointed v ctx else Done ctx))
     | _ \<Rightarrow> Fault Out_Of_Bounds)"

definition gu_dump_list :: "dumper \<Rightarrow> dump_env \<Rightarrow> dumper" where
  "gu_dump_list gu_dump E type p ctx =
     bindR (described E type) (\<lambda>t. case t of
       GuListType et elems_offset \<Rightarrow>
         bindR (int_at (memory E) p) (\<lambda>len. dump_sequence gu_dump E et (p + elems_offset) (nat len) ctx)
     | _ \<Rightarrow> Fault Out_Of_Bounds)"

definition gu_dump_variant :: "dumper \<Rightarrow> dump_env \<Rightarrow> dumper" where
  "gu_dump_variant gu_dump E type p ctx =
     bindR (described E type) (\<lambda>t. case t of
       GuVariantType ctors \<Rightarrow>
         bindR (variant_at (memory E) p) (\<lambda>(tag, d).
           case find (\<lambda>c. c_tag c = tag) ctors of
             None \<Rightarrow> Fault (Abort GU_ASSERT_ASSERTION)
           | Some c \<Rightarrow>
               bindR (gu_dump_str_scalar E (c_name c) (ctx\<lparr>yaml := gu_yaml_begin_mapping (yaml ctx)\<rparr>)) (\<lambda>ctx.
               bindR (gu_dump (c_type c) d ctx) (\<lambda>ctx.
               with_yaml ctx (gu_yaml_end (yaml ctx)))))
     | _ \<Rightarrow> Fault Out_Of_Bounds)"

definition gu_dump_seq :: "dumper \<Rightarrow> dump_env \<Rightarrow> dumper" where
  "gu_dump_seq gu_dump E type p ctx =
     bindR (described E type) (\<lambda>t. case t of
       GuSeqType et \<Rightarrow>
         bindR (cell_at (memory E) p) (\<lambda>c. case c of
           C_Seq None \<Rightarrow> gu_dump_null ctx
         | C_Seq (Some (d, len)) \<Rightarrow> dump_sequence gu_dump E et d len ctx
         | _ \<Rightarrow> Fault Out_Of_Bounds)
     | _ \<Rightarrow> Fault Out_Of_Bounds)"

subsection \<open>The table of dumpers\<close>

datatype GuDumpFn =
    Dump_int | Dump_uint16 | Dump_int32 | Dump_size | Dump_str | Dump_string | Dump_struct | Dump_pointer | Dump_map | Dump_alias
  | Dump_reference | Dump_referenced | Dump_shared | Dump_list | Dump_seq | Dump_length | Dump_variant | Dump_double | Dump_enum

definition kind_GuList :: GuKind where "kind_GuList = GuKind ''GuList'' kind_abstract"
definition ty_GuStr :: GuType where "ty_GuStr = GuKind ''GuStr'' kind_repr"

definition gu_dump_table :: "GuDumpFn GuTypeTable" where
  "gu_dump_table = GuTypeTable []
     [(ty_int, Dump_int), (ty_uint16_t, Dump_uint16), (ty_int32_t, Dump_int32), (ty_size_t, Dump_size), (ty_GuStr, Dump_str),
      (ty_GuString, Dump_string), (kind_struct, Dump_struct), (kind_pointer, Dump_pointer), (kind_GuMap, Dump_map),
      (kind_alias, Dump_alias), (kind_reference, Dump_reference), (kind_referenced, Dump_referenced), (kind_shared, Dump_shared),
      (kind_GuList, Dump_list), (kind_GuSeq, Dump_seq), (ty_GuLength, Dump_length), (kind_GuVariant, Dump_variant),
      (ty_double, Dump_double), (kind_enum, Dump_enum)]"

fun dump_fn :: "GuDumpFn \<Rightarrow> dumper \<Rightarrow> dump_env \<Rightarrow> dumper" where
  "dump_fn Dump_int gu_dump = gu_dump_int"
| "dump_fn Dump_uint16 gu_dump = gu_dump_uint16"
| "dump_fn Dump_int32 gu_dump = gu_dump_int32"
| "dump_fn Dump_size gu_dump = gu_dump_size"
| "dump_fn Dump_str gu_dump = gu_dump_str"
| "dump_fn Dump_string gu_dump = gu_dump_string"
| "dump_fn Dump_struct gu_dump = gu_dump_struct gu_dump"
| "dump_fn Dump_pointer gu_dump = gu_dump_pointer gu_dump"
| "dump_fn Dump_map gu_dump = gu_dump_map gu_dump"
| "dump_fn Dump_alias gu_dump = gu_dump_alias gu_dump"
| "dump_fn Dump_reference gu_dump = gu_dump_reference gu_dump"
| "dump_fn Dump_referenced gu_dump = gu_dump_referenced gu_dump"
| "dump_fn Dump_shared gu_dump = gu_dump_shared gu_dump"
| "dump_fn Dump_list gu_dump = gu_dump_list gu_dump"
| "dump_fn Dump_seq gu_dump = gu_dump_seq gu_dump"
| "dump_fn Dump_length gu_dump = gu_dump_length"
| "dump_fn Dump_variant gu_dump = gu_dump_variant gu_dump"
| "dump_fn Dump_double gu_dump = gu_dump_double"
| "dump_fn Dump_enum gu_dump = gu_dump_enum"

text \<open>The text of an address is formatted to a string too. The recursion is over the value, and does not end on a cycle of pointers that
  are not shared.\<close>

definition address_comment :: "dump_env \<Rightarrow> u64 \<Rightarrow> GuDump \<Rightarrow> GuDump" where
  "address_comment E p ctx =
     (if print_address ctx then ctx\<lparr>yaml := gu_yaml_comment (ucs (print_p E p)) (yaml ctx)\<rparr> else ctx)"

fun gu_dump :: "nat \<Rightarrow> dump_env \<Rightarrow> dumper" where
  "gu_dump 0 E type p ctx = Out_Of_Fuel"
| "gu_dump (Suc n) E type p ctx =
     (case gu_type_map_get (gu_new_type_map gu_dump_table) type of
        None \<Rightarrow> Fault Null_Deref
      | Some f \<Rightarrow> dump_fn f (gu_dump n E) E type p (address_comment E p ctx))"

text \<open>A dump for debugging: addresses are shown, and shared values are not followed.\<close>

definition gu_dump_stderr :: "nat \<Rightarrow> dump_env \<Rightarrow> GuType \<Rightarrow> u64 \<Rightarrow> GuDump run" where
  "gu_dump_stderr n E type p = gu_dump n E type p (gu_new_dump\<lparr>print_address := True, print_shared := False\<rparr>)"

end
