(* ===== verification/YamlRead.thy ===== *)
theory YamlRead
  imports Yaml
begin

text \<open>
  A reference reader for the YAML texts of \<open>Yaml\<close>: flow collections, double-quoted scalars with the escapes of the YAML standard, anchors,
  aliases and tags. Reading back what has been emitted gives the document.
\<close>

subsection \<open>The reader\<close>

definition skip :: "utext \<Rightarrow> utext" where
  "skip us = dropWhile (\<lambda>u. u = 32 \<or> u = 10) us"

definition hex_value :: "int \<Rightarrow> int" where
  "hex_value d = (if d < 58 then d - 48 else d - 87)"

definition read_hex :: "nat \<Rightarrow> utext \<Rightarrow> (int \<times> utext) option" where
  "read_hex n us = (if length us < n then None else Some (foldl (\<lambda>x d. 16 * x + hex_value d) 0 (take n us), drop n us))"

definition escapes :: "(int \<times> int) list" where
  "escapes = [(48, 0), (97, 7), (98, 8), (116, 9), (110, 10), (118, 11), (102, 12), (114, 13), (101, 27), (34, 34), (92, 92)]"

definition read_char :: "utext \<Rightarrow> (int \<times> utext) option" where
  "read_char us =
     (case us of
        [] \<Rightarrow> None
      | u # r \<Rightarrow>
          if u \<noteq> 92 then Some (u, r)
          else (case r of
                  [] \<Rightarrow> None
                | e # r \<Rightarrow>
                    if e = 120 then read_hex 2 r
                    else if e = 117 then read_hex 4 r
                    else map_option (\<lambda>v. (v, r)) (map_of escapes e)))"

fun read_body :: "nat \<Rightarrow> utext \<Rightarrow> (utext \<times> utext) option" where
  "read_body 0 us = None"
| "read_body (Suc n) us =
     (if us \<noteq> [] \<and> hd us = 34 then Some ([], tl us)
      else Option.bind (read_char us) (\<lambda>(v, r). map_option (\<lambda>(vs, r). (v # vs, r)) (read_body n r)))"

definition is_digit :: "int \<Rightarrow> bool" where
  "is_digit u \<longleftrightarrow> 48 \<le> u \<and> u \<le> 57"

definition read_number :: "utext \<Rightarrow> nat \<times> utext" where
  "read_number us = (foldl (\<lambda>n d. 10 * n + nat (d - 48)) 0 (takeWhile is_digit us), tl (dropWhile is_digit us))"

definition read_anchor :: "utext \<Rightarrow> nat option \<times> utext" where
  "read_anchor us =
     (if us \<noteq> [] \<and> hd us = 38 then (case read_number (tl us) of (n, r) \<Rightarrow> (Some n, r)) else (None, us))"

definition read_tag :: "utext \<Rightarrow> string option \<times> utext" where
  "read_tag us =
     (if us \<noteq> [] \<and> hd us = 33
      then (Some (map char_of (takeWhile (\<lambda>u. u \<noteq> 32) (tl us))), tl (dropWhile (\<lambda>u. u \<noteq> 32) (tl us)))
      else (None, us))"

definition expect :: "int \<Rightarrow> utext \<Rightarrow> utext option" where
  "expect c us = (case skip us of [] \<Rightarrow> None | u # r \<Rightarrow> if u = c then Some r else None)"

fun read_node :: "nat \<Rightarrow> utext \<Rightarrow> (ynode \<times> utext) option"
  and read_entries :: "nat \<Rightarrow> utext \<Rightarrow> (yentries \<times> utext) option"
  and read_items :: "nat \<Rightarrow> utext \<Rightarrow> (ynode list \<times> utext) option" where
  "read_node 0 us = None"
| "read_node (Suc n) us =
     (case read_anchor (skip us) of (a, r1) \<Rightarrow> case read_tag r1 of (t, r2) \<Rightarrow>
        case r2 of
          [] \<Rightarrow> None
        | c # r \<Rightarrow>
            if c = 34 then map_option (\<lambda>(vs, r). (Scalar (a, t) vs, r)) (read_body (Suc (length r)) r)
            else if c = 123 then map_option (\<lambda>(es, r). (Mapping (a, t) es, r)) (read_entries n r)
            else if c = 91 then map_option (\<lambda>(ns, r). (Sequence (a, t) ns, r)) (read_items n r)
            else if c = 42 \<and> a = None \<and> t = None then (case read_number r of (k, r) \<Rightarrow> Some (Alias k, r))
            else None)"
| "read_entries 0 us = None"
| "read_entries (Suc n) us =
     (case expect 125 us of
        Some r \<Rightarrow> Some (No_Entries, r)
      | None \<Rightarrow>
          Option.bind (expect 63 us) (\<lambda>r. Option.bind (read_node n r) (\<lambda>(k, r).
          Option.bind (expect 58 r) (\<lambda>r. Option.bind (read_node n r) (\<lambda>(v, r).
          Option.bind (expect 44 r) (\<lambda>r. map_option (\<lambda>(es, r). (Entries k v es, r)) (read_entries n r)))))))"
| "read_items 0 us = None"
| "read_items (Suc n) us =
     (case expect 93 us of
        Some r \<Rightarrow> Some ([], r)
      | None \<Rightarrow>
          Option.bind (read_node n us) (\<lambda>(m, r).
          Option.bind (expect 44 r) (\<lambda>r. map_option (\<lambda>(ms, r). (m # ms, r)) (read_items n r))))"

text \<open>A stream of one document, with its markers.\<close>

definition read_document :: "utext \<Rightarrow> ynode option" where
  "read_document us =
     (if take 4 us \<noteq> ucs (''---'' @ [CHR 0x0A]) then None
      else (case read_node (length us) (drop 4 us) of
              None \<Rightarrow> None
            | Some (n, r) \<Rightarrow> if r = ucs (CHR 0x0A # ''...'' @ [CHR 0x0A, CHR 0x0A]) then Some n else None))"

subsection \<open>Scalars\<close>

definition code_point :: "int \<Rightarrow> bool" where
  "code_point u \<longleftrightarrow> 0 \<le> u \<and> u \<le> 0x10ffff"

lemma hex_digit: "0 \<le> d \<Longrightarrow> d < 16 \<Longrightarrow> hex_value (hex_digit d) = d"
  by (auto simp: hex_value_def hex_digit_def)

lemma length_hex [simp]: "length (hex_digits n u) = n"
  by (induction n arbitrary: u) simp_all

lemma read_hex_digits:
  assumes "0 \<le> u" and "u < 16 ^ n"
  shows "read_hex n (hex_digits n u @ r) = Some (u, r)"
proof -
  have "foldl (\<lambda>x d. 16 * x + hex_value d) 0 (hex_digits n u) = u"
    using assms
  proof (induction n arbitrary: u)
    case (Suc n)
    then have "u div 16 < 16 ^ n" "0 \<le> u div 16" by auto
    with Suc show ?case by (simp add: hex_digit)
  qed simp
  then show ?thesis by (simp add: read_hex_def)
qed

lemma esc_read: "esc u = Some c \<Longrightarrow> map_of escapes (of_char c) = Some u \<and> of_char c \<noteq> (120 :: int) \<and> of_char c \<noteq> (117 :: int)"
  by (auto simp: esc_def escapes_def split: if_splits)

lemma read_scalar_char:
  assumes "code_point u"
  shows "read_char (scalar_char u @ r) = Some (u, r)" and "scalar_char u \<noteq> []" and "hd (scalar_char u) \<noteq> 34"
proof -
  have u: "0 \<le> u" using assms by (simp add: code_point_def)
  consider "u \<ge> 0x20 \<and> u < 0x7f" | "u < 0x20" "esc u \<noteq> None" | "\<not> (u \<ge> 0x20 \<and> u < 0x7f)" "u < 0x20 \<longrightarrow> esc u = None" "u \<le> 0x9f"
    | "u > 0x9f" by linarith
  then have "read_char (scalar_char u @ r) = Some (u, r) \<and> scalar_char u \<noteq> [] \<and> hd (scalar_char u) \<noteq> 34"
  proof cases
    case 1
    then show ?thesis by (auto simp: scalar_char_def read_char_def escapes_def)
  next
    case 2
    then obtain c where "esc u = Some c" by blast
    with 2 esc_read [OF this] show ?thesis by (auto simp: scalar_char_def read_char_def)
  next
    case 3
    with u show ?thesis by (auto simp: scalar_char_def read_char_def read_hex_digits)
  next
    case 4
    then show ?thesis by (auto simp: scalar_char_def read_char_def read_hex_digits)
  qed
  then show "read_char (scalar_char u @ r) = Some (u, r)" and "scalar_char u \<noteq> []" and "hd (scalar_char u) \<noteq> 34" by auto
qed

lemma read_scalar_body:
  assumes "list_all code_point us" and "length us < n"
  shows "read_body n (concat (map scalar_char us) @ 34 # r) = Some (us, r)"
  using assms
proof (induction us arbitrary: n)
  case (Cons u us)
  then obtain m where n: "n = Suc m" by (cases n) auto
  have "code_point u" using Cons.prems(1) by simp
  with Cons n read_scalar_char [OF this] show ?case by (simp add: hd_append)
qed (auto simp: less_eq_Suc_le Suc_le_D dest: Suc_le_D)

subsection \<open>Properties\<close>

lemma digit_code: "k < 10 \<Longrightarrow> (of_char (char_of (48 + k :: nat)) :: int) = 48 + int k"
proof -
  assume "k < 10"
  have "(of_char (char_of (48 + k :: nat)) :: int) = int (of_char (char_of (48 + k :: nat)))" by (simp only: of_nat_of_char)
  also have "\<dots> = int ((48 + k) mod 256)" by (simp only: of_char_of)
  also have "\<dots> = 48 + int k" using \<open>k < 10\<close> by simp
  finally show ?thesis .
qed

lemma digits_digit: "list_all is_digit (ucs (nat_digits n))"
proof (induction n rule: nat_digits.induct)
  case (1 n)
  have "is_digit (of_char (char_of (48 + k) :: char))" if "k < 10" for k :: nat
    using that by (simp add: is_digit_def digit_code)
  then show ?case using 1 by (subst nat_digits.simps) auto
qed

lemma digits_value: "foldl (\<lambda>n d. 10 * n + nat (d - 48)) 0 (ucs (nat_digits n)) = n"
proof (induction n rule: nat_digits.induct)
  case (1 n)
  show ?case
  proof (cases "n < 10")
    case False
    then have "foldl (\<lambda>n d. 10 * n + nat (d - 48)) 0 (ucs (nat_digits (n div 10))) = n div 10" using 1 by blast
    with False show ?thesis by (subst nat_digits.simps) (simp add: digit_code)
  qed (subst nat_digits.simps, simp add: digit_code)
qed

lemma read_number: "read_number (ucs (int_digits (int n)) @ 32 # r) = (n, r)"
proof -
  have d: "\<And>u. u \<in> set (ucs (nat_digits n)) \<Longrightarrow> is_digit u" using digits_digit by (auto simp: list_all_iff)
  then have "takeWhile is_digit (ucs (nat_digits n) @ 32 # r) = ucs (nat_digits n)"
    "dropWhile is_digit (ucs (nat_digits n) @ 32 # r) = 32 # r"
    by (simp_all add: takeWhile_append2 dropWhile_append2 is_digit_def)
  then show ?thesis by (simp add: read_number_def int_digits_def digits_value)
qed

definition tag_ok :: "string option \<Rightarrow> bool" where
  "tag_ok t \<longleftrightarrow> (case t of None \<Rightarrow> True | Some s \<Rightarrow> CHR '' '' \<notin> set s)"

lemma read_tag_text:
  assumes "tag_ok t" and "c \<noteq> 33"
  shows "read_tag ((case t of None \<Rightarrow> [] | Some t \<Rightarrow> ucs (''!'' @ t @ '' '')) @ c # r) = (t, c # r)"
proof (cases t)
  case (Some s)
  have "u \<noteq> 32" if "u \<in> set (ucs s)" for u
  proof
    assume "u = 32"
    with that obtain x where "x \<in> set s" "of_char x = (32 :: int)" by (auto simp: ucs_def)
    then have "of_char x = (of_char CHR '' '' :: int)" by simp
    then have "x = CHR '' ''" by (simp only: of_char_eq_iff)
    with \<open>x \<in> set s\<close> assms(1) Some show False by (simp add: tag_ok_def)
  qed
  then have "takeWhile (\<lambda>u. u \<noteq> 32) (ucs s @ 32 # c # r) = ucs s" "dropWhile (\<lambda>u. u \<noteq> 32) (ucs s @ 32 # c # r) = 32 # c # r"
    by (simp_all add: takeWhile_append2 dropWhile_append2)
  with Some show ?thesis by (simp add: read_tag_def ucs_def comp_def)
qed (use assms(2) in \<open>simp add: read_tag_def\<close>)

lemma read_props_text:
  assumes "tag_ok (snd p)" and "c \<notin> {33, 38}"
  shows "case read_anchor (props_text p @ c # r) of (a, r1) \<Rightarrow> a = fst p \<and> read_tag r1 = (snd p, c # r)"
proof -
  let ?t = "(case snd p of None \<Rightarrow> [] | Some t \<Rightarrow> ucs (''!'' @ t @ '' '')) @ c # r"
  have t: "read_tag ?t = (snd p, c # r)" using assms by (intro read_tag_text) auto
  show ?thesis
  proof (cases "fst p")
    case None
    have "?t \<noteq> [] \<and> hd ?t \<noteq> 38" using assms(2) by (cases "snd p") auto
    with t None show ?thesis by (simp add: props_text_def read_anchor_def)
  next
    case (Some n)
    with t read_number [of n ?t] show ?thesis by (simp add: props_text_def read_anchor_def)
  qed
qed

subsection \<open>Documents\<close>

text \<open>Documents whose texts can be told apart.\<close>

fun doc_ok :: "ynode \<Rightarrow> bool" and entries_ok :: "yentries \<Rightarrow> bool" and elems_ok :: "ynode list \<Rightarrow> bool" where
  "doc_ok (Alias a) = True"
| "doc_ok (Scalar p us) = (tag_ok (snd p) \<and> list_all code_point us)"
| "doc_ok (Mapping p es) = (tag_ok (snd p) \<and> entries_ok es)"
| "doc_ok (Sequence p ns) = (tag_ok (snd p) \<and> elems_ok ns)"
| "entries_ok No_Entries = True"
| "entries_ok (Entries k v es) = (doc_ok k \<and> doc_ok v \<and> entries_ok es)"
| "elems_ok [] = True"
| "elems_ok (n # ns) = (doc_ok n \<and> elems_ok ns)"

text \<open>The fuel for a document.\<close>

fun depth :: "ynode \<Rightarrow> nat" and entries_depth :: "yentries \<Rightarrow> nat" and elems_depth :: "ynode list \<Rightarrow> nat" where
  "depth (Alias a) = 1"
| "depth (Scalar p us) = 1"
| "depth (Mapping p es) = Suc (entries_depth es)"
| "depth (Sequence p ns) = Suc (elems_depth ns)"
| "entries_depth No_Entries = 1"
| "entries_depth (Entries k v es) = Suc (max (depth k) (max (depth v) (entries_depth es)))"
| "elems_depth [] = 1"
| "elems_depth (n # ns) = Suc (max (depth n) (elems_depth ns))"

lemma depth_length:
  "depth n \<le> length (node_text l n)"
  "entries_depth es \<le> Suc (length (entries_text l es))"
  "elems_depth ns \<le> Suc (length (elems_text l ns))"
  by (induction l n and l es and l ns rule: node_text_entries_text_elems_text.induct)
    (auto simp: line_def opt_text_def)

text \<open>The first code point of a node.\<close>

lemma node_text_first: "\<exists>c r. node_text l n = c # r \<and> c \<in> {34, 38, 33, 42, 91, 123}"
proof -
  have p: "\<exists>c s. props_text p @ d # r = c # s \<and> c \<in> {38, 33, d}" for p d r
    by (cases "fst p"; cases "snd p") (auto simp: props_text_def)
  show ?thesis
    using p [of _ 34] p [of _ 123] p [of _ 91] by (cases n) (auto, (metis (no_types) insert_iff singletonD)+)
qed

lemma skip_simps [simp]:
  "skip (spaces n @ us) = skip us" "skip (10 # us) = skip us" "skip (32 # us) = skip us"
  "skip (node_text l m @ r) = node_text l m @ r"
proof -
  show "skip (spaces n @ us) = skip us" by (induction n) (simp_all add: skip_def)
  obtain c s where "node_text l m = c # s" "c \<in> {34, 38, 33, 42, 91, 123}" using node_text_first by blast
  then show "skip (node_text l m @ r) = node_text l m @ r" by (auto simp: skip_def)
qed (simp_all add: skip_def)

lemma expect_simps [simp]:
  "expect c (spaces n @ us) = expect c us" "expect c (10 # us) = expect c us" "expect c (32 # us) = expect c us"
  "u \<noteq> 32 \<Longrightarrow> u \<noteq> 10 \<Longrightarrow> expect c (u # us) = (if u = c then Some us else None)"
  by (simp_all add: expect_def) (simp add: skip_def)

lemma expect_node: "expect 93 (node_text l n @ r) = None"
proof -
  obtain c s where "node_text l n = c # s" "c \<in> {34, 38, 33, 42, 91, 123}" using node_text_first by blast
  then show ?thesis by auto
qed

lemma line_texts:
  "line l Y_key t = spaces l @ 63 # 32 # t @ [10]" "line l Y_value t = spaces l @ 58 # 32 # t @ [44, 10]"
  "line l Y_elem t = spaces l @ t @ [44, 10]"
  by (simp_all add: line_def opt_text_def)

lemma props_cases:
  assumes "tag_ok (snd p)" and "c \<notin> {33, 38}"
  obtains r1 where "read_anchor (props_text p @ c # r) = (fst p, r1)" and "read_tag r1 = (snd p, c # r)"
  using read_props_text [OF assms, of r] by (cases "read_anchor (props_text p @ c # r)") auto

lemma concat_length: "list_all code_point us \<Longrightarrow> length us \<le> length (concat (map scalar_char us))"
proof (induction us)
  case (Cons u us)
  then have "scalar_char u \<noteq> []" using read_scalar_char(2) by simp
  with Cons show ?case by (cases "scalar_char u") auto
qed simp

lemma read_newline:
  "read_node m (10 # us) = read_node m us" "read_entries m (10 # us) = read_entries m us" "read_items m (10 # us) = read_items m us"
proof -
  show n: "read_node m (10 # us) = read_node m us" for m by (cases m) simp_all
  show "read_entries m (10 # us) = read_entries m us" by (cases m) (simp_all split: option.split)
  show "read_items m (10 # us) = read_items m us" by (cases m) (simp_all add: n split: option.split)
qed

lemma read_spec:
  "doc_ok n \<Longrightarrow> depth n \<le> f \<Longrightarrow> skip us = node_text l n @ r \<Longrightarrow> read_node f us = Some (n, r)"
  "entries_ok es \<Longrightarrow> entries_depth es \<le> f \<Longrightarrow> read_entries f (entries_text l es @ spaces i @ 125 # r) = Some (es, r)"
  "elems_ok ns \<Longrightarrow> elems_depth ns \<le> f \<Longrightarrow> read_items f (elems_text l ns @ spaces i @ 93 # r) = Some (ns, r)"
proof (induction l n and l es and l ns arbitrary: f us r and f i r and f i r rule: node_text_entries_text_elems_text.induct)
  case (1 l a)
  then obtain f' where f: "f = Suc f'" by (cases f) auto
  have "skip us = 42 # ucs (int_digits (int a)) @ 32 # r" using 1 by simp
  then show ?case using read_number [of a r] by (simp add: f read_anchor_def read_tag_def)
next
  case (2 l p vs)
  then obtain f' where f: "f = Suc f'" by (cases f) auto
  let ?b = "concat (map scalar_char vs) @ 34 # r"
  have ok: "tag_ok (snd p)" "list_all code_point vs" using 2 by auto
  obtain r1 where r1: "read_anchor (props_text p @ 34 # ?b) = (fst p, r1)" "read_tag r1 = (snd p, 34 # ?b)"
    using props_cases [OF ok(1), of 34 ?b] by auto
  have "skip us = props_text p @ 34 # ?b" using 2 by simp
  moreover have "read_body (Suc (length ?b)) ?b = Some (vs, r)"
    using concat_length [OF ok(2)] by (intro read_scalar_body [OF ok(2)]) simp
  ultimately show ?case using r1 by (simp add: f del: read_body.simps)
next
  case (3 l p es)
  then obtain f' where f: "f = Suc f'" by (cases f) auto
  let ?b = "entries_text (Suc l) es @ spaces l @ 125 # r"
  have ok: "tag_ok (snd p)" using 3 by auto
  obtain r1 where r1: "read_anchor (props_text p @ 123 # 10 # ?b) = (fst p, r1)" "read_tag r1 = (snd p, 123 # 10 # ?b)"
    using props_cases [OF ok, of 123 "10 # ?b"] by auto
  have e: "read_entries f' ?b = Some (es, r)" using 3 f by auto
  then have "read_entries f' (10 # ?b) = Some (es, r)" by (simp add: read_newline)
  moreover have "skip us = props_text p @ 123 # 10 # ?b" using 3 by simp
  ultimately show ?case using r1 by (simp add: f)
next
  case (4 l p ns)
  then obtain f' where f: "f = Suc f'" by (cases f) auto
  let ?b = "elems_text (Suc l) ns @ spaces l @ 93 # r"
  have ok: "tag_ok (snd p)" using 4 by auto
  obtain r1 where r1: "read_anchor (props_text p @ 91 # 10 # ?b) = (fst p, r1)" "read_tag r1 = (snd p, 91 # 10 # ?b)"
    using props_cases [OF ok, of 91 "10 # ?b"] by auto
  have e: "read_items f' ?b = Some (ns, r)" using 4 f by auto
  then have "read_items f' (10 # ?b) = Some (ns, r)" by (simp add: read_newline)
  moreover have "skip us = props_text p @ 91 # 10 # ?b" using 4 by simp
  ultimately show ?case using r1 by (simp add: f)
next
  case (5 l)
  then show ?case by (cases f) auto
next
  case (6 l k v es)
  then obtain f' where f: "f = Suc f'" "depth k \<le> f'" "depth v \<le> f'" "entries_depth es \<le> f'" by (cases f) auto
  have 1: "read_node f' (32 # node_text l k @ s) = Some (k, s)" for s using 6 f by auto
  have 2: "read_node f' (32 # node_text l v @ s) = Some (v, s)" for s using 6 f by auto
  have 3: "read_entries f' (entries_text l es @ spaces j @ 125 # s) = Some (es, s)" for j s using 6 f by auto
  then have "read_entries f' (10 # entries_text l es @ spaces j @ 125 # s) = Some (es, s)" for j s
    by (simp add: read_newline)
  then show ?case using 1 2 by (simp add: f(1) line_texts)
next
  case (7 l)
  then show ?case by (cases f) auto
next
  case (8 l m ms)
  then obtain f' where f: "f = Suc f'" "depth m \<le> f'" "elems_depth ms \<le> f'" by (cases f) auto
  have 1: "read_node f' (spaces j @ node_text l m @ s) = Some (m, s)" for s j using 8 f by auto
  have 2: "read_items f' (elems_text l ms @ spaces j @ 93 # s) = Some (ms, s)" for j s using 8 f by auto
  then have "read_items f' (10 # elems_text l ms @ spaces j @ 93 # s) = Some (ms, s)" for j s
    by (simp add: read_newline)
  then show ?case using 1 by (simp add: f(1) line_texts expect_node)
qed

subsection \<open>Streams\<close>

lemma emit_document:
  assumes "anchors_from n 1 = Some k"
  shows "emit n gu_new_yaml = Done (node_done n k gu_new_yaml)"
  using assms by (intro emit_spec) (simp_all add: at_line_def gu_new_yaml_def)

lemma read_document_line:
  assumes "doc_ok n"
  shows "read_document (line 0 Y_document (node_text 0 n)) = Some n"
proof -
  let ?s = "line 0 Y_document (node_text 0 n)"
  let ?r = "[10, 46, 46, 46, 10, 10] :: utext"
  have s: "?s = 45 # 45 # 45 # 10 # node_text 0 n @ ?r" by (simp add: line_def opt_text_def)
  have "read_node (length ?s) (node_text 0 n @ ?r) = Some (n, ?r)"
  proof (rule read_spec(1) [OF assms])
    show "depth n \<le> length ?s" using depth_length(1) [of n 0] by (simp add: s)
  qed simp
  then show ?thesis by (simp add: read_document_def s)
qed

text \<open>C29. What the emitter of \<open>gu/yaml.c\<close> writes for a document can be read back: for every document, of mappings, sequences, scalars of any
  code points, aliases, tags and anchors numbered in the order of the text, the calls that emit it, from a new emitter, violate none of
  its assertions, leave it ready for the next document with no collection open, and the text that they write is read by the reference
  reader as the same document. So no scalar is cut short by a quote of its own, no escape is taken for another character, and nodes do
  not run into each other.
\<close>

theorem yaml_roundtrip:
  assumes "doc_ok n" and "anchors_from n 1 = Some k"
  shows "\<exists>y. emit n gu_new_yaml = Done y \<and> at_line y \<and> ystate y = Y_document \<and> ystack y = [] \<and> indent_level y = 0 \<and>
    next_anchor y = int k \<and> read_document (ytext y) = Some n"
  using emit_document [OF assms(2)] read_document_line [OF assms(1)]
  by (simp add: emitted_def at_line_def gu_new_yaml_def)

definition sample_document :: ynode where
  "sample_document =
     Mapping (Some 1, Some ''Expr'')
       (Entries (Scalar (None, None) [97, 34, 92]) (Sequence (Some 2, None) [Alias 1, Scalar (None, Some ''Meta'') [7, 128, 65534, 955]])
         No_Entries)"

theorem yaml_roundtrip_witness:
  "\<exists>y. emit sample_document gu_new_yaml = Done y \<and> at_line y \<and> ystate y = Y_document \<and> ystack y = [] \<and> indent_level y = 0 \<and>
    next_anchor y = int 3 \<and> read_document (ytext y) = Some sample_document"
  by (rule yaml_roundtrip) (simp_all add: sample_document_def tag_ok_def code_point_def props_from_def)

end
