(* ===== verification/DumpDoc.thy ===== *)
theory DumpDoc
  imports Dump YamlRead
begin

text \<open>
  What a dump shows: the document of a value, a tree that is computed from the memory without an emitter. Dumping a value emits its
  document, and the text is read back as that document.
\<close>

subsection \<open>The document of a value\<close>

text \<open>The state is the number of the next anchor and the data that the dumpers pass along. The first argument of a document maker
  is the anchor that the node already has.\<close>

type_synonym doc_state = "nat \<times> DumpData"
type_synonym doc_maker = "nat option \<Rightarrow> GuType \<Rightarrow> u64 \<Rightarrow> doc_state \<Rightarrow> (ynode \<times> doc_state) run"

definition doc_string :: "GuString \<Rightarrow> str_heap \<Rightarrow> nat option \<Rightarrow> doc_state \<Rightarrow> (ynode \<times> doc_state) run" where
  "doc_string s h a st =
     bindR (string_codes s h) (\<lambda>(us, e). Done (Scalar (a, None) us, fst st, note_exn e (snd st)))"

definition doc_text :: "dump_env \<Rightarrow> string \<Rightarrow> nat option \<Rightarrow> doc_state \<Rightarrow> (ynode \<times> doc_state) run" where
  "doc_text E txt a st = bindR (gu_utf8_string (map of_char txt) (strs (memory E))) (\<lambda>(s, h). doc_string s h a st)"

definition doc_cstr :: "dump_env \<Rightarrow> string \<Rightarrow> nat option \<Rightarrow> doc_state \<Rightarrow> (ynode \<times> doc_state) run" where
  "doc_cstr E str a st = bindR (gu_str_string (map of_char str @ [0]) (strs (memory E))) (\<lambda>(s, h). doc_string s h a st)"

definition doc_null :: "nat option \<Rightarrow> doc_state \<Rightarrow> (ynode \<times> doc_state) run" where
  "doc_null a st = Done (Scalar (a, Some ''!null'') [], st)"

fun doc_array :: "doc_maker \<Rightarrow> GuType \<Rightarrow> u64 \<Rightarrow> u64 \<Rightarrow> nat \<Rightarrow> nat \<Rightarrow> doc_state \<Rightarrow> (ynode list \<times> doc_state) run" where
  "doc_array doc et base esz i 0 st = Done ([], st)"
| "doc_array doc et base esz i (Suc k) st =
     bindR (doc None et (base + of_nat i * esz) st) (\<lambda>(d, st).
     bindR (doc_array doc et base esz (Suc i) k st) (\<lambda>(ds, st). Done (d # ds, st)))"

definition doc_sequence ::
    "doc_maker \<Rightarrow> dump_env \<Rightarrow> GuType \<Rightarrow> u64 \<Rightarrow> nat \<Rightarrow> nat option \<Rightarrow> doc_state \<Rightarrow> (ynode \<times> doc_state) run" where
  "doc_sequence doc E et base len a st =
     bindR (doc_array doc et base (type_size E et) 0 len st) (\<lambda>(ds, st). Done (Sequence (a, None) ds, st))"

fun doc_entries :: "doc_maker \<Rightarrow> GuType \<Rightarrow> GuType \<Rightarrow> (u64 \<times> u64) list \<Rightarrow> doc_state \<Rightarrow> (yentries \<times> doc_state) run" where
  "doc_entries doc kt vt [] st = Done (No_Entries, st)"
| "doc_entries doc kt vt ((key, val) # es) st =
     bindR (doc None kt key st) (\<lambda>(k, st). bindR (doc None vt val st) (\<lambda>(v, st).
     bindR (doc_entries doc kt vt es st) (\<lambda>(ds, st). Done (Entries k v ds, st))))"

fun doc_members :: "doc_maker \<Rightarrow> dump_env \<Rightarrow> u64 \<Rightarrow> nat \<Rightarrow> GuMember list \<Rightarrow> doc_state \<Rightarrow> (yentries \<times> doc_state) run" where
  "doc_members doc E p i [] st = Done (No_Entries, st)"
| "doc_members doc E p i (m # ms) st =
     bindR (doc_cstr E (m_name m) None st) (\<lambda>(k, st).
     bindR (if is_flex m
            then bindR (local_length i (snd st)) (\<lambda>len.
              gu_assert (len \<noteq> - 1) (doc_sequence doc E (m_type m) (p + offset m) (unat len) None st))
            else doc None (m_type m) (p + offset m) st) (\<lambda>(v, st).
     bindR (doc_members doc E p i ms st) (\<lambda>(ds, st). Done (Entries k v ds, st))))"

text \<open>A shared value is shown where it is first met. A node has only one anchor.\<close>

definition doc_shared :: "doc_maker \<Rightarrow> GuType \<Rightarrow> u64 \<Rightarrow> nat option \<Rightarrow> doc_state \<Rightarrow> (ynode \<times> doc_state) run" where
  "doc_shared doc type v a st =
     gu_assert (a = None)
       (case anchors (snd st) v of
          None \<Rightarrow> doc (Some (fst st)) type v (Suc (fst st), (snd st)\<lparr>anchors := (anchors (snd st))(v \<mapsto> fst st)\<rparr>)
        | Some j \<Rightarrow> Done (Alias j, st))"

fun doc_fn :: "GuDumpFn \<Rightarrow> doc_maker \<Rightarrow> dump_env \<Rightarrow> type_info run \<Rightarrow> doc_maker" where
  "doc_fn Dump_int doc E t a type p st = bindR (int_at (memory E) p) (\<lambda>i. doc_text E (int_digits i) a st)"
| "doc_fn Dump_uint16 doc E t a type p st = bindR (int_at (memory E) p) (\<lambda>i. doc_text E (int_digits i) a st)"
| "doc_fn Dump_int32 doc E t a type p st = bindR (int_at (memory E) p) (\<lambda>i. doc_text E (int_digits i) a st)"
| "doc_fn Dump_size doc E t a type p st = bindR (int_at (memory E) p) (\<lambda>i. doc_text E (int_digits i) a st)"
| "doc_fn Dump_double doc E t a type p st = bindR (double_at (memory E) p) (\<lambda>d. doc_text E (print_lf E d) a st)"
| "doc_fn Dump_length doc E t a type p st =
     bindR (int_at (memory E) p) (\<lambda>i. bindR (doc_text E (length_digits (word_of_int i)) a st) (\<lambda>(d, st).
       bindR (set_length (word_of_int i) (snd st)) (\<lambda>dt. Done (d, fst st, dt))))"
| "doc_fn Dump_str doc E t a type p st = bindR (cstr_at (memory E) p) (\<lambda>s. doc_cstr E s a st)"
| "doc_fn Dump_string doc E t a type p st = bindR (str_at (memory E) p) (\<lambda>s. doc_string s (strs (memory E)) a st)"
| "doc_fn Dump_enum doc E t a type p st =
     bindR t (\<lambda>t. case t of
       GuEnumType esize constants \<Rightarrow>
         bindR (int_at (memory E) p) (\<lambda>c.
           case gu_enum_value esize constants c of
             None \<Rightarrow> Fault (Abort GU_ASSERT_ASSERTION) | Some cp \<Rightarrow> doc_cstr E (e_name cp) a st)
     | _ \<Rightarrow> Fault Out_Of_Bounds)"
| "doc_fn Dump_struct doc E t a type p st =
     bindR t (\<lambda>t. case t of
       GuStructRepr members \<Rightarrow>
         bindR (doc_members doc E p (next_frame (snd st)) members (fst st, enter_struct (snd st))) (\<lambda>(ds, k, dt).
           Done (Mapping (a, None) ds, k, leave_struct (next_frame (snd st)) (length_ref (snd st)) dt))
     | _ \<Rightarrow> Fault Out_Of_Bounds)"
| "doc_fn Dump_pointer doc E t a type p st =
     bindR t (\<lambda>t. case t of
       GuPointerType pointed \<Rightarrow> bindR (ptr_at (memory E) p) (\<lambda>v. if v = 0 then doc_null a st else doc a pointed v st)
     | _ \<Rightarrow> Fault Out_Of_Bounds)"
| "doc_fn Dump_map doc E t a type p st =
     bindR t (\<lambda>t. case t of
       GuMapType kt vt \<Rightarrow>
         bindR (map_at (memory E) p) (\<lambda>es. bindR (doc_entries doc kt vt es st) (\<lambda>(ds, st). Done (Mapping (a, None) ds, st)))
     | _ \<Rightarrow> Fault Out_Of_Bounds)"
| "doc_fn Dump_alias doc E t a type p st = bindR t (\<lambda>t. case t of GuTypeAlias u \<Rightarrow> doc a u p st | _ \<Rightarrow> Fault Out_Of_Bounds)"
| "doc_fn Dump_referenced doc E t a type p st =
     bindR t (\<lambda>t. case t of GuTypeAlias u \<Rightarrow> doc_shared doc u p a st | _ \<Rightarrow> Fault Out_Of_Bounds)"
| "doc_fn Dump_reference doc E t a type p st =
     bindR t (\<lambda>t. case t of
       GuPointerType pointed \<Rightarrow>
         bindR (ptr_at (memory E) p) (\<lambda>v. if v = 0 then doc_null a st else doc_shared doc pointed v a st)
     | _ \<Rightarrow> Fault Out_Of_Bounds)"
| "doc_fn Dump_shared doc E t a type p st =
     bindR t (\<lambda>t. case t of
       GuPointerType pointed \<Rightarrow>
         bindR (ptr_at (memory E) p) (\<lambda>v. if v = 0 then doc_null a st else doc_shared doc pointed v a st)
     | _ \<Rightarrow> Fault Out_Of_Bounds)"
| "doc_fn Dump_list doc E t a type p st =
     bindR t (\<lambda>t. case t of
       GuListType et off \<Rightarrow> bindR (int_at (memory E) p) (\<lambda>len. doc_sequence doc E et (p + off) (nat len) a st)
     | _ \<Rightarrow> Fault Out_Of_Bounds)"
| "doc_fn Dump_variant doc E t a type p st =
     bindR t (\<lambda>t. case t of
       GuVariantType ctors \<Rightarrow>
         bindR (variant_at (memory E) p) (\<lambda>(tag, d).
           case find (\<lambda>c. c_tag c = tag) ctors of
             None \<Rightarrow> Fault (Abort GU_ASSERT_ASSERTION)
           | Some c \<Rightarrow>
               bindR (doc_cstr E (c_name c) None st) (\<lambda>(k, st).
               bindR (doc None (c_type c) d st) (\<lambda>(v, st). Done (Mapping (a, None) (Entries k v No_Entries), st))))
     | _ \<Rightarrow> Fault Out_Of_Bounds)"
| "doc_fn Dump_seq doc E t a type p st =
     bindR t (\<lambda>t. case t of
       GuSeqType et \<Rightarrow>
         bindR (cell_at (memory E) p) (\<lambda>c. case c of
           C_Seq None \<Rightarrow> doc_null a st
         | C_Seq (Some (d, len)) \<Rightarrow> doc_sequence doc E et d len a st
         | _ \<Rightarrow> Fault Out_Of_Bounds)
     | _ \<Rightarrow> Fault Out_Of_Bounds)"

fun doc_of :: "nat \<Rightarrow> dump_env \<Rightarrow> doc_maker" where
  "doc_of 0 E a type p st = Out_Of_Fuel"
| "doc_of (Suc n) E a type p st =
     (case gu_type_map_get (gu_new_type_map gu_dump_table) type of
        None \<Rightarrow> Fault Null_Deref
      | Some f \<Rightarrow> doc_fn f (doc_of n E) E (described E type) a type p st)"

subsection \<open>Dumpers emit documents\<close>

text \<open>A node that is about to be written after \<open>y0\<close>, with or without its anchor.\<close>

definition pending :: "nat option \<Rightarrow> nat \<Rightarrow> GuYaml \<Rightarrow> GuYaml \<Rightarrow> bool" where
  "pending a k y0 y \<longleftrightarrow>
     at_line y0 \<and> (\<exists>j. next_anchor y0 = int j \<and> props_from (a, None) j = Some k) \<and> emit_props (a, None) y0 = Done y"

lemma pending_None: "at_line y \<Longrightarrow> next_anchor y = int k \<Longrightarrow> pending None k y y"
  by (simp add: pending_def props_from_def emit_props_def)

lemma pending_scalar:
  assumes "pending a k y0 y"
  shows "gu_yaml_scalar us y = Done (node_done (Scalar (a, None) us) k y0)"
proof -
  obtain j where j: "at_line y0" "next_anchor y0 = int j" "props_from (a, None) j = Some k" "emit_props (a, None) y0 = Done y"
    using assms by (auto simp: pending_def)
  from emit_scalar [OF j(1-3), of us] j(4) show ?thesis by simp
qed

lemma pending_null:
  assumes "pending a k y0 y"
  shows "bindR (gu_yaml_tag_secondary ''null'' y) (gu_yaml_scalar []) = Done (node_done (Scalar (a, Some ''!null'') []) k y0)"
proof -
  obtain j where j: "at_line y0" "next_anchor y0 = int j" "props_from (a, None) j = Some k" "emit_props (a, None) y0 = Done y"
    using assms by (auto simp: pending_def)
  have p: "props_from (a, Some ''!null'') j = Some k" using j(3) by (simp add: props_from_def)
  have "emit_props (a, Some ''!null'') y0 = gu_yaml_tag ''!null'' y" using j(4) by (cases a) (auto simp: emit_props_def run_simps)
  with emit_scalar [OF j(1,2) p, of "[]"] show ?thesis by (simp add: gu_yaml_tag_secondary_def)
qed

lemma pending_begin:
  assumes "pending a k y0 y"
  shows "gu_yaml_begin_mapping y = opened F_mapping (a, None) k y0" and "gu_yaml_begin_sequence y = opened F_sequence (a, None) k y0"
proof -
  obtain j where j: "at_line y0" "next_anchor y0 = int j" "props_from (a, None) j = Some k" "emit_props (a, None) y0 = Done y"
    using assms by (auto simp: pending_def)
  have "gu_yaml_begin_node y = started (a, None) k y0" using emit_props_spec [OF j(1-3)] j(4) by simp
  from begin_spec [OF j(1) this] show "gu_yaml_begin_mapping y = opened F_mapping (a, None) k y0"
    and "gu_yaml_begin_sequence y = opened F_sequence (a, None) k y0"
    by (simp_all add: gu_yaml_begin_mapping_def gu_yaml_begin_sequence_def)
qed

lemma pending_twice:
  assumes "pending (Some b) k y0 y"
  shows "gu_yaml_anchor y = Fault (Abort GU_ASSERT_ASSERTION)" and "gu_yaml_alias c y = Fault (Abort GU_ASSERT_ASSERTION)"
proof -
  obtain j where j: "at_line y0" "next_anchor y0 = int j" "props_from (Some b, None) j = Some k" "emit_props (Some b, None) y0 = Done y"
    using assms by (auto simp: pending_def)
  have "gu_yaml_begin_node y = started (Some b, None) k y0" using emit_props_spec [OF j(1-3)] j(4) by simp
  then have "have_anchor (gu_yaml_begin_node y)" by (simp add: started_def)
  then show "gu_yaml_anchor y = Fault (Abort GU_ASSERT_ASSERTION)" "gu_yaml_alias c y = Fault (Abort GU_ASSERT_ASSERTION)"
    by (simp_all add: gu_yaml_anchor_def gu_yaml_alias_def gu_assert_def)
qed

lemma pending_anchor:
  assumes "pending None k y0 y"
  shows "\<exists>y1. gu_yaml_anchor y = Done (int k, y1) \<and> pending (Some k) (Suc k) y0 y1"
proof -
  have y: "y = y0" "at_line y0" "next_anchor y0 = int k"
    using assms by (auto simp: pending_def emit_props_def props_from_def)
  then have "\<exists>y1. gu_yaml_anchor y0 = Done (int k, y1)"
    by (cases y0) (simp add: gu_yaml_anchor_def begin_node_at at_line_def gu_assert_def Let_def)
  then obtain y1 where "gu_yaml_anchor y0 = Done (int k, y1)" by blast
  with y show ?thesis by (simp add: pending_def emit_props_def props_from_def)
qed

lemma pending_alias:
  assumes "pending None k y0 y"
  shows "gu_yaml_alias (int j) y = Done (node_done (Alias j) k y0)"
proof -
  have "y = y0" "at_line y0" "next_anchor y0 = int k"
    using assms by (auto simp: pending_def emit_props_def props_from_def)
  then show ?thesis using emit_alias [of y0 k j] by simp
qed

text \<open>The contract of a dumper: it emits the document, passes on the data, and fails exactly if there is no document.\<close>

definition finished :: "GuDump \<Rightarrow> GuYaml \<Rightarrow> (ynode \<times> doc_state) run \<Rightarrow> GuDump run" where
  "finished ctx y0 r = bindR r (\<lambda>(d, k, dt). Done (ctx\<lparr>yaml := node_done d k y0, data := dt\<rparr>))"

definition plain :: "GuDump \<Rightarrow> bool" where
  "plain ctx \<longleftrightarrow> \<not> print_address ctx \<and> print_shared ctx"

definition dumps :: "dumper \<Rightarrow> doc_maker \<Rightarrow> bool" where
  "dumps f g \<longleftrightarrow>
     (\<forall>a type p ctx y0 k. plain ctx \<longrightarrow> pending a k y0 (yaml ctx) \<longrightarrow> f type p ctx = finished ctx y0 (g a type p (k, data ctx)))"

lemma dumpsD: "dumps f g \<Longrightarrow> plain ctx \<Longrightarrow> pending a k y0 (yaml ctx) \<Longrightarrow> f type p ctx = finished ctx y0 (g a type p (k, data ctx))"
  by (auto simp: dumps_def)

lemma plain_simps [simp]: "plain (ctx\<lparr>yaml := y\<rparr>) = plain ctx" "plain (ctx\<lparr>data := d\<rparr>) = plain ctx"
  by (simp_all add: plain_def)

lemma finished_simps [simp]:
  "finished ctx y0 (Done (d, k, dt)) = Done (ctx\<lparr>yaml := node_done d k y0, data := dt\<rparr>)"
  "finished ctx y0 (Fault e) = Fault e" "finished ctx y0 Out_Of_Fuel = Out_Of_Fuel"
  "finished ctx y0 (bindR m f) = bindR m (\<lambda>x. finished ctx y0 (f x))"
  "bindR (finished ctx y0 q) h = bindR q (\<lambda>(d, k, dt). h (ctx\<lparr>yaml := node_done d k y0, data := dt\<rparr>))"
  "finished ctx y0 (gu_assert c r) = gu_assert c (finished ctx y0 r)"
  by (auto simp: finished_def bindR_assoc gu_assert_def intro!: bindR_cong)

lemma yaml_string_doc:
  assumes "pending a k y0 (yaml ctx)"
  shows "yaml_string s h ctx = finished ctx y0 (doc_string s h a (k, data ctx))"
  using pending_scalar [OF assms] by (auto simp: yaml_string_def doc_string_def intro!: bindR_cong)

lemma scalar_docs:
  assumes "pending a k y0 (yaml ctx)"
  shows "gu_dump_scalar E txt ctx = finished ctx y0 (doc_text E txt a (k, data ctx))"
    and "gu_dump_str_scalar E txt ctx = finished ctx y0 (doc_cstr E txt a (k, data ctx))"
    and "gu_dump_null ctx = finished ctx y0 (doc_null a (k, data ctx))"
  using yaml_string_doc [OF assms] pending_null [OF assms]
  by (auto simp: gu_dump_scalar_def doc_text_def gu_dump_str_scalar_def doc_cstr_def gu_dump_null_def doc_null_def intro!: bindR_cong)

text \<open>Between two elements, keys or values.\<close>

definition ready :: "GuYamlState \<Rightarrow> nat \<Rightarrow> GuDump \<Rightarrow> bool" where
  "ready s k ctx \<longleftrightarrow> plain ctx \<and> at_line (yaml ctx) \<and> ystate (yaml ctx) = s \<and> next_anchor (yaml ctx) = int k"

definition extend :: "utext \<Rightarrow> GuYamlState \<Rightarrow> GuDump \<Rightarrow> nat \<Rightarrow> DumpData \<Rightarrow> GuDump" where
  "extend t s ctx k dt = ctx\<lparr>yaml := (emitted t k (yaml ctx))\<lparr>ystate := s\<rparr>, data := dt\<rparr>"

abbreviation level :: "GuDump \<Rightarrow> nat" where "level ctx \<equiv> indent_level (yaml ctx)"

lemma extend_simps [simp]:
  "data (extend t s ctx k dt) = dt" "level (extend t s ctx k dt) = level ctx"
  "extend t' s' (extend t s ctx k dt) k' dt' = extend (t @ t') s' ctx k' dt'"
  by (simp_all add: extend_def emitted_def)

lemma ready_extend: "ready s k ctx \<Longrightarrow> ready s' k' (extend t s' ctx k' dt)"
  by (simp add: ready_def extend_def)

lemma extend_same: "ready s k ctx \<Longrightarrow> extend [] s ctx k (data ctx) = ctx"
  by (cases ctx, cases "yaml ctx") (auto simp: ready_def extend_def emitted_def)

lemma ready_node:
  assumes "dumps f g" and "ready s k ctx"
  shows "f type p ctx = bindR (g None type p (k, data ctx)) (\<lambda>(d, k', dt).
    Done (extend (line (level ctx) s (node_text (level ctx) d)) (state_next s) ctx k' dt))"
  using dumpsD [OF assms(1), of ctx None k "yaml ctx" type p] assms(2)
  by (simp add: ready_def pending_None finished_def extend_def)

lemma ready_cstr:
  assumes "ready s k ctx"
  shows "gu_dump_str_scalar E str ctx = bindR (doc_cstr E str None (k, data ctx)) (\<lambda>(d, k', dt).
    Done (extend (line (level ctx) s (node_text (level ctx) d)) (state_next s) ctx k' dt))"
  using scalar_docs(2) [of None k "yaml ctx" ctx E str] assms
  by (simp add: ready_def pending_None finished_def extend_def)

lemma array_docs:
  assumes "dumps f g"
  shows "ready Y_elem k ctx \<Longrightarrow> dump_array f et base esz i n ctx =
    bindR (doc_array g et base esz i n (k, data ctx)) (\<lambda>(ds, k', dt). Done (extend (elems_text (level ctx) ds) Y_elem ctx k' dt))"
proof (induction n arbitrary: i k ctx)
  case (Suc n)
  show ?case
    by (auto simp: ready_node [OF assms Suc.prems] bindR_assoc Suc.IH [OF ready_extend [OF Suc.prems]] intro!: bindR_cong)
qed (simp add: extend_same)

lemma entries_docs:
  assumes "dumps f g"
  shows "ready Y_key k ctx \<Longrightarrow> dump_entries f kt vt es ctx =
    bindR (doc_entries g kt vt es (k, data ctx)) (\<lambda>(ds, k', dt). Done (extend (entries_text (level ctx) ds) Y_key ctx k' dt))"
proof (induction es arbitrary: k ctx)
  case (Cons e es)
  obtain key val where e: "e = (key, val)" by (cases e)
  note r = ready_extend [OF Cons.prems]
  show ?case
    by (auto simp: e ready_node [OF assms Cons.prems] ready_node [OF assms r] bindR_assoc Cons.IH [OF r] intro!: bindR_cong)
qed (simp add: extend_same)

text \<open>A collection: from its opening bracket to the closing one.\<close>

lemma closed:
  assumes "pending a k y0 y"
  shows "gu_yaml_end (emitted t k' (opened c (a, None) k y0)\<lparr>ystate := s\<rparr>) =
    Done ((emitted (line (indent_level y0) (ystate y0) (props_text (a, None) @ ucs (class_open c) @ [10] @ t @ spaces (indent_level y0) @
      ucs (class_close c))) k' y0)\<lparr>ystate := state_next (ystate y0)\<rparr>)"
  using assms end_spec [where y = y0 and t = t and c = c and p = "(a, None)" and k = k and s = s] by (simp add: pending_def)

lemma ready_opened:
  assumes "plain ctx" and "pending a k y0 y"
  shows "ready (class_first c) k (ctx\<lparr>yaml := opened c (a, None) k y0\<rparr>)"
    and "level (ctx\<lparr>yaml := opened c (a, None) k y0\<rparr>) = Suc (indent_level y0)"
  using assms by (simp_all add: ready_def pending_def)

lemma sequence_docs:
  assumes "dumps f g" and "plain ctx" and "pending a k y0 (yaml ctx)"
  shows "dump_sequence f E et base len ctx = finished ctx y0 (doc_sequence g E et base len a (k, data ctx))"
  using array_docs [OF assms(1), OF ready_opened(1) [OF assms(2,3), of F_sequence, simplified]] closed [OF assms(3)]
  by (auto simp: dump_sequence_def doc_sequence_def pending_begin [OF assms(3)] bindR_assoc extend_def intro!: bindR_cong)

lemma ready_sequence:
  assumes "dumps f g" and "ready s k ctx"
  shows "dump_sequence f E et base len ctx = bindR (doc_sequence g E et base len None (k, data ctx)) (\<lambda>(d, k', dt).
    Done (extend (line (level ctx) s (node_text (level ctx) d)) (state_next s) ctx k' dt))"
  using sequence_docs [OF assms(1), of ctx None k "yaml ctx"] assms(2)
  by (simp add: ready_def pending_None finished_def extend_def)

lemma members_docs:
  assumes "dumps f g"
  shows "ready Y_key k ctx \<Longrightarrow> dump_members f E p i ms ctx =
    bindR (doc_members g E p i ms (k, data ctx)) (\<lambda>(ds, k', dt). Done (extend (entries_text (level ctx) ds) Y_key ctx k' dt))"
proof (induction ms arbitrary: k ctx)
  case (Cons m ms)
  note r = ready_extend [OF Cons.prems]
  show ?case
    by (auto simp: ready_cstr [OF Cons.prems] ready_node [OF assms r] ready_sequence [OF assms r] bindR_assoc Cons.IH [OF r] gu_assert_def
        intro!: bindR_cong)
qed (simp add: extend_same)

lemma map_docs:
  assumes "dumps f g" and "plain ctx" and "pending a k y0 (yaml ctx)"
  shows "bindR (dump_entries f kt vt es (ctx\<lparr>yaml := gu_yaml_begin_mapping (yaml ctx)\<rparr>)) (\<lambda>ctx. with_yaml ctx (gu_yaml_end (yaml ctx))) =
    finished ctx y0 (bindR (doc_entries g kt vt es (k, data ctx)) (\<lambda>(ds, st). Done (Mapping (a, None) ds, st)))"
  using entries_docs [OF assms(1), OF ready_opened(1) [OF assms(2,3), of F_mapping, simplified]] closed [OF assms(3)]
  by (auto simp: pending_begin [OF assms(3)] bindR_assoc extend_def intro!: bindR_cong)

lemma struct_docs:
  assumes "dumps f g" and "plain ctx" and "pending a k y0 (yaml ctx)"
  shows "bindR (dump_members f E p i ms (ctx\<lparr>yaml := gu_yaml_begin_mapping (yaml ctx), data := dt\<rparr>)) (\<lambda>ctx.
      bindR (gu_yaml_end (yaml ctx)) (\<lambda>y. Done (ctx\<lparr>yaml := y, data := h (data ctx)\<rparr>))) =
    finished ctx y0 (bindR (doc_members g E p i ms (k, dt)) (\<lambda>(ds, k', dt'). Done (Mapping (a, None) ds, k', h dt')))"
proof -
  have "ready Y_key k (ctx\<lparr>yaml := opened F_mapping (a, None) k y0, data := dt\<rparr>)"
    using assms(2,3) by (simp add: ready_def pending_def)
  from members_docs [OF assms(1) this] closed [OF assms(3)] show ?thesis
    by (auto simp: pending_begin [OF assms(3)] bindR_assoc extend_def intro!: bindR_cong)
qed

lemma variant_docs:
  assumes "dumps f g" and "plain ctx" and "pending a k y0 (yaml ctx)"
  shows "bindR (gu_dump_str_scalar E s (ctx\<lparr>yaml := gu_yaml_begin_mapping (yaml ctx)\<rparr>)) (\<lambda>ctx.
      bindR (f type p ctx) (\<lambda>ctx. with_yaml ctx (gu_yaml_end (yaml ctx)))) =
    finished ctx y0 (bindR (doc_cstr E s None (k, data ctx)) (\<lambda>(d, st). bindR (g None type p st) (\<lambda>(v, st).
      Done (Mapping (a, None) (Entries d v No_Entries), st))))"
proof -
  note r = ready_opened(1) [OF assms(2,3), of F_mapping, simplified]
  show ?thesis
    using ready_cstr [OF r] ready_node [OF assms(1) ready_extend [OF r]] closed [OF assms(3)]
    by (auto simp: pending_begin [OF assms(3)] bindR_assoc extend_def emitted_def intro!: bindR_cong)
qed

lemma shared_docs:
  assumes "dumps f g" and "plain ctx" and "pending a k y0 (yaml ctx)"
  shows "bindR (gu_dump_anchor v ctx) (\<lambda>(created, ctx). if created then f type v ctx else Done ctx) =
    finished ctx y0 (doc_shared g type v a (k, data ctx))"
proof (cases a)
  case None
  with assms(3) have p: "pending None k y0 (yaml ctx)" by simp
  obtain y1 where "gu_yaml_anchor (yaml ctx) = Done (int k, y1)" "pending (Some k) (Suc k) y0 y1" using pending_anchor [OF p] by blast
  then show ?thesis
    using None pending_alias [OF p] assms(2)
    by (auto simp: gu_dump_anchor_def doc_shared_def gu_assert_def finished_def dumpsD [OF assms(1)] split: option.split)
next
  case (Some b)
  with assms(3) have p: "pending (Some b) k y0 (yaml ctx)" by simp
  from Some pending_twice [OF p] show ?thesis
    by (auto simp: gu_dump_anchor_def doc_shared_def gu_assert_def split: option.split)
qed

lemma dump_fn_docs:
  assumes "dumps f g"
  shows "dumps (dump_fn d f E) (\<lambda>a type. doc_fn d g E (described E type) a type)"
  unfolding dumps_def
proof (intro allI impI)
  fix a type p ctx y0 k
  assume c: "plain ctx" and p: "pending a k y0 (yaml ctx)"
  have ps: "print_shared ctx" using c by (simp add: plain_def)
  note docs = scalar_docs [OF p] yaml_string_doc [OF p] sequence_docs [OF assms c p] map_docs [OF assms c p] struct_docs [OF assms c p]
    variant_docs [OF assms c p] shared_docs [OF assms c p] dumpsD [OF assms c p]
  show "dump_fn d f E type p ctx = finished ctx y0 (doc_fn d g E (described E type) a type p (k, data ctx))"
    by (cases d)
      (auto simp: docs ps gu_dump_int_def gu_dump_uint16_def gu_dump_int32_def gu_dump_size_def gu_dump_double_def gu_dump_str_def gu_dump_length_def
        gu_dump_string_def gu_dump_enum_def gu_dump_struct_def gu_dump_pointer_def gu_dump_map_def gu_dump_alias_def
        gu_dump_referenced_def gu_dump_reference_def gu_dump_shared_def gu_dump_list_def gu_dump_variant_def gu_dump_seq_def Let_def
        intro!: bindR_cong split: type_info.split option.split cell.split)
qed

lemma gu_dump_docs: "dumps (gu_dump n E) (doc_of n E)"
proof (induction n)
  case (Suc n)
  have "dumps (dump_fn d (gu_dump n E) E) (\<lambda>a type. doc_fn d (doc_of n E) E (described E type) a type)" for d
    by (rule dump_fn_docs [OF Suc])
  then show ?case by (auto simp: dumps_def address_comment_def plain_def split: option.split)
qed (simp add: dumps_def)

subsection \<open>Documents are well formed\<close>

lemma decode_one_point: "gu_utf8_decode_one bs = Done (Some (u, n)) \<Longrightarrow> code_point u"
  by (auto simp: gu_utf8_decode_one_def run_simps code_point_def gu_ucs_valid_def GU_UCS_MAX_def word_less_alt split: if_splits)

lemma utf8_slow_point: "gu_in_utf8_slow F i err = Done (u, i', None) \<Longrightarrow> code_point u"
  by (auto simp: gu_in_utf8_slow_def run_simps Let_def gu_raise_def split: if_splits option.splits dest: decode_one_point)

lemma read_ucs_point: "gu_read_ucs F i err = Done (u, i', None) \<Longrightarrow> code_point u"
  by (auto simp: gu_read_ucs_def gu_in_utf8_def run_simps code_point_def split: if_splits dest: utf8_slow_point)

lemma read_codes_points:
  "read_codes F n i err = Done (us, r, e) \<Longrightarrow> list_all code_point us"
proof (induction n arbitrary: i err us r e)
  case (Suc n)
  obtain u i1 err1 where u: "gu_read_ucs F i err = Done (u, i1, err1)" using Suc.prems by (auto simp: run_simps)
  show ?case
  proof (cases err1)
    case None
    with Suc.prems u obtain vs where "us = u # vs" "read_codes F n i1 None = Done (vs, r, e)" by (auto simp: run_simps)
    with Suc.IH u None read_ucs_point show ?thesis by auto
  qed (use Suc.prems u in auto)
qed simp

lemma string_codes_points: "string_codes s h = Done (us, e) \<Longrightarrow> list_all code_point us"
  by (auto simp: string_codes_def run_simps simp del: read_codes.simps dest: read_codes_points)

text \<open>The anchors that have been given: each to one address.\<close>

definition anchors_ok :: "nat \<Rightarrow> DumpData \<Rightarrow> bool" where
  "anchors_ok k dt \<longleftrightarrow>
     0 < k \<and> (\<forall>v j. anchors dt v = Some j \<longrightarrow> 0 < j \<and> j < k \<and> (\<forall>w. anchors dt w = Some j \<longrightarrow> w = v))"

definition numbered :: "ynode \<Rightarrow> nat \<Rightarrow> nat \<Rightarrow> DumpData \<Rightarrow> bool" where
  "numbered d j k dt \<longleftrightarrow> doc_ok d \<and> anchors_from d j = Some k \<and> anchors_ok k dt"

definition good :: "doc_maker \<Rightarrow> bool" where
  "good g \<longleftrightarrow>
     (\<forall>a type p k dt d k' dt' j. anchors_ok k dt \<longrightarrow> props_from (a, None) j = Some k \<longrightarrow> g a type p (k, dt) = Done (d, k', dt') \<longrightarrow>
        numbered d j k' dt')"

lemma goodD:
  "good g \<Longrightarrow> g a type p (k, dt) = Done (d, k', dt') \<Longrightarrow> anchors_ok k dt \<Longrightarrow> props_from (a, None) j = Some k \<Longrightarrow> numbered d j k' dt'"
  by (auto simp: good_def)

lemma props_from_None [simp]: "props_from (None, t) k = Some k" "props_from (a, Some s) j = props_from (a, None) j"
  by (simp_all add: props_from_def)

lemma anchors_ok_simps [simp]:
  "anchors_ok k (note_exn e dt) = anchors_ok k dt" "anchors_ok k (enter_struct dt) = anchors_ok k dt"
  "anchors_ok k (leave_struct i l dt) = anchors_ok k dt" "set_length n dt = Done dt' \<Longrightarrow> anchors_ok k dt' = anchors_ok k dt"
  by (auto simp: anchors_ok_def note_exn_def enter_struct_def leave_struct_def set_length_def split: option.splits)

lemma scalar_numbered:
  assumes "anchors_ok k dt" and "props_from (a, None) j = Some k"
  shows "doc_string s h a (k, dt) = Done (d, k', dt') \<Longrightarrow> numbered d j k' dt'"
    and "doc_text E txt a (k, dt) = Done (d, k', dt') \<Longrightarrow> numbered d j k' dt'"
    and "doc_cstr E txt a (k, dt) = Done (d, k', dt') \<Longrightarrow> numbered d j k' dt'"
    and "doc_null a (k, dt) = Done (d, k', dt') \<Longrightarrow> numbered d j k' dt'"
proof -
  show s: "doc_string s h a (k, dt) = Done (d, k', dt') \<Longrightarrow> numbered d j k' dt'" for s h
    using assms string_codes_points by (fastforce simp: doc_string_def run_simps numbered_def tag_ok_def)
  show "doc_text E txt a (k, dt) = Done (d, k', dt') \<Longrightarrow> numbered d j k' dt'"
    using s by (auto simp: doc_text_def run_simps)
  show "doc_cstr E txt a (k, dt) = Done (d, k', dt') \<Longrightarrow> numbered d j k' dt'"
    using s by (auto simp: doc_cstr_def run_simps)
  show "doc_null a (k, dt) = Done (d, k', dt') \<Longrightarrow> numbered d j k' dt'"
    using assms by (auto simp: doc_null_def numbered_def tag_ok_def)
qed

lemma array_numbered:
  assumes "good g"
  shows "doc_array g et base esz i n (k, dt) = Done (ds, k', dt') \<Longrightarrow> anchors_ok k dt \<Longrightarrow>
    elems_ok ds \<and> elems_from ds k = Some k' \<and> anchors_ok k' dt'"
proof (induction n arbitrary: i k dt ds)
  case (Suc n)
  obtain d k1 dt1 ds1 where d: "g None et (base + of_nat i * esz) (k, dt) = Done (d, k1, dt1)"
    "doc_array g et base esz (Suc i) n (k1, dt1) = Done (ds1, k', dt')" "ds = d # ds1" using Suc.prems(1) by (auto simp: run_simps)
  have "numbered d k k1 dt1" by (rule goodD [OF assms d(1) Suc.prems(2)]) simp
  with Suc.IH [OF d(2)] d(3) show ?case by (auto simp: numbered_def)
qed auto

lemma sequence_numbered:
  assumes "good g" and "doc_sequence g E et base len a (k, dt) = Done (d, k', dt')" and "anchors_ok k dt" and "props_from (a, None) j = Some k"
  shows "numbered d j k' dt'"
  using assms(2-4) by (auto simp: doc_sequence_def run_simps numbered_def tag_ok_def dest!: array_numbered [OF assms(1)])

lemma entries_numbered:
  assumes "good g"
  shows "doc_entries g kt vt es (k, dt) = Done (ds, k', dt') \<Longrightarrow> anchors_ok k dt \<Longrightarrow>
    entries_ok ds \<and> entries_from ds k = Some k' \<and> anchors_ok k' dt'"
proof (induction es arbitrary: k dt ds)
  case (Cons e es)
  obtain key val where e: "e = (key, val)" by (cases e)
  obtain d k1 dt1 v k2 dt2 ds1 where d: "g None kt key (k, dt) = Done (d, k1, dt1)" "g None vt val (k1, dt1) = Done (v, k2, dt2)"
    "doc_entries g kt vt es (k2, dt2) = Done (ds1, k', dt')" "ds = Entries d v ds1" using Cons.prems(1) by (auto simp: e run_simps)
  have n: "numbered d k k1 dt1" by (rule goodD [OF assms d(1) Cons.prems(2)]) simp
  then have "numbered v k1 k2 dt2" by (intro goodD [OF assms d(2)]) (simp_all add: numbered_def)
  with n Cons.IH [OF d(3)] d(4) show ?case by (auto simp: numbered_def)
qed auto

lemma members_numbered:
  assumes "good g"
  shows "doc_members g E p i ms (k, dt) = Done (ds, k', dt') \<Longrightarrow> anchors_ok k dt \<Longrightarrow>
    entries_ok ds \<and> entries_from ds k = Some k' \<and> anchors_ok k' dt'"
proof (induction ms arbitrary: k dt ds)
  case (Cons m ms)
  let ?v = "\<lambda>k1 dt1. if is_flex m
    then bindR (local_length i (snd (k1, dt1))) (\<lambda>len. gu_assert (len \<noteq> - 1) (doc_sequence g E (m_type m) (p + offset m) (unat len) None (k1, dt1)))
    else g None (m_type m) (p + offset m) (k1, dt1)"
  obtain d k1 dt1 v k2 dt2 ds1 where d: "doc_cstr E (m_name m) None (k, dt) = Done (d, k1, dt1)" "?v k1 dt1 = Done (v, k2, dt2)"
    "doc_members g E p i ms (k2, dt2) = Done (ds1, k', dt')" "ds = Entries d v ds1" using Cons.prems(1) by (auto simp: bindR_eq_Done simp del: snd_conv)
  have n: "numbered d k k1 dt1" using scalar_numbered(3) [OF Cons.prems(2) _ d(1)] by simp
  then have k1: "anchors_ok k1 dt1" by (simp add: numbered_def)
  have "numbered v k1 k2 dt2"
    using d(2) goodD [OF assms _ k1] sequence_numbered [OF assms _ k1] by (auto simp: run_simps split: if_splits)
  with n Cons.IH [OF d(3)] d(4) show ?case by (auto simp: numbered_def)
qed auto

lemma shared_numbered:
  assumes "good g" and "doc_shared g type v a (k, dt) = Done (d, k', dt')" and "anchors_ok k dt" and "props_from (a, None) j = Some k"
  shows "numbered d j k' dt'"
proof -
  have a: "a = None" "j = k" using assms(2,4) by (auto simp: doc_shared_def run_simps)
  show ?thesis
  proof (cases "anchors dt v")
    case None
    have "anchors_ok (Suc k) (dt\<lparr>anchors := (anchors dt)(v \<mapsto> k)\<rparr>)"
      using assms(3) None by (auto simp: anchors_ok_def less_Suc_eq)
    moreover have "g (Some k) type v (Suc k, dt\<lparr>anchors := (anchors dt)(v \<mapsto> k)\<rparr>) = Done (d, k', dt')"
      using assms(2) None a by (simp add: doc_shared_def)
    ultimately show ?thesis using goodD [OF assms(1)] by (simp add: a props_from_def)
  next
    case (Some i)
    with assms(2,3) a show ?thesis by (auto simp: doc_shared_def numbered_def anchors_ok_def)
  qed
qed

lemma doc_fn_numbered:
  assumes "good g"
  shows "good (\<lambda>a type. doc_fn d g E (described E type) a type)"
  unfolding good_def
proof (intro allI impI)
  fix a type p k dt x k' dt' j
  assume k: "anchors_ok k dt" and a: "props_from (a, None) j = Some k"
    and r: "doc_fn d g E (described E type) a type p (k, dt) = Done (x, k', dt')"
  note rules = scalar_numbered [OF k a] sequence_numbered [OF assms _ k a] shared_numbered [OF assms _ k a] goodD [OF assms _ k a]
  show "numbered x j k' dt'"
  proof (cases d)
    case Dump_struct
    with r obtain ms ds dt1 where "doc_members g E p (next_frame dt) ms (k, enter_struct dt) = Done (ds, k', dt1)" "x = Mapping (a, None) ds"
      "dt' = leave_struct (next_frame dt) (length_ref dt) dt1"
      by (cases "described E type") (auto simp: run_simps split: type_info.split_asm)
    with k a show ?thesis by (auto simp: numbered_def tag_ok_def dest!: members_numbered [OF assms])
  next
    case Dump_map
    with r obtain kt vt es ds where "doc_entries g kt vt es (k, dt) = Done (ds, k', dt')" "x = Mapping (a, None) ds"
      by (cases "described E type") (auto simp: run_simps split: type_info.split_asm)
    with k a show ?thesis by (auto simp: numbered_def tag_ok_def dest!: entries_numbered [OF assms])
  next
    case Dump_length
    with r obtain k1 dt1 i where "doc_text E (length_digits (word_of_int i)) a (k, dt) = Done (x, k', dt1)" "set_length (word_of_int i) dt1 = Done dt'"
      by (auto simp: run_simps)
    with rules(2) show ?thesis by (auto simp: numbered_def)
  next
    case Dump_variant
    with r obtain s q c y k1 dt1 z where *: "doc_cstr E s None (k, dt) = Done (y, k1, dt1)" "g None c q (k1, dt1) = Done (z, k', dt')"
      "x = Mapping (a, None) (Entries y z No_Entries)"
      by (cases "described E type") (auto simp: run_simps split: type_info.split_asm option.split_asm)
    have y: "numbered y k k1 dt1" using scalar_numbered(3) [OF k _ *(1)] by simp
    then have "numbered z k1 k' dt'" by (intro goodD [OF assms *(2)]) (simp_all add: numbered_def)
    with y a *(3) show ?thesis by (auto simp: numbered_def tag_ok_def)
  next
    case Dump_seq
    with r show ?thesis
      by (cases "described E type"; cases "cell_at (memory E) p")
        (auto simp: run_simps split: type_info.split_asm cell.split_asm option.split_asm intro: rules)
  qed (cases "described E type"; insert r; auto simp: run_simps split: type_info.split_asm option.split_asm if_split_asm intro: rules)+
qed

lemma doc_of_numbered: "good (doc_of n E)"
proof (induction n)
  case (Suc n)
  have "good (\<lambda>a type. doc_fn d (doc_of n E) E (described E type) a type)" for d by (rule doc_fn_numbered [OF Suc])
  then show ?case by (auto simp: good_def split: option.splits)
qed (simp add: good_def)

subsection \<open>Texts of scalars\<close>

text \<open>The reader of a string delivers its code points, so that a scalar shows the string.\<close>

lemma read_codes_more: "read_codes F n i None = Done (us, r, Some e) \<Longrightarrow> n \<le> m \<Longrightarrow> read_codes F m i None = Done (us, r, Some e)"
proof (induction n arbitrary: i us m)
  case (Suc n)
  then obtain m' where m: "m = Suc m'" "n \<le> m'" by (cases m) auto
  obtain u i1 err1 where u: "gu_read_ucs F i None = Done (u, i1, err1)" using Suc.prems by (auto simp: run_simps)
  show ?case using Suc.prems Suc.IH [OF _ m(2)] by (cases err1) (auto simp: m(1) u run_simps)
qed simp

lemma string_codes_valid:
  assumes "valid_string h s (utf8_all us)" and "list_all gu_ucs_valid us" and "length (utf8_all us) < 256"
  shows "string_codes s h = Done (us, None)"
proof -
  let ?bs = "utf8_all us" and ?F = "gu_proxy_in_funs gu_data_in_funs" and ?rdr = "gu_new_utf8_reader (gu_data_in (utf8_all us))"
  have "length ?bs < 2 ^ 63" using assms(3) by simp
  note d = data_in_ok [OF this]
  have "proxied.in_ok ?rdr" "proxied.in_contents ?rdr = ?bs"
    using proxied.in_ok_new [OF d(1)] proxied.in_contents_new d(2) by (simp_all add: gu_new_utf8_reader_def gu_new_in_def)
  from proxied.read_codes [OF this(1) assms(2) this(2)] obtain r where
    r: "read_codes ?F (Suc (length us)) ?rdr None = Done (us, r, Some GuEOF)" by blast
  have "Suc (length us) \<le> Suc (length ?bs)" using utf8_all_bounds(1) [of us] by simp
  from read_codes_more [OF r this] valid_open [OF assms(1)] show ?thesis
    by (simp add: string_codes_def gu_string_utf8_def gu_string_reader_def)
qed

definition ascii :: "string \<Rightarrow> bool" where
  "ascii str \<longleftrightarrow> list_all (\<lambda>c. 0 < (of_char c :: int) \<and> (of_char c :: int) < 128) str"

lemma ascii_char:
  assumes "0 < (of_char c :: int)" and "(of_char c :: int) < 128"
  shows "(word_of_int (of_char c) :: u8) = of_char c" and "(of_char c :: u8) \<noteq> 0"
proof -
  show w: "(word_of_int (of_char c) :: u8) = of_char c" by (rule of_int_of_char)
  have "\<not> (256 :: int) dvd of_char c" using assms zdvd_not_zless by fastforce
  then have "(word_of_int (of_char c) :: u8) \<noteq> 0" by (simp only: word_of_int_eq_0_iff) simp
  then show "(of_char c :: u8) \<noteq> 0" by (simp only: w not_False_eq_True)
qed

lemma ascii_utf8: "ascii str \<Longrightarrow> map of_char str = utf8_all (ucs str) \<and> list_all gu_ucs_valid (ucs str)"
  by (induction str) (auto simp: ascii_def ascii_char(1) utf8_bytes_def gu_ucs_valid_def GU_UCS_MAX_def)

lemma ascii_nonzero: "ascii str \<Longrightarrow> 0 \<notin> set (map of_char str :: u8 list)"
  by (induction str) (auto simp: ascii_def dest: ascii_char(2))

lemma doc_ascii:
  assumes "ascii str" and "length str < 256" and "length (strs (memory E)) < 2 ^ 60"
  shows "doc_cstr E str a st = Done (Scalar (a, None) (ucs str), st)" and "doc_text E str a st = Done (Scalar (a, None) (ucs str), st)"
proof -
  let ?bs = "map of_char str :: u8 list"
  note u = ascii_utf8 [OF assms(1)]
  have "length ?bs < 256" using assms(2) by simp
  then obtain s g where s: "gu_utf8_string ?bs (strs (memory E)) = Done (s, strs (memory E) @ g)" "valid_string (strs (memory E) @ g) s ?bs"
    using utf8_string_spec [OF _ assms(3)] by blast
  have "string_codes s (strs (memory E) @ g) = Done (ucs str, None)"
    using s(2) u \<open>length ?bs < 256\<close> by (intro string_codes_valid) simp_all
  moreover have z: "0 \<notin> set ?bs" by (rule ascii_nonzero [OF assms(1)])
  then have "takeWhile (\<lambda>c. c \<noteq> 0) (?bs @ [0]) = ?bs" by (subst takeWhile_append2) auto
  ultimately show "doc_cstr E str a st = Done (Scalar (a, None) (ucs str), st)" "doc_text E str a st = Done (Scalar (a, None) (ucs str), st)"
    using s(1) by (simp_all add: doc_cstr_def doc_text_def doc_string_def gu_str_string_def gu_str_cslice_def note_exn_def)
qed

subsection \<open>Dumps\<close>

text \<open>C28. The dump of a value is its document: dumping a value of any type writes a YAML text that the reference reader reads as the
  document of the value, in which a shared value is shown where it is first met, under an anchor of its own, and by an alias to
  this anchor everywhere else; all brackets are closed. A dump fails exactly if the value has no document, which is so for damaged memory, types
  without a dumper, strings of 256 bytes, nodes with two anchors, and values of variants and enumerations that their types do not list.\<close>

theorem dump_reads_back:
  "case doc_of n E None type p (1, new_data) of
     Done (d, k, dt) \<Rightarrow>
       \<exists>ctx. gu_dump n E type p gu_new_dump = Done ctx \<and> data ctx = dt \<and> ystack (yaml ctx) = [] \<and> anchors_from d 1 = Some k \<and>
         inj_on (anchors dt) (dom (anchors dt)) \<and> read_document (ytext (yaml ctx)) = Some d
   | Fault e \<Rightarrow> gu_dump n E type p gu_new_dump = Fault e
   | Out_Of_Fuel \<Rightarrow> gu_dump n E type p gu_new_dump = Out_Of_Fuel"
proof -
  have "pending None 1 gu_new_yaml (yaml gu_new_dump)"
    by (simp add: pending_def at_line_def gu_new_yaml_def gu_new_dump_def emit_props_def)
  then have r: "gu_dump n E type p gu_new_dump = finished gu_new_dump gu_new_yaml (doc_of n E None type p (1, new_data))"
    using dumpsD [OF gu_dump_docs, of gu_new_dump None 1] by (simp add: plain_def gu_new_dump_def)
  show ?thesis
  proof (cases "doc_of n E None type p (1, new_data)")
    case (Done x)
    obtain d k dt where x: "x = (d, k, dt)" by (cases x)
    have n: "numbered d 1 k dt" using goodD [OF doc_of_numbered Done [unfolded x]] by (simp add: anchors_ok_def new_data_def)
    then have "inj_on (anchors dt) (dom (anchors dt))" by (auto simp: numbered_def anchors_ok_def inj_on_def)
    with r Done x n read_document_line [of d] show ?thesis
      by (auto simp: numbered_def emitted_def gu_new_yaml_def)
  qed (simp_all add: r)
qed

text \<open>A sequence of two pointers to the same category, which has neither a concrete category nor productions.\<close>

definition sample_env :: dump_env where
  "sample_env =
     \<lparr>memory = \<lparr>cells = [8 \<mapsto> C_Seq (Some (64, 2)), 64 \<mapsto> C_Ptr 128, 72 \<mapsto> C_Ptr 128, 128 \<mapsto> C_Ptr 0, 136 \<mapsto> C_Seq None], strs = []\<rparr>,
      info = (\<lambda>t. case t of GuKindNull \<Rightarrow> None | GuKind n _ \<Rightarrow> map_of
        [(''PgfCCatIds'', GuSeqType ty_PgfCCatId), (''PgfCCatId'', GuPointerType ty_PgfCCat),
         (''PgfCCat'', GuStructRepr
            [\<lparr>offset = 0, m_name = ''cnccat'', m_type = ty_shared ''PgfCncCat*'', is_flex = False\<rparr>,
             \<lparr>offset = 8, m_name = ''prods'', m_type = ty_PgfProductions, is_flex = False\<rparr>]),
         (''PgfCncCat*'', GuPointerType ty_PgfCncCat), (''PgfProductions'', GuSeqType (ty_variant ''PgfProduction''))] n),
      type_size = (\<lambda>_. 8), print_lf = (\<lambda>_. []), print_p = (\<lambda>_. [])\<rparr>"

definition sample_doc :: ynode where
  "sample_doc =
     Sequence (None, None)
       [Mapping (Some 1, None)
          (Entries (Scalar (None, None) (ucs ''cnccat'')) (Scalar (None, Some ''!null'') [])
          (Entries (Scalar (None, None) (ucs ''prods'')) (Scalar (None, Some ''!null'') []) No_Entries)),
        Alias 1]"

lemma dump_instances:
  "gu_type_map_get (gu_new_type_map gu_dump_table) (ty_struct s) = Some Dump_struct"
  "gu_type_map_get (gu_new_type_map gu_dump_table) (ty_seq s) = Some Dump_seq"
  "gu_type_map_get (gu_new_type_map gu_dump_table) (ty_shared s) = Some Dump_shared"
  by (simp_all add: gu_new_type_map_def gu_dump_table_def kind_defs prim_type_defs kind_GuList_def ty_GuStr_def)

lemma sample_cells:
  "cell_at (memory sample_env) 8 = Done (C_Seq (Some (64, Suc (Suc 0))))" "ptr_at (memory sample_env) 64 = Done 128"
  "ptr_at (memory sample_env) 72 = Done 128" "ptr_at (memory sample_env) 128 = Done 0"
  "cell_at (memory sample_env) 136 = Done (C_Seq None)" "type_size sample_env t = 8"
  by (simp_all add: sample_env_def cell_at_def ptr_at_def)

lemma sample_types:
  "described sample_env (ty_seq ''PgfCCatIds'') = Done (GuSeqType ty_PgfCCatId)"
  "described sample_env ty_PgfCCatId = Done (GuPointerType ty_PgfCCat)"
  "described sample_env ty_PgfCCat = Done (GuStructRepr
    [\<lparr>offset = 0, m_name = ''cnccat'', m_type = ty_shared ''PgfCncCat*'', is_flex = False\<rparr>,
     \<lparr>offset = 8, m_name = ''prods'', m_type = ty_PgfProductions, is_flex = False\<rparr>])"
  "described sample_env (ty_shared ''PgfCncCat*'') = Done (GuPointerType ty_PgfCncCat)"
  "described sample_env ty_PgfProductions = Done (GuSeqType (ty_variant ''PgfProduction''))"
  by (simp_all add: described_def sample_env_def named_type_defs)

lemma sample_dumpers:
  "gu_type_map_get (gu_new_type_map gu_dump_table) (ty_seq s) = Some Dump_seq"
  "gu_type_map_get (gu_new_type_map gu_dump_table) ty_PgfCCatId = Some Dump_shared"
  "gu_type_map_get (gu_new_type_map gu_dump_table) ty_PgfCCat = Some Dump_struct"
  "gu_type_map_get (gu_new_type_map gu_dump_table) (ty_shared s) = Some Dump_shared"
  "gu_type_map_get (gu_new_type_map gu_dump_table) ty_PgfProductions = Some Dump_seq"
  by (simp_all only: named_type_defs dump_instances)

lemma sample_names: "doc_cstr sample_env s None st = Done (Scalar (None, None) (ucs s), st)" if "ascii s" "length s < 256"
  using that by (intro doc_ascii) (simp_all add: sample_env_def)

theorem dump_reads_back_witness:
  "\<exists>ctx. gu_dump 4 sample_env (ty_seq ''PgfCCatIds'') 8 gu_new_dump = Done ctx \<and> read_document (ytext (yaml ctx)) = Some sample_doc"
proof -
  have four: "(4 :: nat) = Suc (Suc (Suc (Suc 0)))" by simp
  have "\<exists>k dt. doc_of 4 sample_env None (ty_seq ''PgfCCatIds'') 8 (1, new_data) = Done (sample_doc, k, dt)"
    unfolding four
    by (simp add: sample_names ascii_def sample_cells sample_types sample_dumpers sample_doc_def doc_sequence_def doc_shared_def
        doc_null_def gu_assert_def enter_struct_def leave_struct_def new_data_def del: gu_type_map_get.simps)
  with dump_reads_back [of 4 sample_env "ty_seq ''PgfCCatIds''" 8] show ?thesis by auto
qed

end
