(* ===== verification/PrintItem.thy ===== *)
theory PrintItem
  imports Parser
begin

text \<open>
  The printers for items and categories of \<open>pgf/parser.c\<close>, which the log of the parser uses. A printer gives the text that it writes.
  The categories are looked up in the store of the parser; a category without a concrete category is a null pointer here.
\<close>

definition SIZE_MAX :: nat where "SIZE_MAX = 2 ^ 64 - 1"

fun tokens_print :: "PgfToken list \<Rightarrow> nat \<Rightarrow> nat \<Rightarrow> string" where
  "tokens_print [] i k = []"
| "tokens_print (t # ts) i k =
     t @ '' '' @ (if i + 1 = k then ''. '' else []) @ tokens_print ts (i + 1) k"

definition pgf_symbol_print :: "PgfSymbol \<Rightarrow> nat \<Rightarrow> string" where
  "pgf_symbol_print sy k =
     (if k = 0 then ''. '' else []) @
     (case sy of
        PGF_SYMBOL_KS toks \<Rightarrow> tokens_print toks 0 k
      | PGF_SYMBOL_CAT d r \<Rightarrow> ''<'' @ int_digits d @ '','' @ int_digits r @ ''> ''
      | _ \<Rightarrow> ''@ '')"

definition pgf_ccat_print :: "PgfParser \<Rightarrow> ccat_id \<Rightarrow> string run" where
  "pgf_ccat_print ps c =
     bindR (get_ccat ps c) (\<lambda>cc.
       case ccat_cnccat cc of
         None \<Rightarrow> Fault Null_Deref
       | Some cid \<Rightarrow> Done (''C'' @ int_digits (ccat_fid cc) @ ''('' @ cid @ '')''))"

definition pgf_cncfun_print :: "PgfCncFun \<Rightarrow> string" where
  "pgf_cncfun_print cncfun = ''F'' @ int_digits (cncfun_fid cncfun) @ ''('' @ cncfun_fun cncfun @ '')''"

definition pgf_parg_print :: "PgfParser \<Rightarrow> PgfPArg \<Rightarrow> string run" where
  "pgf_parg_print ps parg = pgf_ccat_print ps (parg_ccat parg)"

fun pargs_print :: "PgfParser \<Rightarrow> nat \<Rightarrow> PgfPArg list \<Rightarrow> string run" where
  "pargs_print ps i [] = Done []"
| "pargs_print ps i (a # as) =
     bindR (pgf_parg_print ps a) (\<lambda>s. bindR (pargs_print ps (i + 1) as) (\<lambda>t.
       Done ((if i > 0 then '','' else []) @ s @ t)))"

fun symbols_print :: "PgfSymbol list \<Rightarrow> nat \<Rightarrow> nat \<Rightarrow> nat \<Rightarrow> string" where
  "symbols_print [] n m k = []"
| "symbols_print (sy # sys) n m k =
     pgf_symbol_print sy (if m = n then k else SIZE_MAX) @ symbols_print sys (n + 1) m k"

definition pgf_item_print :: "PgfParser \<Rightarrow> PgfItem option \<Rightarrow> string run" where
  "pgf_item_print ps it =
     (case it of
        None \<Rightarrow> Done ''[DONE]''
      | Some item \<Rightarrow>
          bindR (pgf_ccat_print ps (base_ccat (item_base item))) (\<lambda>cat.
          bindR (case base_prod (item_base item) of
              PGF_PRODUCTION_APPLY fn _ \<Rightarrow>
                bindR (pargs_print ps 0 (item_args item)) (\<lambda>args.
                bindR (seq_at (lins fn) (base_lin_idx (item_base item))) (\<lambda>sq.
                  Done (pgf_cncfun_print fn @ ''['' @ args @ '']; '' @ int_digits (int (base_lin_idx (item_base item))) @ '': '' @
                    symbols_print sq 0 (seq_idx item) (tok_idx item) @ (if seq_idx item = length sq then ''. '' else []))))
            | PGF_PRODUCTION_COERCE c \<Rightarrow>
                bindR (pgf_ccat_print ps c) (\<lambda>s.
                  Done (''_['' @ s @ '']; '' @ int_digits (int (base_lin_idx (item_base item))) @ '': '' @
                    (if seq_idx item = 0 then ''. <> '' else ''<> . '')))) (\<lambda>prod.
          Done (''[ '' @ cat @ '' -> '' @ prod @ '']''))))"

subsection \<open>The dot\<close>

text \<open>What an item shows of its symbols: a dot stands between what has been parsed and what is still to come.\<close>

definition plain_symbol :: "PgfSymbol \<Rightarrow> string" where
  "plain_symbol sy =
     (case sy of
        PGF_SYMBOL_KS toks \<Rightarrow> concat (map (\<lambda>t. t @ '' '') toks)
      | PGF_SYMBOL_CAT d r \<Rightarrow> ''<'' @ int_digits d @ '','' @ int_digits r @ ''> ''
      | _ \<Rightarrow> ''@ '')"

definition dotted_symbol :: "PgfSymbol \<Rightarrow> nat \<Rightarrow> string" where
  "dotted_symbol sy k =
     (case sy of
        PGF_SYMBOL_KS toks \<Rightarrow> plain_symbol (PGF_SYMBOL_KS (take k toks)) @ ''. '' @ plain_symbol (PGF_SYMBOL_KS (drop k toks))
      | _ \<Rightarrow> ''. '' @ plain_symbol sy)"

lemma tokens_print_plain: "k \<le> i \<or> i + length ts < k \<Longrightarrow> tokens_print ts i k = concat (map (\<lambda>t. t @ '' '') ts)"
  by (induction ts arbitrary: i) auto

lemma tokens_print_dot:
  "i < k \<Longrightarrow> k \<le> i + length ts \<Longrightarrow> tokens_print ts i k =
    concat (map (\<lambda>t. t @ '' '') (take (k - i) ts)) @ ''. '' @ concat (map (\<lambda>t. t @ '' '') (drop (k - i) ts))"
proof (induction ts arbitrary: i)
  case (Cons t ts)
  obtain j where k: "k - i = Suc j" "k = i + Suc j" using less_imp_Suc_add [OF Cons.prems(1)] by auto
  show ?case
  proof (cases "j = 0")
    case True
    with k show ?thesis by (simp add: tokens_print_plain)
  next
    case False
    with Cons.IH [of "Suc i"] Cons.prems k show ?thesis by simp
  qed
qed simp

text \<open>The position in a symbol is a position in its tokens.\<close>

definition tok_ok :: "PgfSymbol \<Rightarrow> nat \<Rightarrow> bool" where
  "tok_ok sy k \<longleftrightarrow> (case sy of PGF_SYMBOL_KS toks \<Rightarrow> k \<le> length toks | _ \<Rightarrow> k = 0)"

definition short_symbol :: "PgfSymbol \<Rightarrow> bool" where
  "short_symbol sy \<longleftrightarrow> (case sy of PGF_SYMBOL_KS toks \<Rightarrow> length toks < SIZE_MAX | _ \<Rightarrow> True)"

lemma symbol_print:
  "short_symbol sy \<Longrightarrow> pgf_symbol_print sy SIZE_MAX = plain_symbol sy"
  "tok_ok sy k \<Longrightarrow> pgf_symbol_print sy k = dotted_symbol sy k"
proof -
  have "SIZE_MAX \<noteq> 0" by (simp add: SIZE_MAX_def)
  then show "short_symbol sy \<Longrightarrow> pgf_symbol_print sy SIZE_MAX = plain_symbol sy"
    by (cases sy) (auto simp: pgf_symbol_print_def plain_symbol_def short_symbol_def tokens_print_plain)
  show "tok_ok sy k \<Longrightarrow> pgf_symbol_print sy k = dotted_symbol sy k"
    by (cases sy; cases "k = 0")
      (auto simp: pgf_symbol_print_def plain_symbol_def dotted_symbol_def tok_ok_def tokens_print_plain tokens_print_dot)
qed

lemma symbols_print_plain:
  "list_all short_symbol sys \<Longrightarrow> n + length sys \<le> i \<or> i < n \<Longrightarrow> symbols_print sys n i k = concat (map plain_symbol sys)"
  by (induction sys arbitrary: n) (auto simp: symbol_print(1))

lemma symbols_print_dot:
  assumes "list_all short_symbol sys" and "i < length sys" and "tok_ok (sys ! i) k"
  shows "symbols_print sys 0 i k =
    concat (map plain_symbol (take i sys)) @ dotted_symbol (sys ! i) k @ concat (map plain_symbol (drop (Suc i) sys))"
proof -
  have "n \<le> i \<Longrightarrow> i < n + length sys \<Longrightarrow> tok_ok (sys ! (i - n)) k \<Longrightarrow> list_all short_symbol sys \<Longrightarrow> symbols_print sys n i k =
    concat (map plain_symbol (take (i - n) sys)) @ dotted_symbol (sys ! (i - n)) k @ concat (map plain_symbol (drop (Suc (i - n)) sys))" for n
  proof (induction sys arbitrary: n)
    case (Cons s sys)
    show ?case
    proof (cases "i = n")
      case True
      with Cons.prems show ?thesis by (simp add: symbol_print symbols_print_plain)
    next
      case False
      with Cons.prems obtain d where d: "i = n + Suc d" by (metis less_imp_Suc_add le_neq_implies_less add_Suc_right)
      with Cons.IH [of "Suc n"] Cons.prems show ?thesis by (simp add: symbol_print(1))
    qed
  qed simp
  from this [of 0] assms show ?thesis by simp
qed

end
