(* ===== verification/Variant.thy ===== *)
theory Variant
  imports Pool
begin

text \<open>
  \<open>gu/variant.c\<close>: pointers to objects with a tag. Objects are aligned to words, so that the three low bits of their address are free:
  tags up to 6 stand in these bits, plus 1, and a larger tag stands in the byte in front of the object. Objects are allocated in
  a pool of the theory \<open>Pool\<close>, and the memory is a map from addresses to bytes. As blocks are aligned for every type, the low bits of
  an address are those of its offset.
\<close>

unbundle bit_operations_syntax

subsection \<open>Operations\<close>

text \<open>The null variant is the word 0, which is not an address of a block.\<close>

type_synonym GuVariant = "addr option"
type_synonym memory = "addr \<rightharpoonup> u8"

record GuVariantInfo =
  info_tag :: int
  info_data :: "addr option"

definition GU_VARIANT_ALIGNMENT :: int where "GU_VARIANT_ALIGNMENT = 8"
definition GU_VARIANT_NULL :: int where "GU_VARIANT_NULL = -1"
definition gu_null_variant :: GuVariant where "gu_null_variant = None"

definition gu_variant_is_null :: "GuVariant \<Rightarrow> bool" where
  "gu_variant_is_null v \<longleftrightarrow> v = None"

definition gu_variant_to_ptr :: "GuVariant \<Rightarrow> addr option" where "gu_variant_to_ptr v = v"
definition gu_variant_from_ptr :: "addr option \<Rightarrow> GuVariant" where "gu_variant_from_ptr p = p"

definition gu_alloc_variant ::
  "u8 \<Rightarrow> int \<Rightarrow> int \<Rightarrow> GuPool \<Rightarrow> heap \<Rightarrow> memory \<Rightarrow> (addr \<times> GuVariant \<times> GuPool \<times> heap \<times> memory) run" where
  "gu_alloc_variant tag sz al0 p h m =
     (let al = max al0 GU_VARIANT_ALIGNMENT
      in if uint tag > GU_VARIANT_ALIGNMENT - 2 then
           bindR (gu_malloc_aligned p ((al + sz) mod 2 ^ 64) al h) (\<lambda>((b, off), p', h').
             Done ((b, off + al), Some (b, off + al), p', h', m((b, off + al - 1) \<mapsto> tag)))
         else
           bindR (gu_malloc_aligned p sz al h) (\<lambda>((b, off), p', h').
             Done ((b, off), Some (b, off OR (uint tag + 1)), p', h', m)))"

text \<open>\<open>memcpy\<close>\<close>

fun store_bytes :: "addr \<Rightarrow> u8 list \<Rightarrow> memory \<Rightarrow> memory" where
  "store_bytes a [] m = m"
| "store_bytes (b, off) (x # xs) m = store_bytes (b, off + 1) xs (m((b, off) \<mapsto> x))"

definition gu_make_variant ::
  "u8 \<Rightarrow> int \<Rightarrow> u8 list \<Rightarrow> GuPool \<Rightarrow> heap \<Rightarrow> memory \<Rightarrow> (GuVariant \<times> GuPool \<times> heap \<times> memory) run" where
  "gu_make_variant tag al init p h m =
     bindR (gu_alloc_variant tag (int (length init)) al p h m) (\<lambda>(data, v, p', h', m').
       Done (v, p', h', store_bytes data init m'))"

definition gu_variant_tag :: "GuVariant \<Rightarrow> memory \<Rightarrow> int run" where
  "gu_variant_tag v m =
     (case v of
        None \<Rightarrow> Done GU_VARIANT_NULL
      | Some (b, off) \<Rightarrow>
          let u = off mod GU_VARIANT_ALIGNMENT
          in if u = 0 then (case m (b, off - 1) of None \<Rightarrow> Fault Out_Of_Bounds | Some t \<Rightarrow> Done (uint t))
             else Done (u - 1))"

text \<open>\<open>gu_align_backward\<close> on an offset.\<close>

definition gu_variant_data :: "GuVariant \<Rightarrow> addr option" where
  "gu_variant_data v =
     (case v of None \<Rightarrow> None | Some (b, off) \<Rightarrow> Some (b, off AND NOT (GU_VARIANT_ALIGNMENT - 1)))"

definition gu_variant_open :: "GuVariant \<Rightarrow> memory \<Rightarrow> GuVariantInfo run" where
  "gu_variant_open v m =
     bindR (gu_variant_tag v m) (\<lambda>t. Done \<lparr>info_tag = t, info_data = gu_variant_data v\<rparr>)"

subsection \<open>Tagging addresses\<close>

lemma tag_bits:
  fixes off t :: int
  assumes "8 dvd off" and "0 \<le> t" and "t < 8"
  shows "off OR t = off + t" and "(off OR t) mod 8 = t" and "(off OR t) AND NOT 7 = off"
proof -
  have t: "take_bit 3 t = t" using assms by (simp add: take_bit_int_eq_self)
  have o: "take_bit 3 off = 0" using assms(1) by (simp add: take_bit_eq_mod)
  have ob: "\<not> bit off n" if "n < 3" for n
  proof -
    have "bit (take_bit 3 off) n \<longleftrightarrow> bit off n" using that by (simp add: bit_take_bit_iff)
    with o show ?thesis by simp
  qed
  have tb: "\<not> bit t n" if "n \<ge> 3" for n
  proof -
    have "bit (take_bit 3 t) n \<longleftrightarrow> bit t n" unfolding t by simp
    with that show ?thesis by (simp add: bit_take_bit_iff)
  qed
  have "off AND t = 0"
    by (rule bit_eqI) (use ob tb not_less in \<open>auto simp: bit_simps\<close>)
  then show or: "off OR t = off + t" by (simp add: disjunctive_add_eq_or)
  show "(off OR t) mod 8 = t" unfolding or using assms by (simp add: mod_add_eq [symmetric] dvd_eq_mod_eq_0 [symmetric])
  have m: "(7 :: int) = mask 3" by (simp add: mask_eq_exp_minus_1)
  show "(off OR t) AND NOT 7 = off"
    unfolding m by (rule bit_eqI) (use ob tb not_less in \<open>auto simp: bit_simps\<close>)
qed

subsection \<open>Variants in memory\<close>

lemma gu_malloc_aligned_spec:
  assumes "pool_wf p h A" and "alignment al" and "0 \<le> sz" and "sz < 2 ^ 58"
  shows "\<exists>b off p' h'. gu_malloc_aligned p sz al h = Done ((b, off), p', h') \<and> pool_wf p' h' ((b, off, off + sz) # A) \<and> al dvd off"
proof -
  have "al \<noteq> 0" using assms(2) by (auto simp: alignment_def)
  moreover have "alignment 1" by (simp add: alignment_def)
  ultimately show ?thesis
    using malloc_prefixed_spec [OF assms(1), of 1 al 0 sz] assms(2-) by (auto simp: gu_malloc_aligned_def max_align_def)
qed

definition within :: "addr \<Rightarrow> range \<Rightarrow> bool" where
  "within a r \<longleftrightarrow> (case r of (b, lo, hi) \<Rightarrow> fst a = b \<and> lo \<le> snd a \<and> snd a < hi)"

lemma apart_within: "apart r s \<Longrightarrow> within a r \<Longrightarrow> \<not> within a s"
  by (cases a) (auto simp: apart_def within_def split: prod.splits)

lemma store_bytes_at:
  "store_bytes (b, off) bs m a =
     (if fst a = b \<and> off \<le> snd a \<and> snd a < off + int (length bs) then Some (bs ! nat (snd a - off)) else m a)"
proof (induction bs arbitrary: off m)
  case (Cons x xs)
  obtain c o' where a: "a = (c, o')" by (cases a)
  have "nat (o' - off) = Suc (nat (o' - (off + 1)))" if "off < o'" using that by (simp add: Suc_nat_eq_nat_zadd1)
  then show ?case by (auto simp: Cons.IH [unfolded a] a)
qed auto

text \<open>The memory holds an object with a tag and contents, as \<open>gu_variant_open\<close> sees it.\<close>

definition holds :: "GuVariant \<Rightarrow> u8 \<Rightarrow> u8 list \<Rightarrow> memory \<Rightarrow> bool" where
  "holds v tag bs m \<longleftrightarrow>
     (\<exists>b off. gu_variant_open v m = Done \<lparr>info_tag = uint tag, info_data = Some (b, off)\<rparr> \<and> 8 dvd off \<and>
        (\<forall>i < length bs. m (b, off + int i) = Some (bs ! i)))"

definition variant_align :: "int \<Rightarrow> bool" where
  "variant_align al \<longleftrightarrow> al \<in> {0, 1, 2, 4, 8, 16}"

lemma make_variant_spec:
  assumes "pool_wf p h A" and "variant_align al" and "length bs < 2 ^ 57"
  shows "\<exists>v p' h' m' r. gu_make_variant tag al bs p h m = Done (v, p', h', m') \<and> pool_wf p' h' (r # A) \<and>
    (\<forall>a. \<not> within a r \<longrightarrow> m' a = m a) \<and> (\<forall>m''. (\<forall>a. within a r \<longrightarrow> m'' a = m' a) \<longrightarrow> holds v tag bs m'')"
proof -
  let ?al = "max al 8" and ?sz = "int (length bs)"
  have al: "alignment ?al" "?al \<in> {8, 16}" using assms(2) by (auto simp: variant_align_def alignment_def)
  have al8: "8 dvd x" if "?al dvd x" for x using al(2) that by (auto intro: dvd_trans [of 8 16])
  have sz: "?al + ?sz < 2 ^ 58" "(?al + ?sz) mod 2 ^ 64 = ?al + ?sz" "?sz < 2 ^ 58" using assms(3) al(2) by auto
  show ?thesis
  proof (cases "uint tag > 6")
    case True
    obtain b off p' h' where r: "gu_malloc_aligned p (?al + ?sz) ?al h = Done ((b, off), p', h')"
      "pool_wf p' h' ((b, off, off + (?al + ?sz)) # A)" "?al dvd off"
      using gu_malloc_aligned_spec [OF assms(1) al(1) _ sz(1)] al(2) by auto
    let ?r = "(b, off, off + (?al + ?sz))" and ?m = "store_bytes (b, off + ?al) bs (m((b, off + ?al - 1) \<mapsto> tag))"
    have "gu_make_variant tag al bs p h m = Done (Some (b, off + ?al), p', h', ?m)"
      using True r(1) sz(2) by (simp add: gu_make_variant_def gu_alloc_variant_def GU_VARIANT_ALIGNMENT_def Let_def)
    moreover have "\<forall>a. \<not> within a ?r \<longrightarrow> ?m a = m a" using al(2) by (auto simp: within_def store_bytes_at)
    moreover have d: "8 dvd off + ?al" by (rule al8) (use r(3) in simp)
    have "holds (Some (b, off + ?al)) tag bs m''" if a: "\<forall>a. within a ?r \<longrightarrow> m'' a = ?m a" for m''
    proof -
      have "m'' (b, off + ?al - 1) = Some tag" using a al(2) by (auto simp: within_def store_bytes_at)
      moreover have "(off + ?al) AND NOT 7 = off + ?al" using tag_bits(3) [OF d, of 0] by simp
      moreover have "\<forall>i < length bs. m'' (b, off + ?al + int i) = Some (bs ! i)" using a al(2) by (auto simp: within_def store_bytes_at)
      ultimately show ?thesis using d
        by (simp add: holds_def gu_variant_open_def gu_variant_tag_def gu_variant_data_def GU_VARIANT_ALIGNMENT_def)
    qed
    ultimately show ?thesis using r(2) by blast
  next
    case False
    obtain b off p' h' where r: "gu_malloc_aligned p ?sz ?al h = Done ((b, off), p', h')"
      "pool_wf p' h' ((b, off, off + ?sz) # A)" "?al dvd off"
      using gu_malloc_aligned_spec [OF assms(1) al(1) _ sz(3)] by auto
    let ?r = "(b, off, off + ?sz)" and ?m = "store_bytes (b, off) bs m" and ?t = "uint tag + 1"
    have "gu_make_variant tag al bs p h m = Done (Some (b, off OR ?t), p', h', ?m)"
      using False r(1) by (simp add: gu_make_variant_def gu_alloc_variant_def GU_VARIANT_ALIGNMENT_def Let_def)
    moreover have "\<forall>a. \<not> within a ?r \<longrightarrow> ?m a = m a" by (auto simp: within_def store_bytes_at)
    moreover have d: "8 dvd off" by (rule al8) (rule r(3))
    have "holds (Some (b, off OR ?t)) tag bs m''" if a: "\<forall>a. within a ?r \<longrightarrow> m'' a = ?m a" for m''
    proof -
      have t: "0 \<le> ?t" "?t < 8" "?t \<noteq> 0" using False uint_ge_0 [of tag] by linarith+
      have "\<forall>i < length bs. m'' (b, off + int i) = Some (bs ! i)" using a by (auto simp: within_def store_bytes_at)
      with tag_bits(2,3) [OF d t(1,2)] t(3) d show ?thesis
        by (simp add: holds_def gu_variant_open_def gu_variant_tag_def gu_variant_data_def GU_VARIANT_ALIGNMENT_def)
    qed
    ultimately show ?thesis using r(2) by blast
  qed
qed

text \<open>A program that makes one variant after the other in a pool.\<close>

type_synonym variant_request = "u8 \<times> int \<times> u8 list"

fun make_variants :: "variant_request list \<Rightarrow> GuPool \<Rightarrow> heap \<Rightarrow> memory \<Rightarrow> (GuVariant list \<times> GuPool \<times> heap \<times> memory) run" where
  "make_variants [] p h m = Done ([], p, h, m)"
| "make_variants ((tag, al, bs) # rs) p h m =
     bindR (gu_make_variant tag al bs p h m) (\<lambda>(v, p1, h1, m1).
     bindR (make_variants rs p1 h1 m1) (\<lambda>(vs, p2, h2, m2). Done (v # vs, p2, h2, m2)))"

definition variant_request_ok :: "variant_request \<Rightarrow> bool" where
  "variant_request_ok r \<longleftrightarrow> (case r of (tag, al, bs) \<Rightarrow> variant_align al \<and> length bs < 2 ^ 57)"

lemma make_variants_spec:
  assumes "pool_wf p h A" and "list_all variant_request_ok rs"
  shows "\<exists>vs p' h' m'. make_variants rs p h m = Done (vs, p', h', m') \<and> (\<forall>a. list_ex (within a) A \<longrightarrow> m' a = m a) \<and>
    list_all2 (\<lambda>(tag, al, bs) v. holds v tag bs m') rs vs"
  using assms
proof (induction rs arbitrary: p h m A)
  case (Cons req rs)
  obtain tag al bs where req: "req = (tag, al, bs)" by (cases req)
  have ok: "variant_align al" "length bs < 2 ^ 57" using Cons.prems(2) by (simp_all add: req variant_request_ok_def)
  obtain v p1 h1 m1 r where v: "gu_make_variant tag al bs p h m = Done (v, p1, h1, m1)" "pool_wf p1 h1 (r # A)"
    "\<forall>a. \<not> within a r \<longrightarrow> m1 a = m a" "\<forall>m''. (\<forall>a. within a r \<longrightarrow> m'' a = m1 a) \<longrightarrow> holds v tag bs m''"
    using make_variant_spec [OF Cons.prems(1) ok] by blast
  obtain vs p' h' m' where vs: "make_variants rs p1 h1 m1 = Done (vs, p', h', m')" "\<forall>a. list_ex (within a) (r # A) \<longrightarrow> m' a = m1 a"
    "list_all2 (\<lambda>(tag, al, bs) v. holds v tag bs m') rs vs"
    using Cons.IH [OF v(2), of m1] Cons.prems(2) unfolding list.pred_inject by blast
  have d: "apart r s" if "s \<in> set A" for s using v(2) that by (simp add: pool_wf_def)
  have "m' a = m a" if a: "list_ex (within a) A" for a
  proof -
    obtain s where s: "s \<in> set A" "within a s" using a by (auto simp: list_ex_iff)
    then have "\<not> within a r" using apart_within [OF d [OF s(1)], of a] by blast
    then have "m1 a = m a" using v(3) by blast
    moreover have "m' a = m1 a" using vs(2) a by (metis list_ex_iff list.set_intros(2))
    ultimately show ?thesis by simp
  qed
  moreover have "holds v tag bs m'" using v(4) vs(2) by simp
  ultimately show ?case using v(1) vs(1,3) by (simp add: req)
qed simp

text \<open>C30. Variants keep what they are made of: after any number of variants have been made in a new pool, with any tags of a byte,
  alignments and contents, opening any of them gives its tag and the address of its contents, which are unchanged and aligned to a word;
  this holds for tags in the low bits of the pointer and for tags in front of the object, and nothing aborts.\<close>

theorem variants_roundtrip:
  assumes "\<forall>b \<ge> next_block h. blocks h b = None" and "list_all variant_request_ok rs"
  shows "\<exists>p h1 vs p' h' m'. gu_new_pool h = Done (p, h1) \<and> make_variants rs p h1 m = Done (vs, p', h', m') \<and>
    list_all2 (\<lambda>(tag, al, bs) v. holds v tag bs m') rs vs"
proof -
  obtain p h1 where "gu_new_pool h = Done (p, h1)" "pool_wf p h1 []"
    using new_pool_wf [OF assms(1)] by blast
  with make_variants_spec [OF this(2) assms(2)] show ?thesis by blast
qed

theorem variants_roundtrip_witness:
  "\<exists>p h1 v w p' h' m'. gu_new_pool \<lparr>blocks = Map.empty, next_block = 0\<rparr> = Done (p, h1) \<and>
     make_variants [(3, 4, [1, 2]), (200, 16, [7])] p h1 Map.empty = Done ([v, w], p', h', m') \<and> holds v 3 [1, 2] m' \<and> holds w 200 [7] m'"
proof -
  have "list_all variant_request_ok [(3, 4, [1, 2]), (200, 16, [7])]" by (simp add: variant_request_ok_def variant_align_def)
  from variants_roundtrip [OF _ this, of "\<lparr>blocks = Map.empty, next_block = 0\<rparr>" Map.empty] show ?thesis
    by (force simp: list_all2_Cons1)
qed

end
