(* ===== verification/CStr.thy ===== *)
theory CStr
  imports Variant
begin

text \<open>
  C strings: \<open>gu/str.c\<close>, the interning of C strings in \<open>gu/intern.c\<close>, and \<open>gu_chars_str\<close> of \<open>gu/seq.c\<close>. Strings lie in the memory of
  \<open>Variant\<close>, a map from addresses to bytes, and are allocated in a pool. The functions of the C library that look for the end of a string take
  fuel, and fail where memory is not initialised.
\<close>

subsection \<open>The C library\<close>

fun strlen :: "nat \<Rightarrow> memory \<Rightarrow> addr \<Rightarrow> nat run" where
  "strlen 0 m a = Out_Of_Fuel"
| "strlen (Suc n) m (b, off) =
     (case m (b, off) of
        None \<Rightarrow> Fault Out_Of_Bounds
      | Some c \<Rightarrow> if c = 0 then Done 0 else bindR (strlen n m (b, off + 1)) (\<lambda>l. Done (Suc l)))"

text \<open>Whether \<open>strcmp\<close> is 0.\<close>

fun str_same :: "nat \<Rightarrow> memory \<Rightarrow> addr \<Rightarrow> addr \<Rightarrow> bool run" where
  "str_same 0 m a b = Out_Of_Fuel"
| "str_same (Suc n) m (a, i) (b, j) =
     (case m (a, i) of
        None \<Rightarrow> Fault Out_Of_Bounds
      | Some c \<Rightarrow>
          (case m (b, j) of
             None \<Rightarrow> Fault Out_Of_Bounds
           | Some d \<Rightarrow> if c \<noteq> d then Done False else if c = 0 then Done True else str_same n m (a, i + 1) (b, j + 1)))"

fun load_bytes :: "memory \<Rightarrow> addr \<Rightarrow> nat \<Rightarrow> u8 list run" where
  "load_bytes m a 0 = Done []"
| "load_bytes m (b, off) (Suc n) =
     (case m (b, off) of
        None \<Rightarrow> Fault Out_Of_Bounds
      | Some c \<Rightarrow> bindR (load_bytes m (b, off + 1) n) (\<lambda>cs. Done (c # cs)))"

subsection \<open>Strings\<close>

definition gu_new_str :: "int \<Rightarrow> GuPool \<Rightarrow> heap \<Rightarrow> memory \<Rightarrow> (addr \<times> GuPool \<times> heap \<times> memory) run" where
  "gu_new_str sz p h m =
     bindR (gu_malloc_aligned p ((sz + 1) mod 2 ^ 64) 1 h) (\<lambda>(str, p', h').
       Done (str, p', h', store_bytes str (replicate (nat ((sz + 1) mod 2 ^ 64)) 0) m))"

text \<open>The length is an \<open>int\<close>.\<close>

definition gu_strdup :: "nat \<Rightarrow> addr \<Rightarrow> GuPool \<Rightarrow> heap \<Rightarrow> memory \<Rightarrow> (addr \<times> GuPool \<times> heap \<times> memory) run" where
  "gu_strdup n cstr p h m =
     bindR (strlen n m cstr) (\<lambda>l.
       let len = sint (word_of_nat l :: 32 word) in
       bindR (gu_new_str len p h m) (\<lambda>(str, p', h', m').
         bindR (load_bytes m' cstr (nat (len mod 2 ^ 64))) (\<lambda>cs. Done (str, p', h', store_bytes str cs m'))))"

definition gu_str_eq :: "nat \<Rightarrow> memory \<Rightarrow> addr \<Rightarrow> addr \<Rightarrow> bool run" where
  "gu_str_eq n m s1 s2 = str_same n m s1 s2"

fun gu_str_hasher_hash :: "nat \<Rightarrow> memory \<Rightarrow> u64 \<Rightarrow> addr \<Rightarrow> u64 run" where
  "gu_str_hasher_hash 0 m h s = Out_Of_Fuel"
| "gu_str_hasher_hash (Suc n) m h (b, off) =
     (case m (b, off) of
        None \<Rightarrow> Fault Out_Of_Bounds
      | Some c \<Rightarrow> if c = 0 then Done h else gu_str_hasher_hash n m (101 * h + ucast c) (b, off + 1))"

text \<open>The elements of the sequence of characters are given.\<close>

definition gu_chars_str :: "u8 list \<Rightarrow> GuPool \<Rightarrow> heap \<Rightarrow> memory \<Rightarrow> (addr \<times> GuPool \<times> heap \<times> memory) run" where
  "gu_chars_str chars p h m =
     bindR (gu_new_str (int (length chars)) p h m) (\<lambda>(str, p', h', m'). Done (str, p', h', store_bytes str chars m'))"

subsection \<open>Interning\<close>

text \<open>The set of the strings that have been interned; a lookup compares contents.\<close>

record GuIntern =
  interned :: "addr list"

definition gu_new_intern :: GuIntern where "gu_new_intern = \<lparr>interned = []\<rparr>"

fun intern_find :: "nat \<Rightarrow> memory \<Rightarrow> addr list \<Rightarrow> addr \<Rightarrow> addr option run" where
  "intern_find n m [] s = Done None"
| "intern_find n m (t # ts) s = bindR (gu_str_eq n m s t) (\<lambda>b. if b then Done (Some t) else intern_find n m ts s)"

definition gu_intern_str :: "nat \<Rightarrow> GuIntern \<Rightarrow> addr \<Rightarrow> GuPool \<Rightarrow> heap \<Rightarrow> memory \<Rightarrow> (addr \<times> GuIntern \<times> GuPool \<times> heap \<times> memory) run" where
  "gu_intern_str n tab cstr p h m =
     bindR (intern_find n m (interned tab) cstr) (\<lambda>r.
       case r of
         Some t \<Rightarrow> Done (t, tab, p, h, m)
       | None \<Rightarrow>
           bindR (gu_strdup n cstr p h m) (\<lambda>(str, p', h', m'). Done (str, tab\<lparr>interned := str # interned tab\<rparr>, p', h', m')))"

subsection \<open>Contents\<close>

definition cstr :: "memory \<Rightarrow> addr \<Rightarrow> u8 list \<Rightarrow> bool" where
  "cstr m a bs \<longleftrightarrow> 0 \<notin> set bs \<and> (\<forall>i \<le> length bs. m (fst a, snd a + int i) = Some ((bs @ [0]) ! i))"

lemma cstr_Nil [simp]: "cstr m (b, off) [] \<longleftrightarrow> m (b, off) = Some 0"
  by (simp add: cstr_def)

lemma cstr_Cons [simp]: "cstr m (b, off) (c # bs) \<longleftrightarrow> c \<noteq> 0 \<and> m (b, off) = Some c \<and> cstr m (b, off + 1) bs"
proof -
  have "(\<forall>i \<le> Suc n. P i) \<longleftrightarrow> P 0 \<and> (\<forall>i \<le> n. P (Suc i))" for P and n :: nat
    by (metis Suc_le_mono le0 not0_implies_Suc)
  then show ?thesis by (auto simp: cstr_def algebra_simps)
qed

lemma strlen_spec: "cstr m a bs \<Longrightarrow> length bs < n \<Longrightarrow> strlen n m a = Done (length bs)"
proof (induction bs arbitrary: a n)
  case Nil
  then show ?case by (cases a; cases n) auto
next
  case (Cons c bs)
  then obtain k where "n = Suc k" by (cases n) auto
  with Cons show ?case by (cases a) auto
qed

lemma load_spec: "cstr m a bs \<Longrightarrow> load_bytes m a (length bs) = Done bs"
  by (induction bs arbitrary: a) (auto split: prod.splits)

lemma same_spec: "cstr m a bs \<Longrightarrow> cstr m b cs \<Longrightarrow> length bs < n \<Longrightarrow> str_same n m a b = Done (bs = cs)"
proof (induction bs arbitrary: a b cs n)
  case Nil
  then show ?case by (cases a; cases b; cases n; cases cs) auto
next
  case (Cons c bs)
  then obtain k where "n = Suc k" by (cases n) auto
  with Cons show ?case by (cases a; cases b; cases cs) auto
qed

lemma hash_spec: "cstr m a bs \<Longrightarrow> length bs < n \<Longrightarrow> gu_str_hasher_hash n m h a = Done (foldl (\<lambda>h c. 101 * h + ucast c) h bs)"
proof (induction bs arbitrary: a n h)
  case Nil
  then show ?case by (cases a; cases n) auto
next
  case (Cons c bs)
  then obtain k where "n = Suc k" by (cases n) auto
  with Cons show ?case by (cases a) auto
qed

subsection \<open>Copies\<close>

text \<open>The bytes of a string, with the one that ends it, lie in the ranges of a list.\<close>

definition held :: "range list \<Rightarrow> addr \<Rightarrow> u8 list \<Rightarrow> bool" where
  "held A a bs \<longleftrightarrow> (\<forall>i \<le> length bs. list_ex (within (fst a, snd a + int i)) A)"

lemma cstr_kept: "cstr m a bs \<Longrightarrow> held A a bs \<Longrightarrow> (\<And>x. list_ex (within x) A \<Longrightarrow> m' x = m x) \<Longrightarrow> cstr m' a bs"
  by (auto simp: cstr_def held_def)

lemma held_Cons: "held A a bs \<Longrightarrow> held (r # A) a bs"
  by (simp add: held_def)

lemma new_range:
  assumes "pool_wf p h (r # A)" and "list_ex (within x) A"
  shows "\<not> within x r"
proof -
  obtain s where s: "s \<in> set A" "within x s" using assms(2) by (auto simp: list_ex_iff)
  then have "apart r s" using assms(1) by (simp add: pool_wf_def)
  with s(2) show ?thesis using apart_within [of r s x] by blast
qed

lemma new_str_spec:
  assumes "pool_wf p h A" and "n < 2 ^ 57"
  shows "\<exists>b off p' h'. gu_new_str (int n) p h m = Done ((b, off), p', h', store_bytes (b, off) (replicate (Suc n) 0) m) \<and>
    pool_wf p' h' ((b, off, off + (int n + 1)) # A)"
proof -
  have n: "0 \<le> int n + 1" "int n + 1 < 2 ^ 58" "(int n + 1) mod 2 ^ 64 = int n + 1" "nat (int n + 1) = Suc n" using assms(2) by auto
  obtain b off p' h' where "gu_malloc_aligned p (int n + 1) 1 h = Done ((b, off), p', h')" "pool_wf p' h' ((b, off, off + (int n + 1)) # A)"
    using gu_malloc_aligned_spec [OF assms(1) _ n(1,2), of 1] by (auto simp: alignment_def)
  then have "gu_new_str (int n) p h m = Done ((b, off), p', h', store_bytes (b, off) (replicate (Suc n) 0) m)"
    by (simp only: gu_new_str_def n bindR.simps prod.case)
  with \<open>pool_wf p' h' ((b, off, off + (int n + 1)) # A)\<close> show ?thesis by blast
qed

text \<open>A string that has been written over zeros ends with one of them.\<close>

lemma cstr_stored: "0 \<notin> set bs \<Longrightarrow> cstr (store_bytes (b, off) bs (store_bytes (b, off) (replicate (Suc (length bs)) 0) m)) (b, off) bs"
proof -
  assume "0 \<notin> set bs"
  moreover have "\<forall>i \<le> length bs. store_bytes (b, off) bs (store_bytes (b, off) (replicate (Suc (length bs)) 0) m) (b, off + int i) = Some ((bs @ [0]) ! i)"
    by (auto simp: store_bytes_at nth_append simp del: replicate_Suc)
  ultimately show ?thesis by (simp add: cstr_def)
qed

definition copied :: "memory \<Rightarrow> memory \<Rightarrow> addr \<Rightarrow> u8 list \<Rightarrow> range \<Rightarrow> bool" where
  "copied m m' str bs r \<longleftrightarrow> cstr m' str bs \<and> held [r] str bs \<and> (\<forall>x. \<not> within x r \<longrightarrow> m' x = m x)"

lemma copiedI:
  assumes "0 \<notin> set bs"
  shows "copied m (store_bytes (b, off) bs (store_bytes (b, off) (replicate (Suc (length bs)) 0) m)) (b, off) bs (b, off, off + (int (length bs) + 1))"
  using cstr_stored [OF assms] by (auto simp: copied_def held_def within_def store_bytes_at simp del: replicate_Suc)

lemma strdup_spec:
  assumes "pool_wf p h A" and "cstr m a bs" and "held A a bs" and "length bs < n" and "length bs < 2 ^ 31"
  shows "\<exists>str p' h' m' r. gu_strdup n a p h m = Done (str, p', h', m') \<and> pool_wf p' h' (r # A) \<and> copied m m' str bs r"
proof -
  have l: "sint (word_of_nat (length bs) :: 32 word) = int (length bs)" "int (length bs) mod 2 ^ 64 = int (length bs)"
    using assms(5) by (simp_all add: signed_of_nat signed_take_bit_int_eq_self)
  have "length bs < 2 ^ 57" using assms(5) by simp
  then obtain b off p' h' where r: "gu_new_str (int (length bs)) p h m = Done ((b, off), p', h', store_bytes (b, off) (replicate (Suc (length bs)) 0) m)"
    "pool_wf p' h' ((b, off, off + (int (length bs) + 1)) # A)"
    using new_str_spec [OF assms(1)] by blast
  let ?m = "store_bytes (b, off) (replicate (Suc (length bs)) 0) m"
  have "?m x = m x" if "list_ex (within x) A" for x
    using new_range [OF r(2) that] by (auto simp: within_def store_bytes_at simp del: replicate_Suc)
  then have "load_bytes ?m a (length bs) = Done bs" by (intro load_spec cstr_kept [OF assms(2,3)])
  with l r(1) strlen_spec [OF assms(2,4)] have "gu_strdup n a p h m = Done ((b, off), p', h', store_bytes (b, off) bs ?m)"
    by (simp add: gu_strdup_def Let_def del: replicate_Suc store_bytes.simps)
  with r(2) copiedI [of bs m b off] assms(2) show ?thesis unfolding cstr_def by blast
qed

lemma chars_str_spec:
  assumes "pool_wf p h A" and "0 \<notin> set cs" and "length cs < 2 ^ 57"
  shows "\<exists>str p' h' m' r. gu_chars_str cs p h m = Done (str, p', h', m') \<and> pool_wf p' h' (r # A) \<and> copied m m' str cs r"
proof -
  obtain b off p' h' where "gu_new_str (int (length cs)) p h m = Done ((b, off), p', h', store_bytes (b, off) (replicate (Suc (length cs)) 0) m)"
    "pool_wf p' h' ((b, off, off + (int (length cs) + 1)) # A)"
    using new_str_spec [OF assms(1,3)] by blast
  then show ?thesis using copiedI [OF assms(2), of m b off]
    by (auto simp: gu_chars_str_def simp del: replicate_Suc store_bytes.simps)
qed

subsection \<open>Interned strings\<close>

text \<open>The strings of the table lie in the pool and have different contents.\<close>

definition intern_ok :: "nat \<Rightarrow> range list \<Rightarrow> memory \<Rightarrow> addr list \<Rightarrow> u8 list list \<Rightarrow> bool" where
  "intern_ok n A m ts bss \<longleftrightarrow> list_all2 (\<lambda>t bs. cstr m t bs \<and> held A t bs \<and> length bs < n) ts bss \<and> distinct bss"

lemma intern_find_spec:
  assumes "cstr m s bs" and "length bs < n"
  shows "list_all2 (\<lambda>t bs. cstr m t bs \<and> held A t bs \<and> length bs < n) ts bss \<Longrightarrow>
    \<exists>r. intern_find n m ts s = Done r \<and> (case r of None \<Rightarrow> bs \<notin> set bss | Some t \<Rightarrow> t \<in> set ts \<and> cstr m t bs)"
proof (induction ts arbitrary: bss)
  case (Cons t ts)
  then obtain cs css where c: "bss = cs # css" "cstr m t cs" "list_all2 (\<lambda>t bs. cstr m t bs \<and> held A t bs \<and> length bs < n) ts css"
    by (auto simp: list_all2_Cons1)
  have e: "gu_str_eq n m s t = Done (bs = cs)" using same_spec [OF assms(1) c(2) assms(2)] by (simp add: gu_str_eq_def)
  obtain r where r: "intern_find n m ts s = Done r" "case r of None \<Rightarrow> bs \<notin> set css | Some t \<Rightarrow> t \<in> set ts \<and> cstr m t bs"
    using Cons.IH [OF c(3)] by blast
  show ?case
  proof (cases "bs = cs")
    case True
    with e c(2) show ?thesis by simp
  next
    case False
    with e r c(1) show ?thesis by (cases r) simp_all
  qed
qed simp

text \<open>Interning gives a string with the same contents, keeps all strings, and gives the strings of the table back.\<close>

lemma intern_str_spec:
  assumes "pool_wf p h A" and "intern_ok n A m (interned tab) bss" and "cstr m s bs" and "held A s bs" and "length bs < n" and "length bs < 2 ^ 31"
  shows "\<exists>t tab' p' h' m' A' bss'. gu_intern_str n tab s p h m = Done (t, tab', p', h', m') \<and> pool_wf p' h' A' \<and>
    intern_ok n A' m' (interned tab') bss' \<and> cstr m' t bs \<and> t \<in> set (interned tab') \<and> set (interned tab) \<subseteq> set (interned tab') \<and>
    set A \<subseteq> set A' \<and> (\<forall>x. list_ex (within x) A \<longrightarrow> m' x = m x)"
proof -
  obtain r where r: "intern_find n m (interned tab) s = Done r"
    "case r of None \<Rightarrow> bs \<notin> set bss | Some t \<Rightarrow> t \<in> set (interned tab) \<and> cstr m t bs"
    using intern_find_spec [OF assms(3,5)] assms(2) unfolding intern_ok_def by blast
  show ?thesis
  proof (cases r)
    case (Some t)
    with r have "gu_intern_str n tab s p h m = Done (t, tab, p, h, m)" "t \<in> set (interned tab)" "cstr m t bs"
      by (simp_all add: gu_intern_str_def)
    with assms(1,2) show ?thesis by blast
  next
    case None
    obtain str p' h' m' q where d: "gu_strdup n s p h m = Done (str, p', h', m')" "pool_wf p' h' (q # A)" "copied m m' str bs q"
      using strdup_spec [OF assms(1,3,4,5,6)] by blast
    have same: "m' x = m x" if "list_ex (within x) A" for x using new_range [OF d(2) that] d(3) unfolding copied_def by blast
    have "held (q # A) str bs" using d(3) by (auto simp: copied_def held_def)
    moreover have "list_all2 (\<lambda>t bs. cstr m' t bs \<and> held (q # A) t bs \<and> length bs < n) (interned tab) bss"
      using assms(2) unfolding intern_ok_def by (auto elim!: list_all2_mono intro: cstr_kept same held_Cons)
    ultimately have "intern_ok n (q # A) m' (str # interned tab) (bs # bss)"
      using d(3) None r(2) assms(2,5) by (simp add: intern_ok_def copied_def)
    moreover have "gu_intern_str n tab s p h m = Done (str, tab\<lparr>interned := str # interned tab\<rparr>, p', h', m')"
      using None r(1) d(1) by (simp add: gu_intern_str_def)
    moreover have "cstr m' str bs" using d(3) by (simp add: copied_def)
    ultimately show ?thesis using d(2) same
      by (intro exI [of _ str] exI [of _ "tab\<lparr>interned := str # interned tab\<rparr>"] exI [of _ p'] exI [of _ h'] exI [of _ m'] exI [of _ "q # A"]
          exI [of _ "bs # bss"]) auto
  qed
qed

text \<open>So two strings of the table with the same contents are the same.\<close>

lemma intern_unique:
  assumes "intern_ok n A m ts bss" and "t \<in> set ts" and "u \<in> set ts" and "cstr m t bs" and "cstr m u bs" and "length bs < n"
  shows "t = u"
proof -
  have len: "length ts = length bss" using assms(1) by (auto simp: intern_ok_def dest: list_all2_lengthD)
  have i: "\<exists>i < length ts. ts ! i = v \<and> bss ! i = bs" if v: "v \<in> set ts" "cstr m v bs" for v
  proof -
    obtain i where i: "i < length ts" "ts ! i = v" using v(1) by (auto simp: in_set_conv_nth)
    then have "cstr m v (bss ! i)" using assms(1) by (auto simp: intern_ok_def list_all2_conv_all_nth)
    with v(2) assms(6) have "bs = bss ! i" using same_spec [of m v bs v bs n] same_spec [of m v bs v "bss ! i" n] by auto
    with i show ?thesis by blast
  qed
  obtain i j where "i < length ts" "ts ! i = t" "bss ! i = bs" "j < length ts" "ts ! j = u" "bss ! j = bs"
    using i [OF assms(2,4)] i [OF assms(3,5)] by blast
  with assms(1) len show ?thesis by (metis intern_ok_def nth_eq_iff_index_eq)
qed

end
