(* ===== verification/Lists.thy ===== *)
theory Lists
  imports CStr PgfTypes
begin

text \<open>
  \<open>gu/list.c\<close> and \<open>gu/list.h\<close>: lists of fixed length, an \<open>int\<close> with the length followed by the elements; and what the allocation by
  type in \<open>gu/type.c\<close> adds. The empty list is one static object. The memory holds the lengths, by the address of their list.
\<close>

datatype gu_list = Static_Empty | List_At addr

type_synonym list_memory = "addr \<rightharpoonup> int"

definition gu_list_alloc :: "GuPool \<Rightarrow> int \<Rightarrow> int \<Rightarrow> int \<Rightarrow> int \<Rightarrow> heap \<Rightarrow> list_memory \<Rightarrow> (gu_list \<times> GuPool \<times> heap \<times> list_memory) run" where
  "gu_list_alloc p base_size elem_size n_elems al h m =
     gu_assert (n_elems \<ge> 0)
       (if n_elems = 0 then Done (Static_Empty, p, h, m)
        else bindR (gu_malloc_aligned p ((base_size + elem_size * n_elems) mod 2 ^ 64) al h) (\<lambda>(a, p', h').
          Done (List_At a, p', h', m(a \<mapsto> n_elems))))"

definition gu_list_length :: "gu_list \<Rightarrow> list_memory \<Rightarrow> int run" where
  "gu_list_length l m =
     (case l of
        Static_Empty \<Rightarrow> Done 0
      | List_At a \<Rightarrow> (case m a of None \<Rightarrow> Fault Out_Of_Bounds | Some n \<Rightarrow> Done n))"

subsection \<open>Lists of a type\<close>

record GuListTypeRepr =
  l_bytes :: int
  l_align :: int
  l_elem_type :: GuType
  elems_offset :: int

text \<open>The size of a type; a type without a representation has none.\<close>

definition gu_type_size :: "(GuType \<Rightarrow> int) \<Rightarrow> GuType \<Rightarrow> int" where
  "gu_type_size repr_size type = (case gu_type_repr 10 type of None \<Rightarrow> 0 | Some r \<Rightarrow> repr_size r)"

definition gu_list_type_alloc ::
    "(GuType \<Rightarrow> int) \<Rightarrow> GuListTypeRepr \<Rightarrow> int \<Rightarrow> GuPool \<Rightarrow> heap \<Rightarrow> list_memory \<Rightarrow> (gu_list \<times> GuPool \<times> heap \<times> list_memory) run" where
  "gu_list_type_alloc sizes ltype n_elems p h m =
     gu_list_alloc p (l_bytes ltype) (gu_type_size sizes (l_elem_type ltype)) n_elems (l_align ltype) h m"

text \<open>The address of an element; the static list has none.\<close>

definition gu_list_type_index :: "(GuType \<Rightarrow> int) \<Rightarrow> GuListTypeRepr \<Rightarrow> gu_list \<Rightarrow> int \<Rightarrow> addr option" where
  "gu_list_type_index sizes ltype l i =
     (case l of
        Static_Empty \<Rightarrow> None
      | List_At (b, off) \<Rightarrow> Some (b, off + (elems_offset ltype + i * gu_type_size sizes (l_elem_type ltype))))"

definition gu_type_check_cast :: "GuType \<Rightarrow> GuKind \<Rightarrow> GuType run" where
  "gu_type_check_cast type kind = gu_assert (gu_type_has_kind type kind) (Done type)"

definition gu_type_malloc :: "(GuType \<Rightarrow> int) \<Rightarrow> (GuType \<Rightarrow> int) \<Rightarrow> GuType \<Rightarrow> GuPool \<Rightarrow> heap \<Rightarrow> (addr \<times> GuPool \<times> heap) run" where
  "gu_type_malloc sizes aligns type p h =
     (case gu_type_repr 10 type of
        None \<Rightarrow> Fault (Abort GU_ASSERT_ASSERTION)
      | Some r \<Rightarrow> gu_malloc_aligned p (sizes r) (aligns r) h)"

definition gu_type_memcpy :: "(GuType \<Rightarrow> int) \<Rightarrow> addr \<Rightarrow> addr \<Rightarrow> GuType \<Rightarrow> memory \<Rightarrow> memory run" where
  "gu_type_memcpy sizes dst src type m =
     (case gu_type_repr 10 type of
        None \<Rightarrow> Fault (Abort GU_ASSERT_ASSERTION)
      | Some r \<Rightarrow> bindR (load_bytes m src (nat (sizes r))) (\<lambda>bs. Done (store_bytes dst bs m)))"

subsection \<open>Bounds\<close>

text \<open>A new list has the length that was asked for, and its elements lie in the memory that was allocated for it, one behind the other.\<close>

lemma list_alloc_spec:
  assumes "pool_wf p h A" and "alignment (l_align t)" and "0 < n" and "0 \<le> es" and "es = gu_type_size sizes (l_elem_type t)"
    and "0 \<le> elems_offset t" and "elems_offset t \<le> l_bytes t" and "l_bytes t + es * n < 2 ^ 58"
  shows "\<exists>b off p' h'. gu_list_type_alloc sizes t n p h m = Done (List_At (b, off), p', h', m((b, off) \<mapsto> n)) \<and>
    pool_wf p' h' ((b, off, off + (l_bytes t + es * n)) # A) \<and>
    gu_list_length (List_At (b, off)) (m((b, off) \<mapsto> n)) = Done n \<and>
    (\<forall>i k. 0 \<le> i \<longrightarrow> i < n \<longrightarrow> 0 \<le> k \<longrightarrow> k < es \<longrightarrow>
      (\<exists>c o'. gu_list_type_index sizes t (List_At (b, off)) i = Some (c, o') \<and> within (c, o' + k) (b, off, off + (l_bytes t + es * n))))"
proof -
  let ?sz = "l_bytes t + es * n"
  have sz: "0 \<le> ?sz" "?sz mod 2 ^ 64 = ?sz" using assms(3,4,6,7,8) by (simp_all add: mod_pos_pos_trivial)
  obtain b off p' h' where r: "gu_malloc_aligned p ?sz (l_align t) h = Done ((b, off), p', h')" "pool_wf p' h' ((b, off, off + ?sz) # A)"
    using gu_malloc_aligned_spec [OF assms(1,2) sz(1) assms(8)] by blast
  have a: "gu_list_type_alloc sizes t n p h m = Done (List_At (b, off), p', h', m((b, off) \<mapsto> n))"
    using assms(3) r(1) sz(2) by (simp add: gu_list_type_alloc_def gu_list_alloc_def gu_assert_def assms(5) [symmetric])
  have i: "\<exists>c o'. gu_list_type_index sizes t (List_At (b, off)) i = Some (c, o') \<and> within (c, o' + k) (b, off, off + ?sz)"
    if "0 \<le> i" "i < n" "0 \<le> k" "k < es" for i k
  proof -
    have "es * (i + 1) \<le> es * n" using that assms(4) by (intro mult_left_mono) auto
    then have "i * es + k < es * n" using that by (simp add: algebra_simps)
    moreover have "0 \<le> i * es" using that assms(4) by simp
    ultimately show ?thesis using that assms(6,7) by (simp add: gu_list_type_index_def assms(5) [symmetric] within_def)
  qed
  show ?thesis using a r(2) i by (intro exI [of _ b] exI [of _ off] exI [of _ p'] exI [of _ h']) (simp add: gu_list_length_def)
qed

lemma list_alloc_empty:
  "gu_list_type_alloc sizes t 0 p h m = Done (Static_Empty, p, h, m)" "gu_list_length Static_Empty m = Done 0"
  "n < 0 \<Longrightarrow> gu_list_type_alloc sizes t n p h m = Fault (Abort GU_ASSERT_ASSERTION)"
  by (simp_all add: gu_list_type_alloc_def gu_list_alloc_def gu_list_length_def gu_assert_def)

end
