(* ===== verification/Double.thy ===== *)
theory Double
  imports Complex_Main Prelude
begin

text \<open>
  \<open>gu_decode_double\<close> of \<open>gu/bits.c\<close>: the number that the 64 bits of the IEEE format stand for. The \<open>ldexp\<close> of the code is exact, as its
  argument has at most 53 bits and its exponent is in the range of the format; a finite result is kept as its sign and the arguments of \<open>ldexp\<close>.
\<close>

unbundle bit_operations_syntax

datatype double_value =
    Infinite bool
  | Not_A_Number bool u64
  | Finite bool u64 int

definition gu_decode_double :: "u64 \<Rightarrow> double_value" where
  "gu_decode_double u =
     (let sign = drop_bit 63 u \<noteq> 0;
          rawexp = drop_bit 52 u AND 0x7ff;
          mantissa = u AND 0xfffffffffffff
      in if rawexp = 0x7ff then (if mantissa = 0 then Infinite sign else Not_A_Number sign mantissa)
         else Finite sign (if rawexp \<noteq> 0 then push_bit 52 1 OR mantissa else push_bit 1 mantissa) (uint rawexp - 1075))"

text \<open>The value of a finite number.\<close>

fun double_real :: "double_value \<Rightarrow> real" where
  "double_real (Finite s m e) = (if s then -1 else 1) * real_of_int (uint m) * 2 powi e"
| "double_real _ = 0"

subsection \<open>The parts of the bits\<close>

text \<open>The bits below the sign, as a number; the exponent and the mantissa are its quotient and its remainder.\<close>

definition magnitude :: "u64 \<Rightarrow> nat" where
  "magnitude u = unat u mod 2 ^ 63"

lemma unat_mask: "unat (x AND mask n :: u64) = unat x mod 2 ^ n"
proof -
  have "unat (x AND mask n) = unat (take_bit n x)" by (simp only: take_bit_eq_mask)
  also have "\<dots> = take_bit n (unat x)" by (rule unsigned_take_bit_eq)
  finally show ?thesis by (simp only: take_bit_eq_mod)
qed

lemma unat_drop: "unat (drop_bit n x :: u64) = unat x div 2 ^ n"
  using unat_drop_bit_eq [of n x] by (simp only: drop_bit_eq_div)

lemma masks: "(0x7ff :: u64) = mask 11" "(0xfffffffffffff :: u64) = mask 52"
  by (simp_all add: mask_eq_exp_minus_1)

lemma rawexp_parts: "unat (drop_bit 52 u AND 0x7ff :: u64) = magnitude u div 2 ^ 52"
proof -
  have "unat u mod 2 ^ 63 div 2 ^ 52 = unat u div 2 ^ 52 mod 2 ^ (63 - 52)"
    by (simp only: take_bit_eq_mod [symmetric] drop_bit_eq_div [symmetric] drop_bit_take_bit)
  moreover have "63 - 52 = (11 :: nat)" by simp
  ultimately have "unat u mod 2 ^ 63 div 2 ^ 52 = unat u div 2 ^ 52 mod 2 ^ 11" by (simp only:)
  then show ?thesis by (simp only: masks unat_mask unat_drop magnitude_def)
qed

lemma mantissa_parts: "unat (u AND 0xfffffffffffff :: u64) = magnitude u mod 2 ^ 52"
proof -
  have "unat u mod 2 ^ 63 mod 2 ^ 52 = unat u mod 2 ^ 52" by (simp add: mod_mod_cancel)
  then show ?thesis by (simp only: masks unat_mask magnitude_def)
qed

lemma sign_part: "drop_bit 63 u \<noteq> 0 \<longleftrightarrow> 2 ^ 63 \<le> unat (u :: u64)"
proof -
  have "drop_bit 63 u \<noteq> 0 \<longleftrightarrow> unat (drop_bit 63 u) \<noteq> 0" by (simp only: unat_eq_0)
  also have "\<dots> \<longleftrightarrow> unat u div 2 ^ 63 \<noteq> 0" by (simp only: unat_drop)
  also have "\<dots> \<longleftrightarrow> 2 ^ 63 \<le> unat u" by (simp add: div_eq_0_iff not_less)
  finally show ?thesis .
qed

text \<open>The two significands of the code.\<close>

lemma normal_significand: "uint (push_bit 52 1 OR (u AND 0xfffffffffffff) :: u64) = 2 ^ 52 + int (magnitude u mod 2 ^ 52)"
proof -
  let ?m = "u AND mask 52 :: u64"
  have "\<not> bit (push_bit 52 1 AND ?m) n" for n by (simp only: bit_and_iff bit_push_bit_iff bit_mask_iff bit_1_iff) auto
  then have "push_bit 52 1 AND ?m = 0" by (intro bit_eqI) simp
  then have "push_bit 52 1 OR ?m = push_bit 52 1 + ?m" by (simp only: disjunctive_add_eq_or)
  then have o: "push_bit 52 1 OR ?m = 2 ^ 52 + ?m" by (simp add: push_bit_eq_mult)
  have m: "unat ?m = magnitude u mod 2 ^ 52" using mantissa_parts [of u] by (simp only: masks)
  then have "unat ?m < 2 ^ 52" by simp
  then have "unat (2 ^ 52 + ?m) = 2 ^ 52 + unat ?m" by (subst unat_plus_simple [THEN iffD1]) (simp_all add: word_le_nat_alt unat_word_ariths)
  with m o show ?thesis by (simp only: masks uint_nat) simp
qed

lemma subnormal_significand: "uint (push_bit 1 (u AND 0xfffffffffffff) :: u64) = 2 * int (magnitude u mod 2 ^ 52)"
proof -
  let ?m = "u AND mask 52 :: u64"
  have m: "unat ?m = magnitude u mod 2 ^ 52" using mantissa_parts [of u] by (simp only: masks)
  then have "unat ?m < 2 ^ 52" by simp
  then have "unat (push_bit 1 ?m) = 2 * unat ?m" by (simp add: push_bit_eq_mult unat_word_ariths)
  with m show ?thesis by (simp only: masks uint_nat of_nat_mult of_nat_numeral)
qed

subsection \<open>The value\<close>

text \<open>The value of a finite number in units of the smallest positive one.\<close>

definition scaled :: "nat \<Rightarrow> nat" where
  "scaled k = (if k div 2 ^ 52 = 0 then k mod 2 ^ 52 else (2 ^ 52 + k mod 2 ^ 52) * 2 ^ (k div 2 ^ 52 - 1))"

lemma scaled_Suc: "scaled k < scaled (Suc k)"
proof -
  define q r where qr: "q = k div 2 ^ 52" "r = k mod 2 ^ 52"
  have k: "k = q * 2 ^ 52 + r" "r < 2 ^ 52" by (simp_all add: qr)
  show ?thesis
  proof (cases "Suc r = 2 ^ 52")
    case True
    then have "Suc k = (q + 1) * 2 ^ 52" using k by simp
    then have "Suc k div 2 ^ 52 = q + 1" "Suc k mod 2 ^ 52 = 0" by simp_all
    then have s: "scaled (Suc k) = 2 ^ 52 * 2 ^ q" by (simp add: scaled_def)
    show ?thesis
    proof (cases q)
      case 0
      then have "scaled k = r" unfolding scaled_def qr [symmetric] by simp
      with k(2) show ?thesis by (simp add: s 0)
    next
      case (Suc p)
      then have "scaled k = (2 ^ 52 + r) * 2 ^ p" unfolding scaled_def qr [symmetric] by simp
      also have "\<dots> < 2 ^ 53 * 2 ^ p" using k(2) by (intro mult_strict_right_mono) simp_all
      also have "\<dots> = scaled (Suc k)" by (simp add: s Suc)
      finally show ?thesis .
    qed
  next
    case False
    then have "Suc r < 2 ^ 52" using k(2) by simp
    then have "Suc k div 2 ^ 52 = q" "Suc k mod 2 ^ 52 = Suc r" using k(1) by simp_all
    then show ?thesis unfolding scaled_def qr [symmetric] by simp
  qed
qed

lemma scaled_mono: "j < k \<Longrightarrow> scaled j < scaled k"
  using lift_Suc_mono_less [of scaled j k] scaled_Suc by blast

lemma decode_finite:
  assumes "magnitude u < 0x7ff * 2 ^ 52"
  shows "\<exists>m e. gu_decode_double u = Finite (2 ^ 63 \<le> unat u) m e \<and> double_real (Finite False m e) = real (scaled (magnitude u)) * 2 powi (-1074)"
proof -
  let ?q = "magnitude u div 2 ^ 52" and ?r = "magnitude u mod 2 ^ 52"
  have q: "?q < 0x7ff" using assms by (simp add: div_less_iff_less_mult)
  have e: "uint (drop_bit 52 u AND 0x7ff :: u64) = int ?q" by (simp only: uint_nat rawexp_parts)
  have ne: "drop_bit 52 u AND 0x7ff \<noteq> (0x7ff :: u64)"
  proof
    assume "drop_bit 52 u AND 0x7ff = (0x7ff :: u64)"
    then have "unat (drop_bit 52 u AND 0x7ff :: u64) = 0x7ff" by (simp only:) simp
    with q show False by (simp only: rawexp_parts)
  qed
  have z: "drop_bit 52 u AND 0x7ff \<noteq> (0 :: u64) \<longleftrightarrow> ?q \<noteq> 0"
    by (simp only: rawexp_parts [symmetric] unat_eq_0)
  show ?thesis
  proof (cases "?q = 0")
    case True
    have "gu_decode_double u = Finite (2 ^ 63 \<le> unat u) (push_bit 1 (u AND 0xfffffffffffff)) (int ?q - 1075)"
      using ne z True by (simp only: gu_decode_double_def Let_def sign_part e if_False) simp
    moreover have "double_real (Finite False (push_bit 1 (u AND 0xfffffffffffff)) (int ?q - 1075)) = real (scaled (magnitude u)) * 2 powi (-1074)"
    proof -
      have "(2 :: real) powi (-1074) = 2 * 2 powi (-1075)" by (simp add: power_int_minus)
      then show ?thesis using True by (simp only: double_real.simps subnormal_significand scaled_def) simp
    qed
    ultimately show ?thesis by blast
  next
    case False
    then obtain p where p: "?q = Suc p" by (cases ?q) auto
    have "gu_decode_double u = Finite (2 ^ 63 \<le> unat u) (push_bit 52 1 OR (u AND 0xfffffffffffff)) (int ?q - 1075)"
      using ne z False by (simp only: gu_decode_double_def Let_def sign_part e if_False if_True) simp
    moreover have "double_real (Finite False (push_bit 52 1 OR (u AND 0xfffffffffffff)) (int ?q - 1075)) = real (scaled (magnitude u)) * 2 powi (-1074)"
    proof -
      have "(2 :: real) powi (int (Suc p) - 1075) = 2 powi (int p + (-1074))" by (rule arg_cong [where f = "(powi) 2"]) simp
      also have "\<dots> = 2 ^ p * 2 powi (-1074)" by (subst power_int_add) (simp_all add: power_int_of_nat)
      finally show ?thesis
        by (simp only: double_real.simps normal_significand scaled_def p) simp
    qed
    ultimately show ?thesis by blast
  qed
qed

text \<open>The definition of the format: sign, biased exponent and fraction.\<close>

definition ieee_value :: "u64 \<Rightarrow> real" where
  "ieee_value u =
     (let s = (if 2 ^ 63 \<le> unat u then -1 else 1); q = magnitude u div 2 ^ 52; f = real (magnitude u mod 2 ^ 52) / 2 ^ 52
      in if q = 0 then s * f * 2 powi (-1022) else s * (1 + f) * 2 powi (int q - 1023))"

definition sign_magnitude :: "u64 \<Rightarrow> int" where
  "sign_magnitude u = (if 2 ^ 63 \<le> unat u then - int (magnitude u) else int (magnitude u))"

lemma powi_split: "(2 :: real) powi (int n + k) = 2 ^ n * 2 powi k"
  by (subst power_int_add) (simp_all add: power_int_of_nat)

lemma significand_scale: "(K :: real) \<noteq> 0 \<Longrightarrow> s * (1 + r / K) * (P * K * c) = s * ((K + r) * P * c)"
  by (simp add: field_simps)

lemma ieee_scaled: "ieee_value u = (if 2 ^ 63 \<le> unat u then -1 else 1) * (real (scaled (magnitude u)) * 2 powi (-1074))"
proof -
  define s :: real where "s = (if 2 ^ 63 \<le> unat u then -1 else 1)"
  define c :: real where "c = 2 powi (-1074)"
  let ?r = "real (magnitude u mod 2 ^ 52)"
  show ?thesis
  proof (cases "magnitude u div 2 ^ 52")
    case 0
    have "(2 :: real) powi (-1022) = 2 ^ 52 * c" using powi_split [of 52 "-1074"] unfolding c_def by simp
    then show ?thesis unfolding ieee_value_def Let_def scaled_def 0 s_def [symmetric] c_def [symmetric] by simp
  next
    case (Suc p)
    have "(2 :: real) powi (int (Suc p) - 1023) = 2 powi (int (p + 52) + (-1074))" by (rule arg_cong [where f = "(powi) 2"]) simp
    also have "\<dots> = 2 ^ p * 2 ^ 52 * c" by (simp only: powi_split power_add c_def)
    finally have e: "(2 :: real) powi (int (Suc p) - 1023) = 2 ^ p * 2 ^ 52 * c" .
    have "ieee_value u = s * (1 + ?r / 2 ^ 52) * (2 ^ p * 2 ^ 52 * c)"
      unfolding ieee_value_def Let_def Suc s_def [symmetric] e by (simp only: nat.distinct if_False)
    also have "\<dots> = s * ((2 ^ 52 + ?r) * 2 ^ p * c)" by (rule significand_scale) simp
    also have "\<dots> = s * (real (scaled (magnitude u)) * c)" unfolding scaled_def Suc by simp
    finally show ?thesis unfolding s_def c_def .
  qed
qed

lemma magnitude_zero: "scaled 0 = 0" "0 < k \<Longrightarrow> 0 < scaled k"
  using scaled_mono [of 0 k] by (simp_all add: scaled_def)

lemma signed_order:
  "(if s then -1 else 1) * real (scaled j) < (if t then -1 else 1) * real (scaled k) \<longleftrightarrow>
   (if s then - int j else int j) < (if t then - int k else int k)"
proof -
  have m: "scaled j < scaled k \<longleftrightarrow> j < k" "scaled k < scaled j \<longleftrightarrow> k < j"
    using scaled_mono [of j k] scaled_mono [of k j] by (cases j k rule: linorder_cases; simp)+
  have z: "scaled i = 0 \<longleftrightarrow> i = 0" for i using magnitude_zero by (cases "i = 0") auto
  have n: "\<not> real (scaled j) < - real (scaled k)" "- real (scaled j) < real (scaled k) \<longleftrightarrow> \<not> (scaled j = 0 \<and> scaled k = 0)" by linarith+
  show ?thesis by (cases s; cases t) (simp_all add: m n z, linarith)
qed

text \<open>C24. Doubles are decoded as IEEE 754 says, without rounding: for all bits whose exponent is not the largest one the result is finite and has
  the value of the format, for normal and for subnormal numbers and for both zeros; and of two of them one is less than the other exactly if it
  comes first in the order of the bits as numbers with a sign, so that different numbers are never confused.\<close>

theorem decode_double_exact:
  assumes "magnitude u < 0x7ff * 2 ^ 52" and "magnitude v < 0x7ff * 2 ^ 52"
  shows "(\<exists>s m e. gu_decode_double u = Finite s m e) \<and> double_real (gu_decode_double u) = ieee_value u \<and>
    (double_real (gu_decode_double u) < double_real (gu_decode_double v) \<longleftrightarrow> sign_magnitude u < sign_magnitude v)"
proof -
  have d: "(\<exists>s m e. gu_decode_double x = Finite s m e) \<and> double_real (gu_decode_double x) = ieee_value x" if mx: "magnitude x < 0x7ff * 2 ^ 52" for x
  proof -
    obtain m e where m: "gu_decode_double x = Finite (2 ^ 63 \<le> unat x) m e"
      "double_real (Finite False m e) = real (scaled (magnitude x)) * 2 powi (-1074)"
      using decode_finite [OF mx] by blast
    have "double_real (Finite s m e) = (if s then -1 else 1) * double_real (Finite False m e)" for s by simp
    then have "double_real (gu_decode_double x) = ieee_value x" unfolding m(1) ieee_scaled m(2) [symmetric] .
    with m(1) show ?thesis by blast
  qed
  have c: "(0 :: real) < 2 powi (-1074)" by simp
  have "ieee_value u < ieee_value v \<longleftrightarrow> sign_magnitude u < sign_magnitude v"
    unfolding ieee_scaled sign_magnitude_def mult.assoc [symmetric] mult_less_cancel_right_pos [OF c] by (rule signed_order)
  with d assms show ?thesis by simp
qed

theorem decode_double_exact_witness:
  "double_real (gu_decode_double 0x3ff8000000000000) = 3 / 2 \<and>
   double_real (gu_decode_double 0xc000000000000000) < double_real (gu_decode_double 0x3ff8000000000000)"
proof -
  have m: "magnitude 0x3ff8000000000000 = 0x3ff8000000000000" "magnitude 0xc000000000000000 = 0x4000000000000000"
    by (simp_all add: magnitude_def)
  have "ieee_value 0x3ff8000000000000 = 3 / 2" unfolding ieee_value_def m Let_def by simp
  moreover have "sign_magnitude 0xc000000000000000 < sign_magnitude 0x3ff8000000000000" unfolding sign_magnitude_def m by simp
  ultimately show ?thesis
    using decode_double_exact [of "0x3ff8000000000000" "0x3ff8000000000000"] decode_double_exact [of "0xc000000000000000" "0x3ff8000000000000"]
    by (simp add: m)
qed

end
